(* ===== verification/JS_Prelude.thy ===== *)
theory JS_Prelude
  imports Complex_Main "HOL-Library.Char_ord" "HOL-Library.List_Lexorder"
begin

text \<open>
  What the components share: results that may be an error, the JavaScript value forms the
  code inspects (safe integers, strings, JSON values, insertion-ordered maps, arrays), and
  the generic lemmas on them. Strings are lists of characters, that is, of UTF-16 code units
  up to 255; \<open>trim\<close> strips the white space among them. A JSON number is an integer or a
  number that is not an integer; NaN, the infinities and minus zero are not JSON values of
  the session log (\<open>src/packages/core/session/src/json.ts\<close> rejects them).
\<close>

named_theorems js_simps \<open>evaluation rules of the JavaScript operations\<close>
named_theorems map_simps \<open>lookup, update and deletion on insertion-ordered maps\<close>

section \<open>Results\<close>

text \<open>\<open>Inl\<close> is a thrown error, \<open>Inr\<close> a returned value.\<close>

type_synonym ('e, 'a) result = "'e + 'a"

fun rbind :: "('e, 'a) result \<Rightarrow> ('a \<Rightarrow> ('e, 'b) result) \<Rightarrow> ('e, 'b) result" where
  "rbind (Inl e) f = Inl e"
| "rbind (Inr a) f = f a"

definition is_ok :: "('e, 'a) result \<Rightarrow> bool" where
  "is_ok r \<longleftrightarrow> (case r of Inl _ \<Rightarrow> False | Inr _ \<Rightarrow> True)"

lemma is_ok_simps [simp]: "is_ok (Inl e) = False" "is_ok (Inr a) = True"
  by (simp_all add: is_ok_def)

lemma is_ok_iff: "is_ok r \<longleftrightarrow> (\<exists>a. r = Inr a)"
  by (cases r) auto

lemma rbind_Inr_iff: "rbind r f = Inr b \<longleftrightarrow> (\<exists>a. r = Inr a \<and> f a = Inr b)"
  by (cases r) auto

lemma rbind_cong [fundef_cong]:
  "r = r' \<Longrightarrow> (\<And>a. r' = Inr a \<Longrightarrow> f a = g a) \<Longrightarrow> rbind r f = rbind r' g"
  by (cases r) auto

lemma rbind_is_ok: "is_ok (rbind r f) \<longleftrightarrow> (\<exists>a. r = Inr a \<and> is_ok (f a))"
  by (cases r) auto

section \<open>Numbers\<close>

definition MAX_SAFE_INTEGER :: int where
  "MAX_SAFE_INTEGER = 9007199254740991"

definition safe_int :: "int \<Rightarrow> bool" where
  "safe_int n \<longleftrightarrow> \<bar>n\<bar> \<le> MAX_SAFE_INTEGER"

lemma safe_int_code [js_simps]:
  "safe_int n \<longleftrightarrow> -9007199254740991 \<le> n \<and> n \<le> 9007199254740991"
  by (auto simp: safe_int_def MAX_SAFE_INTEGER_def)

lemma safe_int_mono: "safe_int n \<Longrightarrow> 0 \<le> m \<Longrightarrow> m \<le> n \<Longrightarrow> safe_int m"
  by (simp add: safe_int_def)

section \<open>Arrays\<close>

text \<open>\<open>indexOf\<close>: the first position of a value, \<open>None\<close> where the code gets \<open>-1\<close>.\<close>

fun index_of :: "'a \<Rightarrow> 'a list \<Rightarrow> nat option" where
  "index_of x [] = None"
| "index_of x (y # ys) = (if x = y then Some 0 else map_option Suc (index_of x ys))"

lemma index_of_None: "index_of x xs = None \<longleftrightarrow> x \<notin> set xs"
  by (induction xs) auto

lemma index_of_Some: "index_of x xs = Some i \<Longrightarrow> i < length xs \<and> xs ! i = x"
  by (induction xs arbitrary: i) (auto split: if_splits)

lemma index_of_nth: "distinct xs \<Longrightarrow> i < length xs \<Longrightarrow> index_of (xs ! i) xs = Some i"
  by (induction xs arbitrary: i) (auto simp: nth_Cons split: nat.splits)

text \<open>\<open>splice\<close> with coordinates already in range, and \<open>slice\<close>.\<close>

definition splice :: "nat \<Rightarrow> nat \<Rightarrow> 'a list \<Rightarrow> 'a list \<Rightarrow> 'a list" where
  "splice start cnt ins xs = take start xs @ ins @ drop (start + cnt) xs"

definition slice :: "nat \<Rightarrow> nat \<Rightarrow> 'a list \<Rightarrow> 'a list" where
  "slice from to xs = take (to - from) (drop from xs)"

lemma take_slice_drop:
  "i \<le> j \<Longrightarrow> take i xs @ slice i j xs @ drop j xs = xs"
  by (metis append_take_drop_id drop_drop le_add_diff_inverse2 slice_def)

lemma set_slice_subset: "set (slice i j xs) \<subseteq> set xs"
  using set_take_subset set_drop_subset by (fastforce simp: slice_def)

lemma length_splice:
  "start + cnt \<le> length xs \<Longrightarrow> length (splice start cnt ins xs) = length xs - cnt + length ins"
  by (simp add: splice_def)

lemma distinct_three_parts:
  assumes "distinct (xs @ ys @ zs)" and "w \<notin> set (xs @ zs)"
  shows "distinct (xs @ w # zs)"
  using assms by auto

text \<open>\<open>findLast\<close>.\<close>

definition find_last :: "('a \<Rightarrow> bool) \<Rightarrow> 'a list \<Rightarrow> 'a option" where
  "find_last p xs = find p (rev xs)"

lemma find_last_simps [simp]:
  "find_last p [] = None"
  "find_last p (xs @ [x]) = (if p x then Some x else find_last p xs)"
  by (simp_all add: find_last_def)

lemma find_last_Some: "find_last p xs = Some x \<Longrightarrow> x \<in> set xs \<and> p x"
  unfolding find_last_def find_Some_iff by (metis nth_mem set_rev)

section \<open>Insertion-ordered maps\<close>

text \<open>
  A JavaScript \<open>Map\<close>: \<open>set\<close> keeps the position of a key already present and appends a
  new one, so the association list holds the iteration order.
\<close>

type_synonym ('k, 'v) js_map = "('k \<times> 'v) list"

fun map_set :: "'k \<Rightarrow> 'v \<Rightarrow> ('k, 'v) js_map \<Rightarrow> ('k, 'v) js_map" where
  "map_set k v [] = [(k, v)]"
| "map_set k v ((k', v') # m) = (if k = k' then (k, v) # m else (k', v') # map_set k v m)"

definition map_get :: "('k, 'v) js_map \<Rightarrow> 'k \<Rightarrow> 'v option" where
  "map_get m k = map_of m k"

definition map_delete :: "'k \<Rightarrow> ('k, 'v) js_map \<Rightarrow> ('k, 'v) js_map" where
  "map_delete k m = filter (\<lambda>kv. fst kv \<noteq> k) m"

definition map_keys :: "('k, 'v) js_map \<Rightarrow> 'k list" where
  "map_keys m = map fst m"

definition map_ok :: "('k, 'v) js_map \<Rightarrow> bool" where
  "map_ok m \<longleftrightarrow> distinct (map fst m)"

lemma map_get_set [map_simps]: "map_get (map_set k v m) k' = (if k' = k then Some v else map_get m k')"
  by (induction m) (auto simp: map_get_def)

lemma map_get_delete [map_simps]: "map_get (map_delete k m) k' = (if k' = k then None else map_get m k')"
  by (induction m) (auto simp: map_get_def map_delete_def)

lemma map_get_Nil [map_simps]: "map_get [] k = None"
  by (simp add: map_get_def)

lemma keys_map_set: "map fst (map_set k v m) = (if k \<in> set (map fst m) then map fst m else map fst m @ [k])"
  by (induction m) (force+)

lemma set_map_set: "set (map fst (map_set k v m)) = insert k (set (map fst m))"
  by (auto simp: keys_map_set)

lemma map_ok_Nil [map_simps]: "map_ok []"
  by (simp add: map_ok_def)

lemma map_ok_set [map_simps]: "map_ok m \<Longrightarrow> map_ok (map_set k v m)"
  by (simp add: map_ok_def keys_map_set)

lemma map_ok_delete [map_simps]: "map_ok m \<Longrightarrow> map_ok (map_delete k m)"
  by (auto simp: map_ok_def map_delete_def distinct_map_filter)

lemma map_get_mem: "map_ok m \<Longrightarrow> map_get m k = Some v \<longleftrightarrow> (k, v) \<in> set m"
  by (simp add: map_ok_def map_get_def)

lemma map_get_None: "map_get m k = None \<longleftrightarrow> k \<notin> set (map fst m)"
  by (simp add: map_get_def map_of_eq_None_iff)

text \<open>The contract the clients of a map rely on.\<close>

locale keyed_table =
  fixes tget :: "'m \<Rightarrow> 'k \<Rightarrow> 'v option"
    and tset :: "'k \<Rightarrow> 'v \<Rightarrow> 'm \<Rightarrow> 'm"
    and tdel :: "'k \<Rightarrow> 'm \<Rightarrow> 'm"
    and tok :: "'m \<Rightarrow> bool"
  assumes get_set: "tget (tset k v m) k' = (if k' = k then Some v else tget m k')"
    and get_del: "tget (tdel k m) k' = (if k' = k then None else tget m k')"
    and ok_set: "tok m \<Longrightarrow> tok (tset k v m)"
    and ok_del: "tok m \<Longrightarrow> tok (tdel k m)"
begin

lemma set_set: "tget (tset k w (tset k v m)) k' = tget (tset k w m) k'"
  by (simp add: get_set)

lemma del_set_fresh: "tget m k = None \<Longrightarrow> tget (tdel k (tset k v m)) k' = tget m k'"
  by (simp add: get_set get_del)

lemma set_comm: "k \<noteq> j \<Longrightarrow> tget (tset k v (tset j w m)) i = tget (tset j w (tset k v m)) i"
  by (simp add: get_set)

end

interpretation js_table: keyed_table map_get map_set map_delete map_ok
  by unfold_locales (simp_all add: map_simps)

section \<open>Strings\<close>

definition js_space :: "char \<Rightarrow> bool" where
  "js_space c \<longleftrightarrow> of_char c \<in> {9, 10, 11, 12, 13, 32, 160 :: nat}"

definition trim_start :: "string \<Rightarrow> string" where
  "trim_start s = dropWhile js_space s"

definition trim_end :: "string \<Rightarrow> string" where
  "trim_end s = rev (dropWhile js_space (rev s))"

definition trim :: "string \<Rightarrow> string" where
  "trim s = trim_end (trim_start s)"

lemma dropWhile_idem: "dropWhile p (dropWhile p xs) = dropWhile p xs"
  by (induction xs) auto

lemma trim_end_prefix: "\<exists>t. s = trim_end s @ t"
  by (metis rev_append rev_swap takeWhile_dropWhile_id trim_end_def)

lemma trim_start_trim: "trim_start (trim s) = trim s"
proof (cases "trim s")
  case Nil
  then show ?thesis by (simp add: trim_start_def)
next
  case (Cons c cs)
  obtain t where "trim_start s = trim s @ t"
    using trim_end_prefix by (auto simp: trim_def)
  then have "dropWhile js_space s = c # (cs @ t)"
    using Cons by (simp add: trim_start_def)
  then have "\<not> js_space c"
    by (metis hd_dropWhile list.distinct(1) list.sel(1))
  then show ?thesis
    by (simp add: trim_start_def Cons)
qed

lemma trim_idem [simp]: "trim (trim s) = trim s"
proof -
  have "trim (trim s) = trim_end (trim s)"
    using trim_start_trim by (simp add: trim_def)
  then show ?thesis
    by (simp add: trim_def trim_end_def dropWhile_idem)
qed

text \<open>\<open>keys.sort().join(',')\<close>.\<close>

fun join_with :: "string \<Rightarrow> string list \<Rightarrow> string" where
  "join_with sep [] = []"
| "join_with sep [s] = s"
| "join_with sep (s # t # ts) = s @ sep @ join_with sep (t # ts)"

text \<open>\<open>String(n)\<close> of an integer.\<close>

definition digit_char :: "nat \<Rightarrow> char" where
  "digit_char d = char_of (48 + d)"

fun show_nat :: "nat \<Rightarrow> string" where
  "show_nat n = (if n < 10 then [digit_char n] else show_nat (n div 10) @ [digit_char (n mod 10)])"

declare show_nat.simps [simp del]

definition show_int :: "int \<Rightarrow> string" where
  "show_int n = (if n < 0 then CHR ''-'' # show_nat (nat (- n)) else show_nat (nat n))"

text \<open>The value of a decimal numeral, so that an identity minted from a counter gives it back.\<close>

definition read_nat :: "string \<Rightarrow> nat" where
  "read_nat s = foldl (\<lambda>n c. n * 10 + (of_char c - 48)) 0 s"

lemma read_show_nat: "read_nat (show_nat n) = n"
proof (induction n rule: show_nat.induct)
  case (1 n)
  show ?case
  proof (cases "n < 10")
    case True
    then show ?thesis by (simp add: show_nat.simps [of n] read_nat_def digit_char_def of_char_of)
  next
    case False
    with 1 have "read_nat (show_nat (n div 10)) = n div 10" by simp
    with False show ?thesis by (simp add: show_nat.simps [of n] read_nat_def digit_char_def of_char_of)
  qed
qed

lemma show_nat_no_dash: "CHR ''-'' \<notin> set (show_nat n)"
proof (induction n rule: show_nat.induct)
  case (1 n)
  have "CHR ''-'' \<noteq> digit_char d" if "d < 10" for d
  proof
    assume "CHR ''-'' = digit_char d"
    then have "of_char (digit_char d) = (of_char CHR ''-'' :: nat)"
      by simp
    with that show False
      by (simp add: digit_char_def of_char_of)
  qed
  with 1 show ?case
    by (simp add: show_nat.simps [of n])
qed

text \<open>The numbers a caller may pass to an operation: a rational, an infinity or NaN.\<close>

datatype js_number = JsNum rat | JsPosInf | JsNegInf | JsNaN

definition trunc_rat :: "rat \<Rightarrow> int" where
  "trunc_rat r = (if 0 \<le> r then \<lfloor>r\<rfloor> else \<lceil>r\<rceil>)"

text \<open>\<open>Number.isSafeInteger\<close> and \<open>Number.isFinite\<close>.\<close>

definition is_safe_number :: "js_number \<Rightarrow> bool" where
  "is_safe_number n \<longleftrightarrow> (case n of JsNum r \<Rightarrow> r = of_int \<lfloor>r\<rfloor> \<and> safe_int \<lfloor>r\<rfloor> | _ \<Rightarrow> False)"

definition is_finite_number :: "js_number \<Rightarrow> bool" where
  "is_finite_number n \<longleftrightarrow> (case n of JsNum r \<Rightarrow> True | _ \<Rightarrow> False)"

section \<open>JSON values\<close>

text \<open>
  \<open>JFrac m k\<close> is the number \<open>m / 2 ^ k\<close> that is not an integer; no operation of the
  model computes with it.
\<close>

datatype json =
    JNull
  | JBool bool
  | JInt int
  | JFrac int nat
  | JStr string
  | JArr "json list"
  | JObj "(string \<times> json) list"

type_synonym fields = "(string \<times> json) list"

text \<open>\<open>value['key']\<close>: \<open>None\<close> is \<open>undefined\<close>.\<close>

definition jget :: "fields \<Rightarrow> string \<Rightarrow> json option" where
  "jget obj k = map_of obj k"

definition has_own :: "fields \<Rightarrow> string \<Rightarrow> bool" where
  "has_own obj k \<longleftrightarrow> map_of obj k \<noteq> None"

lemma jget_Cons [js_simps]: "jget ((k, v) # obj) k' = (if k' = k then Some v else jget obj k')"
  by (simp add: jget_def)

lemma jget_Nil [js_simps]: "jget [] k = None"
  by (simp add: jget_def)

lemma has_own_jget: "has_own obj k \<longleftrightarrow> jget obj k \<noteq> None"
  by (simp add: has_own_def jget_def)

definition as_str :: "json option \<Rightarrow> string option" where
  "as_str v = (case v of Some (JStr s) \<Rightarrow> Some s | _ \<Rightarrow> None)"

definition as_safe :: "json option \<Rightarrow> int option" where
  "as_safe v = (case v of Some (JInt n) \<Rightarrow> (if safe_int n then Some n else None) | _ \<Rightarrow> None)"

definition is_number :: "json option \<Rightarrow> bool" where
  "is_number v = (case v of Some (JInt _) \<Rightarrow> True | Some (JFrac _ _) \<Rightarrow> True | _ \<Rightarrow> False)"

lemma as_str_simps [simp]: "as_str (Some (JStr s)) = Some s" "as_str None = None"
  by (simp_all add: as_str_def)

lemma as_str_Some: "as_str v = Some s \<longleftrightarrow> v = Some (JStr s)"
  by (auto simp: as_str_def split: option.splits json.splits)

lemma as_safe_Some: "as_safe v = Some n \<longleftrightarrow> v = Some (JInt n) \<and> safe_int n"
  by (auto simp: as_safe_def split: option.splits json.splits if_splits)

text \<open>The own keys of every object are distinct, as in any JavaScript object.\<close>

fun wf_json :: "json \<Rightarrow> bool" where
  "wf_json (JArr xs) = list_all wf_json xs"
| "wf_json (JObj obj) = (distinct (map fst obj) \<and> list_all (\<lambda>kv. wf_json (snd kv)) obj)"
| "wf_json _ = True"

end
