(* ===== verification/Session_Types.thy ===== *)
theory Session_Types
  imports JS_Prelude
begin

text \<open>
  The vocabulary of the session log: content blocks, messages, stream chunks and the events
  themselves (\<open>src/packages/llm/llm/src/types.ts\<close>, \<open>message.ts\<close> and
  \<open>src/packages/core/session/src/types.ts\<close>, with the event types that the agent, goal,
  schedule, retry and compaction packages merge into \<open>SessionEventMap\<close>). The two fields
  whose run-time shape the surface fold checks itself, \<open>surfaceOp\<close> and
  \<open>sourceEventSeqs\<close>, and the payloads of the goal and schedule events, which their
  packages decode, are JSON values; \<open>None\<close> is an absent field.
\<close>

section \<open>Content blocks and messages\<close>

datatype content_block =
    TextBlock (block_text: string)
  | ReasoningBlock string
  | ImageBlock json
  | ToolCallBlock string string string
  | ToolResultBlock string "content_block list" "bool option"

definition block_type :: "content_block \<Rightarrow> string" where
  "block_type b = (case b of TextBlock _ \<Rightarrow> ''text'' | ReasoningBlock _ \<Rightarrow> ''reasoning''
     | ImageBlock _ \<Rightarrow> ''image'' | ToolCallBlock _ _ _ \<Rightarrow> ''tool-call''
     | ToolResultBlock _ _ _ \<Rightarrow> ''tool-result'')"

record llm_failure =
  fl_message :: string
  fl_code :: string
  fl_status :: "int option"
  fl_retry_after :: "rat option"
  fl_request_id :: "string option"

datatype finish_reason =
    FinishStop
  | FinishToolCalls
  | FinishMaxTokens
  | FinishAborted llm_failure
  | FinishError llm_failure

record token_usage =
  tu_input :: int
  tu_output :: int
  tu_cache_read :: "int option"
  tu_cache_write :: "int option"
  tu_reasoning :: "int option"

datatype stream_chunk =
    BlockStart int string
  | TextDelta int string
  | ReasoningDelta int string
  | ToolCallDelta int string "string option" string
  | BlockEnd int content_block
  | UsageChunk token_usage
  | FinishChunk finish_reason "json option"

text \<open>\<open>SrcGoal\<close>: the attribution the goal package adds (goal id, revision, round).\<close>

datatype message_source =
    SrcUser
  | SrcPlugin string json
  | SrcModel string string "json option"
  | SrcTool string
  | SrcGoal string int int
  | SrcOther string json

record user_message =
  um_id :: string
  um_source :: message_source
  um_content :: "content_block list"

record assistant_message =
  am_id :: string
  am_provider :: string
  am_model :: string
  am_replay :: "json option"
  am_content :: "content_block list"

text \<open>A tool-result message holds exactly one \<open>tool-result\<close> block.\<close>

record tool_result_message =
  tm_id :: string
  tm_source_call :: string
  tm_call :: string
  tm_is_error :: "bool option"
  tm_content :: "content_block list"

datatype message =
    MUser user_message
  | MAssistant assistant_message
  | MToolResult tool_result_message

section \<open>Events\<close>

datatype turn_end_reason =
    EndCompleted
  | EndAborted json
  | EndBlocked
  | EndError llm_failure
  | EndMaxTokens
  | EndInterrupted
  | EndOther string

record tool_result_data =
  tr_turn :: int
  tr_step :: int
  tr_message :: tool_result_message
  tr_error :: "(string \<times> string) option"
  tr_meta :: "json option"

record call_config =
  cc_provider :: string
  cc_model :: string
  cc_effort :: "string option"
  cc_temperature :: "json option"
  cc_max_tokens :: "int option"
  cc_stop :: "string list option"

record adapter_defaults =
  ad_effort :: bool
  ad_max_tokens :: bool

record epoch_header =
  eh_config :: call_config
  eh_defaults :: "adapter_defaults option"
  eh_system :: "string option"
  eh_tools :: "json list option"

datatype header_reason = HdrInitial | HdrResume | HdrChange

record request_context =
  rc_provider :: string
  rc_model :: string
  rc_window :: "int option"

datatype inbox_target = NextTurn | NextStep

record inbox_splice =
  is_target :: inbox_target
  is_start :: int
  is_removed :: "int option"
  is_inserted :: "user_message list"
  is_canceled :: bool

text \<open>\<open>maxRetries\<close> is present exactly in \<open>normal\<close> mode.\<close>

record retry_data =
  rt_id :: string
  rt_turn :: int
  rt_step :: int
  rt_provider :: string
  rt_max :: "int option"
  rt_policy_key :: string
  rt_retry :: int
  rt_delay :: rat
  rt_failure :: llm_failure

record shadow_price =
  sp_start :: int
  sp_end :: int
  sp_seqs :: "int list"
  sp_tokens :: int

datatype event_data =
    TurnStart int
  | TurnEnd int turn_end_reason
  | StepStart int int
  | StepEnd int int
  | UserMessage user_message
  | AssistantChunk int int stream_chunk
  | AssistantMessage int int assistant_message "token_usage option"
  | ToolCall int int string string string
  | ToolResult tool_result_data
  | TodoWrite json
  | RequestHeader epoch_header header_reason
  | RequestContext request_context
  | EndSeed
  | InboxSpliced inbox_splice
  | GoalChange json
  | ScheduleChange json
  | LlmRetry retry_data
  | LlmRetryStarted string int int int
  | CompactionStart string "string option" "int option"
  | CompactionEnd string "string option" "int option" "string option"
  | CompactionSummary string "string option" json shadow_price
  | CompactionPrune shadow_price
  | OtherEvent string json

definition event_type_of :: "event_data \<Rightarrow> string" where
  "event_type_of d = (case d of
       TurnStart _ \<Rightarrow> ''turn/start'' | TurnEnd _ _ \<Rightarrow> ''turn/end''
     | StepStart _ _ \<Rightarrow> ''step/start'' | StepEnd _ _ \<Rightarrow> ''step/end''
     | UserMessage _ \<Rightarrow> ''user/message'' | AssistantChunk _ _ _ \<Rightarrow> ''assistant/chunk''
     | AssistantMessage _ _ _ _ \<Rightarrow> ''assistant/message'' | ToolCall _ _ _ _ _ \<Rightarrow> ''tool/call''
     | ToolResult _ \<Rightarrow> ''tool/result'' | TodoWrite _ \<Rightarrow> ''todo/write''
     | RequestHeader _ _ \<Rightarrow> ''request/header'' | RequestContext _ \<Rightarrow> ''request/context''
     | EndSeed \<Rightarrow> ''session/end-seed'' | InboxSpliced _ \<Rightarrow> ''agent/inbox/spliced''
     | GoalChange _ \<Rightarrow> ''goal/change'' | ScheduleChange _ \<Rightarrow> ''schedule/change''
     | LlmRetry _ \<Rightarrow> ''llm/retry'' | LlmRetryStarted _ _ _ _ \<Rightarrow> ''llm/retry-started''
     | CompactionStart _ _ _ \<Rightarrow> ''compaction/start'' | CompactionEnd _ _ _ _ \<Rightarrow> ''compaction/end''
     | CompactionSummary _ _ _ _ \<Rightarrow> ''compaction/summary'' | CompactionPrune _ \<Rightarrow> ''compaction/prune''
     | OtherEvent t _ \<Rightarrow> t)"

record session_event =
  ev_seq :: int
  ev_time :: int
  ev_data :: event_data
  ev_ignorable :: bool
  ev_surface_op :: "json option"
  ev_sources :: "json option"

definition ev_type :: "session_event \<Rightarrow> string" where
  "ev_type e = event_type_of (ev_data e)"

datatype surface_op = OpAppend | OpReplace int int

text \<open>\<open>SurfaceIntent\<close>: what the caller of \<open>Session.append\<close> supplies.\<close>

record surface_intent =
  si_op :: "json option"
  si_sources :: "json option"

definition no_intent :: surface_intent where
  "no_intent = \<lparr>si_op = None, si_sources = None\<rparr>"

definition append_op :: json where
  "append_op = JStr ''append''"

definition replace_op :: "int \<Rightarrow> int \<Rightarrow> json" where
  "replace_op s e = JObj [(''op'', JStr ''replace''), (''start'', JInt s), (''end'', JInt e)]"

definition seqs_json :: "int list \<Rightarrow> json" where
  "seqs_json ns = JArr (map JInt ns)"

text \<open>
  A catch-all event carries a type of its own: none of the types that have a constructor.
\<close>

definition known_types :: "string list" where
  "known_types = [''turn/start'', ''turn/end'', ''step/start'', ''step/end'', ''user/message'',
     ''assistant/chunk'', ''assistant/message'', ''tool/call'', ''tool/result'', ''todo/write'',
     ''request/header'', ''request/context'', ''session/end-seed'', ''agent/inbox/spliced'',
     ''goal/change'', ''schedule/change'', ''llm/retry'', ''llm/retry-started'',
     ''compaction/start'', ''compaction/end'', ''compaction/summary'', ''compaction/prune'']"

definition proper_event :: "session_event \<Rightarrow> bool" where
  "proper_event e \<longleftrightarrow> (case ev_data e of OtherEvent t _ \<Rightarrow> t \<notin> set known_types | _ \<Rightarrow> True)"

end
