(* ===== verification/Event_Replay.thy ===== *)
theory Event_Replay
  imports JS_Prelude
begin

text \<open>
  The interface every projection of the session log shares: a step that folds one event into
  a state or throws, and the replay of a whole log by that step. The code folds the log from
  the start when it loads a session and folds only the new events afterwards; the lemmas here
  say, once for all projections, that the two agree, that a failure loses nothing, and that
  what a step keeps a replay keeps.
\<close>

fun replay :: "('s \<Rightarrow> 'e \<Rightarrow> ('x, 's) result) \<Rightarrow> 's \<Rightarrow> 'e list \<Rightarrow> ('x, 's) result" where
  "replay f s [] = Inr s"
| "replay f s (e # es) = (case f s e of Inl x \<Rightarrow> Inl x | Inr s' \<Rightarrow> replay f s' es)"

lemma replay_append:
  "replay f s (es @ fs) = (case replay f s es of Inl x \<Rightarrow> Inl x | Inr s' \<Rightarrow> replay f s' fs)"
  by (induction es arbitrary: s) (auto split: sum.splits)

lemma replay_snoc:
  "replay f s (es @ [e]) = (case replay f s es of Inl x \<Rightarrow> Inl x | Inr s' \<Rightarrow> f s' e)"
  by (simp add: replay_append split: sum.splits)

lemma replay_prefix_ok: "replay f s (es @ fs) = Inr t \<Longrightarrow> \<exists>u. replay f s es = Inr u"
  by (auto simp: replay_append split: sum.splits)

lemma replay_append_ok:
  "replay f s es = Inr u \<Longrightarrow> replay f s (es @ fs) = replay f u fs"
  by (simp add: replay_append)

lemma replay_total:
  assumes "\<And>s e. f s e = Inr (g s e)"
  shows "replay f s es = Inr (foldl g s es)"
  by (induction es arbitrary: s) (simp_all add: assms)

text \<open>A projection with an invariant.\<close>

locale projection =
  fixes fold_event :: "'s \<Rightarrow> 'e \<Rightarrow> ('x, 's) result"
    and start :: "'s"
    and inv :: "'s \<Rightarrow> bool"
  assumes inv_start: "inv start"
    and inv_step: "inv s \<Longrightarrow> fold_event s e = Inr s' \<Longrightarrow> inv s'"
begin

lemma inv_replay_from: "inv s \<Longrightarrow> replay fold_event s es = Inr s' \<Longrightarrow> inv s'"
proof (induction es arbitrary: s)
  case Nil
  then show ?case by simp
next
  case (Cons e es)
  from Cons.prems(2) obtain u where "fold_event s e = Inr u" and "replay fold_event u es = Inr s'"
    by (auto split: sum.splits)
  with Cons.prems(1) show ?case
    by (blast intro: Cons.IH inv_step)
qed

lemma inv_replay: "replay fold_event start es = Inr s \<Longrightarrow> inv s"
  by (rule inv_replay_from [OF inv_start])

lemma incremental:
  "replay fold_event start es = Inr s \<Longrightarrow> replay fold_event start (es @ fs) = replay fold_event s fs"
  by (rule replay_append_ok)

lemma inv_prefix:
  assumes "replay fold_event start (es @ fs) = Inr s"
  obtains u where "replay fold_event start es = Inr u" and "inv u" and "replay fold_event u fs = Inr s"
proof -
  from replay_prefix_ok [OF assms] obtain u where u: "replay fold_event start es = Inr u" ..
  with assms have "replay fold_event u fs = Inr s"
    by (simp add: replay_append)
  with u inv_replay that show ?thesis by blast
qed

end

text \<open>
  A projection whose step relates two states by a preorder (a counter that only grows, a set
  that only gains members).
\<close>

locale monotone_projection = projection fold_event start inv
  for fold_event :: "'s \<Rightarrow> 'e \<Rightarrow> ('x, 's) result" and start inv +
  fixes le :: "'s \<Rightarrow> 's \<Rightarrow> bool"
  assumes le_refl: "le s s"
    and le_trans: "le s t \<Longrightarrow> le t u \<Longrightarrow> le s u"
    and le_step: "inv s \<Longrightarrow> fold_event s e = Inr s' \<Longrightarrow> le s s'"
begin

lemma le_replay: "inv s \<Longrightarrow> replay fold_event s es = Inr s' \<Longrightarrow> le s s'"
proof (induction es arbitrary: s)
  case Nil
  then show ?case by (simp add: le_refl)
next
  case (Cons e es)
  from Cons.prems(2) obtain u where u: "fold_event s e = Inr u" "replay fold_event u es = Inr s'"
    by (auto split: sum.splits)
  with Cons.prems(1) have "inv u" by (blast intro: inv_step)
  with u Cons show ?case
    by (blast intro: le_trans le_step)
qed

end

end
