(* ===== verification/Session_Surface.thy ===== *)
theory Session_Surface
  imports Session_Types Event_Replay "HOL-Library.Multiset"
begin

text \<open>
  The surface layer of the session log, \<open>src/packages/core/session/src/surface.ts\<close>: which
  events reach the model, the validation of a candidate event, the complete fold
  (\<open>foldSurface\<close>) and the incremental view (\<open>SurfaceManager\<close>). The lemmas show that the
  surface and the replaced ranges partition the message-producing events, that the fold is
  prefix-closed, and that the incremental view agrees with the complete fold.
\<close>

section \<open>Classification and projection of events\<close>

definition SURFACE_EVENT_TYPES :: "string list" where
  "SURFACE_EVENT_TYPES = [''user/message'', ''assistant/message'', ''tool/result'']"

definition isSurfaceEligibleType :: "string \<Rightarrow> bool" where
  "isSurfaceEligibleType t \<longleftrightarrow> t \<in> set SURFACE_EVENT_TYPES"

definition isSurfaceEvent :: "session_event \<Rightarrow> bool" where
  "isSurfaceEvent e \<longleftrightarrow>
     (if ev_type e \<notin> set SURFACE_EVENT_TYPES then False else ev_surface_op e \<noteq> None)"

definition isAppendSurfaceEvent :: "session_event \<Rightarrow> bool" where
  "isAppendSurfaceEvent e \<longleftrightarrow> isSurfaceEvent e \<and> ev_surface_op e = Some append_op"

definition isReplacementSurfaceEvent :: "session_event \<Rightarrow> bool" where
  "isReplacementSurfaceEvent e \<longleftrightarrow> isSurfaceEvent e \<and> ev_surface_op e \<noteq> Some append_op"

definition deriveEventMessage :: "session_event \<Rightarrow> message option" where
  "deriveEventMessage e = (case ev_data e of
       UserMessage m \<Rightarrow> Some (MUser m)
     | AssistantMessage _ _ m _ \<Rightarrow> (if am_content m = [] then None else Some (MAssistant m))
     | ToolResult d \<Rightarrow> Some (MToolResult (tr_message d))
     | _ \<Rightarrow> None)"

section \<open>Validation of one event\<close>

datatype surface_error =
    IneligibleOp
  | IneligibleSources
  | MissingSurfaceOp
  | InvalidSurfaceOp
  | InvalidReplaceOp
  | SourcesNotArray
  | SourcesEmpty
  | SourcesNotSeqs
  | SourcesDuplicate
  | SourcesNotEarlier int
  | ShadowedMissing "int list"
  | StartNotFound int
  | EndNotFound int
  | StartAfterEnd int int
  | RewriteNotSingle
  | RewriteWrongTarget
  | RewriteNotContentOnly
  | SeqNotContiguous int int

type_synonym 'a sres = "(surface_error, 'a) result"

record surface_state =
  ss_nodes :: "int list"
  ss_generation :: nat

record surface_replacement =
  rp_seq :: int
  rp_start :: int
  rp_end :: int
  rp_shadowed :: "int list"

datatype surface_plan =
    PlanAppend int
  | PlanReplace surface_replacement nat nat

definition createFoldState :: surface_state where
  "createFoldState = \<lparr>ss_nodes = [], ss_generation = 0\<rparr>"

text \<open>\<open>isEventSeq\<close>, with the number it accepts.\<close>

definition event_seq_of :: "json option \<Rightarrow> int option" where
  "event_seq_of v = (case as_safe v of Some n \<Rightarrow> (if 0 \<le> n then Some n else None) | None \<Rightarrow> None)"

text \<open>\<open>isReplaceOp\<close>, with the two ends it accepts.\<close>

definition replace_op_of :: "fields \<Rightarrow> (int \<times> int) option" where
  "replace_op_of obj =
     (if length obj = 3 \<and> has_own obj ''op'' \<and> has_own obj ''start'' \<and> has_own obj ''end''
         \<and> jget obj ''op'' = Some (JStr ''replace'')
      then (case (event_seq_of (jget obj ''start''), event_seq_of (jget obj ''end'')) of
              (Some s, Some e) \<Rightarrow> Some (s, e) | _ \<Rightarrow> None)
      else None)"

definition surfaceOpOf :: "session_event \<Rightarrow> surface_op option sres" where
  "surfaceOpOf e =
     (if \<not> isSurfaceEligibleType (ev_type e)
      then if ev_surface_op e \<noteq> None then Inl IneligibleOp
           else if ev_sources e \<noteq> None then Inl IneligibleSources
           else Inr None
      else case ev_surface_op e of
             None \<Rightarrow> Inl MissingSurfaceOp
           | Some op \<Rightarrow>
               if op = append_op then Inr (Some OpAppend)
               else (case op of
                       JObj obj \<Rightarrow> (case replace_op_of obj of
                                      None \<Rightarrow> Inl InvalidReplaceOp
                                    | Some (s, t) \<Rightarrow> Inr (Some (OpReplace s t)))
                     | _ \<Rightarrow> Inl InvalidSurfaceOp))"

text \<open>The loop over the cited sources: every entry must be a sequence number.\<close>

fun source_seqs :: "json list \<Rightarrow> int list option" where
  "source_seqs [] = Some []"
| "source_seqs (v # vs) = (case (event_seq_of (Some v), source_seqs vs) of
      (Some n, Some ns) \<Rightarrow> Some (n # ns) | _ \<Rightarrow> None)"

definition assertProvenance :: "session_event \<Rightarrow> int list \<Rightarrow> unit sres" where
  "assertProvenance e shadowed =
     (let check_missing = (\<lambda>sources.
            let missing = filter (\<lambda>s. s \<notin> set sources) shadowed
            in if missing \<noteq> [] then Inl (ShadowedMissing missing) else Inr ())
      in case ev_sources e of
           None \<Rightarrow> check_missing []
         | Some (JArr raw) \<Rightarrow>
             if raw = [] \<and> ev_type e \<noteq> ''assistant/message'' then Inl SourcesEmpty
             else (case source_seqs raw of
                     None \<Rightarrow> Inl SourcesNotSeqs
                   | Some sources \<Rightarrow>
                       if \<not> distinct sources then Inl SourcesDuplicate
                       else (case find (\<lambda>s. ev_seq e \<le> s) sources of
                               Some s \<Rightarrow> Inl (SourcesNotEarlier s)
                             | None \<Rightarrow> check_missing sources))
         | Some _ \<Rightarrow> Inl SourcesNotArray)"

definition replacementRange :: "surface_state \<Rightarrow> int \<Rightarrow> int \<Rightarrow> (nat \<times> nat \<times> int list) sres" where
  "replacementRange st s e =
     (case index_of s (ss_nodes st) of
        None \<Rightarrow> Inl (StartNotFound s)
      | Some si \<Rightarrow>
          (case index_of e (ss_nodes st) of
             None \<Rightarrow> Inl (EndNotFound e)
           | Some ei \<Rightarrow>
               if ei < si then Inl (StartAfterEnd s e)
               else Inr (si, ei, slice si (ei + 1) (ss_nodes st))))"

text \<open>\<open>isDeepEqualJson\<close>: arrays by position, objects by key whatever the key order.\<close>

fun deep_equal :: "json \<Rightarrow> json \<Rightarrow> bool" where
  "deep_equal (JArr xs) (JArr ys) \<longleftrightarrow> length xs = length ys \<and> list_all2 deep_equal xs ys"
| "deep_equal (JObj a) (JObj b) \<longleftrightarrow> length a = length b \<and>
     (\<forall>kv \<in> set a. case map_of b (fst kv) of None \<Rightarrow> False | Some w \<Rightarrow> deep_equal (snd kv) w)"
| "deep_equal a b \<longleftrightarrow> a = b"

text \<open>The tool-result payload with its result content blanked, as the rewrite check builds it.\<close>

definition opt_field :: "string \<Rightarrow> json option \<Rightarrow> fields" where
  "opt_field k v = (case v of None \<Rightarrow> [] | Some j \<Rightarrow> [(k, j)])"

definition tool_result_rest :: "tool_result_data \<Rightarrow> json" where
  "tool_result_rest d =
     (let m = tr_message d in
      JObj ([(''turn'', JInt (tr_turn d)), (''step'', JInt (tr_step d)),
             (''message'', JObj [(''id'', JStr (tm_id m)), (''role'', JStr ''user''),
                (''source'', JObj [(''kind'', JStr ''tool''), (''callId'', JStr (tm_source_call m))]),
                (''content'', JArr [JObj ([(''type'', JStr ''tool-result''),
                    (''toolCallId'', JStr (tm_call m)), (''content'', JNull)]
                  @ opt_field ''isError'' (map_option JBool (tm_is_error m)))])])]
           @ opt_field ''error'' (map_option (\<lambda>(n, c). JObj [(''name'', JStr n), (''code'', JStr c)]) (tr_error d))
           @ opt_field ''meta'' (tr_meta d)))"

definition event_at :: "session_event list \<Rightarrow> int \<Rightarrow> session_event option" where
  "event_at es i = (if 0 \<le> i \<and> i < int (length es) then Some (es ! nat i) else None)"

definition assertToolResultRewrite ::
    "session_event \<Rightarrow> int list \<Rightarrow> session_event list \<Rightarrow> int \<Rightarrow> unit sres" where
  "assertToolResultRewrite e shadowed es base =
     (case ev_data e of
        ToolResult d \<Rightarrow>
          (case shadowed of
             [orig] \<Rightarrow>
               (case event_at es (orig - base) of
                  Some oe \<Rightarrow>
                    (case ev_data oe of
                       ToolResult od \<Rightarrow>
                         if deep_equal (tool_result_rest od) (tool_result_rest d) then Inr ()
                         else Inl RewriteNotContentOnly
                     | _ \<Rightarrow> Inl RewriteWrongTarget)
                | None \<Rightarrow> Inl RewriteWrongTarget)
           | _ \<Rightarrow> Inl RewriteNotSingle)
      | _ \<Rightarrow> Inr ())"

definition planSurfaceEvent ::
    "surface_state \<Rightarrow> session_event \<Rightarrow> int \<Rightarrow> session_event list \<Rightarrow> int \<Rightarrow> surface_plan option sres" where
  "planSurfaceEvent st e expected es base =
     (if ev_seq e \<noteq> expected then Inl (SeqNotContiguous (ev_seq e) expected)
      else rbind (surfaceOpOf e) (\<lambda>op. case op of
          None \<Rightarrow> Inr None
        | Some OpAppend \<Rightarrow> rbind (assertProvenance e []) (\<lambda>_. Inr (Some (PlanAppend (ev_seq e))))
        | Some (OpReplace s t) \<Rightarrow>
            rbind (replacementRange st s t) (\<lambda>(si, ei, shadowed).
            rbind (assertProvenance e shadowed) (\<lambda>_.
            rbind (assertToolResultRewrite e shadowed es base) (\<lambda>_.
              Inr (Some (PlanReplace \<lparr>rp_seq = ev_seq e, rp_start = s, rp_end = t,
                                      rp_shadowed = shadowed\<rparr> si ei)))))))"

section \<open>The fold\<close>

fun applySurfacePlan ::
    "surface_state \<Rightarrow> surface_plan option \<Rightarrow> surface_state \<times> surface_replacement option" where
  "applySurfacePlan st None = (st, None)"
| "applySurfacePlan st (Some (PlanAppend q)) = (st\<lparr>ss_nodes := ss_nodes st @ [q]\<rparr>, None)"
| "applySurfacePlan st (Some (PlanReplace r si ei)) =
     (st\<lparr>ss_nodes := splice si (ei - si + 1) [rp_seq r] (ss_nodes st),
         ss_generation := ss_generation st + 1\<rparr>, Some r)"

definition applySurfaceEvent ::
    "surface_state \<Rightarrow> session_event \<Rightarrow> int \<Rightarrow> session_event list \<Rightarrow> int \<Rightarrow>
     (surface_state \<times> surface_replacement option) sres" where
  "applySurfaceEvent st e expected es base =
     rbind (planSurfaceEvent st e expected es base) (\<lambda>plan. Inr (applySurfacePlan st plan))"

text \<open>The loop of \<open>foldSurface\<close> over the events from index \<open>i\<close> on.\<close>

fun fold_loop ::
    "session_event list \<Rightarrow> surface_state \<Rightarrow> surface_replacement list \<Rightarrow> int \<Rightarrow> session_event list \<Rightarrow>
     (surface_state \<times> surface_replacement list) sres" where
  "fold_loop es st reps i [] = Inr (st, reps)"
| "fold_loop es st reps i (e # rest) =
     (case applySurfaceEvent st e i es 0 of
        Inl x \<Rightarrow> Inl x
      | Inr (st', r) \<Rightarrow>
          fold_loop es st' (case r of None \<Rightarrow> reps | Some rp \<Rightarrow> reps @ [rp]) (i + 1) rest)"

definition foldSurface :: "session_event list \<Rightarrow> (int list \<times> surface_replacement list) sres" where
  "foldSurface es =
     rbind (fold_loop es createFoldState [] 0 es) (\<lambda>(st, reps). Inr (ss_nodes st, reps))"

section \<open>The incremental view\<close>

text \<open>
  \<open>SurfaceManager\<close>. The log it reads is the session's own array, so it is an argument here.
  The pending candidate is recognised by object identity in the code and by equality here:
  the plan is a function of the event and of the state it was planned in.
\<close>

record surface_manager =
  sm_base :: int
  sm_state :: surface_state
  sm_last :: int
  sm_pending :: "(session_event \<times> int \<times> surface_plan option) option"

definition newManager :: "int \<Rightarrow> surface_manager" where
  "newManager base = \<lparr>sm_base = base, sm_state = createFoldState, sm_last = base - 1, sm_pending = None\<rparr>"

text \<open>One turn of the loop of \<open>_processDelta\<close> on the event at absolute sequence \<open>q\<close>.\<close>

definition processEvent ::
    "session_event list \<Rightarrow> surface_manager \<Rightarrow> int \<Rightarrow> session_event \<Rightarrow> surface_manager sres" where
  "processEvent evs m q e =
     (let finish = (\<lambda>st. m\<lparr>sm_state := st, sm_last := q,
              sm_pending := (case sm_pending m of
                 Some (pe, pq, plan) \<Rightarrow> (if pq \<le> q then None else sm_pending m)
               | None \<Rightarrow> None)\<rparr>)
      in case sm_pending m of
           Some (pe, pq, plan) \<Rightarrow>
             if pe = e \<and> pq = q then Inr (finish (fst (applySurfacePlan (sm_state m) plan)))
             else rbind (applySurfaceEvent (sm_state m) e q evs (sm_base m)) (\<lambda>(st, _). Inr (finish st))
         | None \<Rightarrow> rbind (applySurfaceEvent (sm_state m) e q evs (sm_base m)) (\<lambda>(st, _). Inr (finish st)))"

text \<open>
  The loop itself. A throw keeps what the earlier turns did: the manager it leaves is returned
  with the error.
\<close>

fun process_loop ::
    "session_event list \<Rightarrow> surface_manager \<Rightarrow> int \<Rightarrow> session_event list \<Rightarrow>
     surface_error option \<times> surface_manager" where
  "process_loop evs m q [] = (None, m)"
| "process_loop evs m q (e # rest) =
     (case processEvent evs m q e of
        Inl x \<Rightarrow> (Some x, m)
      | Inr m' \<Rightarrow> process_loop evs m' (q + 1) rest)"

definition processDelta :: "session_event list \<Rightarrow> surface_manager \<Rightarrow> surface_error option \<times> surface_manager" where
  "processDelta evs m =
     process_loop evs m (sm_last m + 1) (drop (nat (sm_last m + 1 - sm_base m)) evs)"

definition catchUp :: "session_event list \<Rightarrow> surface_manager \<Rightarrow> surface_error option \<times> surface_manager" where
  "catchUp evs m =
     (if sm_last m < sm_base m + int (length evs) - 1 then processDelta evs m else (None, m))"

definition validateNext ::
    "session_event list \<Rightarrow> surface_manager \<Rightarrow> session_event \<Rightarrow> surface_error option \<times> surface_manager" where
  "validateNext evs m e =
     (case catchUp evs m of
        (Some x, m') \<Rightarrow> (Some x, m')
      | (None, m') \<Rightarrow>
          (let expected = sm_base m' + int (length evs) in
           case planSurfaceEvent (sm_state m') e expected evs (sm_base m') of
             Inl x \<Rightarrow> (Some x, m')
           | Inr plan \<Rightarrow> (None, m'\<lparr>sm_pending := Some (e, expected, plan)\<rparr>)))"

definition manager_generation :: "session_event list \<Rightarrow> surface_manager \<Rightarrow> (surface_error option \<times> surface_manager) \<times> nat" where
  "manager_generation evs m = (let r = catchUp evs m in (r, ss_generation (sm_state (snd r))))"

definition manager_nodes :: "session_event list \<Rightarrow> surface_manager \<Rightarrow> (surface_error option \<times> surface_manager) \<times> int list" where
  "manager_nodes evs m = (let r = catchUp evs m in (r, ss_nodes (sm_state (snd r))))"

section \<open>Structural equality\<close>

lemma deep_equal_obj_keys:
  assumes wf: "wf_json (JObj a)" "wf_json (JObj b)" and eq: "deep_equal (JObj a) (JObj b)"
  shows "set (map fst a) = set (map fst b)"
proof -
  have "fst kv \<in> fst ` set b" if "kv \<in> set a" for kv
  proof -
    have "map_of b (fst kv) \<noteq> None" using eq that by (auto split: option.splits)
    then show ?thesis by (simp add: map_of_eq_None_iff)
  qed
  then have sub: "set (map fst a) \<subseteq> set (map fst b)" by auto
  have "card (set (map fst a)) = card (set (map fst b))"
    using wf eq by (simp add: distinct_card del: set_map)
  with sub show ?thesis by (meson List.finite_set card_subset_eq)
qed

lemma deep_equal_refl: "wf_json a \<Longrightarrow> deep_equal a a"
proof (induction a)
  case (JObj obj)
  have "case map_of obj (fst kv) of None \<Rightarrow> False | Some w \<Rightarrow> deep_equal (snd kv) w" if "kv \<in> set obj" for kv
    using JObj that by (cases kv) (auto simp: list_all_iff snds.simps)
  then show ?case by simp
qed (auto simp: list_all_iff list_all2_same)

lemma deep_equal_sym: "wf_json a \<Longrightarrow> wf_json b \<Longrightarrow> deep_equal a b \<Longrightarrow> deep_equal b a"
proof (induction a b rule: deep_equal.induct)
  case (1 xs ys)
  then show ?case
    by (auto simp: list_all2_conv_all_nth list_all_iff)
next
  case (2 a b)
  have "case map_of a (fst kw) of None \<Rightarrow> False | Some v \<Rightarrow> deep_equal (snd kw) v" if kw: "kw \<in> set b" for kw
  proof -
    have "fst kw \<in> set (map fst a)"
      using deep_equal_obj_keys [OF 2(2-4)] kw by simp
    then obtain v where v: "map_of a (fst kw) = Some v"
      by (metis map_of_eq_None_iff not_None_eq set_map)
    then have va: "(fst kw, v) \<in> set a" by (rule map_of_SomeD)
    have mb: "map_of b (fst kw) = Some (snd kw)"
      using kw 2(3) by simp
    have "deep_equal v (snd kw)"
      using 2(4) va mb by fastforce
    with 2(1) [OF va] mb 2(2,3) va kw have "deep_equal (snd kw) v"
      by (auto simp: list_all_iff)
    with v show ?thesis by simp
  qed
  with 2(4) show ?case by simp
qed auto

lemma deep_equal_trans: "wf_json c \<Longrightarrow> deep_equal a b \<Longrightarrow> deep_equal b c \<Longrightarrow> deep_equal a c"
proof (induction a b arbitrary: c rule: deep_equal.induct)
  case (1 xs ys)
  then obtain zs where c: "c = JArr zs" by (cases c) auto
  have "deep_equal (xs ! i) (zs ! i)" if "i < length xs" for i
    using 1(1) [of "xs ! i" "ys ! i" "zs ! i"] 1(2-4) c that
    by (auto simp: list_all2_conv_all_nth list_all_iff)
  with 1 c show ?case
    by (auto simp: list_all2_conv_all_nth)
next
  case (2 a b)
  then obtain d where c: "c = JObj d" by (cases c) auto
  have "case map_of d (fst kv) of None \<Rightarrow> False | Some w \<Rightarrow> deep_equal (snd kv) w" if kv: "kv \<in> set a" for kv
  proof -
    from 2(3) kv obtain w where w: "map_of b (fst kv) = Some w" "deep_equal (snd kv) w"
      by (fastforce split: option.splits)
    then have "(fst kv, w) \<in> set b" by (simp add: map_of_SomeD)
    with 2(4) c obtain u where u: "map_of d (fst kv) = Some u" "deep_equal w u"
      by (fastforce split: option.splits)
    have "wf_json u" using 2(2) c map_of_SomeD [OF u(1)] by (auto simp: list_all_iff)
    with 2(1) [OF kv w(1)] w u show ?thesis by simp
  qed
  with 2(3,4) c show ?case by simp
qed auto

section \<open>Facts about one event\<close>

lemma surfaceOpOf_None: "surfaceOpOf e = Inr None \<Longrightarrow> \<not> isSurfaceEligibleType (ev_type e)"
  by (auto simp: surfaceOpOf_def split: if_splits option.splits json.splits)

lemma surfaceOpOf_Some: "surfaceOpOf e = Inr (Some op) \<Longrightarrow> isSurfaceEligibleType (ev_type e)"
  by (auto simp: surfaceOpOf_def split: if_splits)

lemma replacementRange_Inr:
  assumes "replacementRange st s t = Inr (si, ei, shadowed)"
  shows "si \<le> ei" "ei < length (ss_nodes st)" "ss_nodes st ! si = s" "ss_nodes st ! ei = t"
    "shadowed = slice si (ei + 1) (ss_nodes st)"
  using assms index_of_Some [of s "ss_nodes st"] index_of_Some [of t "ss_nodes st"]
  by (auto simp: replacementRange_def split: option.splits if_splits)

lemma slice_single: "i < length xs \<Longrightarrow> slice i (i + 1) xs = [xs ! i]"
  by (simp add: slice_def take_Suc hd_drop_conv_nth)

lemma mset_splice_slice:
  assumes "i \<le> j" "j < length xs"
  shows "mset (splice i (j - i + 1) ys xs) + mset (slice i (j + 1) xs) = mset xs + mset ys"
proof -
  have "mset xs = mset (take i xs) + mset (slice i (j + 1) xs) + mset (drop (j + 1) xs)"
    using arg_cong [OF take_slice_drop [of i "j + 1" xs], of mset] assms by (simp add: add.assoc)
  moreover have "i + (j - i + 1) = j + 1" using assms by simp
  ultimately show ?thesis by (simp add: splice_def)
qed

lemma set_splice_subset: "set (splice i c ys xs) \<subseteq> set xs \<union> set ys"
  using set_take_subset set_drop_subset by (fastforce simp: splice_def)

text \<open>What an accepted event does to the surface, whatever kind of event it is.\<close>

lemma applySurfaceEvent_effect:
  assumes "applySurfaceEvent st e q es base = Inr (st', r)"
  shows "ev_seq e = q"
    and "mset (ss_nodes st') + (case r of None \<Rightarrow> {#} | Some rp \<Rightarrow> mset (rp_shadowed rp)) =
         mset (ss_nodes st) + (if isSurfaceEligibleType (ev_type e) then {#q#} else {#})"
    and "ss_generation st' = ss_generation st + (case r of None \<Rightarrow> 0 | Some _ \<Rightarrow> 1)"
    and "r = Some rp \<Longrightarrow> rp_seq rp = q \<and> rp_shadowed rp \<noteq> [] \<and> set (rp_shadowed rp) \<subseteq> set (ss_nodes st)"
proof -
  from assms obtain plan where plan: "planSurfaceEvent st e q es base = Inr plan"
    and st': "(st', r) = applySurfacePlan st plan"
    by (auto simp: applySurfaceEvent_def rbind_Inr_iff)
  from plan show seq: "ev_seq e = q"
    by (auto simp: planSurfaceEvent_def split: if_splits)
  from plan seq obtain op where op: "surfaceOpOf e = Inr op"
    by (auto simp: planSurfaceEvent_def rbind_Inr_iff)
  have "mset (ss_nodes st') + (case r of None \<Rightarrow> {#} | Some rp \<Rightarrow> mset (rp_shadowed rp)) =
         mset (ss_nodes st) + (if isSurfaceEligibleType (ev_type e) then {#q#} else {#})
      \<and> ss_generation st' = ss_generation st + (case r of None \<Rightarrow> 0 | Some _ \<Rightarrow> 1)
      \<and> (r = Some rp \<longrightarrow> rp_seq rp = q \<and> rp_shadowed rp \<noteq> [] \<and> set (rp_shadowed rp) \<subseteq> set (ss_nodes st))"
  proof (cases op)
    case None
    with plan seq op have "plan = None" by (simp add: planSurfaceEvent_def)
    with st' surfaceOpOf_None op None show ?thesis by auto
  next
    case (Some o')
    with op have el: "isSurfaceEligibleType (ev_type e)" by (blast dest: surfaceOpOf_Some)
    show ?thesis
    proof (cases o')
      case OpAppend
      with plan seq op Some have "plan = Some (PlanAppend q)"
        by (auto simp: planSurfaceEvent_def rbind_Inr_iff)
      with st' el show ?thesis by simp
    next
      case (OpReplace s t)
      with plan seq op Some obtain si ei sh where
        range: "replacementRange st s t = Inr (si, ei, sh)" and
        p: "plan = Some (PlanReplace \<lparr>rp_seq = q, rp_start = s, rp_end = t, rp_shadowed = sh\<rparr> si ei)"
        by (auto simp: planSurfaceEvent_def rbind_Inr_iff)
      note rr = replacementRange_Inr [OF range]
      have "sh \<noteq> []" using rr by (simp add: slice_def)
      then show ?thesis
        using st' el p rr(5) mset_splice_slice [OF rr(1,2), of "[q]"] set_slice_subset [of si "ei + 1" "ss_nodes st"]
        by auto
    qed
  qed
  then show "mset (ss_nodes st') + (case r of None \<Rightarrow> {#} | Some rp \<Rightarrow> mset (rp_shadowed rp)) =
         mset (ss_nodes st) + (if isSurfaceEligibleType (ev_type e) then {#q#} else {#})"
    and "ss_generation st' = ss_generation st + (case r of None \<Rightarrow> 0 | Some _ \<Rightarrow> 1)"
    and "r = Some rp \<Longrightarrow> rp_seq rp = q \<and> rp_shadowed rp \<noteq> [] \<and> set (rp_shadowed rp) \<subseteq> set (ss_nodes st)"
    by blast+
qed

text \<open>The transition looks only at logged events that are on the surface.\<close>

lemma event_at_append: "0 \<le> i \<Longrightarrow> i < int (length es) \<Longrightarrow> event_at (es @ fs) i = event_at es i"
  by (simp add: event_at_def nth_append)

lemma assertToolResultRewrite_append:
  assumes "\<forall>n \<in> set shadowed. base \<le> n \<and> n < base + int (length es)"
  shows "assertToolResultRewrite e shadowed (es @ fs) base = assertToolResultRewrite e shadowed es base"
  using assms
  by (auto simp: assertToolResultRewrite_def event_at_append split: event_data.split list.split)

lemma planSurfaceEvent_append:
  assumes "\<forall>n \<in> set (ss_nodes st). base \<le> n \<and> n < base + int (length es)"
  shows "planSurfaceEvent st e q (es @ fs) base = planSurfaceEvent st e q es base"
proof -
  have *: "assertToolResultRewrite e sh (es @ fs) base = assertToolResultRewrite e sh es base"
    if "replacementRange st s t = Inr (si, ei, sh)" for s t si ei sh
    using replacementRange_Inr(5) [OF that] assms set_slice_subset [of si "ei + 1" "ss_nodes st"]
    by (intro assertToolResultRewrite_append) blast
  show ?thesis
    unfolding planSurfaceEvent_def
    by (auto simp: * split: option.split surface_op.split intro!: rbind_cong)
qed

lemma applySurfaceEvent_append:
  assumes "\<forall>n \<in> set (ss_nodes st). base \<le> n \<and> n < base + int (length es)"
  shows "applySurfaceEvent st e q (es @ fs) base = applySurfaceEvent st e q es base"
  by (simp add: applySurfaceEvent_def planSurfaceEvent_append [OF assms])

section \<open>The fold as a projection\<close>

type_synonym surface_fold = "session_event list \<times> surface_state \<times> surface_replacement list"

definition surface_step :: "surface_fold \<Rightarrow> session_event \<Rightarrow> surface_fold sres" where
  "surface_step s e =
     (case s of (pre, st, reps) \<Rightarrow>
        case applySurfaceEvent st e (int (length pre)) pre 0 of
          Inl x \<Rightarrow> Inl x
        | Inr (st', r) \<Rightarrow> Inr (pre @ [e], st', case r of None \<Rightarrow> reps | Some rp \<Rightarrow> reps @ [rp]))"

definition surface_start :: surface_fold where
  "surface_start = ([], createFoldState, [])"

definition eligible_seqs :: "session_event list \<Rightarrow> int list" where
  "eligible_seqs es = map ev_seq (filter (\<lambda>e. isSurfaceEligibleType (ev_type e)) es)"

definition shadowed_all :: "surface_replacement list \<Rightarrow> int list" where
  "shadowed_all reps = concat (map rp_shadowed reps)"

definition surface_inv :: "surface_fold \<Rightarrow> bool" where
  "surface_inv s \<longleftrightarrow> (case s of (pre, st, reps) \<Rightarrow>
      map ev_seq pre = map int [0..<length pre]
    \<and> mset (ss_nodes st) + mset (shadowed_all reps) = mset (eligible_seqs pre)
    \<and> ss_generation st = length reps)"

lemma surface_inv_bounds:
  assumes "surface_inv (pre, st, reps)"
  shows "\<forall>n \<in> set (ss_nodes st). 0 \<le> n \<and> n < 0 + int (length pre)"
proof -
  have "mset (ss_nodes st) + mset (shadowed_all reps) = mset (eligible_seqs pre)"
    using assms by (simp add: surface_inv_def)
  from arg_cong [OF this, of set_mset] have "set (ss_nodes st) \<subseteq> set (eligible_seqs pre)"
    by auto
  also have "\<dots> \<subseteq> set (map ev_seq pre)"
    by (auto simp: eligible_seqs_def)
  also have "\<dots> = set (map int [0..<length pre])"
    using assms by (simp add: surface_inv_def)
  finally show ?thesis by auto
qed

lemma surface_inv_distinct:
  assumes "surface_inv (pre, st, reps)"
  shows "distinct (ss_nodes st @ shadowed_all reps)"
proof -
  have "distinct (map ev_seq pre)"
    using assms by (simp add: surface_inv_def distinct_map)
  then have "distinct (eligible_seqs pre)"
    by (simp add: eligible_seqs_def distinct_map_filter)
  moreover have "mset (ss_nodes st @ shadowed_all reps) = mset (eligible_seqs pre)"
    using assms by (simp add: surface_inv_def)
  ultimately show ?thesis by (metis mset_eq_imp_distinct_iff)
qed

interpretation surface: projection surface_step surface_start surface_inv
proof (unfold_locales, goal_cases)
  case 1
  show ?case
    by (simp add: surface_inv_def surface_start_def createFoldState_def shadowed_all_def eligible_seqs_def)
next
  case (2 s e s')
  obtain pre st reps where s: "s = (pre, st, reps)" by (cases s) auto
  from 2(2) s obtain st' r where ap: "applySurfaceEvent st e (int (length pre)) pre 0 = Inr (st', r)"
    and s': "s' = (pre @ [e], st', case r of None \<Rightarrow> reps | Some rp \<Rightarrow> reps @ [rp])"
    by (auto simp: surface_step_def split: sum.splits)
  note eff = applySurfaceEvent_effect(1-3) [OF ap]
  from 2(1) s have inv: "map ev_seq pre = map int [0..<length pre]"
    "mset (ss_nodes st) + mset (shadowed_all reps) = mset (eligible_seqs pre)"
    "ss_generation st = length reps"
    by (simp_all add: surface_inv_def)
  have el: "mset (eligible_seqs (pre @ [e])) =
      mset (eligible_seqs pre) + (if isSurfaceEligibleType (ev_type e) then {#int (length pre)#} else {#})"
    using eff(1) by (simp add: eligible_seqs_def)
  let ?reps = "case r of None \<Rightarrow> reps | Some rp \<Rightarrow> reps @ [rp]"
  let ?new = "if isSurfaceEligibleType (ev_type e) then {#int (length pre)#} else {#}"
  have "mset (ss_nodes st') + mset (shadowed_all ?reps) =
      (mset (ss_nodes st') + (case r of None \<Rightarrow> {#} | Some rp \<Rightarrow> mset (rp_shadowed rp))) + mset (shadowed_all reps)"
    by (simp add: shadowed_all_def split: option.split)
  also have "\<dots> = (mset (ss_nodes st) + ?new) + mset (shadowed_all reps)"
    by (simp only: eff(2))
  also have "\<dots> = (mset (ss_nodes st) + mset (shadowed_all reps)) + ?new"
    by (simp only: add.assoc add.commute add.left_commute)
  also have "\<dots> = mset (eligible_seqs (pre @ [e]))"
    by (simp only: inv(2) el)
  finally have "mset (ss_nodes st') + mset (shadowed_all ?reps) = mset (eligible_seqs (pre @ [e]))" .
  moreover have "ss_generation st' = length (case r of None \<Rightarrow> reps | Some rp \<Rightarrow> reps @ [rp])"
    using eff(3) inv(3) by (simp split: option.split)
  ultimately show ?case
    using s' inv(1) eff(1) by (simp add: surface_inv_def)
qed

lemma fold_loop_replay:
  assumes "surface_inv (pre, st, reps)"
  shows "fold_loop (pre @ rest) st reps (int (length pre)) rest =
         (case replay surface_step (pre, st, reps) rest of
            Inl x \<Rightarrow> Inl x | Inr (_, st', reps') \<Rightarrow> Inr (st', reps'))"
  using assms
proof (induction rest arbitrary: pre st reps)
  case Nil
  then show ?case by simp
next
  case (Cons e rest)
  have ap: "applySurfaceEvent st e (int (length pre)) (pre @ e # rest) 0 =
            applySurfaceEvent st e (int (length pre)) pre 0"
    using surface_inv_bounds [OF Cons.prems] by (intro applySurfaceEvent_append) simp
  show ?case
  proof (cases "applySurfaceEvent st e (int (length pre)) pre 0")
    case (Inl x)
    then show ?thesis by (simp add: ap surface_step_def)
  next
    case (Inr sr)
    obtain st' r where sr: "sr = (st', r)" by (cases sr)
    let ?reps = "case r of None \<Rightarrow> reps | Some rp \<Rightarrow> reps @ [rp]"
    have step: "surface_step (pre, st, reps) e = Inr (pre @ [e], st', ?reps)"
      using Inr sr by (simp add: surface_step_def)
    from surface.inv_step [OF Cons.prems step] have "surface_inv (pre @ [e], st', ?reps)" .
    from Cons.IH [OF this] show ?thesis
      using Inr sr ap step by (simp add: add.commute)
  qed
qed

lemma foldSurface_replay:
  "foldSurface es = (case replay surface_step surface_start es of
     Inl x \<Rightarrow> Inl x | Inr (_, st, reps) \<Rightarrow> Inr (ss_nodes st, reps))"
  using fold_loop_replay [OF surface.inv_start [unfolded surface_start_def], of es]
  by (auto simp: foldSurface_def surface_start_def split: sum.splits)

lemma replay_surface_prefix: "replay surface_step (pre, st, reps) es = Inr (pre', st', reps') \<Longrightarrow> pre' = pre @ es"
proof (induction es arbitrary: pre st reps)
  case Nil
  then show ?case by simp
next
  case (Cons e es)
  from Cons.prems obtain s2 where s2: "surface_step (pre, st, reps) e = Inr s2"
    "replay surface_step s2 es = Inr (pre', st', reps')"
    by (auto split: sum.splits)
  obtain st2 reps2 where "s2 = (pre @ [e], st2, reps2)"
    using s2(1) by (auto simp: surface_step_def split: sum.splits)
  with s2(2) have "replay surface_step (pre @ [e], st2, reps2) es = Inr (pre', st', reps')" by simp
  from Cons.IH [OF this] show ?case by simp
qed

lemma replay_surface_log: "replay surface_step surface_start es = Inr (pre, st, reps) \<Longrightarrow> pre = es"
  using replay_surface_prefix by (fastforce simp: surface_start_def)

lemma foldSurface_Inr:
  assumes "foldSurface es = Inr (nodes, reps)"
  obtains st where "replay surface_step surface_start es = Inr (es, st, reps)" "nodes = ss_nodes st"
    "surface_inv (es, st, reps)"
proof -
  from assms obtain pre st where r: "replay surface_step surface_start es = Inr (pre, st, reps)"
    and n: "nodes = ss_nodes st"
    by (auto simp: foldSurface_replay split: sum.splits)
  with replay_surface_log [OF r] surface.inv_replay [OF r] that show thesis by simp
qed

section \<open>The incremental view agrees with the fold\<close>

text \<open>
  A manager over a log the fold accepts: it has folded a prefix, and a pending plan is the plan
  of its event in the state the manager has reached.
\<close>

definition manager_ok :: "session_event list \<Rightarrow> surface_manager \<Rightarrow> bool" where
  "manager_ok evs m \<longleftrightarrow> sm_base m = 0
    \<and> (\<exists>k reps. k \<le> length evs \<and> sm_last m = int k - 1
        \<and> replay surface_step surface_start (take k evs) = Inr (take k evs, sm_state m, reps)
        \<and> (case sm_pending m of None \<Rightarrow> True
           | Some (pe, pq, plan) \<Rightarrow> pq = int k \<and> planSurfaceEvent (sm_state m) pe pq (take k evs) 0 = Inr plan))"

lemma manager_ok_new: "manager_ok evs (newManager 0)"
  by (auto simp: manager_ok_def newManager_def surface_start_def intro!: exI [of _ "0::nat"])

lemma manager_ok_push: "manager_ok evs m \<Longrightarrow> manager_ok (evs @ [e]) m"
proof -
  assume "manager_ok evs m"
  then obtain k reps where "sm_base m = 0" and k: "k \<le> length evs" "sm_last m = int k - 1"
    "replay surface_step surface_start (take k evs) = Inr (take k evs, sm_state m, reps)"
    "case sm_pending m of None \<Rightarrow> True
           | Some (pe, pq, plan) \<Rightarrow> pq = int k \<and> planSurfaceEvent (sm_state m) pe pq (take k evs) 0 = Inr plan"
    unfolding manager_ok_def by blast
  then show ?thesis
    unfolding manager_ok_def
    by (intro conjI exI [of _ k] exI [of _ reps]) (auto split: option.splits prod.splits)
qed

text \<open>One turn of the loop is one step of the fold, whether or not its plan was pending.\<close>

lemma processEvent_step:
  assumes st: "surface_inv (pre, sm_state m, reps)" and base: "sm_base m = 0"
    and q: "q = int (length pre)"
    and pend: "case sm_pending m of None \<Rightarrow> True
           | Some (pe, pq, plan) \<Rightarrow> pq = q \<and> planSurfaceEvent (sm_state m) pe pq pre 0 = Inr plan"
  shows "processEvent (pre @ e # rest) m q e =
    (case applySurfaceEvent (sm_state m) e q pre 0 of
       Inl x \<Rightarrow> Inl x
     | Inr (st', _) \<Rightarrow> Inr (m\<lparr>sm_state := st', sm_last := q, sm_pending := None\<rparr>))"
proof -
  have ap: "applySurfaceEvent (sm_state m) e q (pre @ e # rest) 0 = applySurfaceEvent (sm_state m) e q pre 0"
    using surface_inv_bounds [OF st] by (intro applySurfaceEvent_append) simp
  show ?thesis
  proof (cases "sm_pending m")
    case None
    then show ?thesis
      by (cases "applySurfaceEvent (sm_state m) e q pre 0") (auto simp: processEvent_def ap base split: prod.split)
  next
    case (Some p)
    obtain pe pq plan where p: "p = (pe, pq, plan)" by (cases p)
    with pend Some have "pq = q" and "planSurfaceEvent (sm_state m) pe q pre 0 = Inr plan" by auto
    then have pe: "applySurfaceEvent (sm_state m) pe q pre 0 = Inr (applySurfacePlan (sm_state m) plan)"
      by (simp add: applySurfaceEvent_def)
    show ?thesis
    proof (cases "pe = e")
      case True
      obtain st' r where sr: "applySurfacePlan (sm_state m) plan = (st', r)" by fastforce
      with pe True have "applySurfaceEvent (sm_state m) e q pre 0 = Inr (st', r)" by simp
      with sr True Some p \<open>pq = q\<close> show ?thesis
        by (simp add: processEvent_def)
    next
      case False
      with Some p \<open>pq = q\<close> show ?thesis
        by (cases "applySurfaceEvent (sm_state m) e q pre 0") (auto simp: processEvent_def ap base split: prod.split)
    qed
  qed
qed

lemma process_loop_replay:
  assumes "surface_inv (pre, sm_state m, reps)" and "sm_base m = 0"
    and "sm_last m = int (length pre) - 1"
    and "case sm_pending m of None \<Rightarrow> True
           | Some (pe, pq, plan) \<Rightarrow> pq = int (length pre) \<and> planSurfaceEvent (sm_state m) pe pq pre 0 = Inr plan"
    and "replay surface_step (pre, sm_state m, reps) rest = Inr (full, st', reps')"
  shows "\<exists>p. process_loop (pre @ rest) m (int (length pre)) rest =
      (None, m\<lparr>sm_state := st', sm_last := int (length (pre @ rest)) - 1, sm_pending := p\<rparr>)
    \<and> p = (if rest = [] then sm_pending m else None)"
  using assms
proof (induction rest arbitrary: pre m reps)
  case Nil
  then show ?case by (cases m) simp
next
  case (Cons e rest)
  obtain st2 r where ap: "applySurfaceEvent (sm_state m) e (int (length pre)) pre 0 = Inr (st2, r)"
    using Cons.prems(5) by (auto simp: surface_step_def split: sum.splits)
  let ?reps = "case r of None \<Rightarrow> reps | Some rp \<Rightarrow> reps @ [rp]"
  let ?m = "m\<lparr>sm_state := st2, sm_last := int (length pre), sm_pending := None\<rparr>"
  have step: "surface_step (pre, sm_state m, reps) e = Inr (pre @ [e], sm_state ?m, ?reps)"
    using ap by (simp add: surface_step_def)
  have pe: "processEvent (pre @ e # rest) m (int (length pre)) e = Inr ?m"
    using processEvent_step [OF Cons.prems(1,2) refl Cons.prems(4)] ap by simp
  have "\<exists>p. process_loop ((pre @ [e]) @ rest) ?m (int (length (pre @ [e]))) rest =
      (None, ?m\<lparr>sm_state := st', sm_last := int (length ((pre @ [e]) @ rest)) - 1, sm_pending := p\<rparr>)
    \<and> p = (if rest = [] then sm_pending ?m else None)"
    by (rule Cons.IH [OF surface.inv_step [OF Cons.prems(1) step]])
      (use Cons.prems(2,5) step in simp_all)
  with pe show ?case by (auto simp: add.commute split: if_splits)
qed

lemma catchUp_ok:
  assumes ok: "manager_ok evs m" and full: "replay surface_step surface_start evs = Inr (evs, st, reps)"
  shows "\<exists>m'. catchUp evs m = (None, m') \<and> manager_ok evs m' \<and> sm_state m' = st
    \<and> sm_last m' = int (length evs) - 1 \<and> sm_base m' = 0"
proof -
  from ok obtain k reps0 where k: "sm_base m = 0" "k \<le> length evs" "sm_last m = int k - 1"
    "replay surface_step surface_start (take k evs) = Inr (take k evs, sm_state m, reps0)"
    "case sm_pending m of None \<Rightarrow> True
           | Some (pe, pq, plan) \<Rightarrow> pq = int k \<and> planSurfaceEvent (sm_state m) pe pq (take k evs) 0 = Inr plan"
    unfolding manager_ok_def by blast
  let ?pre = "take k evs"
  let ?rest = "drop k evs"
  have len: "length ?pre = k" using k(2) by simp
  have rest: "replay surface_step (?pre, sm_state m, reps0) ?rest = Inr (evs, st, reps)"
    using surface.incremental [OF k(4), of ?rest] full by simp
  show ?thesis
  proof (cases "k = length evs")
    case True
    with k ok rest show ?thesis
      by (auto simp: catchUp_def)
  next
    case False
    let ?m = "m\<lparr>sm_state := st, sm_last := int (length evs) - 1, sm_pending := None\<rparr>"
    have "sm_last m = int (length ?pre) - 1" using k(3) len by simp
    moreover have "case sm_pending m of None \<Rightarrow> True
       | Some (pe, pq, plan) \<Rightarrow> pq = int (length ?pre) \<and> planSurfaceEvent (sm_state m) pe pq ?pre 0 = Inr plan"
      unfolding len by (rule k(5))
    ultimately have "process_loop (?pre @ ?rest) m (int (length ?pre)) ?rest = (None, ?m)"
      using process_loop_replay [OF surface.inv_replay [OF k(4)] k(1) _ _ rest] False k(2) by simp
    then have "catchUp evs m = (None, ?m)"
      using False k(1-3) by (simp add: catchUp_def processDelta_def len)
    moreover have "manager_ok evs ?m"
      using full k(1) by (auto simp: manager_ok_def intro!: exI [of _ "length evs"])
    ultimately show ?thesis using k(1) by simp
  qed
qed

lemma replay_plan:
  assumes "replay surface_step surface_start evs = Inr (evs, st, reps)"
  shows "replay surface_step surface_start (evs @ [e]) =
    (case planSurfaceEvent st e (int (length evs)) evs 0 of
       Inl x \<Rightarrow> Inl x
     | Inr plan \<Rightarrow> (case applySurfacePlan st plan of (st', r) \<Rightarrow>
          Inr (evs @ [e], st', case r of None \<Rightarrow> reps | Some rp \<Rightarrow> reps @ [rp])))"
  using assms
  by (simp add: replay_snoc surface_step_def applySurfaceEvent_def split: sum.split prod.split)

text \<open>What equal payloads with blanked content have in common.\<close>

lemma tool_result_rest_equal:
  assumes "deep_equal (tool_result_rest od) (tool_result_rest d)"
  shows "tr_turn od = tr_turn d \<and> tr_step od = tr_step d \<and> tr_error od = tr_error d
     \<and> tm_id (tr_message od) = tm_id (tr_message d) \<and> tm_call (tr_message od) = tm_call (tr_message d)
     \<and> tm_is_error (tr_message od) = tm_is_error (tr_message d)"
  using assms
  by (auto simp: tool_result_rest_def opt_field_def Let_def split: option.splits if_splits)

section \<open>Properties\<close>

text \<open>C31. When the surface fold accepts a log, the current surface and the ranges its
  replacements removed partition the message-producing events: every one is on the surface or
  was shadowed exactly once, nothing else is, and the sequence numbers are the positions.\<close>

theorem foldSurface_partition:
  assumes "foldSurface es = Inr (nodes, reps)"
  shows "mset nodes + mset (shadowed_all reps) = mset (eligible_seqs es)
    \<and> distinct (nodes @ shadowed_all reps)
    \<and> map ev_seq es = map int [0..<length es]"
proof -
  obtain st where "nodes = ss_nodes st" and inv: "surface_inv (es, st, reps)"
    using foldSurface_Inr [OF assms] by blast
  with surface_inv_distinct [OF inv] show ?thesis
    by (simp add: surface_inv_def)
qed

definition sample_user :: "int \<Rightarrow> json \<Rightarrow> json option \<Rightarrow> session_event" where
  "sample_user q op src = \<lparr>ev_seq = q, ev_time = 0,
     ev_data = UserMessage \<lparr>um_id = ''u'', um_source = SrcUser, um_content = [TextBlock ''hi'']\<rparr>,
     ev_ignorable = False, ev_surface_op = Some op, ev_sources = src\<rparr>"

definition sample_result :: "int \<Rightarrow> string \<Rightarrow> json \<Rightarrow> json option \<Rightarrow> session_event" where
  "sample_result q body op src = \<lparr>ev_seq = q, ev_time = 0,
     ev_data = ToolResult \<lparr>tr_turn = 1, tr_step = 1,
        tr_message = \<lparr>tm_id = ''m'', tm_source_call = ''c'', tm_call = ''c'', tm_is_error = None,
                      tm_content = [TextBlock body]\<rparr>, tr_error = None, tr_meta = None\<rparr>,
     ev_ignorable = False, ev_surface_op = Some op, ev_sources = src\<rparr>"

definition sample_log :: "session_event list" where
  "sample_log = [sample_user 0 append_op None, sample_result 1 ''long'' append_op None]"

definition sample_rewrite :: session_event where
  "sample_rewrite = sample_result 2 ''...'' (replace_op 1 1) (Some (seqs_json [1]))"

lemmas sample_simps = sample_user_def sample_result_def sample_log_def sample_rewrite_def

lemma sample_folds:
  "foldSurface sample_log = Inr ([0, 1], [])"
  "foldSurface (sample_log @ [sample_rewrite]) =
     Inr ([0, 2], [\<lparr>rp_seq = 2, rp_start = 1, rp_end = 1, rp_shadowed = [1]\<rparr>])"
  by code_simp+

lemma foldSurface_partition_witness:
  "mset [0, 2] + mset [1] = mset (eligible_seqs (sample_log @ [sample_rewrite]))"
  using foldSurface_partition [OF sample_folds(2)] by (simp add: shadowed_all_def)

text \<open>C32. The incremental view agrees with the complete fold: over a log the fold accepts,
  \<open>validateNext\<close> gives exactly the verdict (and the error) of folding the log extended by the
  candidate, and once the candidate is in the log the view's nodes and generation are the
  fold's.\<close>

theorem validateNext_agrees:
  assumes ok: "manager_ok evs m" and fold: "foldSurface evs = Inr (nodes, reps)"
  shows "case validateNext evs m e of (verdict, m') \<Rightarrow>
      (case foldSurface (evs @ [e]) of
         Inl x \<Rightarrow> verdict = Some x \<and> manager_ok evs m'
       | Inr (nodes', reps') \<Rightarrow> verdict = None \<and> manager_ok (evs @ [e]) m'
           \<and> snd (manager_nodes (evs @ [e]) m') = nodes'
           \<and> snd (manager_generation (evs @ [e]) m') = length reps')"
proof -
  obtain st where full: "replay surface_step surface_start evs = Inr (evs, st, reps)"
    and inv: "surface_inv (evs, st, reps)"
    using foldSurface_Inr [OF fold] by blast
  obtain m1 where m1: "catchUp evs m = (None, m1)" "manager_ok evs m1" "sm_state m1 = st"
    "sm_last m1 = int (length evs) - 1" "sm_base m1 = 0"
    using catchUp_ok [OF ok full] by blast
  show ?thesis
  proof (cases "planSurfaceEvent st e (int (length evs)) evs 0")
    case (Inl x)
    with replay_plan [OF full, of e] m1 show ?thesis
      by (simp add: validateNext_def foldSurface_replay)
  next
    case (Inr plan)
    let ?m = "m1\<lparr>sm_pending := Some (e, int (length evs), plan)\<rparr>"
    obtain st' r where ap: "applySurfacePlan st plan = (st', r)" by fastforce
    let ?reps = "case r of None \<Rightarrow> reps | Some rp \<Rightarrow> reps @ [rp]"
    have full': "replay surface_step surface_start (evs @ [e]) = Inr (evs @ [e], st', ?reps)"
      using replay_plan [OF full, of e] Inr ap by simp
    have "manager_ok evs ?m"
      using full m1 Inr by (auto simp: manager_ok_def intro!: exI [of _ "length evs"])
    then have ok': "manager_ok (evs @ [e]) ?m" by (rule manager_ok_push)
    have gen: "ss_generation st' = length ?reps"
      using surface.inv_replay [OF full'] by (simp add: surface_inv_def)
    have "validateNext evs m e = (None, ?m)"
      using m1 Inr by (simp add: validateNext_def)
    with full' ok' gen catchUp_ok [OF ok' full'] show ?thesis
      by (auto simp: foldSurface_replay manager_nodes_def manager_generation_def Let_def)
  qed
qed

lemma validateNext_agrees_witness:
  "case validateNext sample_log (newManager 0) sample_rewrite of (verdict, m') \<Rightarrow>
     verdict = None \<and> snd (manager_nodes (sample_log @ [sample_rewrite]) m') = [0, 2]"
  using validateNext_agrees [OF manager_ok_new sample_folds(1), of sample_rewrite]
  unfolding sample_folds(2) by (auto split: prod.splits)

text \<open>A replacement of a tool result rewrites nothing but its content: the fold accepts
  it only for a single current tool result, and turn, step, call, error flag, error and
  identity are those of the original.\<close>

theorem tool_result_rewrite:
  assumes fold: "foldSurface (evs @ [e]) = Inr (nodes, reps)"
    and data: "ev_data e = ToolResult d" and op: "ev_surface_op e = Some (replace_op s t)"
  shows "s = t \<and> (\<exists>oe od. event_at evs s = Some oe \<and> ev_data oe = ToolResult od
     \<and> tr_turn od = tr_turn d \<and> tr_step od = tr_step d \<and> tr_error od = tr_error d
     \<and> tm_id (tr_message od) = tm_id (tr_message d) \<and> tm_call (tr_message od) = tm_call (tr_message d)
     \<and> tm_is_error (tr_message od) = tm_is_error (tr_message d))"
proof -
  obtain st reps0 where full: "replay surface_step surface_start evs = Inr (evs, st, reps0)"
  proof -
    obtain st' where "replay surface_step surface_start (evs @ [e]) = Inr (evs @ [e], st', reps)"
      using foldSurface_Inr [OF fold] by blast
    from surface.inv_prefix [OF this] obtain u where
      "replay surface_step surface_start evs = Inr u" by blast
    with replay_surface_log that show thesis by (metis prod_cases3)
  qed
  obtain plan where plan: "planSurfaceEvent st e (int (length evs)) evs 0 = Inr plan"
    using fold replay_plan [OF full, of e] by (auto simp: foldSurface_replay split: sum.splits)
  have ty: "ev_type e = ''tool/result''"
    using data by (simp add: ev_type_def event_type_of_def)
  from plan obtain o' where o': "surfaceOpOf e = Inr o'"
    by (auto simp: planSurfaceEvent_def rbind_Inr_iff split: if_splits)
  then have "o' = Some (OpReplace s t)"
    using op by (auto simp: surfaceOpOf_def replace_op_def append_op_def replace_op_of_def event_seq_of_def
        as_safe_def jget_def split: if_splits option.splits prod.splits)
  with plan o' obtain si ei sh where range: "replacementRange st s t = Inr (si, ei, sh)"
    and rew: "assertToolResultRewrite e sh evs 0 = Inr ()"
    by (auto simp: planSurfaceEvent_def rbind_Inr_iff split: if_splits)
  from rew data obtain orig oe od where sh: "sh = [orig]" and oe: "event_at evs orig = Some oe"
    and od: "ev_data oe = ToolResult od" and de: "deep_equal (tool_result_rest od) (tool_result_rest d)"
    by (auto simp: assertToolResultRewrite_def split: list.splits option.splits event_data.splits if_splits)
  note rr = replacementRange_Inr [OF range]
  have "length sh = ei + 1 - si" using rr by (simp add: slice_def)
  with sh rr(1) have "si = ei" by simp
  with rr sh slice_single [of ei "ss_nodes st"] have "s = t" "orig = s" by auto
  with oe od tool_result_rest_equal [OF de] show ?thesis by blast
qed

definition sample_result_data :: "string \<Rightarrow> tool_result_data" where
  "sample_result_data body = \<lparr>tr_turn = 1, tr_step = 1,
        tr_message = \<lparr>tm_id = ''m'', tm_source_call = ''c'', tm_call = ''c'', tm_is_error = None,
                      tm_content = [TextBlock body]\<rparr>, tr_error = None, tr_meta = None\<rparr>"

lemma tool_result_rewrite_witness:
  "\<exists>oe od. event_at sample_log 1 = Some oe \<and> ev_data oe = ToolResult od \<and> tr_turn od = 1"
  using tool_result_rewrite [OF sample_folds(2), of "sample_result_data ''...''" 1 1]
  by (auto simp: sample_rewrite_def sample_result_def sample_result_data_def)

end
