(* ===== verification/Session_Header.thy ===== *)
theory Session_Header
  imports Session_Types
begin

text \<open>
  Request headers: the equality of call configurations
  (\<open>src/packages/llm/llm/src/call-config.ts\<close>) and the canonical form, equality and
  reconstruction of headers (\<open>src/packages/core/session/src/request-header.ts\<close>). Tool schemas
  are JSON values; two of them have the same \<open>JSON.stringify\<close> text exactly when they are the
  same ordered value.
\<close>

section \<open>Call configurations\<close>

definition callConfigEquals :: "call_config \<Rightarrow> call_config \<Rightarrow> bool" where
  "callConfigEquals a b =
     (if cc_provider a \<noteq> cc_provider b \<or> cc_model a \<noteq> cc_model b \<or> cc_effort a \<noteq> cc_effort b
         \<or> cc_temperature a \<noteq> cc_temperature b \<or> cc_max_tokens a \<noteq> cc_max_tokens b
      then False
      else case (cc_stop a, cc_stop b) of
             (Some s, Some t) \<Rightarrow> length s = length t \<and> (\<forall>i < length s. s ! i = t ! i)
           | (None, None) \<Rightarrow> True
           | _ \<Rightarrow> False)"

lemma callConfigEquals_eq: "callConfigEquals a b \<longleftrightarrow> a = b"
  by (auto simp: callConfigEquals_def list_eq_iff_nth_eq call_config.equality split: option.splits)

section \<open>Headers\<close>

definition canonicalHeader :: "epoch_header \<Rightarrow> epoch_header" where
  "canonicalHeader h =
     \<lparr>eh_config = eh_config h,
      eh_defaults = (case eh_defaults h of
         Some d \<Rightarrow> (if ad_effort d \<or> ad_max_tokens d then Some d else None) | None \<Rightarrow> None),
      eh_system = (case eh_system h of Some s \<Rightarrow> (if 0 < length s then Some s else None) | None \<Rightarrow> None),
      eh_tools = (case eh_tools h of Some t \<Rightarrow> (if 0 < length t then Some t else None) | None \<Rightarrow> None)\<rparr>"

definition sameSchema :: "json \<Rightarrow> json \<Rightarrow> bool" where
  "sameSchema a b \<longleftrightarrow> a = b"

text \<open>\<open>header.adapterDefaults?.reasoningEffort\<close>: the flag, \<open>None\<close> for \<open>undefined\<close>.\<close>

definition default_flag :: "(adapter_defaults \<Rightarrow> bool) \<Rightarrow> epoch_header \<Rightarrow> bool option" where
  "default_flag f h = (case eh_defaults h of
     Some d \<Rightarrow> (if f d then Some True else None) | None \<Rightarrow> None)"

definition headerEquals :: "epoch_header \<Rightarrow> epoch_header \<Rightarrow> bool" where
  "headerEquals a b =
     (if \<not> callConfigEquals (eh_config a) (eh_config b)
         \<or> default_flag ad_effort a \<noteq> default_flag ad_effort b
         \<or> default_flag ad_max_tokens a \<noteq> default_flag ad_max_tokens b
         \<or> eh_system a \<noteq> eh_system b
      then False
      else let at' = (case eh_tools a of Some t \<Rightarrow> t | None \<Rightarrow> []);
               bt = (case eh_tools b of Some t \<Rightarrow> t | None \<Rightarrow> [])
           in length at' = length bt \<and> (\<forall>i < length at'. sameSchema (at' ! i) (bt ! i)))"

text \<open>The loop of \<open>foldRequestHeader\<close>, from the state it continues.\<close>

fun foldRequestHeader :: "session_event list \<Rightarrow> epoch_header option \<Rightarrow> epoch_header option" where
  "foldRequestHeader [] st = st"
| "foldRequestHeader (e # es) st =
     foldRequestHeader es (case ev_data e of
        RequestHeader h _ \<Rightarrow> Some (canonicalHeader h) | _ \<Rightarrow> st)"

section \<open>Facts\<close>

definition header_canonical :: "epoch_header \<Rightarrow> bool" where
  "header_canonical h \<longleftrightarrow> canonicalHeader h = h"

lemma canonicalHeader_idem: "canonicalHeader (canonicalHeader h) = canonicalHeader h"
  by (simp add: canonicalHeader_def split: option.split)

lemma canonicalHeader_canonical [simp]: "header_canonical (canonicalHeader h)"
  by (simp add: header_canonical_def canonicalHeader_idem)

lemma foldRequestHeader_append:
  "foldRequestHeader (es @ fs) st = foldRequestHeader fs (foldRequestHeader es st)"
  by (induction es arbitrary: st) auto

lemma default_flags_eq:
  assumes "default_flag ad_effort a = default_flag ad_effort b"
    "default_flag ad_max_tokens a = default_flag ad_max_tokens b"
    "header_canonical a" "header_canonical b"
  shows "eh_defaults a = eh_defaults b"
  using assms
  by (cases a; cases b)
    (auto simp: default_flag_def header_canonical_def canonicalHeader_def adapter_defaults.equality
      split: option.splits if_splits)

lemma tools_eq:
  assumes "header_canonical a" "header_canonical b"
    "(case eh_tools a of Some t \<Rightarrow> t | None \<Rightarrow> []) = (case eh_tools b of Some t \<Rightarrow> t | None \<Rightarrow> [])"
  shows "eh_tools a = eh_tools b"
  using assms
  by (cases a; cases b)
    (auto simp: header_canonical_def canonicalHeader_def split: option.splits if_splits)

section \<open>Properties\<close>

text \<open>On canonical headers \<open>headerEquals\<close> is equality, and every header has a canonical
  form that canonicalising again leaves alone: a header is logged again exactly when it is a
  different one.\<close>

theorem headerEquals_canonical:
  "headerEquals (canonicalHeader a) (canonicalHeader b) \<longleftrightarrow> canonicalHeader a = canonicalHeader b"
proof
  let ?a = "canonicalHeader a"
  let ?b = "canonicalHeader b"
  assume eq: "headerEquals ?a ?b"
  then have "eh_defaults ?a = eh_defaults ?b"
    by (intro default_flags_eq) (auto simp: headerEquals_def split: if_splits)
  moreover from eq have "eh_tools ?a = eh_tools ?b"
    by (intro tools_eq) (auto simp: headerEquals_def sameSchema_def Let_def list_eq_iff_nth_eq split: if_splits)
  moreover from eq have "eh_config ?a = eh_config ?b" "eh_system ?a = eh_system ?b"
    by (auto simp: headerEquals_def callConfigEquals_eq split: if_splits)
  ultimately show "?a = ?b" by (simp add: epoch_header.equality)
next
  assume "canonicalHeader a = canonicalHeader b"
  then show "headerEquals (canonicalHeader a) (canonicalHeader b)"
    by (simp add: headerEquals_def callConfigEquals_eq sameSchema_def)
qed

text \<open>
  The header in force after a log is the canonical form of the last header event's
  header, whatever precedes it and whatever the fold continued from; without a header event
  the state it continued from stands.\<close>

theorem foldRequestHeader_last:
  "foldRequestHeader es st =
     (case find_last (\<lambda>e. ev_type e = ''request/header'' \<and> proper_event e) es of
        Some e \<Rightarrow> (case ev_data e of RequestHeader h _ \<Rightarrow> Some (canonicalHeader h) | _ \<Rightarrow> None)
      | None \<Rightarrow> st)"
proof (induction es rule: rev_induct)
  case Nil
  then show ?case by simp
next
  case (snoc e es)
  then show ?case
    by (auto simp: foldRequestHeader_append ev_type_def event_type_of_def proper_event_def known_types_def
        split: event_data.split option.split)
qed

end
