(* ===== verification/Session_Trace.thy ===== *)
theory Session_Trace
  imports Session_Types Event_Replay
begin

text \<open>
  The relational invariants of the session log,
  \<open>src/packages/core/session/src/invariant.ts\<close>: the trace of open turn, open step, next
  numbers and pending calls, the pure validation of a candidate event, the application of its
  transition, and the staging of a transition between dispatch and commit. The lemmas show the
  well-formedness every accepted log keeps.
\<close>

section \<open>The trace\<close>

record session_trace =
  tr_lastSeq :: int
  tr_openTurn :: "int option"
  tr_openStep :: "int option"
  tr_nextTurn :: int
  tr_nextStep :: int
  tr_pending :: "string list"

datatype pending_change = PendNone | PendAdd string | PendDelete string | PendClear

text \<open>\<open>SessionTraceTransition\<close>: the new scalars and the change of the pending calls.\<close>

record trace_transition =
  tt_lastSeq :: int
  tt_openTurn :: "int option"
  tt_openStep :: "int option"
  tt_nextTurn :: int
  tt_nextStep :: int
  tt_pending :: pending_change

datatype trace_error =
    SeqNotIncreasing int int
  | TurnStillOpen int
  | UnexpectedTurn int int
  | TurnEndMismatch int
  | TurnEndInStep int
  | StepOutsideTurn int
  | StepStillOpen int
  | UnexpectedStep int int
  | NotInOpenStep string int int
  | RewriteOutsideTurn
  | ResultWithoutCall string
  | OutsideTurn string
  | NotStaged

definition TOOL_NOT_STARTED :: string where
  "TOOL_NOT_STARTED = ''TOOL_NOT_STARTED''"

definition freshTrace :: session_trace where
  "freshTrace = \<lparr>tr_lastSeq = -1, tr_openTurn = None, tr_openStep = None,
     tr_nextTurn = 1, tr_nextStep = 1, tr_pending = []\<rparr>"

definition requireOpenStep :: "session_trace \<Rightarrow> string \<Rightarrow> int \<Rightarrow> int \<Rightarrow> (trace_error, unit) result" where
  "requireOpenStep tr kind turn step =
     (if tr_openTurn tr \<noteq> Some turn \<or> tr_openStep tr \<noteq> Some step
      then Inl (NotInOpenStep kind turn step) else Inr ())"

text \<open>The transition that only advances the sequence number.\<close>

definition keep_transition :: "session_trace \<Rightarrow> session_event \<Rightarrow> trace_transition" where
  "keep_transition tr e = \<lparr>tt_lastSeq = ev_seq e, tt_openTurn = tr_openTurn tr,
     tt_openStep = tr_openStep tr, tt_nextTurn = tr_nextTurn tr, tt_nextStep = tr_nextStep tr,
     tt_pending = PendNone\<rparr>"

definition validateEvent :: "session_trace \<Rightarrow> session_event \<Rightarrow> (trace_error, trace_transition) result" where
  "validateEvent tr e =
     (let keep = keep_transition tr e in
      if ev_seq e \<le> tr_lastSeq tr then Inl (SeqNotIncreasing (ev_seq e) (tr_lastSeq tr))
      else case ev_data e of
        TurnStart turn \<Rightarrow>
          (if tr_openTurn tr \<noteq> None then Inl (TurnStillOpen turn)
           else if turn \<noteq> tr_nextTurn tr then Inl (UnexpectedTurn (tr_nextTurn tr) turn)
           else Inr (keep\<lparr>tt_openTurn := Some turn, tt_nextStep := 1\<rparr>))
      | TurnEnd turn _ \<Rightarrow>
          (if tr_openTurn tr \<noteq> Some turn then Inl (TurnEndMismatch turn)
           else if tr_openStep tr \<noteq> None then Inl (TurnEndInStep turn)
           else Inr (keep\<lparr>tt_openTurn := None, tt_nextTurn := tr_nextTurn tr + 1\<rparr>))
      | StepStart turn step \<Rightarrow>
          (if tr_openTurn tr \<noteq> Some turn then Inl (StepOutsideTurn turn)
           else if tr_openStep tr \<noteq> None then Inl (StepStillOpen step)
           else if step \<noteq> tr_nextStep tr then Inl (UnexpectedStep (tr_nextStep tr) step)
           else Inr (keep\<lparr>tt_openStep := Some step\<rparr>))
      | StepEnd turn step \<Rightarrow>
          rbind (requireOpenStep tr ''step/end'' turn step) (\<lambda>_.
            Inr (keep\<lparr>tt_pending := PendClear, tt_openStep := None, tt_nextStep := tr_nextStep tr + 1\<rparr>))
      | AssistantChunk turn step _ \<Rightarrow>
          rbind (requireOpenStep tr ''assistant/chunk'' turn step) (\<lambda>_. Inr keep)
      | AssistantMessage turn step _ _ \<Rightarrow>
          rbind (requireOpenStep tr ''assistant/message'' turn step) (\<lambda>_. Inr keep)
      | ToolCall turn step callId _ _ \<Rightarrow>
          rbind (requireOpenStep tr ''tool/call'' turn step) (\<lambda>_. Inr (keep\<lparr>tt_pending := PendAdd callId\<rparr>))
      | ToolResult d \<Rightarrow>
          (if ev_surface_op e \<noteq> Some append_op
           then if tr_openTurn tr = None then Inl RewriteOutsideTurn else Inr keep
           else rbind (requireOpenStep tr ''tool/result'' (tr_turn d) (tr_step d)) (\<lambda>_.
             let callId = tm_source_call (tr_message d);
                 syntheticNotStarted = (tm_is_error (tr_message d) = Some True
                    \<and> map_option snd (tr_error d) = Some TOOL_NOT_STARTED)
             in if callId \<notin> set (tr_pending tr) \<and> \<not> syntheticNotStarted
                then Inl (ResultWithoutCall callId)
                else Inr (keep\<lparr>tt_pending := PendDelete callId\<rparr>)))
      | TodoWrite _ \<Rightarrow> (if tr_openTurn tr = None then Inl (OutsideTurn ''todo/write'') else Inr keep)
      | RequestHeader _ _ \<Rightarrow>
          (if tr_openTurn tr = None then Inl (OutsideTurn ''request/header'') else Inr keep)
      | RequestContext _ \<Rightarrow>
          (if tr_openTurn tr = None then Inl (OutsideTurn ''request/context'') else Inr keep)
      | _ \<Rightarrow> Inr keep)"

text \<open>A \<open>Set\<close> of calls: adding a member again changes nothing.\<close>

definition applyTransition :: "session_trace \<Rightarrow> trace_transition \<Rightarrow> session_trace" where
  "applyTransition tr t =
     \<lparr>tr_lastSeq = tt_lastSeq t, tr_openTurn = tt_openTurn t, tr_openStep = tt_openStep t,
      tr_nextTurn = tt_nextTurn t, tr_nextStep = tt_nextStep t,
      tr_pending = (case tt_pending t of
          PendNone \<Rightarrow> tr_pending tr
        | PendAdd c \<Rightarrow> (if c \<in> set (tr_pending tr) then tr_pending tr else tr_pending tr @ [c])
        | PendDelete c \<Rightarrow> filter (\<lambda>x. x \<noteq> c) (tr_pending tr)
        | PendClear \<Rightarrow> [])\<rparr>"

text \<open>\<open>seedSession\<close>: validate and apply every event of the log in turn.\<close>

definition trace_step :: "session_trace \<Rightarrow> session_event \<Rightarrow> (trace_error, session_trace) result" where
  "trace_step tr e = rbind (validateEvent tr e) (\<lambda>t. Inr (applyTransition tr t))"

definition seedSession :: "session_event list \<Rightarrow> (trace_error, session_trace) result" where
  "seedSession es = replay trace_step freshTrace es"

section \<open>Staging\<close>

text \<open>
  The companion keeps, per session, the trace, and per dispatched event the transition that its
  commit will apply. One session's part of that state; the weak keys are the event objects,
  identified by their sequence and payload.
\<close>

record trace_companion =
  tc_trace :: session_trace
  tc_staged :: "(session_event, trace_transition) js_map"

definition on_dispatch :: "trace_companion \<Rightarrow> session_event \<Rightarrow> (trace_error, trace_companion) result" where
  "on_dispatch c e = rbind (validateEvent (tc_trace c) e) (\<lambda>t.
     Inr (c\<lparr>tc_staged := map_set e t (tc_staged c)\<rparr>))"

definition on_session_event :: "trace_companion \<Rightarrow> session_event \<Rightarrow> (trace_error, trace_companion) result" where
  "on_session_event c e = (case map_get (tc_staged c) e of
     None \<Rightarrow> Inl NotStaged
   | Some t \<Rightarrow> Inr (c\<lparr>tc_trace := applyTransition (tc_trace c) t,
                    tc_staged := map_delete e (tc_staged c)\<rparr>))"

section \<open>Well-formed traces\<close>

definition trace_inv :: "session_trace \<Rightarrow> bool" where
  "trace_inv tr \<longleftrightarrow> distinct (tr_pending tr)
     \<and> (tr_openStep tr = None \<longrightarrow> tr_pending tr = [])
     \<and> (case tr_openStep tr of None \<Rightarrow> True | Some s \<Rightarrow> tr_openTurn tr \<noteq> None \<and> s = tr_nextStep tr)
     \<and> (case tr_openTurn tr of None \<Rightarrow> True | Some t \<Rightarrow> t = tr_nextTurn tr)
     \<and> 1 \<le> tr_nextTurn tr \<and> 1 \<le> tr_nextStep tr"

lemma validateEvent_seq: "validateEvent tr e = Inr t \<Longrightarrow> tr_lastSeq tr < ev_seq e \<and> tt_lastSeq t = ev_seq e"
  by (auto simp: validateEvent_def keep_transition_def Let_def rbind_Inr_iff
      split: event_data.splits if_splits)

lemma trace_inv_step:
  assumes inv: "trace_inv tr" and v: "validateEvent tr e = Inr t"
  shows "trace_inv (applyTransition tr t)"
proof (cases "ev_data e")
  case (ToolResult d)
  then have "t = keep_transition tr e \<or> (\<exists>c. t = (keep_transition tr e)\<lparr>tt_pending := PendDelete c\<rparr>)"
    using v by (auto simp: validateEvent_def Let_def rbind_Inr_iff split: if_splits)
  with inv show ?thesis
    by (auto simp: trace_inv_def applyTransition_def keep_transition_def split: option.splits)
qed (use assms in \<open>auto simp: validateEvent_def keep_transition_def requireOpenStep_def applyTransition_def
    trace_inv_def Let_def rbind_Inr_iff split: if_splits option.splits\<close>)

lemma trace_seq_step: "trace_step tr e = Inr tr' \<Longrightarrow> tr_lastSeq tr < ev_seq e \<and> tr_lastSeq tr' = ev_seq e"
  using validateEvent_seq by (auto simp: trace_step_def rbind_Inr_iff applyTransition_def)

text \<open>What grows along a log: the last sequence number and the next turn number.\<close>

definition trace_le :: "session_trace \<Rightarrow> session_trace \<Rightarrow> bool" where
  "trace_le a b \<longleftrightarrow> tr_lastSeq a \<le> tr_lastSeq b \<and> tr_nextTurn a \<le> tr_nextTurn b"

interpretation trace: monotone_projection trace_step freshTrace trace_inv trace_le
proof (unfold_locales, goal_cases)
  case 1
  show ?case by (simp add: trace_inv_def freshTrace_def)
next
  case (2 s e s')
  then show ?case using trace_inv_step by (auto simp: trace_step_def rbind_Inr_iff)
next
  case (3 s)
  show ?case by (simp add: trace_le_def)
next
  case (4 s t u)
  then show ?case by (simp add: trace_le_def)
next
  case (5 s e s')
  then have "tr_lastSeq s \<le> tr_lastSeq s'" using trace_seq_step by fastforce
  moreover have "tr_nextTurn s \<le> tr_nextTurn s'"
    using 5 by (cases "ev_data e") (auto simp: trace_step_def validateEvent_def keep_transition_def
        requireOpenStep_def applyTransition_def Let_def rbind_Inr_iff split: if_splits)
  ultimately show ?case by (simp add: trace_le_def)
qed

lemma replay_seqs_increase:
  "replay trace_step tr es = Inr tr' \<Longrightarrow>
     sorted_wrt (<) (tr_lastSeq tr # map ev_seq es) \<and> tr_lastSeq tr' = last (tr_lastSeq tr # map ev_seq es)"
proof (induction es arbitrary: tr)
  case Nil
  then show ?case by simp
next
  case (Cons e es)
  then obtain tr1 where s: "trace_step tr e = Inr tr1" "replay trace_step tr1 es = Inr tr'"
    by (auto split: sum.splits)
  from Cons.IH [OF s(2)] trace_seq_step [OF s(1)] show ?case by auto
qed

section \<open>Turns and steps of a log\<close>

text \<open>The numbers that the turn starts of a log carry, in order.\<close>

definition turn_starts :: "session_event list \<Rightarrow> int list" where
  "turn_starts es = concat (map (\<lambda>e. case ev_data e of TurnStart t \<Rightarrow> [t] | _ \<Rightarrow> []) es)"

definition turn_ends :: "session_event list \<Rightarrow> int list" where
  "turn_ends es = concat (map (\<lambda>e. case ev_data e of TurnEnd t _ \<Rightarrow> [t] | _ \<Rightarrow> []) es)"

lemma turns_append:
  "turn_starts (es @ fs) = turn_starts es @ turn_starts fs"
  "turn_ends (es @ fs) = turn_ends es @ turn_ends fs"
  by (simp_all add: turn_starts_def turn_ends_def)

text \<open>An accepted event opens the next turn, closes the open one, or leaves the turns alone.\<close>

lemma trace_step_turn_cases:
  assumes "trace_step tr e = Inr tr'"
  obtains
    (keep) "turn_starts [e] = []" "turn_ends [e] = []" "tr_openTurn tr' = tr_openTurn tr"
      "tr_nextTurn tr' = tr_nextTurn tr"
  | (start) "turn_starts [e] = [tr_nextTurn tr]" "turn_ends [e] = []" "tr_openTurn tr = None"
      "tr_openTurn tr' = Some (tr_nextTurn tr)" "tr_nextTurn tr' = tr_nextTurn tr"
  | (stop) t where "turn_starts [e] = []" "turn_ends [e] = [t]" "tr_openTurn tr = Some t"
      "tr_openTurn tr' = None" "tr_nextTurn tr' = tr_nextTurn tr + 1"
  using assms
  by (cases "ev_data e")
    (auto simp: trace_step_def validateEvent_def keep_transition_def requireOpenStep_def
      applyTransition_def turn_ends_def turn_starts_def Let_def rbind_Inr_iff split: if_splits)

lemma trace_step_turns:
  assumes "trace_step tr e = Inr tr'" "trace_inv tr"
    "turn_ends es = [1..tr_nextTurn tr - 1]"
    "turn_starts es = [1..tr_nextTurn tr - 1] @ (case tr_openTurn tr of None \<Rightarrow> [] | Some t \<Rightarrow> [t])"
  shows "turn_ends (es @ [e]) = [1..tr_nextTurn tr' - 1]
    \<and> turn_starts (es @ [e]) = [1..tr_nextTurn tr' - 1] @ (case tr_openTurn tr' of None \<Rightarrow> [] | Some t \<Rightarrow> [t])"
  using assms(1)
proof (cases rule: trace_step_turn_cases)
  case keep
  with assms(3,4) show ?thesis by (simp add: turns_append)
next
  case start
  with assms(3,4) show ?thesis by (simp add: turns_append)
next
  case (stop t)
  have "t = tr_nextTurn tr" "1 \<le> tr_nextTurn tr"
    using assms(2) stop by (simp_all add: trace_inv_def)
  then have "[1..tr_nextTurn tr] = [1..tr_nextTurn tr - 1] @ [t]"
    using upto_rec2 [of 1 "tr_nextTurn tr"] by simp
  with stop assms(3,4) show ?thesis by (simp add: turns_append)
qed

lemma seedSession_turns:
  assumes "seedSession es = Inr tr"
  shows "turn_ends es = [1..tr_nextTurn tr - 1]
    \<and> turn_starts es = [1..tr_nextTurn tr - 1] @ (case tr_openTurn tr of None \<Rightarrow> [] | Some t \<Rightarrow> [t])"
  using assms
proof (induction es arbitrary: tr rule: rev_induct)
  case Nil
  then show ?case by (auto simp: seedSession_def freshTrace_def turn_ends_def turn_starts_def)
next
  case (snoc e es)
  then obtain tr0 where s: "seedSession es = Inr tr0" "trace_step tr0 e = Inr tr"
    by (auto simp: seedSession_def replay_snoc split: sum.splits)
  with snoc.IH trace.inv_replay trace_step_turns show ?case
    by (metis seedSession_def)
qed

text \<open>Staging and then committing an event is one step of the replay; a vetoed dispatch moves nothing.\<close>

lemma dispatch_commit:
  "rbind (on_dispatch c e) (\<lambda>c'. on_session_event c' e) =
   (case trace_step (tc_trace c) e of
      Inl x \<Rightarrow> Inl x
    | Inr tr \<Rightarrow> Inr (c\<lparr>tc_trace := tr, tc_staged := map_delete e (map_set e
        (case validateEvent (tc_trace c) e of Inr t \<Rightarrow> t | Inl _ \<Rightarrow> undefined) (tc_staged c))\<rparr>))"
  by (cases "validateEvent (tc_trace c) e")
    (simp_all add: on_dispatch_def on_session_event_def trace_step_def map_simps)

lemma dispatch_keeps_trace: "on_dispatch c e = Inr c' \<Longrightarrow> tc_trace c' = tc_trace c"
  by (auto simp: on_dispatch_def rbind_Inr_iff)

section \<open>Calls and results\<close>

definition answers :: "string \<Rightarrow> session_event \<Rightarrow> bool" where
  "answers c e \<longleftrightarrow> (case ev_data e of
     ToolResult d \<Rightarrow> tm_source_call (tr_message d) = c \<and> ev_surface_op e = Some append_op | _ \<Rightarrow> False)"

definition ends_step :: "session_event \<Rightarrow> bool" where
  "ends_step e \<longleftrightarrow> (case ev_data e of StepEnd _ _ \<Rightarrow> True | _ \<Rightarrow> False)"

definition calls :: "string \<Rightarrow> int \<Rightarrow> int \<Rightarrow> session_event \<Rightarrow> bool" where
  "calls c turn step e \<longleftrightarrow> (case ev_data e of
     ToolCall t s c' _ _ \<Rightarrow> c' = c \<and> t = turn \<and> s = step | _ \<Rightarrow> False)"

text \<open>The call is in the log, in this step, and nothing since has answered it or ended the step.\<close>

definition unanswered_call :: "session_event list \<Rightarrow> string \<Rightarrow> int \<Rightarrow> int \<Rightarrow> bool" where
  "unanswered_call es c turn step \<longleftrightarrow>
     (\<exists>xs ce ys. es = xs @ ce # ys \<and> calls c turn step ce
        \<and> (\<forall>y \<in> set ys. \<not> answers c y \<and> \<not> ends_step y))"

lemma unanswered_call_snoc:
  "unanswered_call es c turn step \<Longrightarrow> \<not> answers c e \<Longrightarrow> \<not> ends_step e \<Longrightarrow> unanswered_call (es @ [e]) c turn step"
  unfolding unanswered_call_def by (elim exE conjE, rule_tac x = xs in exI, rule_tac x = ce in exI,
      rule_tac x = "ys @ [e]" in exI) auto

lemma unanswered_call_new: "calls c turn step e \<Longrightarrow> unanswered_call (es @ [e]) c turn step"
  unfolding unanswered_call_def by (metis empty_iff list.set(1))

lemma pending_step:
  assumes "trace_step tr e = Inr tr'" "trace_inv tr" "c \<in> set (tr_pending tr')"
  shows "(\<exists>t s. calls c t s e \<and> tr_openTurn tr' = Some t \<and> tr_openStep tr' = Some s)
    \<or> (c \<in> set (tr_pending tr) \<and> \<not> answers c e \<and> \<not> ends_step e
       \<and> tr_openTurn tr' = tr_openTurn tr \<and> tr_openStep tr' = tr_openStep tr)"
  using assms
  by (cases "ev_data e")
    (auto simp: trace_step_def validateEvent_def keep_transition_def requireOpenStep_def trace_inv_def
      applyTransition_def answers_def ends_step_def calls_def Let_def rbind_Inr_iff split: if_splits)

lemma pending_unanswered:
  "seedSession es = Inr tr \<Longrightarrow> c \<in> set (tr_pending tr) \<Longrightarrow>
     \<exists>t s. tr_openTurn tr = Some t \<and> tr_openStep tr = Some s \<and> unanswered_call es c t s"
proof (induction es arbitrary: tr rule: rev_induct)
  case Nil
  then show ?case by (auto simp: seedSession_def freshTrace_def)
next
  case (snoc e es)
  then obtain tr0 where s: "seedSession es = Inr tr0" "trace_step tr0 e = Inr tr"
    by (auto simp: seedSession_def replay_snoc split: sum.splits)
  then have "trace_inv tr0" by (metis seedSession_def trace.inv_replay)
  from pending_step [OF s(2) this snoc.prems(2)] show ?case
    using snoc.IH [OF s(1)] unanswered_call_new unanswered_call_snoc by fastforce
qed

section \<open>Properties\<close>

text \<open>A log the companion accepts is well bracketed and numbered: sequence numbers
  strictly increase, the turns opened are 1, 2, 3, ... in order, all but the open one are
  closed in the same order, and the open step lies in the open turn.\<close>

theorem accepted_log_numbered:
  assumes "seedSession es = Inr tr"
  shows "sorted_wrt (<) (map ev_seq es)
    \<and> turn_ends es = [1..tr_nextTurn tr - 1]
    \<and> turn_starts es = [1..tr_nextTurn tr - 1] @ (case tr_openTurn tr of None \<Rightarrow> [] | Some t \<Rightarrow> [tr_nextTurn tr])
    \<and> (tr_openStep tr \<noteq> None \<longrightarrow> tr_openTurn tr \<noteq> None)"
proof -
  have "trace_inv tr" using assms by (simp add: seedSession_def trace.inv_replay)
  with seedSession_turns [OF assms] replay_seqs_increase [of freshTrace es tr] assms show ?thesis
    by (auto simp: seedSession_def trace_inv_def split: option.splits)
qed

definition plain_event :: "int \<Rightarrow> event_data \<Rightarrow> session_event" where
  "plain_event q d = \<lparr>ev_seq = q, ev_time = 0, ev_data = d, ev_ignorable = False,
     ev_surface_op = None, ev_sources = None\<rparr>"

definition tool_result_event :: "int \<Rightarrow> string \<Rightarrow> session_event" where
  "tool_result_event q c = \<lparr>ev_seq = q, ev_time = 0,
     ev_data = ToolResult \<lparr>tr_turn = 1, tr_step = 1,
        tr_message = \<lparr>tm_id = ''m'', tm_source_call = c, tm_call = c, tm_is_error = None,
                      tm_content = []\<rparr>, tr_error = None, tr_meta = None\<rparr>,
     ev_ignorable = False, ev_surface_op = Some append_op, ev_sources = None\<rparr>"

definition sample_turn :: "session_event list" where
  "sample_turn = [plain_event 0 (TurnStart 1), plain_event 1 (StepStart 1 1),
     plain_event 2 (ToolCall 1 1 ''c'' ''read'' ''{}''), tool_result_event 3 ''c'']"

lemma sample_turn_trace:
  "seedSession sample_turn = Inr \<lparr>tr_lastSeq = 3, tr_openTurn = Some 1, tr_openStep = Some 1,
     tr_nextTurn = 1, tr_nextStep = 1, tr_pending = []\<rparr>"
  by code_simp

lemma accepted_log_numbered_witness: "turn_starts sample_turn = [1]"
  using accepted_log_numbered [OF sample_turn_trace] by simp

text \<open>Every tool result the companion accepts on the surface answers a call of its own
  turn and step that nothing since has answered, unless it is the synthetic error of a call
  that was never started.\<close>

theorem tool_result_answers_call:
  assumes "seedSession (es @ [e]) = Inr tr" and "ev_data e = ToolResult d"
    and "ev_surface_op e = Some append_op"
    and "\<not> (tm_is_error (tr_message d) = Some True \<and> map_option snd (tr_error d) = Some TOOL_NOT_STARTED)"
  shows "unanswered_call es (tm_source_call (tr_message d)) (tr_turn d) (tr_step d)"
proof -
  from assms(1) obtain tr0 where s: "seedSession es = Inr tr0" "trace_step tr0 e = Inr tr"
    by (auto simp: seedSession_def replay_snoc split: sum.splits)
  from s(2) assms(2-4) have "tm_source_call (tr_message d) \<in> set (tr_pending tr0)"
    "tr_openTurn tr0 = Some (tr_turn d)" "tr_openStep tr0 = Some (tr_step d)"
    by (auto simp: trace_step_def validateEvent_def requireOpenStep_def Let_def rbind_Inr_iff split: if_splits)
  with pending_unanswered [OF s(1)] show ?thesis by fastforce
qed

lemma tool_result_answers_call_witness:
  "unanswered_call (take 3 sample_turn) ''c'' 1 1"
proof -
  have split: "sample_turn = take 3 sample_turn @ [tool_result_event 3 ''c'']"
    by (simp add: sample_turn_def)
  define d where "d = \<lparr>tr_turn = 1, tr_step = 1, tr_message = \<lparr>tm_id = ''m'', tm_source_call = ''c'',
      tm_call = ''c'', tm_is_error = None, tm_content = []\<rparr>, tr_error = None, tr_meta = None\<rparr>"
  have "ev_data (tool_result_event 3 ''c'') = ToolResult d"
    by (simp add: tool_result_event_def d_def)
  then have "unanswered_call (take 3 sample_turn) (tm_source_call (tr_message d)) (tr_turn d) (tr_step d)"
    using tool_result_answers_call [of "take 3 sample_turn" "tool_result_event 3 ''c''" _ d]
      sample_turn_trace split
    by (simp add: tool_result_event_def d_def)
  then show ?thesis by (simp add: d_def)
qed

end
