(* ===== verification/Session_Repair.thy ===== *)
theory Session_Repair
  imports Session_Surface Session_Trace
begin

text \<open>
  Crash recovery of an interrupted log, \<open>src/packages/core/session/src/repair.ts\<close>: the scan
  for the open turn, step and unanswered calls, and the synthetic events that close them. The
  lemmas show that the closers answer exactly the dangling calls, that the trace and the
  surface accept them, and that a repaired log needs no repair.
\<close>

section \<open>The scan\<close>

definition TOOL_OUTCOME_UNKNOWN :: string where
  "TOOL_OUTCOME_UNKNOWN = ''TOOL_OUTCOME_UNKNOWN''"

record repair_scan =
  rs_turn :: "int option"
  rs_step :: "int option"
  rs_calls :: "(string, int \<times> int option) js_map"

definition scan_start :: repair_scan where
  "scan_start = \<lparr>rs_turn = None, rs_step = None, rs_calls = []\<rparr>"

fun register_calls :: "int \<Rightarrow> content_block list \<Rightarrow> (string, int \<times> int option) js_map \<Rightarrow>
    (string, int \<times> int option) js_map" where
  "register_calls step [] m = m"
| "register_calls step (b # bs) m = register_calls step bs
     (case b of ToolCallBlock c _ _ \<Rightarrow> map_set c (step, None) m | _ \<Rightarrow> m)"

definition scan_event :: "repair_scan \<Rightarrow> session_event \<Rightarrow> repair_scan" where
  "scan_event s e = (case ev_data e of
       TurnStart turn \<Rightarrow> \<lparr>rs_turn = Some turn, rs_step = None, rs_calls = []\<rparr>
     | TurnEnd _ _ \<Rightarrow> \<lparr>rs_turn = None, rs_step = None, rs_calls = []\<rparr>
     | StepStart _ step \<Rightarrow> s\<lparr>rs_step := Some step\<rparr>
     | StepEnd _ _ \<Rightarrow> s\<lparr>rs_calls := [], rs_step := None\<rparr>
     | AssistantMessage _ step m _ \<Rightarrow> s\<lparr>rs_calls := register_calls step (am_content m) (rs_calls s)\<rparr>
     | ToolCall _ _ c _ _ \<Rightarrow>
         (case map_get (rs_calls s) c of
            Some (step, _) \<Rightarrow> s\<lparr>rs_calls := map_set c (step, Some (ev_seq e)) (rs_calls s)\<rparr>
          | None \<Rightarrow> s)
     | ToolResult d \<Rightarrow> s\<lparr>rs_calls := map_delete (tm_source_call (tr_message d)) (rs_calls s)\<rparr>
     | _ \<Rightarrow> s)"

definition scan_log :: "session_event list \<Rightarrow> repair_scan" where
  "scan_log es = foldl scan_event scan_start es"

section \<open>The closers\<close>

definition unknown_outcome_text :: string where
  "unknown_outcome_text = ''The tool call was interrupted after it was recorded, but no result was durably recorded. Its outcome is unknown. Decide whether to retry from the tool semantics: retry only if the operation is read-only or idempotent; if it may have side effects, first verify external state or ask the user. Do not retry blindly.''"

definition not_started_text :: string where
  "not_started_text = ''The tool call was interrupted before the Harness recorded it as started. Retry it if it is still needed.''"

definition call_closer :: "int \<Rightarrow> int \<Rightarrow> int \<Rightarrow> string \<Rightarrow> int \<Rightarrow> int option \<Rightarrow> session_event" where
  "call_closer turn time q c step callSeq =
     \<lparr>ev_seq = q, ev_time = time,
      ev_data = ToolResult \<lparr>tr_turn = turn, tr_step = step,
         tr_message = \<lparr>tm_id = ''interrupted-tool-result-'' @ c @ ''-'' @ show_int q,
            tm_source_call = c, tm_call = c, tm_is_error = Some True,
            tm_content = [TextBlock (if callSeq \<noteq> None then unknown_outcome_text else not_started_text)]\<rparr>,
         tr_error = Some (if callSeq \<noteq> None then (''ToolOutcomeUnknownError'', TOOL_OUTCOME_UNKNOWN)
                          else (''ToolNotStartedError'', TOOL_NOT_STARTED)),
         tr_meta = None\<rparr>,
      ev_ignorable = False, ev_surface_op = Some append_op,
      ev_sources = map_option (\<lambda>s. seqs_json [s]) callSeq\<rparr>"

fun call_closers :: "int \<Rightarrow> int \<Rightarrow> int \<Rightarrow> (string, int \<times> int option) js_map \<Rightarrow> session_event list" where
  "call_closers turn time q [] = []"
| "call_closers turn time q ((c, (step, callSeq)) # m) =
     call_closer turn time q c step callSeq # call_closers turn time (q + 1) m"

definition boundary_closer :: "int \<Rightarrow> int \<Rightarrow> event_data \<Rightarrow> session_event" where
  "boundary_closer q time d = \<lparr>ev_seq = q, ev_time = time, ev_data = d, ev_ignorable = False,
     ev_surface_op = None, ev_sources = None\<rparr>"

definition interruptedTurnClosers :: "session_event list \<Rightarrow> session_event list" where
  "interruptedTurnClosers es =
     (let s = scan_log es in
      case rs_turn s of
        None \<Rightarrow> []
      | Some turn \<Rightarrow>
          if es = [] then []
          else
            let q = ev_seq (last es) + 1;
                time = ev_time (last es);
                results = call_closers turn time q (rs_calls s);
                q' = q + int (length results);
                steps = (case rs_step s of
                    None \<Rightarrow> [] | Some step \<Rightarrow> [boundary_closer q' time (StepEnd turn step)])
            in results @ steps
               @ [boundary_closer (q' + int (length steps)) time (TurnEnd turn EndInterrupted)])"

section \<open>Facts about the scan\<close>

lemma scan_log_snoc: "scan_log (es @ [e]) = scan_event (scan_log es) e"
  by (simp add: scan_log_def)

lemma scan_log_Nil: "scan_log [] = scan_start"
  by (simp add: scan_log_def)

lemma register_calls_ok: "map_ok m \<Longrightarrow> map_ok (register_calls step bs m)"
  by (induction step bs m rule: register_calls.induct) (auto simp: map_simps split: content_block.split)

definition tool_ids :: "content_block list \<Rightarrow> string set" where
  "tool_ids bs = {c. \<exists>n a. ToolCallBlock c n a \<in> set bs}"

lemma register_calls_get:
  "map_get (register_calls step bs m) c = (if c \<in> tool_ids bs then Some (step, None) else map_get m c)"
  by (induction step bs m rule: register_calls.induct)
    (auto simp: map_simps tool_ids_def split: content_block.split)

lemma scan_calls_ok: "map_ok (rs_calls (scan_log es))"
proof (induction es rule: rev_induct)
  case Nil
  then show ?case by (simp add: scan_log_Nil scan_start_def map_simps)
next
  case (snoc e es)
  then show ?case
    by (auto simp: scan_log_snoc scan_event_def map_simps register_calls_ok split: event_data.split option.split)
qed

text \<open>The cited call is in the log.\<close>

lemma scan_call_seq:
  "map_get (rs_calls (scan_log es)) c = Some (step, Some q) \<Longrightarrow> q \<in> set (map ev_seq es)"
proof (induction es rule: rev_induct)
  case Nil
  then show ?case by (simp add: scan_log_Nil scan_start_def map_simps)
next
  case (snoc e es)
  then show ?case
    by (auto simp: scan_log_snoc scan_event_def map_simps register_calls_get
        split: event_data.splits option.splits if_splits)
qed

text \<open>The scan against the trace of the same log.\<close>

definition scan_matches :: "session_trace \<Rightarrow> repair_scan \<Rightarrow> bool" where
  "scan_matches tr s \<longleftrightarrow> rs_turn s = tr_openTurn tr \<and> rs_step s = tr_openStep tr
     \<and> (\<forall>c step cs. map_get (rs_calls s) c = Some (step, cs) \<longrightarrow>
          tr_openStep tr = Some step \<and> (cs \<noteq> None \<longrightarrow> c \<in> set (tr_pending tr)))"

lemma scan_matches_step:
  assumes "scan_matches tr s" "trace_inv tr" "trace_step tr e = Inr tr'"
  shows "scan_matches tr' (scan_event s e)"
proof (cases "ev_data e")
  case (ToolCall turn step c n a)
  from assms(3) ToolCall have tr': "tr_openTurn tr' = tr_openTurn tr" "tr_openStep tr' = tr_openStep tr"
    "set (tr_pending tr') = insert c (set (tr_pending tr))"
    by (auto simp: trace_step_def validateEvent_def keep_transition_def requireOpenStep_def applyTransition_def
        Let_def rbind_Inr_iff split: if_splits)
  show ?thesis
  proof (cases "map_get (rs_calls s) c")
    case None
    with assms(1) ToolCall tr' show ?thesis
      by (auto simp: scan_matches_def scan_event_def)
  next
    case (Some sc)
    obtain step' cs where sc: "sc = (step', cs)" by (cases sc)
    with Some assms(1) have "tr_openStep tr = Some step'" by (simp add: scan_matches_def)
    moreover have "scan_event s e = s\<lparr>rs_calls := map_set c (step', Some (ev_seq e)) (rs_calls s)\<rparr>"
      using ToolCall Some sc by (simp add: scan_event_def)
    ultimately show ?thesis
      using assms(1) tr' unfolding scan_matches_def by (simp add: map_simps)
  qed
qed (use assms in \<open>auto simp: trace_step_def validateEvent_def keep_transition_def requireOpenStep_def
      applyTransition_def scan_event_def scan_matches_def trace_inv_def map_simps register_calls_get Let_def
      rbind_Inr_iff split: if_splits option.splits\<close>)

lemma scan_matches_log: "seedSession es = Inr tr \<Longrightarrow> scan_matches tr (scan_log es)"
proof (induction es arbitrary: tr rule: rev_induct)
  case Nil
  then show ?case
    by (auto simp: seedSession_def freshTrace_def scan_log_Nil scan_start_def scan_matches_def map_simps)
next
  case (snoc e es)
  then obtain tr0 where "seedSession es = Inr tr0" "trace_step tr0 e = Inr tr"
    by (auto simp: seedSession_def replay_snoc split: sum.splits)
  with snoc.IH scan_matches_step trace.inv_replay show ?case
    by (metis scan_log_snoc seedSession_def)
qed

section \<open>Facts about the closers\<close>

lemma length_call_closers [simp]: "length (call_closers turn time q m) = length m"
  by (induction turn time q m rule: call_closers.induct) auto

lemma call_closers_data:
  "e \<in> set (call_closers turn time q m) \<Longrightarrow> \<exists>d. ev_data e = ToolResult d"
  by (induction turn time q m rule: call_closers.induct) (auto simp: call_closer_def)

lemma call_closer_step:
  assumes "tr_openTurn tr = Some turn" "tr_openStep tr = Some step" "tr_lastSeq tr < q"
    "cs \<noteq> None \<longrightarrow> c \<in> set (tr_pending tr)"
  shows "trace_step tr (call_closer turn time q c step cs) =
    Inr (tr\<lparr>tr_lastSeq := q, tr_pending := filter (\<lambda>x. x \<noteq> c) (tr_pending tr)\<rparr>)"
  using assms
  by (auto simp: trace_step_def validateEvent_def call_closer_def requireOpenStep_def keep_transition_def
      applyTransition_def Let_def)

lemma replay_call_closers:
  assumes "tr_openTurn tr = Some turn" "tr_openStep tr = Some st" "tr_lastSeq tr < q"
    "distinct (map fst m)"
    "\<forall>c step cs. (c, (step, cs)) \<in> set m \<longrightarrow> step = st \<and> (cs \<noteq> None \<longrightarrow> c \<in> set (tr_pending tr))"
  shows "\<exists>tr'. replay trace_step tr (call_closers turn time q m) = Inr tr'
     \<and> tr_openTurn tr' = Some turn \<and> tr_openStep tr' = Some st \<and> tr_lastSeq tr' < q + int (length m)"
  using assms
proof (induction m arbitrary: tr q)
  case Nil
  then show ?case by simp
next
  case (Cons x m)
  obtain c step cs where x: "x = (c, (step, cs))" by (cases x) auto
  have "step = st" and call: "cs \<noteq> None \<longrightarrow> c \<in> set (tr_pending tr)"
    using Cons.prems(5) x by auto
  let ?tr = "tr\<lparr>tr_lastSeq := q, tr_pending := filter (\<lambda>x. x \<noteq> c) (tr_pending tr)\<rparr>"
  have step: "trace_step tr (call_closer turn time q c step cs) = Inr ?tr"
    using Cons.prems(1-3) call \<open>step = st\<close> by (intro call_closer_step) auto
  have "\<exists>tr'. replay trace_step ?tr (call_closers turn time (q + 1) m) = Inr tr'
     \<and> tr_openTurn tr' = Some turn \<and> tr_openStep tr' = Some st \<and> tr_lastSeq tr' < (q + 1) + int (length m)"
  proof (rule Cons.IH)
    have "c' \<noteq> c" if "(c', v) \<in> set m" for c' v
      using Cons.prems(4) x that by (metis distinct.simps(2) fst_conv image_eqI list.simps(9) set_map)
    then show "\<forall>c' step cs. (c', step, cs) \<in> set m \<longrightarrow> step = st \<and> (cs \<noteq> None \<longrightarrow> c' \<in> set (tr_pending ?tr))"
      using Cons.prems(5) by simp
  qed (use Cons.prems(1,2,4) x in simp_all)
  then obtain tr' where "replay trace_step ?tr (call_closers turn time (q + 1) m) = Inr tr'"
    "tr_openTurn tr' = Some turn" "tr_openStep tr' = Some st" "tr_lastSeq tr' < q + int (length (x # m))"
    by auto
  then show ?case using x step by simp
qed

text \<open>On the surface every call closer appends itself and the boundaries change nothing.\<close>

lemma call_closer_surface:
  assumes "case cs of None \<Rightarrow> True | Some s \<Rightarrow> 0 \<le> s \<and> s < q \<and> safe_int s"
  shows "applySurfaceEvent st (call_closer turn time q c step cs) q es base =
    Inr (st\<lparr>ss_nodes := ss_nodes st @ [q]\<rparr>, None)"
  using assms
  by (cases cs)
    (simp_all add: applySurfaceEvent_def planSurfaceEvent_def surfaceOpOf_def call_closer_def ev_type_def
      event_type_of_def isSurfaceEligibleType_def SURFACE_EVENT_TYPES_def assertProvenance_def seqs_json_def
      event_seq_of_def as_safe_def append_op_def)

lemma boundary_closer_surface:
  assumes "d = StepEnd turn step \<or> d = TurnEnd turn r"
  shows "applySurfaceEvent st (boundary_closer q time d) q es base = Inr (st, None)"
  using assms
  by (auto simp: applySurfaceEvent_def planSurfaceEvent_def surfaceOpOf_def boundary_closer_def ev_type_def
      event_type_of_def isSurfaceEligibleType_def SURFACE_EVENT_TYPES_def)

lemma replay_closers_surface:
  assumes "\<forall>c step s. (c, (step, Some s)) \<in> set m \<longrightarrow> 0 \<le> s \<and> s < int (length pre) \<and> safe_int s"
  shows "replay surface_step (pre, st, reps) (call_closers turn time (int (length pre)) m) =
    Inr (pre @ call_closers turn time (int (length pre)) m,
         st\<lparr>ss_nodes := ss_nodes st @ map int [length pre..<length pre + length m]\<rparr>, reps)"
  using assms
proof (induction m arbitrary: pre st)
  case Nil
  then show ?case by simp
next
  case (Cons x m)
  obtain c step cs where x: "x = (c, (step, cs))" by (cases x) auto
  let ?q = "int (length pre)"
  let ?e = "call_closer turn time ?q c step cs"
  let ?st = "st\<lparr>ss_nodes := ss_nodes st @ [?q]\<rparr>"
  have "applySurfaceEvent st ?e ?q pre 0 = Inr (?st, None)"
    using Cons.prems x by (intro call_closer_surface) (auto split: option.split)
  then have step: "surface_step (pre, st, reps) ?e = Inr (pre @ [?e], ?st, reps)"
    by (simp add: surface_step_def)
  have q1: "int (length (pre @ [?e])) = ?q + 1" by simp
  have "replay surface_step (pre @ [?e], ?st, reps) (call_closers turn time (int (length (pre @ [?e]))) m) =
    Inr ((pre @ [?e]) @ call_closers turn time (int (length (pre @ [?e]))) m,
         ?st\<lparr>ss_nodes := ss_nodes ?st @ map int [length (pre @ [?e])..<length (pre @ [?e]) + length m]\<rparr>, reps)"
    using Cons.prems by (intro Cons.IH) fastforce
  then show ?case
    unfolding q1 using step x by (simp add: upt_conv_Cons del: upt_Suc)
qed

text \<open>A closed turn has nothing to repair.\<close>

lemma closers_balanced: "rs_turn (scan_log es) = None \<Longrightarrow> interruptedTurnClosers es = []"
  by (simp add: interruptedTurnClosers_def)

lemma closers_end_turn:
  "interruptedTurnClosers es \<noteq> [] \<Longrightarrow> rs_turn (scan_log (es @ interruptedTurnClosers es)) = None"
  by (auto simp: interruptedTurnClosers_def scan_log_def scan_event_def boundary_closer_def Let_def
      split: option.splits)

text \<open>The trace accepts the closers.\<close>

lemma seedSession_last: "seedSession es = Inr tr \<Longrightarrow> es \<noteq> [] \<Longrightarrow> tr_lastSeq tr = ev_seq (last es)"
  using replay_seqs_increase [of freshTrace es tr] by (simp add: seedSession_def last_map)

lemma closers_trace:
  assumes seed: "seedSession es = Inr tr"
  shows "\<exists>tr'. seedSession (es @ interruptedTurnClosers es) = Inr tr' \<and> tr_openTurn tr' = None"
proof (cases "rs_turn (scan_log es)")
  case None
  with scan_matches_log [OF seed] seed show ?thesis
    by (simp add: closers_balanced scan_matches_def)
next
  case (Some turn)
  define s where "s = scan_log es"
  note match = scan_matches_log [OF seed, folded s_def]
  have inv: "trace_inv tr" using seed by (simp add: seedSession_def trace.inv_replay)
  have ne: "es \<noteq> []" using Some by (auto simp: scan_log_Nil scan_start_def)
  have open_turn: "tr_openTurn tr = Some turn" using match Some s_def by (simp add: scan_matches_def)
  let ?q = "ev_seq (last es) + 1"
  let ?time = "ev_time (last es)"
  have last: "tr_lastSeq tr < ?q" using seedSession_last [OF seed ne] by simp
  have seed_app: "seedSession (es @ fs) = replay trace_step tr fs" for fs
    using seed by (simp add: seedSession_def trace.incremental)
  show ?thesis
  proof (cases "rs_step s")
    case None
    then have no_step: "tr_openStep tr = None" using match by (simp add: scan_matches_def)
    have "rs_calls s = []"
    proof (rule ccontr)
      assume "rs_calls s \<noteq> []"
      then obtain c v where "map_get (rs_calls s) c = Some v"
        by (metis list.set_intros(1) map_get_mem prod.exhaust scan_calls_ok neq_Nil_conv s_def)
      with match no_step show False by (cases v) (auto simp: scan_matches_def)
    qed
    with None Some ne have "interruptedTurnClosers es = [boundary_closer ?q ?time (TurnEnd turn EndInterrupted)]"
      by (simp add: interruptedTurnClosers_def s_def Let_def)
    with open_turn no_step last show ?thesis
      by (simp add: seed_app trace_step_def validateEvent_def boundary_closer_def keep_transition_def
          applyTransition_def Let_def)
  next
    case (Some st)
    then have open_step: "tr_openStep tr = Some st" using match by (simp add: scan_matches_def)
    have "step = st \<and> (cs \<noteq> None \<longrightarrow> c \<in> set (tr_pending tr))" if "(c, step, cs) \<in> set (rs_calls s)" for c step cs
      using match that open_step scan_calls_ok [of es] by (auto simp: scan_matches_def map_get_mem s_def)
    then obtain tr1 where tr1: "replay trace_step tr (call_closers turn ?time ?q (rs_calls s)) = Inr tr1"
      "tr_openTurn tr1 = Some turn" "tr_openStep tr1 = Some st" "tr_lastSeq tr1 < ?q + int (length (rs_calls s))"
      using replay_call_closers [OF open_turn open_step last] scan_calls_ok [of es]
      by (metis map_ok_def s_def)
    have "interruptedTurnClosers es = call_closers turn ?time ?q (rs_calls s) @
        [boundary_closer (?q + int (length (rs_calls s))) ?time (StepEnd turn st),
         boundary_closer (?q + int (length (rs_calls s)) + 1) ?time (TurnEnd turn EndInterrupted)]"
      using Some \<open>rs_turn (scan_log es) = Some turn\<close> ne
      by (simp add: interruptedTurnClosers_def s_def Let_def)
    with tr1 show ?thesis
      by (simp add: seed_app replay_append trace_step_def validateEvent_def boundary_closer_def
          requireOpenStep_def keep_transition_def applyTransition_def Let_def)
  qed
qed

lemma eligible_seqs_append: "eligible_seqs (es @ fs) = eligible_seqs es @ eligible_seqs fs"
  by (simp add: eligible_seqs_def)

lemma eligible_boundary:
  "eligible_seqs [boundary_closer q time (StepEnd turn step)] = []"
  "eligible_seqs [boundary_closer q time (TurnEnd turn r)] = []"
  "eligible_seqs [] = []"
  by (simp_all add: eligible_seqs_def boundary_closer_def ev_type_def event_type_of_def
      isSurfaceEligibleType_def SURFACE_EVENT_TYPES_def)

lemma eligible_call_closers:
  "eligible_seqs (call_closers turn time (int n) m) = map int [n..<n + length m]"
proof (induction m arbitrary: n)
  case Nil
  then show ?case by (simp add: eligible_seqs_def)
next
  case (Cons x m)
  obtain c step cs where x: "x = (c, (step, cs))" by (cases x) auto
  have "eligible_seqs [call_closer turn time (int n) c step cs] = [int n]"
    by (simp add: eligible_seqs_def call_closer_def ev_type_def event_type_of_def
        isSurfaceEligibleType_def SURFACE_EVENT_TYPES_def)
  moreover have "eligible_seqs (call_closers turn time (int (Suc n)) m) = map int [Suc n..<Suc n + length m]"
    by (rule Cons.IH)
  ultimately show ?case
    using eligible_seqs_append [of "[call_closer turn time (int n) c step cs]"] x
    by (simp add: upt_conv_Cons add.commute del: upt_Suc)
qed

text \<open>The surface accepts them too; the sequence numbers of the log are safe integers.\<close>

lemma closers_surface:
  assumes fold: "foldSurface es = Inr (nodes, reps)" and size: "safe_int (int (length es))"
  shows "foldSurface (es @ interruptedTurnClosers es) =
    Inr (nodes @ eligible_seqs (interruptedTurnClosers es), reps)"
proof (cases "interruptedTurnClosers es = []")
  case True
  with fold show ?thesis by (simp add: eligible_seqs_def)
next
  case False
  then obtain turn where turn: "rs_turn (scan_log es) = Some turn" and ne: "es \<noteq> []"
    by (auto simp: interruptedTurnClosers_def Let_def split: option.splits if_splits)
  define s where "s = scan_log es"
  obtain st where full: "replay surface_step surface_start es = Inr (es, st, reps)"
    and nodes: "nodes = ss_nodes st" and inv: "surface_inv (es, st, reps)"
    using foldSurface_Inr [OF fold] by blast
  have seqs: "map ev_seq es = map int [0..<length es]" using inv by (simp add: surface_inv_def)
  have "ev_seq (last es) = int (length es) - 1"
    using arg_cong [OF seqs, of last] ne by (simp add: last_map last_conv_nth of_nat_diff Suc_leI)
  then have q: "ev_seq (last es) + 1 = int (length es)" by simp
  let ?time = "ev_time (last es)"
  let ?n = "length es"
  let ?k = "length (rs_calls s)"
  let ?results = "call_closers turn ?time (int ?n) (rs_calls s)"
  let ?steps = "case rs_step s of None \<Rightarrow> []
      | Some step \<Rightarrow> [boundary_closer (int ?n + int ?k) ?time (StepEnd turn step)]"
  let ?close = "boundary_closer (int ?n + int ?k + int (length ?steps)) ?time (TurnEnd turn EndInterrupted)"
  let ?st = "st\<lparr>ss_nodes := ss_nodes st @ map int [?n..<?n + ?k]\<rparr>"
  have closers: "interruptedTurnClosers es = ?results @ ?steps @ [?close]"
    using turn ne q
    by (cases "rs_step (scan_log es)") (simp_all add: interruptedTurnClosers_def s_def Let_def)
  have cited: "0 \<le> v \<and> v < int ?n \<and> safe_int v" if "(c, step, Some v) \<in> set (rs_calls s)" for c step v
  proof -
    have "v \<in> set (map ev_seq es)"
      using that scan_calls_ok [of es] scan_call_seq [of es c step v] by (simp add: map_get_mem s_def)
    then have "0 \<le> v \<and> v < int ?n" unfolding seqs by auto
    with size show ?thesis by (auto intro: safe_int_mono)
  qed
  have r1: "replay surface_step (es, st, reps) ?results = Inr (es @ ?results, ?st, reps)"
    using cited by (intro replay_closers_surface) blast
  have r2: "replay surface_step (es @ ?results, ?st, reps) ?steps = Inr (es @ ?results @ ?steps, ?st, reps)"
    by (simp add: surface_step_def boundary_closer_surface split: option.split)
  have r3: "surface_step (es @ ?results @ ?steps, ?st, reps) ?close = Inr (es @ ?results @ ?steps @ [?close], ?st, reps)"
    using boundary_closer_surface [of "TurnEnd turn EndInterrupted"]
    by (simp add: surface_step_def add.assoc)
  have "replay surface_step surface_start (es @ interruptedTurnClosers es) =
      Inr (es @ interruptedTurnClosers es, ?st, reps)"
    unfolding closers by (simp only: replay_append full r1 r2 r3 replay.simps sum.case)
  moreover have "eligible_seqs (interruptedTurnClosers es) = map int [?n..<?n + ?k]"
    unfolding closers by (simp add: eligible_seqs_append eligible_call_closers eligible_boundary split: option.split)
  ultimately show ?thesis by (simp add: foldSurface_replay nodes)
qed

section \<open>Dangling calls\<close>

text \<open>
  The tool results a transcript still lacks: an assistant message requested the call, and since
  then neither its result nor a boundary that closes the step or the turn has been logged.
\<close>

definition resolves :: "string \<Rightarrow> session_event \<Rightarrow> bool" where
  "resolves c e \<longleftrightarrow> (case ev_data e of
       ToolResult d \<Rightarrow> tm_source_call (tr_message d) = c
     | TurnStart _ \<Rightarrow> True | TurnEnd _ _ \<Rightarrow> True | StepEnd _ _ \<Rightarrow> True | _ \<Rightarrow> False)"

definition requests :: "string \<Rightarrow> session_event \<Rightarrow> bool" where
  "requests c e \<longleftrightarrow> (case ev_data e of
     AssistantMessage _ _ m _ \<Rightarrow> c \<in> tool_ids (am_content m) | _ \<Rightarrow> False)"

definition dangling :: "session_event list \<Rightarrow> string \<Rightarrow> bool" where
  "dangling es c \<longleftrightarrow> (\<exists>xs e ys. es = xs @ e # ys \<and> requests c e \<and> (\<forall>y \<in> set ys. \<not> resolves c y))"

lemma dangling_snoc: "dangling (es @ [e]) c \<longleftrightarrow> requests c e \<or> (dangling es c \<and> \<not> resolves c e)"
proof
  assume "dangling (es @ [e]) c"
  then obtain xs f ys where d: "es @ [e] = xs @ f # ys" "requests c f" "\<forall>y \<in> set ys. \<not> resolves c y"
    by (auto simp: dangling_def)
  show "requests c e \<or> (dangling es c \<and> \<not> resolves c e)"
  proof (cases ys rule: rev_cases)
    case Nil
    with d show ?thesis by simp
  next
    case (snoc zs z)
    with d show ?thesis by (auto simp: dangling_def)
  qed
next
  assume "requests c e \<or> (dangling es c \<and> \<not> resolves c e)"
  then show "dangling (es @ [e]) c"
  proof
    assume "requests c e"
    then show ?thesis unfolding dangling_def by (metis empty_iff list.set(1))
  next
    assume "dangling es c \<and> \<not> resolves c e"
    then obtain xs f ys where "es = xs @ f # ys" "requests c f" "\<forall>y \<in> set ys. \<not> resolves c y" "\<not> resolves c e"
      by (auto simp: dangling_def)
    then have "es @ [e] = xs @ f # (ys @ [e]) \<and> requests c f \<and> (\<forall>y \<in> set (ys @ [e]). \<not> resolves c y)"
      by auto
    then show ?thesis unfolding dangling_def by blast
  qed
qed

lemma scan_keys_dangling: "map_get (rs_calls (scan_log es)) c \<noteq> None \<longleftrightarrow> dangling es c"
proof (induction es rule: rev_induct)
  case Nil
  then show ?case by (simp add: scan_log_Nil scan_start_def map_simps dangling_def)
next
  case (snoc e es)
  show ?case
    unfolding scan_log_snoc dangling_snoc snoc.IH [symmetric]
    by (cases "ev_data e")
      (auto simp: scan_event_def requests_def resolves_def map_simps register_calls_get split: option.split)
qed

definition answered_calls :: "session_event list \<Rightarrow> string list" where
  "answered_calls es = concat (map (\<lambda>e. case ev_data e of
     ToolResult d \<Rightarrow> [tm_source_call (tr_message d)] | _ \<Rightarrow> []) es)"

lemma answered_call_closers: "answered_calls (call_closers turn time q m) = map fst m"
  by (induction turn time q m rule: call_closers.induct) (simp_all add: answered_calls_def call_closer_def)

lemma answered_closers:
  assumes "rs_turn (scan_log es) = Some turn" "es \<noteq> []"
  shows "answered_calls (interruptedTurnClosers es) = map fst (rs_calls (scan_log es))"
  using assms answered_call_closers
  by (auto simp: interruptedTurnClosers_def answered_calls_def boundary_closer_def Let_def split: option.split)

section \<open>Properties\<close>

text \<open>C27. Repairing an accepted log gives a log that is accepted again, on both layers, with no
  turn, step or call left open: the closers keep the trace's rules and each synthetic result
  joins the surface at its end, nothing else moving.\<close>

theorem repaired_log_accepted:
  assumes "seedSession es = Inr tr" and "foldSurface es = Inr (nodes, reps)"
    and "safe_int (int (length es))"
  shows "(\<exists>tr'. seedSession (es @ interruptedTurnClosers es) = Inr tr'
      \<and> tr_openTurn tr' = None \<and> tr_openStep tr' = None \<and> tr_pending tr' = [])
    \<and> foldSurface (es @ interruptedTurnClosers es) = Inr (nodes @ eligible_seqs (interruptedTurnClosers es), reps)"
proof -
  obtain tr' where "seedSession (es @ interruptedTurnClosers es) = Inr tr'" "tr_openTurn tr' = None"
    using closers_trace [OF assms(1)] by blast
  moreover from this have "trace_inv tr'" by (simp add: seedSession_def trace.inv_replay)
  ultimately show ?thesis
    using closers_surface [OF assms(2,3)] by (auto simp: trace_inv_def split: option.splits)
qed

definition sample_crash :: "session_event list" where
  "sample_crash = [plain_event 0 (TurnStart 1), plain_event 1 (StepStart 1 1),
     (plain_event 2 (AssistantMessage 1 1 \<lparr>am_id = ''a'', am_provider = ''p'', am_model = ''m'', am_replay = None,
        am_content = [ToolCallBlock ''c'' ''read'' ''{}'', ToolCallBlock ''d'' ''write'' ''{}'']\<rparr> None))
       \<lparr>ev_surface_op := Some append_op\<rparr>,
     plain_event 3 (ToolCall 1 1 ''c'' ''read'' ''{}'')]"

lemma sample_crash_accepted:
  "seedSession sample_crash = Inr \<lparr>tr_lastSeq = 3, tr_openTurn = Some 1, tr_openStep = Some 1,
     tr_nextTurn = 1, tr_nextStep = 1, tr_pending = [''c'']\<rparr>"
  "foldSurface sample_crash = Inr ([2], [])"
  "map ev_type (interruptedTurnClosers sample_crash) = [''tool/result'', ''tool/result'', ''step/end'', ''turn/end'']"
  "eligible_seqs (interruptedTurnClosers sample_crash) = [4, 5]"
  "answered_calls (interruptedTurnClosers sample_crash) = [''c'', ''d'']"
  by code_simp+

lemma repaired_log_accepted_witness:
  "foldSurface (sample_crash @ interruptedTurnClosers sample_crash) = Inr ([2, 4, 5], [])"
  using repaired_log_accepted [OF sample_crash_accepted(1,2)] sample_crash_accepted(4)
  by (simp add: sample_crash_def safe_int_code)

text \<open>The closers answer exactly the dangling calls, each once: a call gets a synthetic
  result if and only if an assistant message of the open step requested it and no result has
  been logged since.\<close>

theorem closers_answer_dangling:
  assumes "seedSession es = Inr tr"
  shows "distinct (answered_calls (interruptedTurnClosers es))
    \<and> set (answered_calls (interruptedTurnClosers es)) = {c. dangling es c}"
proof (cases "interruptedTurnClosers es = []")
  case True
  have "\<not> dangling es c" for c
  proof
    assume d: "dangling es c"
    then obtain step cs where "map_get (rs_calls (scan_log es)) c = Some (step, cs)"
      by (metis not_None_eq prod.exhaust scan_keys_dangling)
    with scan_matches_log [OF assms] have "tr_openStep tr = Some step"
      by (simp add: scan_matches_def)
    moreover have "trace_inv tr" using assms by (simp add: seedSession_def trace.inv_replay)
    ultimately have "rs_turn (scan_log es) \<noteq> None"
      using scan_matches_log [OF assms] by (simp add: scan_matches_def trace_inv_def)
    with True d show False
      by (auto simp: interruptedTurnClosers_def dangling_def Let_def split: option.splits if_splits)
  qed
  with True show ?thesis by (simp add: answered_calls_def)
next
  case False
  then obtain turn where "rs_turn (scan_log es) = Some turn" "es \<noteq> []"
    by (auto simp: interruptedTurnClosers_def Let_def split: option.splits if_splits)
  then have "answered_calls (interruptedTurnClosers es) = map fst (rs_calls (scan_log es))"
    by (rule answered_closers)
  with scan_calls_ok [of es] show ?thesis
    by (auto simp: map_ok_def scan_keys_dangling [symmetric] map_get_None)
qed

lemma closers_answer_dangling_witness: "{c. dangling sample_crash c} = {''c'', ''d''}"
  using closers_answer_dangling [OF sample_crash_accepted(1)] sample_crash_accepted(5) by simp

text \<open>
  Repair is idempotent: a repaired log, whatever log it came from, has nothing left to
  repair.\<close>

theorem repair_idempotent: "interruptedTurnClosers (es @ interruptedTurnClosers es) = []"
  using closers_balanced closers_end_turn by (cases "interruptedTurnClosers es = []") simp_all

end
