(* ===== verification/Session_Log.thy ===== *)
theory Session_Log
  imports Session_Surface Session_Header
begin

text \<open>
  The session object of \<open>src/packages/core/session/src/index.ts\<close>: construction from a seed,
  the append path, and the three cached reads (request header, request context, derived
  messages). The log, the surface manager and the caches are the session's state; a call
  returns the new state and either a value or the error it throws, and an error keeps what the
  call had already done. The clock and the verdict of the dispatched listeners are arguments.
  The lemmas show that every cached read equals the pure fold of the log.
\<close>

section \<open>The session\<close>

text \<open>\<open>SessionHeader\<close>.\<close>

record session_header =
  sh_id :: string
  sh_created :: int
  sh_cwd :: "string option"
  sh_parent :: "string option"
  sh_seed_length :: "int option"
  sh_origin :: "string option"
  sh_depth :: "int option"
  sh_preset :: "string option"
  sh_target :: "string option"

record session =
  se_header :: session_header
  se_log :: "session_event list"
  se_manager :: surface_manager
  se_first_live :: nat
  se_header_fold :: "epoch_header option"
  se_header_seq :: nat
  se_context_fold :: "request_context option"
  se_context_seq :: nat
  se_derived :: "message list"
  se_derived_nodes :: nat
  se_derived_gen :: nat

datatype session_error =
    LegacyHeaderDelta
  | AppendReentered
  | BadSurface surface_error
  | DispatchVeto
  | SeedEnvelope nat
  | SeedNotContiguous nat int
  | SeedSurface nat surface_error

text \<open>
  \<open>assertSupportedRequestHeader\<close>. The removed header reason \<open>fallback\<close> is not a value of
  \<open>header_reason\<close>, so only the removed event type remains to reject.
\<close>

definition assertSupportedRequestHeader :: "event_data \<Rightarrow> bool" where
  "assertSupportedRequestHeader d \<longleftrightarrow> event_type_of d \<noteq> ''request/header-delta''"

definition envelope_ok :: "session_event \<Rightarrow> bool" where
  "envelope_ok e \<longleftrightarrow> safe_int (ev_seq e) \<and> 0 \<le> ev_seq e \<and> safe_int (ev_time e)"

section \<open>Append\<close>

text \<open>
  How the session is attached: \<open>appending\<close> is the entry's flag, and \<open>veto\<close> says that an
  internal dispatch listener throws. A detached session has neither.
\<close>

datatype attachment = Detached | Attached bool bool

definition new_event :: "session \<Rightarrow> int \<Rightarrow> event_data \<Rightarrow> surface_intent \<Rightarrow> session_event" where
  "new_event s time d intent = \<lparr>ev_seq = int (length (se_log s)), ev_time = time, ev_data = d,
     ev_ignorable = False, ev_surface_op = si_op intent, ev_sources = si_sources intent\<rparr>"

definition append_event ::
    "session \<Rightarrow> int \<Rightarrow> event_data \<Rightarrow> surface_intent \<Rightarrow> attachment \<Rightarrow> (session_error, session_event) result \<times> session" where
  "append_event s time d intent at' =
     (if \<not> assertSupportedRequestHeader d then (Inl LegacyHeaderDelta, s)
      else if (case at' of Attached appending _ \<Rightarrow> appending | Detached \<Rightarrow> False) then (Inl AppendReentered, s)
      else
        let e = new_event s time d intent in
        case validateNext (se_log s) (se_manager s) e of
          (Some x, m) \<Rightarrow> (Inl (BadSurface x), s\<lparr>se_manager := m\<rparr>)
        | (None, m) \<Rightarrow>
            if (case at' of Attached _ veto \<Rightarrow> veto | Detached \<Rightarrow> False)
            then (Inl DispatchVeto, s\<lparr>se_manager := m\<rparr>)
            else (Inr e, s\<lparr>se_manager := m, se_log := se_log s @ [e]\<rparr>))"

section \<open>Construction\<close>

definition empty_session :: "session_header \<Rightarrow> session" where
  "empty_session h = \<lparr>se_header = h, se_log = [], se_manager = newManager 0, se_first_live = 0,
     se_header_fold = None, se_header_seq = 0, se_context_fold = None, se_context_seq = 0,
     se_derived = [], se_derived_nodes = 0, se_derived_gen = 0\<rparr>"

text \<open>The loop of the constructor over the seed from index \<open>i\<close> on.\<close>

fun seed_loop :: "session \<Rightarrow> nat \<Rightarrow> session_event list \<Rightarrow> (session_error, session) result" where
  "seed_loop s i [] = Inr s"
| "seed_loop s i (e # seed) =
     (if \<not> envelope_ok e then Inl (SeedEnvelope i)
      else if \<not> assertSupportedRequestHeader (ev_data e) then Inl LegacyHeaderDelta
      else if ev_seq e \<noteq> int i then Inl (SeedNotContiguous i (ev_seq e))
      else case validateNext (se_log s) (se_manager s) e of
             (Some x, m) \<Rightarrow> Inl (SeedSurface i x)
           | (None, m) \<Rightarrow> seed_loop (s\<lparr>se_manager := m, se_log := se_log s @ [e]\<rparr>) (Suc i) seed)"

definition construct :: "session_header \<Rightarrow> session_event list option \<Rightarrow> int \<Rightarrow> (session_error, session) result" where
  "construct h seed now =
     (case seed of
        None \<Rightarrow> Inr (empty_session h)
      | Some es \<Rightarrow>
          rbind (seed_loop (empty_session h) 0 es) (\<lambda>s.
            let s' = s\<lparr>se_first_live := length (se_log s)\<rparr> in
            if se_log s' = [] \<or> ev_type (last (se_log s')) \<noteq> ''session/end-seed''
            then (case append_event s' now EndSeed no_intent Detached of
                    (Inl x, _) \<Rightarrow> Inl x | (Inr _, s'') \<Rightarrow> Inr s'')
            else Inr s'))"

section \<open>Cached reads\<close>

definition requestHeader :: "session \<Rightarrow> epoch_header option \<times> session" where
  "requestHeader s =
     (let s' = (if se_header_seq s < length (se_log s)
                then s\<lparr>se_header_fold := foldRequestHeader (drop (se_header_seq s) (se_log s)) (se_header_fold s),
                       se_header_seq := length (se_log s)\<rparr>
                else s)
      in (se_header_fold s', s'))"

fun fold_context :: "session_event list \<Rightarrow> request_context option \<Rightarrow> request_context option" where
  "fold_context [] c = c"
| "fold_context (e # es) c =
     fold_context es (case ev_data e of RequestContext rc \<Rightarrow> Some rc | _ \<Rightarrow> c)"

definition requestContext :: "session \<Rightarrow> request_context option \<times> session" where
  "requestContext s =
     (let s' = (if se_context_seq s < length (se_log s)
                then s\<lparr>se_context_fold := fold_context (drop (se_context_seq s) (se_log s)) (se_context_fold s),
                       se_context_seq := length (se_log s)\<rparr>
                else s)
      in (se_context_fold s', s'))"

text \<open>The messages of surface nodes: nodes without a message are skipped.\<close>

fun project_nodes :: "session_event list \<Rightarrow> int list \<Rightarrow> message list" where
  "project_nodes evs [] = []"
| "project_nodes evs (n # ns) =
     (case event_at evs n of
        Some e \<Rightarrow> (case deriveEventMessage e of Some m \<Rightarrow> m # project_nodes evs ns | None \<Rightarrow> project_nodes evs ns)
      | None \<Rightarrow> project_nodes evs ns)"

definition deriveMessages :: "session \<Rightarrow> (session_error, message list) result \<times> session" where
  "deriveMessages s =
     (case manager_nodes (se_log s) (se_manager s) of
        ((Some x, m), _) \<Rightarrow> (Inl (BadSurface x), s\<lparr>se_manager := m\<rparr>)
      | ((None, m), nodes) \<Rightarrow>
          (case manager_generation (se_log s) m of
             ((Some x, m'), _) \<Rightarrow> (Inl (BadSurface x), s\<lparr>se_manager := m'\<rparr>)
           | ((None, m'), gen) \<Rightarrow>
               let s1 = s\<lparr>se_manager := m'\<rparr>;
                   s2 = (if gen \<noteq> se_derived_gen s1
                         then s1\<lparr>se_derived := [], se_derived_nodes := 0, se_derived_gen := gen\<rparr> else s1);
                   s3 = s2\<lparr>se_derived := se_derived s2 @ project_nodes (se_log s2) (drop (se_derived_nodes s2) nodes),
                           se_derived_nodes := length nodes\<rparr>
               in (Inr (se_derived s3), s3)))"

section \<open>The pure folds\<close>

text \<open>What a reader who has only the log computes.\<close>

definition log_messages :: "session_event list \<Rightarrow> message list option" where
  "log_messages es = (case foldSurface es of Inl _ \<Rightarrow> None | Inr (nodes, _) \<Rightarrow> Some (project_nodes es nodes))"

lemma project_nodes_append: "project_nodes evs (ms @ ns) = project_nodes evs ms @ project_nodes evs ns"
  by (induction ms) (auto split: option.split)

lemma project_nodes_extend:
  "\<forall>n \<in> set ns. 0 \<le> n \<and> n < int (length evs) \<Longrightarrow> project_nodes (evs @ fs) ns = project_nodes evs ns"
  by (induction ns) (auto simp: event_at_append split: option.split)

lemma fold_context_append: "fold_context (es @ fs) c = fold_context fs (fold_context es c)"
  by (induction es arbitrary: c) auto

lemma foldSurface_bounds:
  assumes "foldSurface es = Inr (nodes, reps)"
  shows "\<forall>n \<in> set nodes. 0 \<le> n \<and> n < int (length es)"
proof -
  obtain st where "nodes = ss_nodes st" "surface_inv (es, st, reps)"
    using foldSurface_Inr [OF assms] by blast
  with surface_inv_bounds show ?thesis by fastforce
qed

text \<open>While no replacement happens, the surface only grows at its end.\<close>

lemma replay_surface_grows:
  "replay surface_step (pre, st, reps) es = Inr (pre', st', reps') \<Longrightarrow>
     length reps \<le> length reps' \<and> (length reps' = length reps \<longrightarrow> (\<exists>ns. ss_nodes st' = ss_nodes st @ ns))"
proof (induction es arbitrary: pre st reps)
  case Nil
  then show ?case by simp
next
  case (Cons e es)
  from Cons.prems obtain st2 r where ap: "applySurfaceEvent st e (int (length pre)) pre 0 = Inr (st2, r)"
    and rest: "replay surface_step (pre @ [e], st2, case r of None \<Rightarrow> reps | Some rp \<Rightarrow> reps @ [rp]) es = Inr (pre', st', reps')"
  proof -
    from Cons.prems obtain s2 where s2: "surface_step (pre, st, reps) e = Inr s2"
      "replay surface_step s2 es = Inr (pre', st', reps')"
      by (auto split: sum.splits)
    from s2(1) obtain st2 r where "applySurfaceEvent st e (int (length pre)) pre 0 = Inr (st2, r)"
      "s2 = (pre @ [e], st2, case r of None \<Rightarrow> reps | Some rp \<Rightarrow> reps @ [rp])"
      by (auto simp: surface_step_def split: sum.splits)
    with s2(2) that show thesis by blast
  qed
  note IH = Cons.IH [OF rest]
  show ?case
  proof (cases r)
    case None
    from ap None have "\<exists>ns. ss_nodes st2 = ss_nodes st @ ns"
      by (auto simp: applySurfaceEvent_def rbind_Inr_iff elim!: applySurfacePlan.elims)
    with IH None show ?thesis by auto
  next
    case (Some rp)
    with IH show ?thesis by auto
  qed
qed

section \<open>The session's invariant\<close>

definition session_ok :: "session \<Rightarrow> bool" where
  "session_ok s \<longleftrightarrow>
     is_ok (foldSurface (se_log s)) \<and> manager_ok (se_log s) (se_manager s)
   \<and> se_header_seq s \<le> length (se_log s)
   \<and> se_header_fold s = foldRequestHeader (take (se_header_seq s) (se_log s)) None
   \<and> se_context_seq s \<le> length (se_log s)
   \<and> se_context_fold s = fold_context (take (se_context_seq s) (se_log s)) None
   \<and> (\<exists>k nodes reps. k \<le> length (se_log s) \<and> foldSurface (take k (se_log s)) = Inr (nodes, reps)
        \<and> se_derived_gen s = length reps \<and> se_derived_nodes s = length nodes
        \<and> se_derived s = project_nodes (take k (se_log s)) nodes)"

lemma session_ok_empty: "session_ok (empty_session h)"
  by (auto simp: session_ok_def empty_session_def manager_ok_new foldSurface_def createFoldState_def
      intro!: exI [of _ "0::nat"])

lemma is_ok_foldE:
  assumes "is_ok (foldSurface es)"
  obtains nodes reps where "foldSurface es = Inr (nodes, reps)"
  using assms by (auto simp: is_ok_iff)

text \<open>The surface manager of a session in order answers as the fold of the log does.\<close>

lemma manager_reads:
  assumes "manager_ok evs m" "foldSurface evs = Inr (nodes, reps)"
  shows "\<exists>m'. manager_nodes evs m = ((None, m'), nodes) \<and> manager_generation evs m = ((None, m'), length reps)
     \<and> manager_ok evs m'"
proof -
  obtain st where full: "replay surface_step surface_start evs = Inr (evs, st, reps)"
    and n: "nodes = ss_nodes st" and inv: "surface_inv (evs, st, reps)"
    using foldSurface_Inr [OF assms(2)] by blast
  from catchUp_ok [OF assms(1) full] n inv show ?thesis
    by (auto simp: manager_nodes_def manager_generation_def Let_def surface_inv_def)
qed

lemma manager_validates:
  assumes "manager_ok evs m" "foldSurface evs = Inr (nodes, reps)"
  shows "\<exists>m'. validateNext evs m e =
      ((case foldSurface (evs @ [e]) of Inl x \<Rightarrow> Some x | Inr _ \<Rightarrow> None), m') \<and> manager_ok evs m'"
proof -
  obtain st where full: "replay surface_step surface_start evs = Inr (evs, st, reps)"
    using foldSurface_Inr [OF assms(2)] by blast
  obtain m1 where m1: "catchUp evs m = (None, m1)" "manager_ok evs m1" "sm_state m1 = st"
    "sm_last m1 = int (length evs) - 1" "sm_base m1 = 0"
    using catchUp_ok [OF assms(1) full] by blast
  show ?thesis
  proof (cases "planSurfaceEvent st e (int (length evs)) evs 0")
    case (Inl x)
    with m1 replay_plan [OF full, of e] show ?thesis
      by (simp add: validateNext_def foldSurface_replay)
  next
    case (Inr plan)
    have "manager_ok evs (m1\<lparr>sm_pending := Some (e, int (length evs), plan)\<rparr>)"
      using full m1 Inr by (auto simp: manager_ok_def intro!: exI [of _ "length evs"])
    moreover obtain st' r where "applySurfacePlan st plan = (st', r)" by fastforce
    ultimately show ?thesis
      using m1 replay_plan [OF full, of e] Inr by (simp add: validateNext_def foldSurface_replay)
  qed
qed

lemma session_ok_manager: "session_ok s \<Longrightarrow> manager_ok (se_log s) m \<Longrightarrow> session_ok (s\<lparr>se_manager := m\<rparr>)"
  by (simp add: session_ok_def)

lemma session_ok_grow:
  assumes ok: "session_ok s" and m: "manager_ok (se_log s) m" and f: "is_ok (foldSurface (se_log s @ [e]))"
  shows "session_ok (s\<lparr>se_manager := m, se_log := se_log s @ [e]\<rparr>)"
proof -
  from ok obtain k nodes reps where k: "k \<le> length (se_log s)" "foldSurface (take k (se_log s)) = Inr (nodes, reps)"
    "se_derived_gen s = length reps" "se_derived_nodes s = length nodes"
    "se_derived s = project_nodes (take k (se_log s)) nodes"
    unfolding session_ok_def by blast
  then have "k \<le> length (se_log s @ [e]) \<and> foldSurface (take k (se_log s @ [e])) = Inr (nodes, reps)
     \<and> se_derived s = project_nodes (take k (se_log s @ [e])) nodes" by simp
  with ok m f k(3,4) manager_ok_push [OF m] show ?thesis
    unfolding session_ok_def by simp blast
qed

lemma append_event_ok:
  assumes ok: "session_ok s" and ap: "append_event s time d intent at' = (r, s')"
  shows "session_ok s' \<and> (case r of
       Inl _ \<Rightarrow> se_log s' = se_log s
     | Inr e \<Rightarrow> se_log s' = se_log s @ [e] \<and> ev_seq e = int (length (se_log s)) \<and> ev_data e = d)"
proof -
  let ?e = "new_event s time d intent"
  obtain nodes reps where f: "foldSurface (se_log s) = Inr (nodes, reps)"
    using ok is_ok_foldE by (auto simp: session_ok_def)
  have m: "manager_ok (se_log s) (se_manager s)" using ok by (simp add: session_ok_def)
  obtain m' where v: "validateNext (se_log s) (se_manager s) ?e =
      ((case foldSurface (se_log s @ [?e]) of Inl x \<Rightarrow> Some x | Inr _ \<Rightarrow> None), m')"
    and m': "manager_ok (se_log s) m'"
    using manager_validates [OF m f] by blast
  have grow: "is_ok (foldSurface (se_log s @ [?e])) \<Longrightarrow> session_ok (s\<lparr>se_manager := m', se_log := se_log s @ [?e]\<rparr>)"
    using session_ok_grow [OF ok m'] by blast
  show ?thesis
    using ap v ok session_ok_manager [OF ok m'] grow
    by (auto simp: append_event_def Let_def new_event_def split: if_splits sum.splits)
qed

lemma requestHeader_ok:
  assumes ok: "session_ok s" and r: "requestHeader s = (h, s')"
  shows "session_ok s' \<and> se_log s' = se_log s \<and> h = foldRequestHeader (se_log s) None"
proof (cases "se_header_seq s < length (se_log s)")
  case True
  have all: "foldRequestHeader (drop (se_header_seq s) (se_log s)) (se_header_fold s) = foldRequestHeader (se_log s) None"
    using ok foldRequestHeader_append [of "take (se_header_seq s) (se_log s)" "drop (se_header_seq s) (se_log s)" None]
    by (simp add: session_ok_def)
  have "h = foldRequestHeader (se_log s) None"
    "s' = s\<lparr>se_header_fold := foldRequestHeader (se_log s) None, se_header_seq := length (se_log s)\<rparr>"
    using r True all by (auto simp: requestHeader_def Let_def)
  moreover have "session_ok (s\<lparr>se_header_fold := foldRequestHeader (se_log s) None, se_header_seq := length (se_log s)\<rparr>)"
    using ok by (simp add: session_ok_def)
  ultimately show ?thesis by simp
next
  case False
  then have "se_header_seq s = length (se_log s)" using ok by (simp add: session_ok_def)
  then have "se_header_fold s = foldRequestHeader (se_log s) None" using ok by (simp add: session_ok_def)
  with r False ok show ?thesis by (auto simp: requestHeader_def Let_def)
qed

lemma requestContext_ok:
  assumes ok: "session_ok s" and r: "requestContext s = (h, s')"
  shows "session_ok s' \<and> se_log s' = se_log s \<and> h = fold_context (se_log s) None"
proof (cases "se_context_seq s < length (se_log s)")
  case True
  have all: "fold_context (drop (se_context_seq s) (se_log s)) (se_context_fold s) = fold_context (se_log s) None"
    using ok fold_context_append [of "take (se_context_seq s) (se_log s)" "drop (se_context_seq s) (se_log s)" None]
    by (simp add: session_ok_def)
  have "h = fold_context (se_log s) None"
    "s' = s\<lparr>se_context_fold := fold_context (se_log s) None, se_context_seq := length (se_log s)\<rparr>"
    using r True all by (auto simp: requestContext_def Let_def)
  moreover have "session_ok (s\<lparr>se_context_fold := fold_context (se_log s) None, se_context_seq := length (se_log s)\<rparr>)"
    using ok by (simp add: session_ok_def)
  ultimately show ?thesis by simp
next
  case False
  then have "se_context_seq s = length (se_log s)" using ok by (simp add: session_ok_def)
  then have "se_context_fold s = fold_context (se_log s) None" using ok by (simp add: session_ok_def)
  with r False ok show ?thesis by (auto simp: requestContext_def Let_def)
qed

lemma derive_extends:
  assumes k: "k \<le> length evs" "foldSurface (take k evs) = Inr (nodes0, reps0)"
    and f: "foldSurface evs = Inr (nodes, reps)" and gen: "length reps = length reps0"
  shows "\<exists>ns. nodes = nodes0 @ ns \<and> project_nodes (take k evs) nodes0 = project_nodes evs nodes0"
proof -
  obtain st0 where r0: "replay surface_step surface_start (take k evs) = Inr (take k evs, st0, reps0)"
    and n0: "nodes0 = ss_nodes st0" using foldSurface_Inr [OF k(2)] by blast
  obtain st where r: "replay surface_step surface_start evs = Inr (evs, st, reps)"
    and n: "nodes = ss_nodes st" using foldSurface_Inr [OF f] by blast
  have "replay surface_step (take k evs, st0, reps0) (drop k evs) = Inr (evs, st, reps)"
    using surface.incremental [OF r0, of "drop k evs"] r by simp
  from replay_surface_grows [OF this] gen n n0 obtain ns where "nodes = nodes0 @ ns" by auto
  moreover have "project_nodes (take k evs @ drop k evs) nodes0 = project_nodes (take k evs) nodes0"
    using foldSurface_bounds [OF k(2)] by (rule project_nodes_extend)
  ultimately show ?thesis by simp
qed

lemma deriveMessages_ok:
  assumes ok: "session_ok s" and d: "deriveMessages s = (r, s')"
  shows "session_ok s' \<and> se_log s' = se_log s \<and> (\<exists>ms. r = Inr ms \<and> log_messages (se_log s) = Some ms)"
proof -
  obtain nodes reps where f: "foldSurface (se_log s) = Inr (nodes, reps)"
    using ok is_ok_foldE by (auto simp: session_ok_def)
  have m: "manager_ok (se_log s) (se_manager s)" using ok by (simp add: session_ok_def)
  obtain m1 where m1: "manager_nodes (se_log s) (se_manager s) = ((None, m1), nodes)" "manager_ok (se_log s) m1"
    using manager_reads [OF m f] by blast
  obtain m2 where m2: "manager_generation (se_log s) m1 = ((None, m2), length reps)" "manager_ok (se_log s) m2"
    using manager_reads [OF m1(2) f] by blast
  from ok obtain k nodes0 reps0 where k: "k \<le> length (se_log s)" "foldSurface (take k (se_log s)) = Inr (nodes0, reps0)"
    "se_derived_gen s = length reps0" "se_derived_nodes s = length nodes0"
    "se_derived s = project_nodes (take k (se_log s)) nodes0"
    unfolding session_ok_def by blast
  have "r = Inr (project_nodes (se_log s) nodes) \<and> se_log s' = se_log s \<and> se_manager s' = m2
     \<and> se_derived s' = project_nodes (se_log s) nodes \<and> se_derived_nodes s' = length nodes
     \<and> se_derived_gen s' = length reps
     \<and> se_header_seq s' = se_header_seq s \<and> se_header_fold s' = se_header_fold s
     \<and> se_context_seq s' = se_context_seq s \<and> se_context_fold s' = se_context_fold s"
  proof (cases "length reps = se_derived_gen s")
    case True
    with k derive_extends [OF k(1,2) f] obtain ns where
      "nodes = nodes0 @ ns" "project_nodes (take k (se_log s)) nodes0 = project_nodes (se_log s) nodes0"
      by auto
    with d m1 m2 True k(3-5) show ?thesis
      by (auto simp: deriveMessages_def Let_def project_nodes_append)
  next
    case False
    with d m1 m2 show ?thesis by (auto simp: deriveMessages_def Let_def)
  qed
  with ok m2(2) f show ?thesis
    by (auto simp: session_ok_def log_messages_def intro!: exI [of _ "length (se_log s)"])
qed

section \<open>The constructor\<close>

lemma foldSurface_prefix: "is_ok (foldSurface (es @ fs)) \<Longrightarrow> is_ok (foldSurface es)"
  using replay_prefix_ok [of surface_step surface_start es fs]
  by (auto simp: foldSurface_replay is_ok_iff split: sum.splits)

lemma foldSurface_snoc_seq:
  assumes "is_ok (foldSurface (es @ [e]))"
  shows "ev_seq e = int (length es)"
proof -
  obtain nodes reps where "foldSurface (es @ [e]) = Inr (nodes, reps)" using assms is_ok_foldE by blast
  then obtain st where "surface_inv (es @ [e], st, reps)" using foldSurface_Inr by blast
  then have "map ev_seq (es @ [e]) = map int [0..<length (es @ [e])]" by (simp add: surface_inv_def)
  then show ?thesis by simp
qed

lemma seed_loop_ok:
  assumes "session_ok s" "i = length (se_log s)"
  shows "case seed_loop s i es of
      Inl _ \<Rightarrow> \<not> (list_all (\<lambda>e. envelope_ok e \<and> assertSupportedRequestHeader (ev_data e)) es
                 \<and> is_ok (foldSurface (se_log s @ es)))
    | Inr s' \<Rightarrow> session_ok s' \<and> se_log s' = se_log s @ es
        \<and> list_all (\<lambda>e. envelope_ok e \<and> assertSupportedRequestHeader (ev_data e)) es"
  using assms
proof (induction es arbitrary: s i)
  case Nil
  then show ?case by simp
next
  case (Cons e es)
  have m: "manager_ok (se_log s) (se_manager s)" using Cons.prems(1) by (simp add: session_ok_def)
  obtain nodes reps where f: "foldSurface (se_log s) = Inr (nodes, reps)"
    using Cons.prems(1) is_ok_foldE by (auto simp: session_ok_def)
  obtain m' where v: "validateNext (se_log s) (se_manager s) e =
      ((case foldSurface (se_log s @ [e]) of Inl x \<Rightarrow> Some x | Inr _ \<Rightarrow> None), m')"
    and m': "manager_ok (se_log s) m'"
    using manager_validates [OF m f] by blast
  have pre: "is_ok (foldSurface (se_log s @ e # es)) \<Longrightarrow> is_ok (foldSurface (se_log s @ [e]))"
    using foldSurface_prefix [of "se_log s @ [e]" es] by simp
  show ?case
  proof (cases "envelope_ok e \<and> assertSupportedRequestHeader (ev_data e) \<and> ev_seq e = int i \<and> is_ok (foldSurface (se_log s @ [e]))")
    case True
    let ?s = "s\<lparr>se_manager := m', se_log := se_log s @ [e]\<rparr>"
    have "session_ok ?s" using session_ok_grow [OF Cons.prems(1) m'] True by blast
    from Cons.IH [OF this, of "Suc i"] Cons.prems(2) v True show ?thesis
      by (auto simp: is_ok_iff split: sum.splits)
  next
    case False
    then show ?thesis
      using v pre foldSurface_snoc_seq [of "se_log s" e] Cons.prems(2)
      by (auto simp: is_ok_iff split: sum.splits)
  qed
qed

lemma append_end_seed:
  assumes ok: "session_ok s"
  shows "\<exists>s'. append_event s now EndSeed no_intent Detached = (Inr (new_event s now EndSeed no_intent), s')
    \<and> session_ok s' \<and> se_log s' = se_log s @ [new_event s now EndSeed no_intent]
    \<and> se_first_live s' = se_first_live s"
proof -
  let ?e = "new_event s now EndSeed no_intent"
  obtain nodes reps where f: "foldSurface (se_log s) = Inr (nodes, reps)"
    using ok is_ok_foldE by (auto simp: session_ok_def)
  obtain st where full: "replay surface_step surface_start (se_log s) = Inr (se_log s, st, reps)"
    using foldSurface_Inr [OF f] by blast
  have "planSurfaceEvent st ?e (int (length (se_log s))) (se_log s) 0 = Inr None"
    by (simp add: planSurfaceEvent_def new_event_def no_intent_def surfaceOpOf_def ev_type_def event_type_of_def
        isSurfaceEligibleType_def SURFACE_EVENT_TYPES_def)
  then have acc: "\<exists>v. foldSurface (se_log s @ [?e]) = Inr v"
    using replay_plan [OF full, of ?e] by (simp add: foldSurface_replay)
  have m: "manager_ok (se_log s) (se_manager s)" using ok by (simp add: session_ok_def)
  obtain m' where v: "validateNext (se_log s) (se_manager s) ?e =
      ((case foldSurface (se_log s @ [?e]) of Inl x \<Rightarrow> Some x | Inr _ \<Rightarrow> None), m')"
    and m': "manager_ok (se_log s) m'"
    using manager_validates [OF m f] by blast
  from acc v have "append_event s now EndSeed no_intent Detached = (Inr ?e, s\<lparr>se_manager := m', se_log := se_log s @ [?e]\<rparr>)"
    by (auto simp: append_event_def Let_def assertSupportedRequestHeader_def event_type_of_def)
  moreover have "session_ok (s\<lparr>se_manager := m', se_log := se_log s @ [?e]\<rparr>)"
    using session_ok_grow [OF ok m'] acc by (auto simp: is_ok_iff)
  ultimately show ?thesis by simp
qed

definition end_seed_event :: "int \<Rightarrow> int \<Rightarrow> session_event" where
  "end_seed_event q now = \<lparr>ev_seq = q, ev_time = now, ev_data = EndSeed, ev_ignorable = False,
     ev_surface_op = None, ev_sources = None\<rparr>"

definition marked_seed :: "session_event list \<Rightarrow> int \<Rightarrow> session_event list" where
  "marked_seed es now =
     (if es \<noteq> [] \<and> ev_type (last es) = ''session/end-seed'' then es
      else es @ [end_seed_event (int (length es)) now])"

lemma construct_ok:
  "case construct h (Some es) now of
     Inl _ \<Rightarrow> \<not> (list_all (\<lambda>e. envelope_ok e \<and> assertSupportedRequestHeader (ev_data e)) es \<and> is_ok (foldSurface es))
   | Inr s \<Rightarrow> session_ok s \<and> se_log s = marked_seed es now \<and> se_first_live s = length es
       \<and> list_all (\<lambda>e. envelope_ok e \<and> assertSupportedRequestHeader (ev_data e)) es \<and> is_ok (foldSurface es)"
proof -
  have len: "0 = length (se_log (empty_session h))" by (simp add: empty_session_def)
  have log0: "se_log (empty_session h) = []" by (simp add: empty_session_def)
  have loop: "case seed_loop (empty_session h) 0 es of
      Inl _ \<Rightarrow> \<not> (list_all (\<lambda>e. envelope_ok e \<and> assertSupportedRequestHeader (ev_data e)) es \<and> is_ok (foldSurface es))
    | Inr s' \<Rightarrow> session_ok s' \<and> se_log s' = es
        \<and> list_all (\<lambda>e. envelope_ok e \<and> assertSupportedRequestHeader (ev_data e)) es"
    using seed_loop_ok [OF session_ok_empty len, of es] unfolding log0 append_Nil .
  show ?thesis
  proof (cases "seed_loop (empty_session h) 0 es")
    case (Inl x)
    with loop show ?thesis by (simp add: construct_def)
  next
    case (Inr s)
    with loop have s: "session_ok s" "se_log s = es"
      "list_all (\<lambda>e. envelope_ok e \<and> assertSupportedRequestHeader (ev_data e)) es" by simp_all
    let ?s = "s\<lparr>se_first_live := length (se_log s)\<rparr>"
    have ok: "session_ok ?s" using s(1) by (simp add: session_ok_def)
    have f: "is_ok (foldSurface es)" using s(1,2) by (simp add: session_ok_def)
    obtain s2 where s2: "append_event ?s now EndSeed no_intent Detached = (Inr (new_event ?s now EndSeed no_intent), s2)"
      "session_ok s2" "se_log s2 = se_log ?s @ [new_event ?s now EndSeed no_intent]" "se_first_live s2 = se_first_live ?s"
      using append_end_seed [OF ok] by blast
    have ev: "new_event ?s now EndSeed no_intent = end_seed_event (int (length es)) now"
      using s(2) by (simp add: new_event_def end_seed_event_def no_intent_def)
    show ?thesis
      using Inr s ok f s2 ev by (auto simp: construct_def Let_def marked_seed_def)
  qed
qed

section \<open>Calls\<close>

datatype session_call =
    CallAppend int event_data surface_intent attachment
  | CallHeader
  | CallContext
  | CallMessages

fun call_session :: "session \<Rightarrow> session_call \<Rightarrow> session" where
  "call_session s (CallAppend time d intent at') = snd (append_event s time d intent at')"
| "call_session s CallHeader = snd (requestHeader s)"
| "call_session s CallContext = snd (requestContext s)"
| "call_session s CallMessages = snd (deriveMessages s)"

lemma call_session_ok:
  assumes "session_ok s"
  shows "session_ok (call_session s c) \<and> (\<exists>es. se_log (call_session s c) = se_log s @ es)"
proof (cases c)
  case (CallAppend time d intent at')
  then show ?thesis
    using append_event_ok [OF assms, of time d intent at' "fst (append_event s time d intent at')"]
    by (cases "append_event s time d intent at'") (auto split: sum.splits)
next
  case CallHeader
  then show ?thesis using requestHeader_ok [OF assms] by (metis append_Nil2 call_session.simps(2) prod.collapse)
next
  case CallContext
  then show ?thesis using requestContext_ok [OF assms] by (metis append_Nil2 call_session.simps(3) prod.collapse)
next
  case CallMessages
  then show ?thesis using deriveMessages_ok [OF assms] by (metis append_Nil2 call_session.simps(4) prod.collapse)
qed

lemma calls_session_ok:
  "session_ok s \<Longrightarrow> session_ok (foldl call_session s cs) \<and> (\<exists>es. se_log (foldl call_session s cs) = se_log s @ es)"
proof (induction cs arbitrary: s)
  case Nil
  then show ?case by simp
next
  case (Cons c cs)
  note c = call_session_ok [OF Cons.prems, of c]
  then obtain es where "se_log (call_session s c) = se_log s @ es" by blast
  moreover from Cons.IH [of "call_session s c"] c obtain fs where
    "session_ok (foldl call_session (call_session s c) cs)"
    "se_log (foldl call_session (call_session s c) cs) = se_log (call_session s c) @ fs" by blast
  ultimately show ?case by simp
qed

lemma constructed_ok: "construct h seed now = Inr s \<Longrightarrow> session_ok s"
  using construct_ok [where h = h and es = "the seed" and now = now] session_ok_empty [of h]
  by (cases seed) (auto simp: construct_def)

section \<open>Properties\<close>

text \<open>C21. Whatever calls a constructed session has served, appends that failed or were vetoed
  included, its log only grew, and its three cached reads return exactly the pure folds of the
  log: the request header, the request context, and the messages of the current surface.\<close>

theorem cached_reads_are_folds:
  assumes "construct h seed now = Inr s0" and "s = foldl call_session s0 cs"
  shows "(\<exists>es. se_log s = se_log s0 @ es)
    \<and> fst (requestHeader s) = foldRequestHeader (se_log s) None
    \<and> fst (requestContext s) = fold_context (se_log s) None
    \<and> (\<exists>ms. fst (deriveMessages s) = Inr ms \<and> log_messages (se_log s) = Some ms)"
proof -
  have ok: "session_ok s" "\<exists>es. se_log s = se_log s0 @ es"
    using calls_session_ok [OF constructed_ok [OF assms(1)], of cs] assms(2) by simp_all
  then show ?thesis
    using requestHeader_ok [OF ok(1), of "fst (requestHeader s)" "snd (requestHeader s)"]
      requestContext_ok [OF ok(1), of "fst (requestContext s)" "snd (requestContext s)"]
      deriveMessages_ok [OF ok(1), of "fst (deriveMessages s)" "snd (deriveMessages s)"] by simp
qed

definition sample_header :: session_header where
  "sample_header = \<lparr>sh_id = ''s'', sh_created = 0, sh_cwd = None, sh_parent = None, sh_seed_length = None,
     sh_origin = None, sh_depth = None, sh_preset = None, sh_target = None\<rparr>"

definition sample_calls :: "session_call list" where
  "sample_calls = [CallAppend 7 (UserMessage \<lparr>um_id = ''v'', um_source = SrcUser, um_content = []\<rparr>)
      \<lparr>si_op = Some append_op, si_sources = None\<rparr> Detached, CallMessages,
    CallAppend 8 (UserMessage \<lparr>um_id = ''w'', um_source = SrcUser, um_content = []\<rparr>)
      \<lparr>si_op = Some (replace_op 0 1), si_sources = Some (seqs_json [0, 1])\<rparr> (Attached False False)]"

lemma sample_construct: "is_ok (construct sample_header (Some sample_log) 5)"
  by code_simp

lemma cached_reads_are_folds_witness:
  "\<exists>s0 ms. construct sample_header (Some sample_log) 5 = Inr s0
    \<and> fst (deriveMessages (foldl call_session s0 sample_calls)) = Inr ms"
proof -
  obtain s0 where s0: "construct sample_header (Some sample_log) 5 = Inr s0"
    using sample_construct by (auto simp: is_ok_iff)
  from cached_reads_are_folds [OF s0 refl, of sample_calls] s0 show ?thesis by blast
qed

text \<open>A seed is accepted exactly when every envelope is sound, no event has the removed
  format and the complete surface fold accepts it; the session then holds the seed, marked as
  ended unless it already was, and the marker itself is never refused.\<close>

theorem seed_accepted_iff_folds:
  "case construct h (Some es) now of
     Inl _ \<Rightarrow> \<not> (list_all (\<lambda>e. envelope_ok e \<and> assertSupportedRequestHeader (ev_data e)) es
                \<and> is_ok (foldSurface es))
   | Inr s \<Rightarrow> list_all (\<lambda>e. envelope_ok e \<and> assertSupportedRequestHeader (ev_data e)) es
       \<and> is_ok (foldSurface es) \<and> se_log s = marked_seed es now \<and> se_first_live s = length es"
  using construct_ok [where h = h and es = es and now = now] by (auto split: sum.splits)

end
