(* ===== verification/Chunk_Rows.thy ===== *)
theory Chunk_Rows
  imports Session_Surface
begin

text \<open>
  Storage packing of stream deltas, \<open>src/packages/core/session/src/chunk-rows.ts\<close>: the
  whitelist that classifies an event, the packing of runs into rows, and the validating
  decoder. Events and rows are JSON objects here, as on disk, because the code checks their
  exact shape. Numbers that the code subtracts or adds are safe integers whenever the result
  is used, so exact integers and doubles agree. The lemmas show that decoding what was packed
  gives the events back, up to the order of an object's keys.
\<close>

section \<open>Shapes\<close>

datatype delta_kind = KText | KReasoning | KToolCall

definition kind_tag :: "delta_kind \<Rightarrow> string" where
  "kind_tag k = (case k of KText \<Rightarrow> ''text-delta'' | KReasoning \<Rightarrow> ''reasoning-delta''
     | KToolCall \<Rightarrow> ''tool-call-delta'')"

definition row_tag :: "delta_kind \<Rightarrow> string" where
  "row_tag k = (case k of KText \<Rightarrow> ''text-chunks'' | KReasoning \<Rightarrow> ''reasoning-chunks''
     | KToolCall \<Rightarrow> ''tool-call-chunks'')"

definition MIN_RUN :: nat where
  "MIN_RUN = 3"

text \<open>\<open>isRecord\<close>, with the own enumerable fields; an array's keys are its indices.\<close>

definition record_of :: "json option \<Rightarrow> fields option" where
  "record_of v = (case v of
       Some (JObj o') \<Rightarrow> Some o'
     | Some (JArr xs) \<Rightarrow> Some (zip (map show_nat [0..<length xs]) xs)
     | _ \<Rightarrow> None)"

definition hasExactKeys :: "fields \<Rightarrow> string list \<Rightarrow> bool" where
  "hasExactKeys value keys \<longleftrightarrow> length value = length keys \<and> list_all (has_own value) keys"

definition is_str :: "json option \<Rightarrow> bool" where
  "is_str v \<longleftrightarrow> as_str v \<noteq> None"

definition classify_chunk :: "fields \<Rightarrow> delta_kind option" where
  "classify_chunk chunk =
     (let tag = jget chunk ''type'' in
      if tag = Some (JStr (kind_tag KText)) \<or> tag = Some (JStr (kind_tag KReasoning))
      then (if hasExactKeys chunk [''type'', ''index'', ''text''] \<and> is_str (jget chunk ''text'')
            then Some (if tag = Some (JStr (kind_tag KText)) then KText else KReasoning) else None)
      else if tag = Some (JStr (kind_tag KToolCall))
      then (let shapeOk = hasExactKeys chunk [''type'', ''index'', ''id'', ''argumentsDelta'']
                  \<or> (hasExactKeys chunk [''type'', ''index'', ''id'', ''name'', ''argumentsDelta'']
                     \<and> is_str (jget chunk ''name''))
            in if shapeOk \<and> is_str (jget chunk ''id'') \<and> is_str (jget chunk ''argumentsDelta'')
               then Some KToolCall else None)
      else None)"

definition classify :: "fields \<Rightarrow> delta_kind option" where
  "classify event =
     (if jget event ''type'' \<noteq> Some (JStr ''assistant/chunk'') then None
      else if \<not> hasExactKeys event [''type'', ''seq'', ''time'', ''data''] then None
      else if event_seq_of (jget event ''seq'') = None \<or> as_safe (jget event ''time'') = None then None
      else case record_of (jget event ''data'') of
             None \<Rightarrow> None
           | Some data \<Rightarrow>
               if \<not> hasExactKeys data [''turn'', ''step'', ''chunk''] then None
               else if \<not> is_number (jget data ''turn'') \<or> \<not> is_number (jget data ''step'') then None
               else case record_of (jget data ''chunk'') of
                      None \<Rightarrow> None
                    | Some chunk \<Rightarrow>
                        if \<not> is_number (jget chunk ''index'') then None else classify_chunk chunk)"

text \<open>Field access on a whitelisted event, whose fields all exist.\<close>

definition sub_record :: "fields \<Rightarrow> string \<Rightarrow> fields" where
  "sub_record o' k = (case record_of (jget o' k) of Some f \<Rightarrow> f | None \<Rightarrow> [])"

definition int_field :: "fields \<Rightarrow> string \<Rightarrow> int" where
  "int_field o' k = (case jget o' k of Some (JInt n) \<Rightarrow> n | _ \<Rightarrow> 0)"

definition value_field :: "fields \<Rightarrow> string \<Rightarrow> json" where
  "value_field o' k = (case jget o' k of Some v \<Rightarrow> v | None \<Rightarrow> JNull)"

definition chunk_of :: "fields \<Rightarrow> fields" where
  "chunk_of event = sub_record (sub_record event ''data'') ''chunk''"

definition continues :: "fields \<Rightarrow> fields \<Rightarrow> delta_kind \<Rightarrow> bool" where
  "continues prev nxt kind =
     (if int_field nxt ''seq'' \<noteq> int_field prev ''seq'' + 1 then False
      else if \<not> safe_int (int_field nxt ''time'' - int_field prev ''time'') then False
      else if jget (sub_record nxt ''data'') ''turn'' \<noteq> jget (sub_record prev ''data'') ''turn''
           \<or> jget (sub_record nxt ''data'') ''step'' \<noteq> jget (sub_record prev ''data'') ''step'' then False
      else if jget (chunk_of nxt) ''index'' \<noteq> jget (chunk_of prev) ''index'' then False
      else if kind \<noteq> KToolCall then True
      else jget (chunk_of prev) ''id'' = jget (chunk_of nxt) ''id''
           \<and> has_own (chunk_of prev) ''name'' = has_own (chunk_of nxt) ''name''
           \<and> jget (chunk_of prev) ''name'' = jget (chunk_of nxt) ''name'')"

section \<open>Packing\<close>

text \<open>\<open>run.slice(1).map((event, i) => event.time - run[i].time)\<close>.\<close>

fun gaps :: "fields list \<Rightarrow> int list" where
  "gaps (a # b # run) = (int_field b ''time'' - int_field a ''time'') # gaps (b # run)"
| "gaps _ = []"

definition buildRow :: "delta_kind \<Rightarrow> fields list \<Rightarrow> json" where
  "buildRow kind run =
     (let first = hd run;
          data = sub_record first ''data'';
          base = [(''turn'', value_field data ''turn''), (''step'', value_field data ''step''),
                  (''index'', value_field (chunk_of first) ''index''), (''dt'', JArr (map JInt (gaps run)))];
          envelope = [(''seq0'', value_field first ''seq''), (''time0'', value_field first ''time'')]
      in if kind = KToolCall
         then JObj ((''type'', JStr (row_tag KToolCall)) # envelope @ [(''data'', JObj (base
                @ [(''id'', value_field (chunk_of first) ''id'')]
                @ (if has_own (chunk_of first) ''name'' then [(''name'', value_field (chunk_of first) ''name'')] else [])
                @ [(''args'', JArr (map (\<lambda>e. value_field (chunk_of e) ''argumentsDelta'') run))]))])
         else JObj ((''type'', JStr (row_tag kind)) # envelope @ [(''data'', JObj (base
                @ [(''texts'', JArr (map (\<lambda>e. value_field (chunk_of e) ''text'') run))]))]))"

definition flush :: "json list \<Rightarrow> delta_kind option \<Rightarrow> fields list \<Rightarrow> json list" where
  "flush out kind run =
     (case kind of
        Some k \<Rightarrow> if MIN_RUN \<le> length run then out @ [buildRow k run] else out @ map JObj run
      | None \<Rightarrow> out @ map JObj run)"

text \<open>The loop of \<open>packChunkRuns\<close>, with its three variables.\<close>

fun pack_loop :: "json list \<Rightarrow> delta_kind option \<Rightarrow> fields list \<Rightarrow> fields list \<Rightarrow> json list" where
  "pack_loop out kind run [] = flush out kind run"
| "pack_loop out kind run (event # rest) =
     (case classify event of
        None \<Rightarrow> pack_loop (flush out kind run @ [JObj event]) None [] rest
      | Some k \<Rightarrow>
          if kind = Some k \<and> run \<noteq> [] \<and> continues (last run) event k
          then pack_loop out kind (run @ [event]) rest
          else pack_loop (flush out kind run) (Some k) [event] rest)"

definition packChunkRuns :: "fields list \<Rightarrow> json list" where
  "packChunkRuns events = pack_loop [] None [] events"

section \<open>Decoding\<close>

datatype row_fault =
    BadEnvelope
  | BadSeq0
  | BadTime0
  | DataNotObject
  | BadDataKeys
  | BadCallIdentity
  | BadPlacement
  | BadPayload
  | BadGaps
  | GapArity nat nat
  | UnsafeSeqs
  | UnsafeTimes

text \<open>\<open>malformed\<close>: the row's tag and what is wrong.\<close>

type_synonym row_error = "string \<times> row_fault"

definition is_safe :: "json option \<Rightarrow> bool" where
  "is_safe v \<longleftrightarrow> as_safe v \<noteq> None"

definition arr_of :: "json option \<Rightarrow> json list option" where
  "arr_of v = (case v of Some (JArr xs) \<Rightarrow> Some xs | _ \<Rightarrow> None)"

definition validateRunData :: "string \<Rightarrow> fields \<Rightarrow> string \<Rightarrow> (row_error, json list) result" where
  "validateRunData tag data payloadKey =
     (if \<not> is_number (jget data ''turn'') \<or> \<not> is_number (jget data ''step'') \<or> \<not> is_number (jget data ''index'')
      then Inl (tag, BadPlacement)
      else case arr_of (jget data payloadKey) of
        None \<Rightarrow> Inl (tag, BadPayload)
      | Some payload \<Rightarrow>
          if payload = [] \<or> (\<exists>v \<in> set payload. \<not> is_str (Some v)) then Inl (tag, BadPayload)
          else case arr_of (jget data ''dt'') of
            None \<Rightarrow> Inl (tag, BadGaps)
          | Some dt \<Rightarrow>
              if \<exists>v \<in> set dt. \<not> is_safe (Some v) then Inl (tag, BadGaps)
              else if length dt \<noteq> length payload - 1 then Inl (tag, GapArity (length dt) (length payload))
              else Inr payload)"

text \<open>The numbers of a validated \<open>dt\<close>.\<close>

definition int_of :: "json \<Rightarrow> int" where
  "int_of v = (case v of JInt n \<Rightarrow> n | _ \<Rightarrow> 0)"

definition dt_of :: "fields \<Rightarrow> int list" where
  "dt_of data = (case arr_of (jget data ''dt'') of Some dt \<Rightarrow> map int_of dt | None \<Rightarrow> [])"

fun times_safe :: "int \<Rightarrow> int list \<Rightarrow> bool" where
  "times_safe time [] = True"
| "times_safe time (gap # dt) = (if \<not> safe_int (time + gap) then False else times_safe (time + gap) dt)"

definition validate_data :: "string \<Rightarrow> fields \<Rightarrow> (row_error, json list) result" where
  "validate_data tag data =
     (if tag = row_tag KToolCall
      then (let withName = hasExactKeys data [''turn'', ''step'', ''index'', ''id'', ''name'', ''dt'', ''args''] in
            if \<not> withName \<and> \<not> hasExactKeys data [''turn'', ''step'', ''index'', ''id'', ''dt'', ''args'']
            then Inl (tag, BadDataKeys)
            else if \<not> is_str (jget data ''id'') \<or> (withName \<and> \<not> is_str (jget data ''name''))
            then Inl (tag, BadCallIdentity)
            else validateRunData tag data ''args'')
      else if \<not> hasExactKeys data [''turn'', ''step'', ''index'', ''dt'', ''texts'']
      then Inl (tag, BadDataKeys)
      else validateRunData tag data ''texts'')"

text \<open>The validated row is its data and payload; its envelope stays in \<open>value\<close>.\<close>

definition validateRow :: "fields \<Rightarrow> string \<Rightarrow> (row_error, fields \<times> json list) result" where
  "validateRow value tag =
     (if \<not> hasExactKeys value [''type'', ''seq0'', ''time0'', ''data''] then Inl (tag, BadEnvelope)
      else if event_seq_of (jget value ''seq0'') = None then Inl (tag, BadSeq0)
      else if \<not> is_safe (jget value ''time0'') then Inl (tag, BadTime0)
      else case record_of (jget value ''data'') of
        None \<Rightarrow> Inl (tag, DataNotObject)
      | Some data \<Rightarrow>
          rbind (validate_data tag data) (\<lambda>payload.
            if \<not> safe_int (int_field value ''seq0'' + int (length payload) - 1) then Inl (tag, UnsafeSeqs)
            else if \<not> times_safe (int_field value ''time0'') (dt_of data) then Inl (tag, UnsafeTimes)
            else Inr (data, payload)))"

definition member_chunk :: "string \<Rightarrow> fields \<Rightarrow> json \<Rightarrow> json" where
  "member_chunk tag data m =
     (if tag = row_tag KToolCall
      then JObj ([(''type'', JStr (kind_tag KToolCall)), (''index'', value_field data ''index''),
                  (''id'', value_field data ''id'')]
             @ (if has_own data ''name'' then [(''name'', value_field data ''name'')] else [])
             @ [(''argumentsDelta'', m)])
      else JObj [(''type'', JStr (kind_tag (if tag = row_tag KText then KText else KReasoning))),
                 (''index'', value_field data ''index''), (''text'', m)])"

text \<open>The loop of \<open>expandRow\<close> from member \<open>k\<close> on.\<close>

fun expand_members :: "string \<Rightarrow> fields \<Rightarrow> int \<Rightarrow> int list \<Rightarrow> nat \<Rightarrow> int \<Rightarrow> json list \<Rightarrow> json list" where
  "expand_members tag data seq0 dt k time [] = []"
| "expand_members tag data seq0 dt k time (m # ms) =
     (let time' = (if 0 < k then time + dt ! (k - 1) else time) in
      JObj [(''type'', JStr ''assistant/chunk''), (''seq'', JInt (seq0 + int k)), (''time'', JInt time'),
            (''data'', JObj [(''turn'', value_field data ''turn''), (''step'', value_field data ''step''),
                             (''chunk'', member_chunk tag data m)])]
      # expand_members tag data seq0 dt (Suc k) time' ms)"

definition expandRow :: "string \<Rightarrow> fields \<Rightarrow> fields \<Rightarrow> json list \<Rightarrow> json list" where
  "expandRow tag value data members =
     expand_members tag data (int_field value ''seq0'') (dt_of data) 0 (int_field value ''time0'') members"

definition row_tags :: "string list" where
  "row_tags = [row_tag KText, row_tag KReasoning, row_tag KToolCall]"

definition decodeStorageRecord :: "json \<Rightarrow> (row_error, json list) result" where
  "decodeStorageRecord value =
     (case record_of (Some value) of
        None \<Rightarrow> Inr [value]
      | Some o' \<Rightarrow>
          (case jget o' ''type'' of
             Some (JStr tag) \<Rightarrow>
               if tag \<notin> set row_tags then Inr [value]
               else rbind (validateRow o' tag) (\<lambda>(data, members). Inr (expandRow tag o' data members))
           | _ \<Rightarrow> Inr [value]))"

text \<open>A loader decodes the records of a file one after the other and stops at a malformed one.\<close>

fun decode_records :: "json list \<Rightarrow> (row_error, json list) result" where
  "decode_records [] = Inr []"
| "decode_records (v # vs) =
     rbind (decodeStorageRecord v) (\<lambda>es. rbind (decode_records vs) (\<lambda>fs. Inr (es @ fs)))"

section \<open>Whitelisted events\<close>

definition digit :: "char \<Rightarrow> bool" where
  "digit c \<longleftrightarrow> (48::nat) \<le> of_char c \<and> of_char c \<le> (57::nat)"

lemma show_nat_digits: "c \<in> set (show_nat n) \<Longrightarrow> digit c"
proof (induction n rule: show_nat.induct)
  case (1 n)
  have d: "d < 10 \<Longrightarrow> digit (digit_char d)" for d
    by (simp add: digit_def digit_char_def)
  have "n mod 10 < 10" by simp
  with 1 d show ?case
    by (subst (asm) show_nat.simps) (auto split: if_splits)
qed

text \<open>A record with a key that is not an index is an object.\<close>

lemma record_of_obj:
  assumes "record_of v = Some f" "has_own f k" "\<not> list_all digit k"
  shows "v = Some (JObj f)"
proof -
  have "False" if "v = Some (JArr xs)" for xs
  proof -
    have "f = zip (map show_nat [0..<length xs]) xs" using assms(1) that by (simp add: record_of_def)
    with assms(2) have "k \<in> set (map show_nat [0..<length xs])"
      by (auto simp: has_own_def map_of_eq_None_iff dest: in_set_zipE)
    then obtain i where "k = show_nat i" by auto
    with assms(3) show_nat_digits show False by (auto simp: list_all_iff)
  qed
  with assms(1) show ?thesis
    by (auto simp: record_of_def split: option.splits json.splits)
qed

lemma exact_keys_set:
  assumes "hasExactKeys f ks" "distinct ks"
  shows "set (map fst f) = set ks"
proof -
  have sub: "set ks \<subseteq> set (map fst f)"
    using assms(1) by (auto simp: hasExactKeys_def list_all_iff has_own_def map_of_eq_None_iff)
  have "card (set (map fst f)) \<le> length f" by (metis card_length length_map)
  with assms have "card (set (map fst f)) \<le> card (set ks)"
    by (simp add: hasExactKeys_def distinct_card)
  with sub show ?thesis by (metis List.finite_set card_seteq)
qed

text \<open>Two objects with the same exact keys are equal when their fields are.\<close>

lemma exact_keys_equal:
  assumes ex: "hasExactKeys f (map fst g)" and dg: "distinct (map fst g)" and df: "distinct (map fst f)"
    and eq: "\<And>k w. (k, w) \<in> set g \<Longrightarrow> \<exists>v. jget f k = Some v \<and> deep_equal v w"
  shows "deep_equal (JObj f) (JObj g)"
proof -
  have "length f = length g" using ex by (simp add: hasExactKeys_def)
  moreover have "case map_of g (fst kv) of None \<Rightarrow> False | Some w \<Rightarrow> deep_equal (snd kv) w" if kv: "kv \<in> set f" for kv
  proof -
    have "fst kv \<in> set (map fst g)" using exact_keys_set [OF ex dg] kv by auto
    then obtain w where w: "(fst kv, w) \<in> set g" by auto
    then have mg: "map_of g (fst kv) = Some w" using dg by simp
    have "jget f (fst kv) = Some (snd kv)" using df kv by (simp add: jget_def)
    with eq [OF w] mg show ?thesis by simp
  qed
  ultimately show ?thesis by simp
qed

definition payload_key :: "delta_kind \<Rightarrow> string" where
  "payload_key k = (if k = KToolCall then ''argumentsDelta'' else ''text'')"

text \<open>The event in the key order the decoder writes.\<close>

definition norm_chunk :: "delta_kind \<Rightarrow> fields \<Rightarrow> fields" where
  "norm_chunk k c =
     (if k = KToolCall
      then [(''type'', JStr (kind_tag KToolCall)), (''index'', value_field c ''index''), (''id'', value_field c ''id'')]
           @ (if has_own c ''name'' then [(''name'', value_field c ''name'')] else [])
           @ [(''argumentsDelta'', value_field c ''argumentsDelta'')]
      else [(''type'', JStr (kind_tag k)), (''index'', value_field c ''index''), (''text'', value_field c ''text'')])"

definition norm_event :: "delta_kind \<Rightarrow> fields \<Rightarrow> json" where
  "norm_event k e = JObj [(''type'', JStr ''assistant/chunk''), (''seq'', JInt (int_field e ''seq'')),
     (''time'', JInt (int_field e ''time'')),
     (''data'', JObj [(''turn'', value_field (sub_record e ''data'') ''turn''),
        (''step'', value_field (sub_record e ''data'') ''step''),
        (''chunk'', JObj (norm_chunk k (chunk_of e)))])]"

lemma is_number_Some: "is_number v \<Longrightarrow> \<exists>w. v = Some w \<and> deep_equal w w"
  by (auto simp: is_number_def split: option.splits json.splits)

lemma is_str_Some: "is_str v \<longleftrightarrow> (\<exists>s. v = Some (JStr s))"
  by (auto simp: is_str_def as_str_Some)

lemma event_seq_of_Some: "event_seq_of v = Some n \<longleftrightarrow> v = Some (JInt n) \<and> safe_int n \<and> 0 \<le> n"
  by (auto simp: event_seq_of_def as_safe_def split: option.splits json.splits if_splits)

lemma value_field_Some: "jget f k = Some v \<Longrightarrow> value_field f k = v"
  by (simp add: value_field_def)

text \<open>What the whitelist of \<open>classify_chunk\<close> amounts to.\<close>

lemma classify_chunk_text:
  assumes "classify_chunk c = Some k" "k \<noteq> KToolCall"
  shows "hasExactKeys c [''type'', ''index'', ''text''] \<and> is_str (jget c ''text'')
    \<and> jget c ''type'' = Some (JStr (kind_tag k))"
  using assms by (auto simp: classify_chunk_def Let_def kind_tag_def split: if_splits)

lemma classify_chunk_call:
  assumes "classify_chunk c = Some KToolCall"
  shows "hasExactKeys c ([''type'', ''index'', ''id''] @ (if has_own c ''name'' then [''name''] else []) @ [''argumentsDelta''])
    \<and> is_str (jget c ''id'') \<and> is_str (jget c ''argumentsDelta'') \<and> (has_own c ''name'' \<longrightarrow> is_str (jget c ''name''))
    \<and> jget c ''type'' = Some (JStr (kind_tag KToolCall))"
proof -
  have shape: "hasExactKeys c [''type'', ''index'', ''id'', ''argumentsDelta'']
      \<or> (hasExactKeys c [''type'', ''index'', ''id'', ''name'', ''argumentsDelta''] \<and> is_str (jget c ''name''))"
    and rest: "is_str (jget c ''id'')" "is_str (jget c ''argumentsDelta'')"
      "jget c ''type'' = Some (JStr (kind_tag KToolCall))"
    using assms by (auto simp: classify_chunk_def Let_def split: if_splits)
  from shape show ?thesis
  proof
    assume ex: "hasExactKeys c [''type'', ''index'', ''id'', ''argumentsDelta'']"
    have "set (map fst c) = set [''type'', ''index'', ''id'', ''argumentsDelta'']"
      by (rule exact_keys_set [OF ex]) simp
    then have "\<not> has_own c ''name''" by (simp add: has_own_def map_of_eq_None_iff)
    with ex rest show ?thesis by simp
  next
    assume "hasExactKeys c [''type'', ''index'', ''id'', ''name'', ''argumentsDelta''] \<and> is_str (jget c ''name'')"
    moreover from this have "has_own c ''name''" by (simp add: hasExactKeys_def)
    ultimately show ?thesis using rest by simp
  qed
qed

lemma classify_chunk_norm:
  assumes c: "classify_chunk c = Some k" and n: "is_number (jget c ''index'')" and d: "distinct (map fst c)"
  shows "deep_equal (JObj c) (JObj (norm_chunk k c))"
proof (cases "k = KToolCall")
  case True
  note cc = classify_chunk_call [OF c [unfolded True]]
  from n obtain i where i: "jget c ''index'' = Some i" "deep_equal i i" by (auto dest: is_number_Some)
  show ?thesis
  proof (rule exact_keys_equal [OF _ _ d])
    show "hasExactKeys c (map fst (norm_chunk k c))"
      using cc True by (simp add: norm_chunk_def split: if_splits)
    show "distinct (map fst (norm_chunk k c))"
      using True by (simp add: norm_chunk_def)
    show "\<exists>v. jget c key = Some v \<and> deep_equal v w" if "(key, w) \<in> set (norm_chunk k c)" for key w
      using that True cc i by (auto simp: norm_chunk_def is_str_Some value_field_def split: if_splits)
  qed
next
  case False
  note cc = classify_chunk_text [OF c False]
  from n obtain i where i: "jget c ''index'' = Some i" "deep_equal i i" by (auto dest: is_number_Some)
  show ?thesis
  proof (rule exact_keys_equal [OF _ _ d])
    show "hasExactKeys c (map fst (norm_chunk k c))"
      using cc False by (simp add: norm_chunk_def)
    show "distinct (map fst (norm_chunk k c))"
      using False by (simp add: norm_chunk_def)
    show "\<exists>v. jget c key = Some v \<and> deep_equal v w" if "(key, w) \<in> set (norm_chunk k c)" for key w
      using that False cc i by (auto simp: norm_chunk_def is_str_Some value_field_def)
  qed
qed

text \<open>What the whitelist of \<open>classify\<close> amounts to.\<close>

lemma classify_shape:
  assumes "classify e = Some k"
  shows "jget e ''type'' = Some (JStr ''assistant/chunk'')"
    and "hasExactKeys e [''type'', ''seq'', ''time'', ''data'']"
    and "jget e ''seq'' = Some (JInt (int_field e ''seq''))" "safe_int (int_field e ''seq'')" "0 \<le> int_field e ''seq''"
    and "jget e ''time'' = Some (JInt (int_field e ''time''))" "safe_int (int_field e ''time'')"
    and "jget e ''data'' = Some (JObj (sub_record e ''data''))"
    and "hasExactKeys (sub_record e ''data'') [''turn'', ''step'', ''chunk'']"
    and "is_number (jget (sub_record e ''data'') ''turn'')" "is_number (jget (sub_record e ''data'') ''step'')"
    and "jget (sub_record e ''data'') ''chunk'' = Some (JObj (chunk_of e))"
    and "is_number (jget (chunk_of e) ''index'')" "classify_chunk (chunk_of e) = Some k"
proof -
  from assms obtain data chunk where ty: "jget e ''type'' = Some (JStr ''assistant/chunk'')"
    and ex: "hasExactKeys e [''type'', ''seq'', ''time'', ''data'']"
    and sq: "event_seq_of (jget e ''seq'') \<noteq> None" and tm: "as_safe (jget e ''time'') \<noteq> None"
    and da: "record_of (jget e ''data'') = Some data" and exd: "hasExactKeys data [''turn'', ''step'', ''chunk'']"
    and num: "is_number (jget data ''turn'')" "is_number (jget data ''step'')"
    and ch: "record_of (jget data ''chunk'') = Some chunk"
    and idx: "is_number (jget chunk ''index'')" and cc: "classify_chunk chunk = Some k"
    by (auto simp: classify_def split: if_splits option.splits)
  from da have sub: "sub_record e ''data'' = data" by (simp add: sub_record_def)
  from ch have sub2: "sub_record data ''chunk'' = chunk" by (simp add: sub_record_def)
  have cho: "chunk_of e = chunk" using sub sub2 by (simp add: chunk_of_def)
  have nd: "\<not> list_all digit ''turn''" "\<not> list_all digit ''index''" by (simp_all add: digit_def)
  have "jget e ''data'' = Some (JObj data)"
    using record_of_obj [OF da _ nd(1)] exd by (simp add: hasExactKeys_def)
  moreover have "jget data ''chunk'' = Some (JObj chunk)"
    using record_of_obj [OF ch _ nd(2)] idx by (simp add: has_own_jget is_number_def split: option.splits)
  moreover obtain q where "jget e ''seq'' = Some (JInt q)" "safe_int q" "0 \<le> q"
    using sq event_seq_of_Some by (cases "event_seq_of (jget e ''seq'')") auto
  moreover obtain t where "jget e ''time'' = Some (JInt t)" "safe_int t"
    using tm as_safe_Some by (cases "as_safe (jget e ''time'')") auto
  ultimately show "jget e ''type'' = Some (JStr ''assistant/chunk'')"
    "hasExactKeys e [''type'', ''seq'', ''time'', ''data'']"
    "jget e ''seq'' = Some (JInt (int_field e ''seq''))" "safe_int (int_field e ''seq'')" "0 \<le> int_field e ''seq''"
    "jget e ''time'' = Some (JInt (int_field e ''time''))" "safe_int (int_field e ''time'')"
    "jget e ''data'' = Some (JObj (sub_record e ''data''))"
    "hasExactKeys (sub_record e ''data'') [''turn'', ''step'', ''chunk'']"
    "is_number (jget (sub_record e ''data'') ''turn'')" "is_number (jget (sub_record e ''data'') ''step'')"
    "jget (sub_record e ''data'') ''chunk'' = Some (JObj (chunk_of e))"
    "is_number (jget (chunk_of e) ''index'')" "classify_chunk (chunk_of e) = Some k"
    using ty ex exd num idx cc sub cho by (simp_all add: int_field_def)
qed

lemma wf_sub: "wf_json (JObj f) \<Longrightarrow> jget f k = Some v \<Longrightarrow> wf_json v"
  by (auto simp: jget_def list_all_iff dest!: map_of_SomeD)

lemma norm_event_equal:
  assumes c: "classify e = Some k" and wf: "wf_json (JObj e)"
  shows "deep_equal (JObj e) (norm_event k e)"
proof -
  note sh = classify_shape [OF c]
  let ?data = "sub_record e ''data''"
  have wd: "wf_json (JObj ?data)" using wf_sub [OF wf sh(8)] .
  have wc: "wf_json (JObj (chunk_of e))" using wf_sub [OF wd sh(12)] .
  have ch: "deep_equal (JObj (chunk_of e)) (JObj (norm_chunk k (chunk_of e)))"
    using classify_chunk_norm [OF sh(14,13)] wc by simp
  let ?nd = "[(''turn'', value_field ?data ''turn''), (''step'', value_field ?data ''step''),
     (''chunk'', JObj (norm_chunk k (chunk_of e)))]"
  obtain t where t: "jget ?data ''turn'' = Some t" "deep_equal t t"
    using is_number_Some [OF sh(10)] by blast
  obtain st where st: "jget ?data ''step'' = Some st" "deep_equal st st"
    using is_number_Some [OF sh(11)] by blast
  have data: "deep_equal (JObj ?data) (JObj ?nd)"
  proof (rule exact_keys_equal)
    show "hasExactKeys ?data (map fst ?nd)" using sh(9) by simp
    show "distinct (map fst ?data)" using wd by simp
    show "\<exists>v. jget ?data key = Some v \<and> deep_equal v w" if "(key, w) \<in> set ?nd" for key w
      using that t st sh(12) ch by (auto simp: value_field_def)
  qed simp
  have "deep_equal (JObj e) (JObj [(''type'', JStr ''assistant/chunk''), (''seq'', JInt (int_field e ''seq'')),
     (''time'', JInt (int_field e ''time'')), (''data'', JObj ?nd)])" (is "deep_equal _ (JObj ?ne)")
  proof (rule exact_keys_equal)
    show "hasExactKeys e (map fst ?ne)" using sh(2) by simp
    show "distinct (map fst e)" using wf by simp
    show "\<exists>v. jget e key = Some v \<and> deep_equal v w" if "(key, w) \<in> set ?ne" for key w
      using that sh(1,3,6,8) data by auto
  qed simp
  then show ?thesis by (simp add: norm_event_def)
qed

section \<open>Uniform runs\<close>

definition uniform :: "delta_kind \<Rightarrow> fields list \<Rightarrow> bool" where
  "uniform k run \<longleftrightarrow> (\<forall>e \<in> set run. classify e = Some k) \<and> successively (\<lambda>a b. continues a b k) run"

text \<open>What every member of a run shares with the first.\<close>

definition same_block :: "delta_kind \<Rightarrow> fields \<Rightarrow> fields \<Rightarrow> bool" where
  "same_block k a b \<longleftrightarrow>
     jget (sub_record b ''data'') ''turn'' = jget (sub_record a ''data'') ''turn''
   \<and> jget (sub_record b ''data'') ''step'' = jget (sub_record a ''data'') ''step''
   \<and> jget (chunk_of b) ''index'' = jget (chunk_of a) ''index''
   \<and> (k = KToolCall \<longrightarrow> jget (chunk_of b) ''id'' = jget (chunk_of a) ''id''
        \<and> jget (chunk_of b) ''name'' = jget (chunk_of a) ''name'')"

lemma same_block_refl: "same_block k a a"
  by (simp add: same_block_def)

lemma same_block_trans: "same_block k a b \<Longrightarrow> same_block k b c \<Longrightarrow> same_block k a c"
  by (simp add: same_block_def)

lemma continues_iff:
  "continues a b k \<longleftrightarrow> int_field b ''seq'' = int_field a ''seq'' + 1
     \<and> safe_int (int_field b ''time'' - int_field a ''time'') \<and> same_block k a b"
  by (auto simp: continues_def same_block_def has_own_jget simp del: not_None_eq)

lemma uniform_Cons2: "uniform k (a # b # run) \<longleftrightarrow> classify a = Some k \<and> continues a b k \<and> uniform k (b # run)"
  by (auto simp: uniform_def)

lemma uniform_snoc:
  "uniform k run \<Longrightarrow> run \<noteq> [] \<Longrightarrow> continues (last run) e k \<Longrightarrow> classify e = Some k \<Longrightarrow> uniform k (run @ [e])"
  by (auto simp: uniform_def successively_append_iff)

lemma uniform_single: "classify e = Some k \<Longrightarrow> uniform k [e]"
  by (simp add: uniform_def)

lemma uniform_same_block: "uniform k (a # run) \<Longrightarrow> e \<in> set (a # run) \<Longrightarrow> same_block k a e"
proof (induction run arbitrary: a)
  case Nil
  then show ?case by (simp add: same_block_refl)
next
  case (Cons b run)
  then show ?case
    by (auto simp: uniform_Cons2 continues_iff same_block_refl intro: same_block_trans)
qed

lemma length_gaps: "length (gaps run) = length run - 1"
  by (induction run rule: gaps.induct) auto

lemma uniform_gaps: "uniform k run \<Longrightarrow> g \<in> set (gaps run) \<Longrightarrow> safe_int g"
  by (induction run rule: gaps.induct) (auto simp: uniform_Cons2 continues_iff)

lemma uniform_times: "uniform k (a # run) \<Longrightarrow> times_safe (int_field a ''time'') (gaps (a # run))"
proof (induction run arbitrary: a)
  case Nil
  then show ?case by simp
next
  case (Cons b run)
  from Cons.prems have "uniform k (b # run)" by (simp add: uniform_Cons2)
  moreover from this have "classify b = Some k" by (simp add: uniform_def)
  ultimately show ?case using Cons.IH classify_shape(7) by auto
qed

lemma uniform_last_seq:
  "uniform k (a # run) \<Longrightarrow> int_field (last (a # run)) ''seq'' = int_field a ''seq'' + int (length run)"
  by (induction run arbitrary: a) (auto simp: uniform_Cons2 continues_iff)

section \<open>Expanding what was built\<close>

text \<open>The data record of a row against a member it describes.\<close>

definition describes :: "delta_kind \<Rightarrow> fields \<Rightarrow> fields \<Rightarrow> bool" where
  "describes k data e \<longleftrightarrow>
     value_field data ''turn'' = value_field (sub_record e ''data'') ''turn''
   \<and> value_field data ''step'' = value_field (sub_record e ''data'') ''step''
   \<and> value_field data ''index'' = value_field (chunk_of e) ''index''
   \<and> (k = KToolCall \<longrightarrow> value_field data ''id'' = value_field (chunk_of e) ''id''
        \<and> has_own data ''name'' = has_own (chunk_of e) ''name''
        \<and> value_field data ''name'' = value_field (chunk_of e) ''name'')"

lemma describes_same_block: "describes k data a \<Longrightarrow> same_block k a b \<Longrightarrow> describes k data b"
  by (auto simp: describes_def same_block_def value_field_def has_own_jget)

lemma row_tag_inj: "row_tag a = row_tag b \<longleftrightarrow> a = b"
  by (cases a; cases b) (simp_all add: row_tag_def)

lemma member_chunk_norm:
  "describes k data e \<Longrightarrow> member_chunk (row_tag k) data (value_field (chunk_of e) (payload_key k)) =
    JObj (norm_chunk k (chunk_of e))"
  by (cases k) (auto simp: member_chunk_def norm_chunk_def row_tag_inj describes_def payload_key_def)

definition member_payloads :: "delta_kind \<Rightarrow> fields list \<Rightarrow> json list" where
  "member_payloads k run = map (\<lambda>e. value_field (chunk_of e) (payload_key k)) run"

lemma expand_tail:
  assumes "uniform k (a # run)" "describes k data a" "int_field a ''seq'' = seq0 + int (length past)"
  shows "expand_members (row_tag k) data seq0 (past @ gaps (a # run)) (Suc (length past)) (int_field a ''time'')
      (member_payloads k run) = map (norm_event k) run"
  using assms
proof (induction run arbitrary: a past)
  case Nil
  then show ?case by (simp add: member_payloads_def)
next
  case (Cons b run)
  let ?g = "int_field b ''time'' - int_field a ''time''"
  have b: "uniform k (b # run)" "continues a b k" using Cons.prems(1) by (simp_all add: uniform_Cons2)
  then have db: "describes k data b"
    using Cons.prems(2) describes_same_block by (auto simp: continues_iff)
  have sb: "int_field b ''seq'' = seq0 + int (length (past @ [?g]))"
    using b(2) Cons.prems(3) by (simp add: continues_iff)
  have "expand_members (row_tag k) data seq0 ((past @ [?g]) @ gaps (b # run)) (Suc (length (past @ [?g])))
      (int_field b ''time'') (member_payloads k run) = map (norm_event k) run"
    by (rule Cons.IH [OF b(1) db sb])
  then show ?case
    using sb db member_chunk_norm [OF db]
    by (simp add: member_payloads_def norm_event_def nth_append describes_def)
qed

lemma expand_run:
  assumes "uniform k (a # run)" "describes k data a"
  shows "expand_members (row_tag k) data (int_field a ''seq'') (gaps (a # run)) 0 (int_field a ''time'')
      (member_payloads k (a # run)) = map (norm_event k) (a # run)"
  using expand_tail [of k a run data "int_field a ''seq''" "[]"] assms member_chunk_norm [OF assms(2)]
  by (simp add: member_payloads_def norm_event_def describes_def)

text \<open>The row that a uniform run becomes passes the decoder's validation.\<close>

definition row_data :: "delta_kind \<Rightarrow> fields list \<Rightarrow> fields" where
  "row_data k run =
     (let first = hd run; data = sub_record first ''data'';
          base = [(''turn'', value_field data ''turn''), (''step'', value_field data ''step''),
                  (''index'', value_field (chunk_of first) ''index''), (''dt'', JArr (map JInt (gaps run)))]
      in if k = KToolCall
         then base @ [(''id'', value_field (chunk_of first) ''id'')]
                @ (if has_own (chunk_of first) ''name'' then [(''name'', value_field (chunk_of first) ''name'')] else [])
                @ [(''args'', JArr (member_payloads k run))]
         else base @ [(''texts'', JArr (member_payloads k run))])"

definition row_fields :: "delta_kind \<Rightarrow> fields list \<Rightarrow> fields" where
  "row_fields k run = [(''type'', JStr (row_tag k)), (''seq0'', value_field (hd run) ''seq''),
     (''time0'', value_field (hd run) ''time''), (''data'', JObj (row_data k run))]"

lemma buildRow_fields: "buildRow k run = JObj (row_fields k run)"
  by (cases k) (simp_all add: buildRow_def row_fields_def row_data_def member_payloads_def payload_key_def Let_def)

lemma row_data_describes:
  assumes "classify a = Some k"
  shows "describes k (row_data k (a # run)) a"
  by (cases k) (auto simp: describes_def row_data_def Let_def value_field_def has_own_jget js_simps split: option.split)

lemma payloads_str:
  assumes "uniform k run" "v \<in> set (member_payloads k run)"
  shows "is_str (Some v)"
proof -
  obtain e where "e \<in> set run" and v: "v = value_field (chunk_of e) (payload_key k)"
    using assms(2) by (auto simp: member_payloads_def)
  with assms(1) have c: "classify_chunk (chunk_of e) = Some k"
    using classify_shape(14) by (auto simp: uniform_def)
  have "is_str (jget (chunk_of e) (payload_key k))"
    using classify_chunk_text [OF c] classify_chunk_call [of "chunk_of e"] c
    by (cases "k = KToolCall") (auto simp: payload_key_def)
  with v show ?thesis by (auto simp: is_str_Some value_field_def)
qed

definition members_key :: "delta_kind \<Rightarrow> string" where
  "members_key k = (if k = KToolCall then ''args'' else ''texts'')"

lemma row_data_get:
  "jget (row_data k (a # run)) ''turn'' = Some (value_field (sub_record a ''data'') ''turn'')"
  "jget (row_data k (a # run)) ''step'' = Some (value_field (sub_record a ''data'') ''step'')"
  "jget (row_data k (a # run)) ''index'' = Some (value_field (chunk_of a) ''index'')"
  "jget (row_data k (a # run)) ''dt'' = Some (JArr (map JInt (gaps (a # run))))"
  "jget (row_data k (a # run)) (members_key k) = Some (JArr (member_payloads k (a # run)))"
  by (simp_all add: row_data_def members_key_def Let_def js_simps)

lemma validateRunData_row:
  assumes u: "uniform k (a # run)"
  shows "validateRunData tag (row_data k (a # run)) (members_key k) = Inr (member_payloads k (a # run))"
proof -
  from u have c: "classify a = Some k" by (simp add: uniform_def)
  note sh = classify_shape [OF c]
  have num: "is_number (Some (value_field (sub_record a ''data'') ''turn''))"
    "is_number (Some (value_field (sub_record a ''data'') ''step''))"
    "is_number (Some (value_field (chunk_of a) ''index''))"
    using sh(10,11,13) by (auto simp: value_field_def is_number_def split: option.splits)
  have "is_safe (Some (JInt g))" if "g \<in> set (gaps (a # run))" for g
    using uniform_gaps [OF u that] by (simp add: is_safe_def as_safe_def)
  with num payloads_str [OF u] show ?thesis
    unfolding validateRunData_def row_data_get
    by (auto simp: arr_of_def length_gaps member_payloads_def)
qed

lemma validate_data_row:
  assumes u: "uniform k (a # run)"
  shows "validate_data (row_tag k) (row_data k (a # run)) = Inr (member_payloads k (a # run))"
proof (cases "k = KToolCall")
  case True
  from u have c: "classify_chunk (chunk_of a) = Some KToolCall"
    using classify_shape(14) True by (auto simp: uniform_def)
  note cc = classify_chunk_call [OF c]
  let ?d = "row_data k (a # run)"
  have named: "hasExactKeys ?d [''turn'', ''step'', ''index'', ''id'', ''name'', ''dt'', ''args''] \<longleftrightarrow> has_own (chunk_of a) ''name''"
    "hasExactKeys ?d [''turn'', ''step'', ''index'', ''id'', ''dt'', ''args''] \<longleftrightarrow> \<not> has_own (chunk_of a) ''name''"
    using True by (auto simp: row_data_def hasExactKeys_def has_own_def Let_def)
  have ids: "is_str (jget ?d ''id'')" "has_own (chunk_of a) ''name'' \<Longrightarrow> is_str (jget ?d ''name'')"
    using True cc by (auto simp: row_data_def Let_def js_simps is_str_Some value_field_def)
  have "validateRunData (row_tag k) ?d ''args'' = Inr (member_payloads k (a # run))"
    using validateRunData_row [OF u] True by (simp add: members_key_def)
  with True named ids show ?thesis by (simp add: validate_data_def Let_def)
next
  case False
  have "validateRunData (row_tag k) (row_data k (a # run)) ''texts'' = Inr (member_payloads k (a # run))"
    using validateRunData_row [OF u] False by (simp add: members_key_def)
  moreover have "hasExactKeys (row_data k (a # run)) [''turn'', ''step'', ''index'', ''dt'', ''texts'']"
    using False by (simp add: row_data_def hasExactKeys_def has_own_def Let_def)
  ultimately show ?thesis using False by (simp add: validate_data_def row_tag_inj)
qed

lemma decode_row:
  assumes u: "uniform k (a # run)"
  shows "decodeStorageRecord (buildRow k (a # run)) = Inr (map (norm_event k) (a # run))"
proof -
  from u have c: "classify a = Some k" by (simp add: uniform_def)
  note sh = classify_shape [OF c]
  let ?v = "row_fields k (a # run)"
  let ?d = "row_data k (a # run)"
  let ?m = "member_payloads k (a # run)"
  have get: "jget ?v ''type'' = Some (JStr (row_tag k))" "jget ?v ''seq0'' = Some (JInt (int_field a ''seq''))"
    "jget ?v ''time0'' = Some (JInt (int_field a ''time''))" "jget ?v ''data'' = Some (JObj ?d)"
    using sh(3,6) by (simp_all add: row_fields_def js_simps value_field_def)
  have ints: "int_field ?v ''seq0'' = int_field a ''seq''" "int_field ?v ''time0'' = int_field a ''time''"
    using get by (simp_all add: int_field_def)
  have dt: "dt_of ?d = gaps (a # run)"
    by (simp add: dt_of_def row_data_get arr_of_def int_of_def o_def)
  have "classify (last (a # run)) = Some k" using u by (simp add: uniform_def)
  from classify_shape(4) [OF this] have last: "safe_int (int_field a ''seq'' + int (length run))"
    by (simp only: uniform_last_seq [OF u])
  have "hasExactKeys ?v [''type'', ''seq0'', ''time0'', ''data'']"
    by (simp add: row_fields_def hasExactKeys_def has_own_def)
  moreover have "event_seq_of (jget ?v ''seq0'') \<noteq> None" "is_safe (jget ?v ''time0'')"
    using get sh(4,5,7) by (simp_all add: event_seq_of_def is_safe_def as_safe_def)
  moreover have "length ?m = Suc (length run)" by (simp add: member_payloads_def)
  ultimately have "validateRow ?v (row_tag k) = Inr (?d, ?m)"
    using validate_data_row [OF u] last uniform_times [OF u]
    by (simp add: validateRow_def get ints dt record_of_def add.commute)
  moreover have "expandRow (row_tag k) ?v ?d ?m = map (norm_event k) (a # run)"
    unfolding expandRow_def ints dt by (rule expand_run [OF u row_data_describes [OF c]])
  moreover have "row_tag k \<in> set row_tags" by (cases k) (simp_all add: row_tags_def)
  ultimately show ?thesis
    by (simp add: buildRow_fields decodeStorageRecord_def record_of_def get)
qed

section \<open>The packing loop\<close>

text \<open>An event that is not mistaken for a row: its own type is none of the row tags.\<close>

definition storable :: "fields \<Rightarrow> bool" where
  "storable e \<longleftrightarrow> wf_json (JObj e) \<and> (\<forall>t. jget e ''type'' = Some (JStr t) \<longrightarrow> t \<notin> set row_tags)"

lemma decode_plain: "storable e \<Longrightarrow> decodeStorageRecord (JObj e) = Inr [JObj e]"
  by (auto simp: storable_def decodeStorageRecord_def record_of_def split: option.split json.split)

lemma decode_records_append:
  "decode_records (vs @ ws) = rbind (decode_records vs) (\<lambda>es. rbind (decode_records ws) (\<lambda>fs. Inr (es @ fs)))"
proof (induction vs)
  case Nil
  then show ?case by (cases "decode_records ws") simp_all
next
  case (Cons v vs)
  then show ?case
    by (cases "decodeStorageRecord v"; cases "decode_records vs"; cases "decode_records ws") simp_all
qed

lemma decode_plain_records: "list_all storable es \<Longrightarrow> decode_records (map JObj es) = Inr (map JObj es)"
  by (induction es) (simp_all add: decode_plain)

text \<open>The records written so far decode to the events read so far.\<close>

definition stored :: "json list \<Rightarrow> fields list \<Rightarrow> bool" where
  "stored out es \<longleftrightarrow> (\<exists>ds. decode_records out = Inr ds \<and> list_all2 deep_equal (map JObj es) ds)"

lemma stored_append: "stored out es \<Longrightarrow> stored out' es' \<Longrightarrow> stored (out @ out') (es @ es')"
  by (auto simp: stored_def decode_records_append intro: list_all2_appendI)

lemma stored_plain: "list_all storable es \<Longrightarrow> stored (map JObj es) es"
proof -
  assume es: "list_all storable es"
  then have "deep_equal (JObj e) (JObj e)" if "e \<in> set es" for e
    using that by (intro deep_equal_refl) (auto simp: storable_def list_all_iff)
  then have "list_all2 deep_equal (map JObj es) (map JObj es)"
    by (simp add: list_all2_map1 list_all2_map2 list_all2_same del: deep_equal.simps)
  then show ?thesis by (simp add: stored_def decode_plain_records es)
qed

lemma stored_row:
  assumes "uniform k run" "run \<noteq> []" "list_all storable run"
  shows "stored [buildRow k run] run"
proof -
  obtain a as where run: "run = a # as" using assms(2) by (cases run) auto
  have "list_all2 deep_equal (map JObj run) (map (norm_event k) run)"
    using assms(1,3) by (auto simp: list_all2_conv_all_nth uniform_def storable_def list_all_length
        intro!: norm_event_equal)
  with decode_row [OF assms(1) [unfolded run]] show ?thesis
    by (simp add: stored_def run)
qed

definition run_ok :: "delta_kind option \<Rightarrow> fields list \<Rightarrow> bool" where
  "run_ok kind run \<longleftrightarrow> list_all storable run
     \<and> (case kind of None \<Rightarrow> run = [] | Some k \<Rightarrow> run \<noteq> [] \<and> uniform k run)"

lemma flush_stored:
  assumes "stored out hist" "run_ok kind run"
  shows "stored (flush out kind run) (hist @ run)"
proof -
  have "\<exists>ws. flush out kind run = out @ ws \<and> stored ws run"
    using assms(2) stored_plain stored_row
    by (auto simp: flush_def run_ok_def split: option.splits)
  with stored_append [OF assms(1)] show ?thesis by auto
qed

lemma pack_loop_stored:
  assumes "stored out hist" "run_ok kind run" "list_all storable es"
  shows "stored (pack_loop out kind run es) (hist @ run @ es)"
  using assms
proof (induction out kind run es arbitrary: hist rule: pack_loop.induct)
  case (1 out kind run)
  then show ?case using flush_stored by simp
next
  case (2 out kind run e rest)
  note fl = flush_stored [OF 2(4,5)]
  from 2(6) have e: "storable e" and rest: "list_all storable rest" by simp_all
  show ?case
  proof (cases "classify e")
    case None
    have "stored (flush out kind run @ [JObj e]) ((hist @ run) @ [e])"
      using stored_append [OF fl stored_plain [of "[e]"]] e by simp
    from 2(1) [OF None this _ rest] None show ?thesis by (simp add: run_ok_def)
  next
    case (Some k)
    show ?thesis
    proof (cases "kind = Some k \<and> run \<noteq> [] \<and> continues (last run) e k")
      case True
      then have "run_ok kind (run @ [e])"
        using 2(5) e Some by (auto simp: run_ok_def intro: uniform_snoc)
      from 2(2) [OF Some True 2(4) this rest] Some True show ?thesis by simp
    next
      case False
      have "run_ok (Some k) [e]" using e Some by (simp add: run_ok_def uniform_single)
      from 2(3) [OF Some False fl this rest] Some False show ?thesis by auto
    qed
  qed
qed

lemma flush_length: "length (flush out kind run) \<le> length out + length run"
  by (auto simp: flush_def MIN_RUN_def split: option.split)

lemma pack_loop_length: "length (pack_loop out kind run es) \<le> length out + length run + length es"
proof (induction out kind run es rule: pack_loop.induct)
  case (1 out kind run)
  then show ?case by (simp add: flush_length)
next
  case (2 out kind run e rest)
  then show ?case using flush_length [of out kind run]
    by (auto split: option.split)
qed

section \<open>Accepted rows\<close>

lemma expand_members_length: "length (expand_members tag data seq0 dt k time ms) = length ms"
  by (induction tag data seq0 dt k time ms rule: expand_members.induct) (simp_all add: Let_def)

lemma validateRunData_Inr:
  assumes "validateRunData tag data key = Inr payload"
  shows "is_number (jget data ''turn'')" "is_number (jget data ''step'')" "is_number (jget data ''index'')"
    "payload \<noteq> []" "\<forall>v \<in> set payload. is_str (Some v)" "length (dt_of data) = length payload - 1"
  using assms
  by (auto simp: validateRunData_def dt_of_def split: if_splits option.splits)

lemma expand_members_nth:
  "i < length ms \<Longrightarrow> \<exists>t. expand_members tag data seq0 dt k time ms ! i =
     JObj [(''type'', JStr ''assistant/chunk''), (''seq'', JInt (seq0 + int (k + i))), (''time'', JInt t),
            (''data'', JObj [(''turn'', value_field data ''turn''), (''step'', value_field data ''step''),
                             (''chunk'', member_chunk tag data (ms ! i))])]
     \<and> (safe_int time \<and> times_safe time (drop (k - 1) dt) \<and> (0 < k \<longrightarrow> k - 1 + length ms = length dt)
        \<and> (k = 0 \<longrightarrow> length ms = length dt + 1) \<longrightarrow> safe_int t)"
proof (induction tag data seq0 dt k time ms arbitrary: i rule: expand_members.induct)
  case (1 tag data seq0 dt k time)
  then show ?case by simp
next
  case (2 tag data seq0 dt k time m ms)
  let ?t = "if 0 < k then time + dt ! (k - 1) else time"
  have safe: "safe_int ?t \<and> times_safe ?t (drop (Suc k - 1) dt)"
    if "safe_int time" "times_safe time (drop (k - 1) dt)" "0 < k \<longrightarrow> k - 1 + length (m # ms) = length dt"
  proof (cases "0 < k")
    case True
    then obtain j where "k = Suc j" by (cases k) auto
    with that(3) have "drop (k - 1) dt = dt ! (k - 1) # drop k dt"
      by (simp add: Cons_nth_drop_Suc)
    with that(2) True show ?thesis by (auto split: if_splits)
  next
    case False
    with that show ?thesis by simp
  qed
  show ?case
  proof (cases i)
    case 0
    with safe show ?thesis by (auto simp: Let_def)
  next
    case (Suc j)
    with 2(2) have "j < length ms" by simp
    from 2(1) [OF refl this] obtain t where
      t: "expand_members tag data seq0 dt (Suc k) ?t ms ! j =
        JObj [(''type'', JStr ''assistant/chunk''), (''seq'', JInt (seq0 + int (Suc k + j))), (''time'', JInt t),
            (''data'', JObj [(''turn'', value_field data ''turn''), (''step'', value_field data ''step''),
                             (''chunk'', member_chunk tag data (ms ! j))])]"
      and ts: "safe_int ?t \<and> times_safe ?t (drop (Suc k - 1) dt) \<and> Suc k - 1 + length ms = length dt \<longrightarrow> safe_int t"
      by auto
    have "safe_int t" if "safe_int time \<and> times_safe time (drop (k - 1) dt) \<and>
        (0 < k \<longrightarrow> k - 1 + length (m # ms) = length dt) \<and> (k = 0 \<longrightarrow> length (m # ms) = length dt + 1)"
      using ts safe that by (cases k) auto
    with t Suc show ?thesis by (auto simp: Let_def)
  qed
qed

lemma validate_data_name:
  assumes "validate_data (row_tag KToolCall) data = Inr payload"
  shows "is_str (jget data ''id'') \<and> (has_own data ''name'' \<longrightarrow> is_str (jget data ''name''))
    \<and> validateRunData (row_tag KToolCall) data ''args'' = Inr payload"
proof (cases "hasExactKeys data [''turn'', ''step'', ''index'', ''id'', ''name'', ''dt'', ''args'']")
  case True
  with assms show ?thesis by (auto simp: validate_data_def Let_def split: if_splits)
next
  case False
  with assms have ex: "hasExactKeys data [''turn'', ''step'', ''index'', ''id'', ''dt'', ''args'']"
    by (auto simp: validate_data_def Let_def split: if_splits)
  have "set (map fst data) = set [''turn'', ''step'', ''index'', ''id'', ''dt'', ''args'']"
    by (rule exact_keys_set [OF ex]) simp
  then have "\<not> has_own data ''name''" by (simp add: has_own_def map_of_eq_None_iff)
  with assms False show ?thesis by (auto simp: validate_data_def Let_def split: if_splits)
qed

lemma validate_data_run:
  assumes "validate_data (row_tag k) data = Inr payload"
  shows "\<exists>key. validateRunData (row_tag k) data key = Inr payload"
  using assms validate_data_name [of data payload]
  by (cases "k = KToolCall") (auto simp: validate_data_def row_tag_inj split: if_splits)

text \<open>A member of an accepted row has a shape the packer whitelists.\<close>

lemma member_chunk_classified:
  assumes v: "validate_data (row_tag k) data = Inr payload" and m: "m \<in> set payload"
  shows "\<exists>c. member_chunk (row_tag k) data m = JObj c \<and> is_number (jget c ''index'') \<and> classify_chunk c = Some k"
proof -
  obtain key where "validateRunData (row_tag k) data key = Inr payload"
    using validate_data_run [OF v] by blast
  note vd = validateRunData_Inr [OF this]
  from vd(3) obtain i where i: "jget data ''index'' = Some i" "is_number (Some i)"
    by (cases "jget data ''index''") (auto simp: is_number_def)
  from vd(5) m have ms: "is_str (Some m)" by blast
  show ?thesis
  proof (cases "k = KToolCall")
    case True
    from v True have "is_str (jget data ''id'') \<and> (has_own data ''name'' \<longrightarrow> is_str (jget data ''name''))"
      using validate_data_name by blast
    then obtain s where "jget data ''id'' = Some (JStr s)" "has_own data ''name'' \<Longrightarrow> is_str (jget data ''name'')"
      by (auto simp: is_str_Some)
    with True i ms show ?thesis
      by (auto simp: member_chunk_def classify_chunk_def kind_tag_def hasExactKeys_def has_own_jget js_simps
          value_field_def is_str_Some Let_def)
  next
    case False
    with i ms show ?thesis
      by (cases k) (auto simp: member_chunk_def row_tag_inj classify_chunk_def kind_tag_def hasExactKeys_def
          has_own_jget js_simps value_field_def Let_def)
  qed
qed

lemma validateRow_Inr:
  assumes "validateRow value tag = Inr (data, payload)"
  shows "event_seq_of (jget value ''seq0'') = Some (int_field value ''seq0'')"
    "safe_int (int_field value ''time0'')" "validate_data tag data = Inr payload"
    "safe_int (int_field value ''seq0'' + int (length payload) - 1)"
    "times_safe (int_field value ''time0'') (dt_of data)"
proof -
  have q: "event_seq_of (jget value ''seq0'') \<noteq> None" "is_safe (jget value ''time0'')"
    using assms by (auto simp: validateRow_def split: if_splits option.splits)
  show "event_seq_of (jget value ''seq0'') = Some (int_field value ''seq0'')"
    using q(1) event_seq_of_Some by (cases "event_seq_of (jget value ''seq0'')") (auto simp: int_field_def)
  show "safe_int (int_field value ''time0'')"
    using q(2) as_safe_Some by (cases "as_safe (jget value ''time0'')") (auto simp: int_field_def is_safe_def)
  show "validate_data tag data = Inr payload"
    "safe_int (int_field value ''seq0'' + int (length payload) - 1)"
    "times_safe (int_field value ''time0'') (dt_of data)"
    using assms by (auto simp: validateRow_def rbind_Inr_iff split: if_splits option.splits)
qed

section \<open>Properties\<close>

text \<open>C20. Packing is lossless: whatever well-formed events are packed, in whatever runs,
  decoding the stored records succeeds and gives the same events in the same order, each equal
  up to the order of its keys; and packing never stores more records than events.\<close>

theorem pack_roundtrip:
  assumes "\<forall>e \<in> set es. wf_json (JObj e) \<and> (\<forall>t. jget e ''type'' = Some (JStr t) \<longrightarrow> t \<notin> set row_tags)"
  shows "(\<exists>ds. decode_records (packChunkRuns es) = Inr ds \<and> list_all2 deep_equal (map JObj es) ds)
    \<and> length (packChunkRuns es) \<le> length es"
proof -
  have "stored [] []" by (simp add: stored_def)
  moreover have "run_ok None []" by (simp add: run_ok_def)
  moreover have "list_all storable es" using assms by (simp add: storable_def list_all_iff)
  ultimately have "stored (packChunkRuns es) es"
    using pack_loop_stored [of "[]" "[]" None "[]" es] by (simp add: packChunkRuns_def)
  then show ?thesis
    using pack_loop_length [of "[]" None "[]" es] by (simp add: stored_def packChunkRuns_def)
qed

definition sample_delta :: "int \<Rightarrow> int \<Rightarrow> string \<Rightarrow> fields" where
  "sample_delta q t s = [(''seq'', JInt q), (''type'', JStr ''assistant/chunk''), (''time'', JInt t),
     (''data'', JObj [(''turn'', JInt 1), (''step'', JInt 1),
        (''chunk'', JObj [(''index'', JInt 0), (''type'', JStr ''text-delta''), (''text'', JStr s)])])]"

definition sample_deltas :: "fields list" where
  "sample_deltas = [sample_delta 5 100 ''a'', sample_delta 6 101 ''b'', sample_delta 7 99 ''c'']"

lemma sample_deltas_packed: "length (packChunkRuns sample_deltas) = 1"
  by code_simp

lemma pack_roundtrip_witness:
  "\<exists>ds. decode_records (packChunkRuns sample_deltas) = Inr ds \<and> length ds = 3"
proof -
  have "\<forall>e \<in> set sample_deltas. wf_json (JObj e) \<and> (\<forall>t. jget e ''type'' = Some (JStr t) \<longrightarrow> t \<notin> set row_tags)"
    by (simp add: sample_deltas_def sample_delta_def js_simps row_tags_def row_tag_def)
  from pack_roundtrip [OF this] show ?thesis
    by (auto simp: sample_deltas_def list_all2_conv_all_nth)
qed

text \<open>
  A row the decoder accepts stands for a whole run: it yields one event per member,
  their sequence numbers are consecutive from \<open>seq0\<close> and safe, their times are safe, and each
  is an event the packer would recognise as a delta of the row's kind.\<close>

theorem decoded_row_members:
  assumes "decodeStorageRecord (JObj o') = Inr evs" and "jget o' ''type'' = Some (JStr (row_tag k))"
  shows "evs \<noteq> [] \<and> (\<forall>i < length evs. \<exists>e. evs ! i = JObj e \<and> classify e = Some k
    \<and> as_safe (jget e ''seq'') = Some (int_field o' ''seq0'' + int i))"
proof -
  have "row_tag k \<in> set row_tags" by (cases k) (simp_all add: row_tags_def)
  with assms obtain data payload where v: "validateRow o' (row_tag k) = Inr (data, payload)"
    and evs: "evs = expandRow (row_tag k) o' data payload"
    by (auto simp: decodeStorageRecord_def record_of_def rbind_Inr_iff)
  note vr = validateRow_Inr [OF v]
  obtain key where "validateRunData (row_tag k) data key = Inr payload"
    using validate_data_run [OF vr(3)] by blast
  note vd = validateRunData_Inr [OF this]
  have len: "length evs = length payload"
    unfolding evs expandRow_def by (rule expand_members_length)
  have "\<exists>e. evs ! i = JObj e \<and> classify e = Some k \<and> as_safe (jget e ''seq'') = Some (int_field o' ''seq0'' + int i)"
    if i: "i < length evs" for i
  proof -
    from i len have ip: "i < length payload" by simp
    have arity: "length payload = length (dt_of data) + 1" using vd(4,6) by (cases payload) auto
    obtain t where ev: "evs ! i = JObj [(''type'', JStr ''assistant/chunk''), (''seq'', JInt (int_field o' ''seq0'' + int i)),
        (''time'', JInt t), (''data'', JObj [(''turn'', value_field data ''turn''), (''step'', value_field data ''step''),
           (''chunk'', member_chunk (row_tag k) data (payload ! i))])]" and t: "safe_int t"
      using expand_members_nth [OF ip, of "row_tag k" data "int_field o' ''seq0''" "dt_of data" 0 "int_field o' ''time0''"]
        vr(2,5) arity unfolding evs expandRow_def by auto
    obtain c where c: "member_chunk (row_tag k) data (payload ! i) = JObj c" "is_number (jget c ''index'')"
      "classify_chunk c = Some k"
      using member_chunk_classified [OF vr(3)] ip by (meson nth_mem)
    have q: "safe_int (int_field o' ''seq0'' + int i)" "0 \<le> int_field o' ''seq0'' + int i"
      using vr(1,4) ip by (auto simp: event_seq_of_Some intro: safe_int_mono)
    have num: "is_number (Some (value_field data ''turn''))" "is_number (Some (value_field data ''step''))"
      using vd(1,2) by (auto simp: value_field_def is_number_def split: option.splits)
    show ?thesis
      using ev c q t num
      by (auto simp: classify_def hasExactKeys_def has_own_jget js_simps record_of_def event_seq_of_def as_safe_def)
  qed
  moreover have "evs \<noteq> []" using len vd(4) by auto
  ultimately show ?thesis by blast
qed

definition sample_row :: fields where
  "sample_row = [(''type'', JStr ''text-chunks''), (''seq0'', JInt 5), (''time0'', JInt 100),
     (''data'', JObj [(''turn'', JInt 1), (''step'', JInt 1), (''index'', JInt 0),
        (''dt'', JArr [JInt 1, JInt (-2)]), (''texts'', JArr [JStr ''a'', JStr ''b'', JStr ''c''])])]"

lemma sample_row_decoded:
  "map_option length (case decodeStorageRecord (JObj sample_row) of Inr es \<Rightarrow> Some es | Inl _ \<Rightarrow> None) = Some 3"
  by code_simp

lemma decoded_row_members_witness:
  "\<exists>evs e. decodeStorageRecord (JObj sample_row) = Inr evs \<and> evs ! 2 = JObj e \<and> as_safe (jget e ''seq'') = Some 7"
proof -
  from sample_row_decoded obtain evs where d: "decodeStorageRecord (JObj sample_row) = Inr evs" "length evs = 3"
    by (auto split: sum.splits)
  have "jget sample_row ''type'' = Some (JStr (row_tag KText))"
    by (simp add: sample_row_def js_simps row_tag_def)
  from decoded_row_members [OF d(1) this] have "\<forall>i < length evs. \<exists>e. evs ! i = JObj e
    \<and> as_safe (jget e ''seq'') = Some (int_field sample_row ''seq0'' + int i)" by blast
  with d(2) have "\<exists>e. evs ! 2 = JObj e \<and> as_safe (jget e ''seq'') = Some (int_field sample_row ''seq0'' + int 2)"
    by (simp del: of_nat_numeral)
  moreover have "int_field sample_row ''seq0'' = 5" by (simp add: int_field_def sample_row_def js_simps)
  ultimately show ?thesis using d(1) by auto
qed

end
