(* ===== verification/Goal_Domain.thy ===== *)
theory Goal_Domain
  imports Session_Types Event_Replay
begin

text \<open>
  The goal domain: its types (\<open>src/packages/goal/goal/src/types.ts\<close>, \<open>domain.ts\<close>), the strict
  decoder and the replay fold of durable goal changes (\<open>fold.ts\<close>), and the last-wins
  projection (\<open>applyGoalProjection\<close> of \<open>index.ts\<close>). The lemmas show that decoding inverts the
  encoding of every valid change, what the fold keeps invariant, and how the projection
  relates to the fold.
\<close>

section \<open>Types\<close>

datatype goal_phase = Active | Paused | Blocked | Complete

record goal_ref =
  gr_id :: string
  gr_revision :: int

record goal_block_reason =
  br_code :: string
  br_message :: string

record goal_snapshot =
  g_id :: string
  g_revision :: int
  g_objective :: string
  g_phase :: goal_phase
  g_blocked :: "goal_block_reason option"
  g_max :: int

text \<open>\<open>Exclude<GoalOperation, 'clear'>\<close>; \<open>clear\<close> is the other kind of change.\<close>

datatype goal_operation = GCreate | GEdit | GPause | GResume | GComplete | GBlock

datatype goal_change =
    SnapshotChange goal_operation goal_snapshot int int int
  | ClearChange goal_ref int

record goal_fold =
  gf_goal :: "goal_snapshot option"
  gf_rounds :: int
  gf_created :: "int option"
  gf_updated :: "int option"
  gf_last :: "goal_ref option"
  gf_seen :: "string list"

definition emptyGoalFoldState :: goal_fold where
  "emptyGoalFoldState = \<lparr>gf_goal = None, gf_rounds = 0, gf_created = None, gf_updated = None,
     gf_last = None, gf_seen = []\<rparr>"

datatype goal_fold_error =
    NotPositive string
  | NotNonNegative string
  | ReasonKeys
  | ReasonCode
  | ReasonMessage
  | GoalNotRecord
  | GoalId
  | GoalObjective
  | GoalPhase
  | GoalKeys
  | RefKeys
  | RefId
  | BadVersion
  | ClearKeys
  | BadOperation
  | SnapshotKeys
  | TimesReversed
  | BadGoalSource
  | DefinitionChanged
  | NotNextRevision
  | NoUpdatedAt
  | CountersChanged
  | EditChangedPhase
  | BadTransition goal_operation
  | ClearWithoutGoal
  | ClearTooEarly
  | BadCreate
  | ChangeWithoutGoal
  | BadKind
  | NotNextRound

type_synonym 'a gres = "(goal_fold_error, 'a) result"

section \<open>Decoding\<close>

text \<open>\<open>isRecord\<close>: an object, not an array.\<close>

definition obj_of :: "json option \<Rightarrow> fields option" where
  "obj_of v = (case v of Some (JObj o') \<Rightarrow> Some o' | _ \<Rightarrow> None)"

definition positiveInteger :: "json option \<Rightarrow> string \<Rightarrow> int gres" where
  "positiveInteger v field = (case as_safe v of
     Some n \<Rightarrow> if n < 1 then Inl (NotPositive field) else Inr n | None \<Rightarrow> Inl (NotPositive field))"

definition nonNegativeInteger :: "json option \<Rightarrow> string \<Rightarrow> int gres" where
  "nonNegativeInteger v field = (case as_safe v of
     Some n \<Rightarrow> if n < 0 then Inl (NotNonNegative field) else Inr n | None \<Rightarrow> Inl (NotNonNegative field))"

text \<open>\<open>Object.keys(value).sort().join(',')\<close>.\<close>

definition keys_text :: "fields \<Rightarrow> string" where
  "keys_text o' = join_with '','' (sort (map fst o'))"

text \<open>The pattern \<open>/^[a-z][a-z0-9]*(?:-[a-z0-9]+)*$/\<close>, one character at a time.\<close>

definition lower :: "char \<Rightarrow> bool" where
  "lower c \<longleftrightarrow> (97::nat) \<le> of_char c \<and> of_char c \<le> (122::nat)"

definition lower_digit :: "char \<Rightarrow> bool" where
  "lower_digit c \<longleftrightarrow> lower c \<or> ((48::nat) \<le> of_char c \<and> of_char c \<le> (57::nat))"

fun kebab_rest :: "bool \<Rightarrow> string \<Rightarrow> bool" where
  "kebab_rest after_dash [] = (\<not> after_dash)"
| "kebab_rest after_dash (c # cs) =
     (if lower_digit c then kebab_rest False cs
      else if c = CHR ''-'' \<and> \<not> after_dash then kebab_rest True cs
      else False)"

fun is_kebab :: "string \<Rightarrow> bool" where
  "is_kebab [] = False"
| "is_kebab (c # cs) = (lower c \<and> kebab_rest False cs)"

definition normalized :: "string \<Rightarrow> bool" where
  "normalized s \<longleftrightarrow> trim s \<noteq> [] \<and> s = trim s"

definition decodeBlockReason :: "json option \<Rightarrow> goal_block_reason gres" where
  "decodeBlockReason v =
     (case obj_of v of
        None \<Rightarrow> Inl ReasonKeys
      | Some o' \<Rightarrow>
          if keys_text o' \<noteq> ''code,message'' then Inl ReasonKeys
          else (case as_str (jget o' ''code'') of
              None \<Rightarrow> Inl ReasonCode
            | Some code \<Rightarrow>
                if \<not> is_kebab code then Inl ReasonCode
                else (case as_str (jget o' ''message'') of
                    None \<Rightarrow> Inl ReasonMessage
                  | Some m \<Rightarrow> if \<not> normalized m then Inl ReasonMessage
                             else Inr \<lparr>br_code = code, br_message = m\<rparr>)))"

definition phase_text :: "goal_phase \<Rightarrow> string" where
  "phase_text p = (case p of Active \<Rightarrow> ''active'' | Paused \<Rightarrow> ''paused'' | Blocked \<Rightarrow> ''blocked''
     | Complete \<Rightarrow> ''complete'')"

definition phase_of :: "string \<Rightarrow> goal_phase option" where
  "phase_of s = find (\<lambda>p. phase_text p = s) [Active, Paused, Blocked, Complete]"

definition decodeSnapshot :: "json option \<Rightarrow> goal_snapshot gres" where
  "decodeSnapshot v =
     (case obj_of v of
        None \<Rightarrow> Inl GoalNotRecord
      | Some o' \<Rightarrow>
          (case as_str (jget o' ''id'') of
             None \<Rightarrow> Inl GoalId
           | Some i \<Rightarrow>
               if i = [] then Inl GoalId
               else (case as_str (jget o' ''objective'') of
                   None \<Rightarrow> Inl GoalObjective
                 | Some ob \<Rightarrow>
                     if \<not> normalized ob then Inl GoalObjective
                     else (case Option.bind (as_str (jget o' ''phase'')) phase_of of
                         None \<Rightarrow> Inl GoalPhase
                       | Some phase \<Rightarrow>
                           if keys_text o' \<noteq> (if phase = Blocked
                                then ''blockedReason,id,maxGoalRounds,objective,phase,revision''
                                else ''id,maxGoalRounds,objective,phase,revision'')
                           then Inl GoalKeys
                           else rbind (positiveInteger (jget o' ''revision'') ''goal.revision'') (\<lambda>rev.
                                rbind (positiveInteger (jget o' ''maxGoalRounds'') ''goal.maxGoalRounds'') (\<lambda>mx.
                                rbind (if phase = Blocked
                                       then rbind (decodeBlockReason (jget o' ''blockedReason'')) (\<lambda>r. Inr (Some r))
                                       else Inr None) (\<lambda>r.
                                  Inr \<lparr>g_id = i, g_revision = rev, g_objective = ob, g_phase = phase,
                                       g_blocked = r, g_max = mx\<rparr>)))))))"

definition decodeRef :: "json option \<Rightarrow> goal_ref gres" where
  "decodeRef v =
     (case obj_of v of
        None \<Rightarrow> Inl RefKeys
      | Some o' \<Rightarrow>
          if keys_text o' \<noteq> ''id,revision'' then Inl RefKeys
          else (case as_str (jget o' ''id'') of
              None \<Rightarrow> Inl RefId
            | Some i \<Rightarrow>
                if i = [] then Inl RefId
                else rbind (positiveInteger (jget o' ''revision'') ''cleared.revision'') (\<lambda>rev.
                  Inr \<lparr>gr_id = i, gr_revision = rev\<rparr>)))"

definition operation_text :: "goal_operation \<Rightarrow> string" where
  "operation_text op = (case op of GCreate \<Rightarrow> ''create'' | GEdit \<Rightarrow> ''edit'' | GPause \<Rightarrow> ''pause''
     | GResume \<Rightarrow> ''resume'' | GComplete \<Rightarrow> ''complete'' | GBlock \<Rightarrow> ''block'')"

definition operation_of :: "string \<Rightarrow> goal_operation option" where
  "operation_of s = find (\<lambda>op. operation_text op = s) [GCreate, GEdit, GPause, GResume, GComplete, GBlock]"

definition decodeGoalChange :: "json \<Rightarrow> goal_change option gres" where
  "decodeGoalChange value =
     (case obj_of (Some value) of
        None \<Rightarrow> Inr None
      | Some o' \<Rightarrow>
          if jget o' ''kind'' \<noteq> Some (JStr ''goal/change'') then Inr None
          else if jget o' ''version'' \<noteq> Some (JInt 1) then Inl BadVersion
          else if jget o' ''operation'' = Some (JStr ''clear'')
          then (if keys_text o' \<noteq> ''cleared,clearedAt,kind,operation,version'' then Inl ClearKeys
                else rbind (decodeRef (jget o' ''cleared'')) (\<lambda>ref.
                     rbind (nonNegativeInteger (jget o' ''clearedAt'') ''clearedAt'') (\<lambda>t.
                       Inr (Some (ClearChange ref t)))))
          else (case Option.bind (as_str (jget o' ''operation'')) operation_of of
              None \<Rightarrow> Inl BadOperation
            | Some op \<Rightarrow>
                if keys_text o' \<noteq> ''createdAt,goal,kind,operation,roundsStarted,updatedAt,version'' then Inl SnapshotKeys
                else rbind (nonNegativeInteger (jget o' ''createdAt'') ''createdAt'') (\<lambda>created.
                     rbind (nonNegativeInteger (jget o' ''updatedAt'') ''updatedAt'') (\<lambda>updated.
                     if updated < created then Inl TimesReversed
                     else rbind (decodeSnapshot (jget o' ''goal'')) (\<lambda>goal.
                          rbind (nonNegativeInteger (jget o' ''roundsStarted'') ''roundsStarted'') (\<lambda>rounds.
                            Inr (Some (SnapshotChange op goal rounds created updated))))))))"

section \<open>The strict fold\<close>

text \<open>\<open>goalSource\<close> on the attribution of a message: the goal id, revision and round.\<close>

definition goalSource :: "message_source \<Rightarrow> (string \<times> int \<times> int) option gres" where
  "goalSource src = (case src of
       SrcGoal i rn round' \<Rightarrow>
         if i = [] \<or> \<not> safe_int rn \<or> rn < 1 \<or> \<not> safe_int round' \<or> round' < 1 then Inl BadGoalSource
         else Inr (Some (i, rn, round'))
     | _ \<Rightarrow> Inr None)"

definition requireSameDefinition :: "goal_snapshot \<Rightarrow> goal_snapshot \<Rightarrow> unit gres" where
  "requireSameDefinition current nxt =
     (if g_objective nxt \<noteq> g_objective current \<or> g_max nxt \<noteq> g_max current then Inl DefinitionChanged else Inr ())"

definition requireNextRevision :: "goal_snapshot \<Rightarrow> goal_ref \<Rightarrow> unit gres" where
  "requireNextRevision current nxt =
     (if gr_id nxt \<noteq> g_id current \<or> gr_revision nxt \<noteq> g_revision current + 1 then Inl NotNextRevision else Inr ())"

definition snapshot_ref :: "goal_snapshot \<Rightarrow> goal_ref" where
  "snapshot_ref g = \<lparr>gr_id = g_id g, gr_revision = g_revision g\<rparr>"

definition check_transition :: "goal_fold \<Rightarrow> goal_operation \<Rightarrow> goal_snapshot \<Rightarrow> goal_snapshot \<Rightarrow> unit gres" where
  "check_transition st op nxt current =
     (case op of
        GEdit \<Rightarrow> (if g_phase nxt \<noteq> g_phase current \<or> g_blocked nxt \<noteq> g_blocked current
                  then Inl EditChangedPhase else Inr ())
      | GPause \<Rightarrow> rbind (requireSameDefinition current nxt) (\<lambda>_.
          if g_phase current \<noteq> Active \<or> g_phase nxt \<noteq> Paused then Inl (BadTransition op) else Inr ())
      | GResume \<Rightarrow> rbind (requireSameDefinition current nxt) (\<lambda>_.
          if g_phase current \<notin> {Active, Paused, Blocked} \<or> g_phase nxt \<noteq> Active \<or> g_max nxt \<le> gf_rounds st
          then Inl (BadTransition op) else Inr ())
      | GComplete \<Rightarrow> rbind (requireSameDefinition current nxt) (\<lambda>_.
          if g_phase current = Complete \<or> g_phase nxt \<noteq> Complete then Inl (BadTransition op) else Inr ())
      | GBlock \<Rightarrow> rbind (requireSameDefinition current nxt) (\<lambda>_.
          if g_phase current \<noteq> Active \<or> g_phase nxt \<noteq> Blocked then Inl (BadTransition op) else Inr ())
      | GCreate \<Rightarrow> Inl (BadTransition op))"

definition validateSnapshotTransition ::
    "goal_fold \<Rightarrow> goal_operation \<Rightarrow> goal_snapshot \<Rightarrow> int \<Rightarrow> int \<Rightarrow> int \<Rightarrow> goal_snapshot \<Rightarrow> unit gres" where
  "validateSnapshotTransition st op nxt rounds created updated current =
     rbind (requireNextRevision current (snapshot_ref nxt)) (\<lambda>_.
       case gf_updated st of
         None \<Rightarrow> Inl NoUpdatedAt
       | Some u \<Rightarrow>
           if Some created \<noteq> gf_created st \<or> updated < u \<or> rounds \<noteq> gf_rounds st then Inl CountersChanged
           else check_transition st op nxt current)"

fun goalChangeRef :: "goal_change \<Rightarrow> goal_ref" where
  "goalChangeRef (ClearChange ref _) = ref"
| "goalChangeRef (SnapshotChange _ g _ _ _) = snapshot_ref g"

fun applyGoalChange :: "goal_fold \<Rightarrow> goal_change \<Rightarrow> goal_fold gres" where
  "applyGoalChange st (ClearChange ref t) =
     (case gf_goal st of
        None \<Rightarrow> Inl ClearWithoutGoal
      | Some current \<Rightarrow> rbind (requireNextRevision current ref) (\<lambda>_.
          case gf_updated st of
            None \<Rightarrow> Inl NoUpdatedAt
          | Some u \<Rightarrow> if t < u then Inl ClearTooEarly
                      else Inr (st\<lparr>gf_goal := None, gf_rounds := 0, gf_created := None, gf_updated := None,
                                   gf_last := Some ref\<rparr>)))"
| "applyGoalChange st (SnapshotChange op g rounds created updated) =
     rbind (if op = GCreate
            then (if g_revision g \<noteq> 1 \<or> g_phase g \<noteq> Active \<or> rounds \<noteq> 0
                     \<or> (case gf_goal st of None \<Rightarrow> False | Some c \<Rightarrow> g_phase c \<noteq> Complete)
                     \<or> g_id g \<in> set (gf_seen st)
                  then Inl BadCreate
                  else Inr (st\<lparr>gf_seen := gf_seen st @ [g_id g]\<rparr>))
            else (case gf_goal st of
                    None \<Rightarrow> Inl ChangeWithoutGoal
                  | Some current \<Rightarrow>
                      rbind (validateSnapshotTransition st op g rounds created updated current) (\<lambda>_. Inr st)))
       (\<lambda>st'. Inr (st'\<lparr>gf_goal := Some g, gf_rounds := rounds, gf_created := Some created,
                       gf_updated := Some updated, gf_last := Some (snapshot_ref g)\<rparr>))"

definition applyGoalEvent :: "goal_fold \<Rightarrow> session_event \<Rightarrow> goal_fold gres" where
  "applyGoalEvent st e = (case ev_data e of
       GoalChange v \<Rightarrow> rbind (decodeGoalChange v) (\<lambda>c. case c of
           None \<Rightarrow> Inl BadKind | Some change \<Rightarrow> applyGoalChange st change)
     | UserMessage m \<Rightarrow> rbind (goalSource (um_source m)) (\<lambda>src. case src of
           None \<Rightarrow> Inr st
         | Some (i, rn, round') \<Rightarrow>
             (case gf_goal st of
                None \<Rightarrow> Inl NotNextRound
              | Some current \<Rightarrow>
                  if g_phase current \<noteq> Active \<or> i \<noteq> g_id current \<or> rn \<noteq> g_revision current
                     \<or> round' \<noteq> gf_rounds st + 1 \<or> g_max current < round'
                  then Inl NotNextRound else Inr (st\<lparr>gf_rounds := round'\<rparr>)))
     | _ \<Rightarrow> Inr st)"

definition foldGoal :: "session_event list \<Rightarrow> goal_fold gres" where
  "foldGoal es = replay applyGoalEvent emptyGoalFoldState es"

section \<open>The projection\<close>

record goal_projection =
  gp_goal :: goal_snapshot
  gp_rounds :: int
  gp_created :: int
  gp_updated :: int

definition applyGoalProjection :: "goal_projection option \<Rightarrow> session_event \<Rightarrow> goal_projection option" where
  "applyGoalProjection st e = (case ev_data e of
       GoalChange v \<Rightarrow> (case decodeGoalChange v of
           Inr (Some (ClearChange _ _)) \<Rightarrow> None
         | Inr (Some (SnapshotChange _ g rounds created updated)) \<Rightarrow>
             Some \<lparr>gp_goal = g, gp_rounds = rounds, gp_created = created, gp_updated = updated\<rparr>
         | _ \<Rightarrow> st)
     | _ \<Rightarrow> st)"

section \<open>Encoding\<close>

text \<open>The JSON that a change is as event data.\<close>

definition snapshot_json :: "goal_snapshot \<Rightarrow> json" where
  "snapshot_json g = JObj ([(''id'', JStr (g_id g)), (''revision'', JInt (g_revision g)),
      (''objective'', JStr (g_objective g)), (''phase'', JStr (phase_text (g_phase g))),
      (''maxGoalRounds'', JInt (g_max g))]
    @ (case g_blocked g of None \<Rightarrow> [] | Some r \<Rightarrow>
        [(''blockedReason'', JObj [(''code'', JStr (br_code r)), (''message'', JStr (br_message r))])]))"

fun change_json :: "goal_change \<Rightarrow> json" where
  "change_json (ClearChange ref t) = JObj [(''kind'', JStr ''goal/change''), (''version'', JInt 1),
      (''operation'', JStr ''clear''),
      (''cleared'', JObj [(''id'', JStr (gr_id ref)), (''revision'', JInt (gr_revision ref))]),
      (''clearedAt'', JInt t)]"
| "change_json (SnapshotChange op g rounds created updated) = JObj [(''kind'', JStr ''goal/change''),
      (''version'', JInt 1), (''operation'', JStr (operation_text op)), (''goal'', snapshot_json g),
      (''roundsStarted'', JInt rounds), (''createdAt'', JInt created), (''updatedAt'', JInt updated)]"

definition valid_reason :: "goal_block_reason \<Rightarrow> bool" where
  "valid_reason r \<longleftrightarrow> is_kebab (br_code r) \<and> normalized (br_message r)"

definition valid_snapshot :: "goal_snapshot \<Rightarrow> bool" where
  "valid_snapshot g \<longleftrightarrow> g_id g \<noteq> [] \<and> normalized (g_objective g)
     \<and> safe_int (g_revision g) \<and> 1 \<le> g_revision g \<and> safe_int (g_max g) \<and> 1 \<le> g_max g
     \<and> (case g_blocked g of None \<Rightarrow> g_phase g \<noteq> Blocked | Some r \<Rightarrow> g_phase g = Blocked \<and> valid_reason r)"

definition valid_time :: "int \<Rightarrow> bool" where
  "valid_time t \<longleftrightarrow> safe_int t \<and> 0 \<le> t"

fun valid_change :: "goal_change \<Rightarrow> bool" where
  "valid_change (ClearChange ref t) \<longleftrightarrow>
     gr_id ref \<noteq> [] \<and> safe_int (gr_revision ref) \<and> 1 \<le> gr_revision ref \<and> valid_time t"
| "valid_change (SnapshotChange op g rounds created updated) \<longleftrightarrow>
     valid_snapshot g \<and> valid_time rounds \<and> valid_time created \<and> valid_time updated \<and> created \<le> updated"

lemma phase_of_text [simp]: "phase_of (phase_text p) = Some p"
  by (cases p) (simp_all add: phase_of_def phase_text_def)

lemma phase_of_Some: "phase_of s = Some p \<Longrightarrow> s = phase_text p"
  by (auto simp: phase_of_def split: if_splits)

lemma operation_of_text [simp]: "operation_of (operation_text p) = Some p"
  by (cases p) (simp_all add: operation_of_def operation_text_def)

lemma operation_text_clear: "operation_text p \<noteq> ''clear''"
  by (cases p) (simp_all add: operation_text_def)

text \<open>The key texts of the encoded records.\<close>

lemma keys_of_records:
  "join_with '','' (sort [''code'', ''message'']) = ''code,message''"
  "join_with '','' (sort [''id'', ''revision'']) = ''id,revision''"
  "join_with '','' (sort [''id'', ''revision'', ''objective'', ''phase'', ''maxGoalRounds'']) =
     ''id,maxGoalRounds,objective,phase,revision''"
  "join_with '','' (sort [''id'', ''revision'', ''objective'', ''phase'', ''maxGoalRounds'', ''blockedReason'']) =
     ''blockedReason,id,maxGoalRounds,objective,phase,revision''"
  "join_with '','' (sort [''kind'', ''version'', ''operation'', ''cleared'', ''clearedAt'']) =
     ''cleared,clearedAt,kind,operation,version''"
  "join_with '','' (sort [''kind'', ''version'', ''operation'', ''goal'', ''roundsStarted'', ''createdAt'', ''updatedAt'']) =
     ''createdAt,goal,kind,operation,roundsStarted,updatedAt,version''"
  by code_simp+

lemma positiveInteger_Inr: "positiveInteger v f = Inr n \<longleftrightarrow> v = Some (JInt n) \<and> safe_int n \<and> 1 \<le> n"
  by (auto simp: positiveInteger_def as_safe_def split: option.splits json.splits if_splits)

lemma nonNegativeInteger_Inr: "nonNegativeInteger v f = Inr n \<longleftrightarrow> v = Some (JInt n) \<and> valid_time n"
  by (auto simp: nonNegativeInteger_def as_safe_def valid_time_def split: option.splits json.splits if_splits)

lemmas decode_inverts = positiveInteger_Inr nonNegativeInteger_Inr rbind_Inr_iff as_str_Some

lemma positiveInteger_ok: "safe_int n \<Longrightarrow> 1 \<le> n \<Longrightarrow> positiveInteger (Some (JInt n)) f = Inr n"
  by (simp add: positiveInteger_Inr)

lemma nonNegativeInteger_ok: "valid_time n \<Longrightarrow> nonNegativeInteger (Some (JInt n)) f = Inr n"
  by (simp add: nonNegativeInteger_Inr)

lemma decodeBlockReason_json:
  "valid_reason r \<Longrightarrow> decodeBlockReason (Some (JObj [(''code'', JStr (br_code r)), (''message'', JStr (br_message r))])) = Inr r"
  by (simp add: decodeBlockReason_def obj_of_def keys_text_def keys_of_records js_simps valid_reason_def del: sort_key_simps)

lemma decodeSnapshot_json:
  assumes "valid_snapshot g"
  shows "decodeSnapshot (Some (snapshot_json g)) = Inr g"
proof (cases "g_blocked g")
  case None
  with assms show ?thesis
    by (simp add: decodeSnapshot_def snapshot_json_def obj_of_def keys_text_def keys_of_records js_simps
        valid_snapshot_def positiveInteger_ok del: sort_key_simps)
next
  case (Some r)
  with assms have "g_phase g = Blocked" "valid_reason r" by (simp_all add: valid_snapshot_def)
  with assms Some decodeBlockReason_json show ?thesis
    by (simp add: decodeSnapshot_def snapshot_json_def obj_of_def keys_text_def keys_of_records js_simps
        valid_snapshot_def positiveInteger_ok del: sort_key_simps)
qed

lemma decode_change_json: "valid_change c \<Longrightarrow> decodeGoalChange (change_json c) = Inr (Some c)"
proof (cases c)
  case (SnapshotChange op g rounds created updated)
  assume "valid_change c"
  with SnapshotChange show ?thesis
    by (simp add: decodeGoalChange_def obj_of_def keys_text_def keys_of_records js_simps operation_text_clear
        decodeSnapshot_json nonNegativeInteger_ok del: sort_key_simps)
next
  case (ClearChange ref t)
  assume "valid_change c"
  with ClearChange show ?thesis
    by (simp add: decodeGoalChange_def decodeRef_def obj_of_def keys_text_def keys_of_records js_simps
        nonNegativeInteger_ok positiveInteger_ok del: sort_key_simps)
qed

text \<open>Whatever decodes is valid.\<close>

lemma decodeSnapshot_valid: "decodeSnapshot v = Inr g \<Longrightarrow> valid_snapshot g"
  by (auto simp: decodeSnapshot_def decodeBlockReason_def valid_snapshot_def valid_reason_def decode_inverts
      Option.bind_eq_Some_conv split: option.splits if_splits)

lemma decodeGoalChange_valid: "decodeGoalChange v = Inr (Some c) \<Longrightarrow> valid_change c"
  by (auto simp: decodeGoalChange_def decodeRef_def decode_inverts decodeSnapshot_valid
      split: option.splits if_splits)

section \<open>What the fold keeps\<close>

definition goal_inv :: "goal_fold \<Rightarrow> bool" where
  "goal_inv st \<longleftrightarrow> distinct (gf_seen st) \<and> valid_time (gf_rounds st)
     \<and> (case gf_goal st of
          None \<Rightarrow> gf_created st = None \<and> gf_updated st = None \<and> gf_rounds st = 0
        | Some g \<Rightarrow> valid_snapshot g \<and> g_id g \<in> set (gf_seen st) \<and> gf_last st = Some (snapshot_ref g)
            \<and> (\<exists>c u. gf_created st = Some c \<and> gf_updated st = Some u \<and> valid_time c \<and> valid_time u \<and> c \<le> u))"

text \<open>The ids in use only grow, at the end.\<close>

definition goal_le :: "goal_fold \<Rightarrow> goal_fold \<Rightarrow> bool" where
  "goal_le a b \<longleftrightarrow> (\<exists>ids. gf_seen b = gf_seen a @ ids)"

lemma applyGoalChange_snapshot:
  assumes "applyGoalChange st (SnapshotChange op g rounds created updated) = Inr st'"
  shows "gf_goal st' = Some g \<and> gf_rounds st' = rounds \<and> gf_created st' = Some created
    \<and> gf_updated st' = Some updated \<and> gf_last st' = Some (snapshot_ref g)
    \<and> (if op = GCreate then gf_seen st' = gf_seen st @ [g_id g] \<and> g_id g \<notin> set (gf_seen st)
         \<and> g_revision g = 1
       else gf_seen st' = gf_seen st \<and> (\<exists>c. gf_goal st = Some c \<and> g_id g = g_id c
         \<and> g_revision g = g_revision c + 1 \<and> rounds = gf_rounds st))"
  using assms
  by (auto simp: rbind_Inr_iff validateSnapshotTransition_def requireNextRevision_def snapshot_ref_def
      split: if_splits option.splits)

lemma applyGoalChange_clear:
  assumes "applyGoalChange st (ClearChange ref t) = Inr st'"
  shows "st' = st\<lparr>gf_goal := None, gf_rounds := 0, gf_created := None, gf_updated := None, gf_last := Some ref\<rparr>
    \<and> (\<exists>c. gf_goal st = Some c \<and> gr_id ref = g_id c \<and> gr_revision ref = g_revision c + 1)"
  using assms
  by (auto simp: rbind_Inr_iff requireNextRevision_def split: if_splits option.splits)

lemma goal_inv_change:
  assumes "goal_inv st" "valid_change c" "applyGoalChange st c = Inr st'"
  shows "goal_inv st'"
proof (cases c)
  case (SnapshotChange op g rounds created updated)
  with assms applyGoalChange_snapshot [of st op g rounds created updated st'] show ?thesis
    by (auto simp: goal_inv_def split: if_splits option.splits)
next
  case (ClearChange ref t)
  with assms applyGoalChange_clear [of st ref t st'] show ?thesis
    by (auto simp: goal_inv_def valid_time_def safe_int_def MAX_SAFE_INTEGER_def)
qed

text \<open>An accepted event is a change, an admitted round, or of no concern.\<close>

lemma applyGoalEvent_other:
  "(\<And>v. ev_data e \<noteq> GoalChange v) \<Longrightarrow> (\<And>m. ev_data e \<noteq> UserMessage m) \<Longrightarrow> applyGoalEvent st e = Inr st"
  by (cases "ev_data e") (auto simp: applyGoalEvent_def)

lemma applyGoalEvent_cases:
  assumes "applyGoalEvent st e = Inr st'"
  obtains
    (change) v c where "ev_data e = GoalChange v" "decodeGoalChange v = Inr (Some c)" "valid_change c"
      "applyGoalChange st c = Inr st'"
  | (round) g where "gf_goal st = Some g" "g_phase g = Active" "gf_rounds st + 1 \<le> g_max g"
      "st' = st\<lparr>gf_rounds := gf_rounds st + 1\<rparr>" "valid_time (gf_rounds st + 1)"
      "\<forall>v. ev_data e \<noteq> GoalChange v"
  | (other) "st' = st" "\<forall>v. ev_data e \<noteq> GoalChange v"
proof -
  consider (GoalChange) v where "ev_data e = GoalChange v" | (UserMessage) m where "ev_data e = UserMessage m"
    | (Other) "\<And>v. ev_data e \<noteq> GoalChange v" "\<And>m. ev_data e \<noteq> UserMessage m" by blast
  then show thesis
  proof cases
  case (GoalChange v)
  with assms obtain c where c: "decodeGoalChange v = Inr (Some c)" "applyGoalChange st c = Inr st'"
    by (auto simp: applyGoalEvent_def rbind_Inr_iff split: option.splits)
  show thesis by (rule change [OF GoalChange c(1) decodeGoalChange_valid [OF c(1)] c(2)])
next
  case (UserMessage m)
  with assms obtain src where src: "goalSource (um_source m) = Inr src"
    by (auto simp: applyGoalEvent_def rbind_Inr_iff)
  show thesis
  proof (cases src)
    case None
    with assms UserMessage src have "st' = st" by (simp add: applyGoalEvent_def)
    then show thesis using other UserMessage by simp
  next
    case (Some r)
    obtain i rn k where r: "r = (i, rn, k)" by (cases r)
    from src Some r have k: "safe_int k" "1 \<le> k"
      by (auto simp: goalSource_def split: message_source.splits if_splits)
    from assms UserMessage src Some r obtain g where "gf_goal st = Some g" "g_phase g = Active"
      "k = gf_rounds st + 1" "k \<le> g_max g" "st' = st\<lparr>gf_rounds := k\<rparr>"
      by (auto simp: applyGoalEvent_def split: option.splits if_splits)
    with k UserMessage show thesis by (intro round) (auto simp: valid_time_def)
  qed
  next
    case Other
    with assms applyGoalEvent_other [of e st] have "st' = st" by simp
    with other Other show thesis by blast
  qed
qed

interpretation goal: monotone_projection applyGoalEvent emptyGoalFoldState goal_inv goal_le
proof (unfold_locales, goal_cases)
  case 1
  show ?case by (simp add: goal_inv_def emptyGoalFoldState_def valid_time_def safe_int_def MAX_SAFE_INTEGER_def)
next
  case (2 s e s')
  from 2(2) show ?case
  proof (cases rule: applyGoalEvent_cases)
    case (change v c)
    with 2(1) show ?thesis by (blast intro: goal_inv_change)
  next
    case (round g)
    with 2(1) show ?thesis by (auto simp: goal_inv_def)
  next
    case other
    with 2(1) show ?thesis by simp
  qed
next
  case (3 s)
  show ?case by (simp add: goal_le_def)
next
  case (4 s t u)
  then show ?case by (auto simp: goal_le_def)
next
  case (5 s e s')
  from 5(2) show ?case
  proof (cases rule: applyGoalEvent_cases)
    case (change v c)
    show ?thesis
    proof (cases c)
      case (SnapshotChange op g rounds created updated)
      from applyGoalChange_snapshot [OF change(4) [unfolded SnapshotChange]] show ?thesis
        by (cases "op = GCreate") (simp_all add: goal_le_def)
    next
      case (ClearChange ref t)
      from applyGoalChange_clear [OF change(4) [unfolded ClearChange]] show ?thesis
        by (simp add: goal_le_def)
    qed
  qed (simp_all add: goal_le_def)
qed

section \<open>The history of changes\<close>

definition goal_changes :: "session_event list \<Rightarrow> goal_change list" where
  "goal_changes es = concat (map (\<lambda>e. case ev_data e of
     GoalChange v \<Rightarrow> (case decodeGoalChange v of Inr (Some c) \<Rightarrow> [c] | _ \<Rightarrow> []) | _ \<Rightarrow> []) es)"

fun is_create :: "goal_change \<Rightarrow> bool" where
  "is_create (SnapshotChange op _ _ _ _) = (op = GCreate)"
| "is_create (ClearChange _ _) = False"

text \<open>A change either opens a new goal at revision one or advances the previous change's goal by one.\<close>

definition advances :: "goal_change \<Rightarrow> goal_change \<Rightarrow> bool" where
  "advances a b \<longleftrightarrow> (if is_create b then gr_revision (goalChangeRef b) = 1
     else gr_id (goalChangeRef b) = gr_id (goalChangeRef a)
        \<and> gr_revision (goalChangeRef b) = gr_revision (goalChangeRef a) + 1)"

definition created_ids :: "goal_change list \<Rightarrow> string list" where
  "created_ids cs = map (\<lambda>c. gr_id (goalChangeRef c)) (filter is_create cs)"

definition history_ok :: "goal_fold \<Rightarrow> goal_change list \<Rightarrow> bool" where
  "history_ok st cs \<longleftrightarrow> successively advances cs \<and> (cs \<noteq> [] \<longrightarrow> is_create (hd cs))
     \<and> gf_last st = (if cs = [] then None else Some (goalChangeRef (last cs))) \<and> gf_seen st = created_ids cs"

lemma goal_changes_snoc: "goal_changes (es @ [e]) = goal_changes es @ goal_changes [e]"
  by (simp add: goal_changes_def)

lemma history_step:
  assumes inv: "goal_inv st" and h: "history_ok st cs" and ap: "applyGoalChange st c = Inr st'"
  shows "history_ok st' (cs @ [c])"
proof -
  have last: "goalChangeRef (last cs) = snapshot_ref g \<and> cs \<noteq> []" if "gf_goal st = Some g" for g
    using inv h that by (auto simp: goal_inv_def history_ok_def split: if_splits)
  show ?thesis
  proof (cases c)
    case (SnapshotChange op g rounds created updated)
    note ac = applyGoalChange_snapshot [OF ap [unfolded SnapshotChange]]
    show ?thesis
    proof (cases "op = GCreate")
      case True
      with ac h SnapshotChange show ?thesis
        by (auto simp: history_ok_def successively_append_iff advances_def snapshot_ref_def created_ids_def hd_append)
    next
      case False
      with ac obtain cur where cur: "gf_goal st = Some cur" "g_id g = g_id cur" "g_revision g = g_revision cur + 1"
        by auto
      with last [OF cur(1)] False ac h SnapshotChange show ?thesis
        by (auto simp: history_ok_def successively_append_iff advances_def snapshot_ref_def created_ids_def hd_append)
    qed
  next
    case (ClearChange ref t)
    note ac = applyGoalChange_clear [OF ap [unfolded ClearChange]]
    then obtain cur where cur: "gf_goal st = Some cur" "gr_id ref = g_id cur" "gr_revision ref = g_revision cur + 1"
      by auto
    with last [OF cur(1)] ac h ClearChange show ?thesis
      by (auto simp: history_ok_def successively_append_iff advances_def snapshot_ref_def created_ids_def hd_append)
  qed
qed

lemma fold_history: "foldGoal es = Inr st \<Longrightarrow> history_ok st (goal_changes es)"
proof (induction es arbitrary: st rule: rev_induct)
  case Nil
  then show ?case
    by (auto simp: foldGoal_def emptyGoalFoldState_def history_ok_def goal_changes_def created_ids_def)
next
  case (snoc e es)
  then obtain st0 where s: "foldGoal es = Inr st0" "applyGoalEvent st0 e = Inr st"
    by (auto simp: foldGoal_def replay_snoc split: sum.splits)
  note IH = snoc.IH [OF s(1)]
  from s(2) show ?case
  proof (cases rule: applyGoalEvent_cases)
    case (change v c)
    have "goal_inv st0" using s(1) by (simp add: foldGoal_def goal.inv_replay)
    with IH change history_step show ?thesis
      by (auto simp: goal_changes_snoc goal_changes_def [of "[e]"])
  next
    case (round g)
    then have "goal_changes [e] = []" by (auto simp: goal_changes_def split: event_data.split)
    with IH round show ?thesis by (simp add: goal_changes_snoc history_ok_def)
  next
    case other
    then have "goal_changes [e] = []" by (auto simp: goal_changes_def split: event_data.split)
    with IH other show ?thesis by (simp add: goal_changes_snoc history_ok_def)
  qed
qed

section \<open>The projection against the fold\<close>

definition projects :: "goal_fold \<Rightarrow> goal_projection option \<Rightarrow> bool" where
  "projects st p \<longleftrightarrow> (case p of
       None \<Rightarrow> gf_goal st = None
     | Some q \<Rightarrow> gf_goal st = Some (gp_goal q) \<and> gf_created st = Some (gp_created q)
         \<and> gf_updated st = Some (gp_updated q) \<and> gp_rounds q \<le> gf_rounds st)"

lemma projects_step:
  assumes "applyGoalEvent st e = Inr st'" "projects st p"
  shows "projects st' (applyGoalProjection p e)"
  using assms(1)
proof (cases rule: applyGoalEvent_cases)
  case (change v c)
  show ?thesis
  proof (cases c)
    case (SnapshotChange op g rounds created updated)
    with applyGoalChange_snapshot [OF change(4) [unfolded SnapshotChange]] change show ?thesis
      by (simp add: projects_def applyGoalProjection_def)
  next
    case (ClearChange ref t)
    with applyGoalChange_clear [OF change(4) [unfolded ClearChange]] change show ?thesis
      by (simp add: projects_def applyGoalProjection_def)
  qed
next
  case (round g)
  then have "applyGoalProjection p e = p"
    by (auto simp: applyGoalProjection_def split: event_data.split)
  with round assms(2) show ?thesis by (auto simp: projects_def split: option.splits)
next
  case other
  then have "applyGoalProjection p e = p"
    by (auto simp: applyGoalProjection_def split: event_data.split)
  with other assms(2) show ?thesis by simp
qed

section \<open>Properties\<close>

text \<open>C19. The strict decoder accepts the JSON of a change exactly when the change is valid, and
  then gives it back: identifiers non-empty, texts trimmed, codes kebab-case, counters and
  times safe and in order, a block reason exactly in the blocked phase.\<close>

theorem goal_change_roundtrip: "decodeGoalChange (change_json c) = Inr (Some c) \<longleftrightarrow> valid_change c"
  using decode_change_json decodeGoalChange_valid by blast

text \<open>C18. In a log the fold accepts, the durable changes form one history: it starts with a
  create, every create opens a goal whose id was never used before at revision one, and every
  other change advances the goal of the change before it by exactly one revision.\<close>

theorem goal_history:
  assumes "foldGoal es = Inr st"
  shows "successively advances (goal_changes es)
    \<and> (goal_changes es \<noteq> [] \<longrightarrow> is_create (hd (goal_changes es)))
    \<and> distinct (created_ids (goal_changes es))"
  using fold_history [OF assms] goal.inv_replay [of es st] assms
  by (simp add: history_ok_def goal_inv_def foldGoal_def)

definition sample_goal :: goal_snapshot where
  "sample_goal = \<lparr>g_id = ''g'', g_revision = 1, g_objective = ''ship'', g_phase = Active, g_blocked = None, g_max = 3\<rparr>"

definition goal_event :: "int \<Rightarrow> event_data \<Rightarrow> session_event" where
  "goal_event q d = \<lparr>ev_seq = q, ev_time = 0, ev_data = d, ev_ignorable = False, ev_surface_op = None, ev_sources = None\<rparr>"

definition sample_goal_log :: "session_event list" where
  "sample_goal_log =
    [goal_event 0 (GoalChange (change_json (SnapshotChange GCreate sample_goal 0 10 10))),
     goal_event 1 (UserMessage \<lparr>um_id = ''u'', um_source = SrcGoal ''g'' 1 1, um_content = []\<rparr>),
     goal_event 2 (GoalChange (change_json (SnapshotChange GPause
        (sample_goal\<lparr>g_revision := 2, g_phase := Paused\<rparr>) 1 10 12)))]"

lemma sample_goal_fold:
  "is_ok (foldGoal sample_goal_log)" "length (goal_changes sample_goal_log) = 2"
  "is_ok (foldGoal (take 2 sample_goal_log))"
  "foldl applyGoalProjection None (take 2 sample_goal_log) =
     Some \<lparr>gp_goal = sample_goal, gp_rounds = 0, gp_created = 10, gp_updated = 10\<rparr>"
  "map_option gf_rounds (case foldGoal (take 2 sample_goal_log) of Inr st \<Rightarrow> Some st | Inl _ \<Rightarrow> None) = Some 1"
  by code_simp+

lemma goal_history_witness: "successively advances (goal_changes sample_goal_log)"
proof -
  obtain st where "foldGoal sample_goal_log = Inr st" using sample_goal_fold(1) by (auto simp: is_ok_iff)
  from goal_history [OF this] show ?thesis by blast
qed

text \<open>The light projection agrees with the strict fold wherever the fold accepts the log:
  it shows a goal exactly when one is current, with the same snapshot and times, and a round
  counter that never exceeds the fold's (it is the counter of the latest change, so rounds
  admitted since do not show).\<close>

theorem projection_agrees:
  assumes "foldGoal es = Inr st"
  shows "projects st (foldl applyGoalProjection None es)"
  using assms
proof (induction es arbitrary: st rule: rev_induct)
  case Nil
  then show ?case by (auto simp: foldGoal_def emptyGoalFoldState_def projects_def)
next
  case (snoc e es)
  then obtain st0 where "foldGoal es = Inr st0" "applyGoalEvent st0 e = Inr st"
    by (auto simp: foldGoal_def replay_snoc split: sum.splits)
  with snoc.IH projects_step show ?case by simp
qed

lemma projection_agrees_witness:
  "\<exists>st p. foldGoal (take 2 sample_goal_log) = Inr st
     \<and> foldl applyGoalProjection None (take 2 sample_goal_log) = Some p \<and> gf_goal st = Some (gp_goal p)
     \<and> gp_rounds p < gf_rounds st"
proof -
  from sample_goal_fold(5) obtain st where st: "foldGoal (take 2 sample_goal_log) = Inr st" "gf_rounds st = 1"
    by (auto split: sum.splits)
  from projection_agrees [OF st(1)] sample_goal_fold(4) st show ?thesis
    by (auto simp: projects_def)
qed

end
