(* ===== verification/Goal_Service.thy ===== *)
theory Goal_Service
  imports Goal_Domain Session_Log
begin

text \<open>
  The goal service, \<open>src/packages/goal/goal/src/index.ts\<close>: compare-and-set mutations of the
  current goal over one agent's session. The state is the session, the service's cache of its
  fold with the process-local activation, and the notifications emitted. The clock, the random
  part of a new id, whether the agent is the live one and how the session is attached are the
  arguments of a call. The lemmas show that every change the service commits is one the strict
  fold accepts, so its log never stops replaying, and that a ref is spent by the mutation that
  used it.
\<close>

section \<open>State\<close>

datatype activation = Armed | Disarmed

record goal_cache =
  gc_state :: goal_fold
  gc_activation :: activation
  gc_observed :: nat
  gc_pending :: "(int \<times> activation) option"

record goal_view =
  gw_goal :: goal_snapshot
  gw_rounds :: int
  gw_created :: int
  gw_updated :: int
  gw_activation :: activation

record goal_service =
  gs_session :: session
  gs_cache :: "goal_cache option"
  gs_notes :: "(goal_change \<times> goal_view option) list"

record goal_env =
  ge_live :: bool
  ge_now :: int
  ge_uuid :: string
  ge_time :: int
  ge_attach :: attachment

text \<open>The stable codes of \<open>GoalError\<close>, and the errors that pass through.\<close>

datatype goal_fail =
    GOAL_AGENT_NOT_LIVE
  | GOAL_NOT_FOUND
  | GOAL_ALREADY_EXISTS
  | GOAL_STALE_REVISION
  | GOAL_INVALID_OBJECTIVE
  | GOAL_INVALID_MAX_ROUNDS
  | GOAL_INVALID_BLOCK_REASON
  | GOAL_INVALID_EDIT
  | GOAL_INVALID_TRANSITION
  | FoldFailed goal_fold_error
  | AppendFailed session_error
  | CacheLacks

type_synonym 'a gop = "goal_service \<Rightarrow> (goal_fail, 'a) result \<times> goal_service"

definition gret :: "'a \<Rightarrow> 'a gop" where
  "gret a s = (Inr a, s)"

definition gfail :: "goal_fail \<Rightarrow> 'a gop" where
  "gfail x s = (Inl x, s)"

definition gbind :: "'a gop \<Rightarrow> ('a \<Rightarrow> 'b gop) \<Rightarrow> 'b gop" where
  "gbind m f s = (case m s of (Inl x, s') \<Rightarrow> (Inl x, s') | (Inr a, s') \<Rightarrow> f a s')"

definition glift :: "(goal_fail, 'a) result \<Rightarrow> 'a gop" where
  "glift r s = (r, s)"

section \<open>Validation of requests\<close>

definition resolveMaxGoalRounds :: "int \<Rightarrow> (goal_fail, int) result" where
  "resolveMaxGoalRounds v = (if \<not> safe_int v \<or> v < 1 then Inl GOAL_INVALID_MAX_ROUNDS else Inr v)"

definition resolveObjective :: "string \<Rightarrow> (goal_fail, string) result" where
  "resolveObjective v = (if trim v = [] then Inl GOAL_INVALID_OBJECTIVE else Inr (trim v))"

definition resolveCreateGoal :: "string \<Rightarrow> int option \<Rightarrow> int \<Rightarrow> (goal_fail, string \<times> int) result" where
  "resolveCreateGoal objective mx dflt =
     rbind (resolveObjective objective) (\<lambda>ob.
     rbind (resolveMaxGoalRounds (case mx of Some m \<Rightarrow> m | None \<Rightarrow> dflt)) (\<lambda>m. Inr (ob, m)))"

definition resolveBlockReason :: "json \<Rightarrow> (goal_fail, goal_block_reason) result" where
  "resolveBlockReason reason =
     (let field = (\<lambda>k. case obj_of (Some reason) of Some o' \<Rightarrow> as_str (jget o' k) | None \<Rightarrow> None) in
      case (field ''code'', field ''message'') of
        (Some code, Some m) \<Rightarrow>
          if \<not> is_kebab code \<or> trim m = [] then Inl GOAL_INVALID_BLOCK_REASON
          else Inr \<lparr>br_code = code, br_message = trim m\<rparr>
      | _ \<Rightarrow> Inl GOAL_INVALID_BLOCK_REASON)"

section \<open>The cache\<close>

text \<open>\<open>cache\<close>: fold the whole log once, disarmed.\<close>

definition goal_cache_op :: "goal_cache gop" where
  "goal_cache_op s =
     (case gs_cache s of
        Some c \<Rightarrow> (Inr c, s)
      | None \<Rightarrow>
          (case foldGoal (se_log (gs_session s)) of
             Inl x \<Rightarrow> (Inl (FoldFailed x), s)
           | Inr st \<Rightarrow>
               let c = \<lparr>gc_state = st, gc_activation = Disarmed,
                        gc_observed = length (se_log (gs_session s)), gc_pending = None\<rparr>
               in (Inr c, s\<lparr>gs_cache := Some c\<rparr>)))"

text \<open>The loop of \<open>sync\<close>; a throw keeps what was observed before it.\<close>

fun sync_loop :: "goal_cache \<Rightarrow> session_event list \<Rightarrow> goal_fold_error option \<times> goal_cache" where
  "sync_loop c [] = (None, c)"
| "sync_loop c (e # es) =
     (case applyGoalEvent (gc_state c) e of
        Inl x \<Rightarrow> (Some x, c)
      | Inr st \<Rightarrow>
          sync_loop (c\<lparr>gc_state := st,
              gc_activation := (if ev_type e = ''goal/change''
                then (case gc_pending c of
                        Some (q, a) \<Rightarrow> (if q = ev_seq e then a else Disarmed) | None \<Rightarrow> Disarmed)
                else gc_activation c),
              gc_observed := gc_observed c + 1\<rparr>) es)"

definition goal_sync :: "goal_cache \<Rightarrow> goal_cache gop" where
  "goal_sync c s =
     (case sync_loop c (drop (gc_observed c) (se_log (gs_session s))) of
        (Some x, c') \<Rightarrow> (Inl (FoldFailed x), s\<lparr>gs_cache := Some c'\<rparr>)
      | (None, c') \<Rightarrow> (Inr c', s\<lparr>gs_cache := Some c'\<rparr>))"

definition assertLive :: "goal_env \<Rightarrow> unit gop" where
  "assertLive env = (if ge_live env then gret () else gfail GOAL_AGENT_NOT_LIVE)"

definition prepareMutation :: "goal_env \<Rightarrow> goal_cache gop" where
  "prepareMutation env = gbind (assertLive env) (\<lambda>_. gbind goal_cache_op goal_sync)"

definition expectCurrent :: "goal_cache \<Rightarrow> goal_ref \<Rightarrow> (goal_fail, goal_snapshot) result" where
  "expectCurrent c ref =
     (case gf_goal (gc_state c) of
        None \<Rightarrow> Inl GOAL_NOT_FOUND
      | Some current \<Rightarrow>
          if gr_id ref \<noteq> g_id current \<or> gr_revision ref \<noteq> g_revision current then Inl GOAL_STALE_REVISION
          else Inr current)"

definition goal_view_of :: "goal_cache \<Rightarrow> (goal_fail, goal_view option) result" where
  "goal_view_of c =
     (case gf_goal (gc_state c) of
        None \<Rightarrow> Inr None
      | Some g \<Rightarrow>
          (case (gf_created (gc_state c), gf_updated (gc_state c)) of
             (Some cr, Some up) \<Rightarrow> Inr (Some \<lparr>gw_goal = g, gw_rounds = gf_rounds (gc_state c),
                gw_created = cr, gw_updated = up, gw_activation = gc_activation c\<rparr>)
           | _ \<Rightarrow> Inl CacheLacks))"

section \<open>Commit\<close>

text \<open>
  \<open>commit\<close>: the pending activation is set across the append and the sync, and reset whether
  they succeed or throw; then the notification goes out.
\<close>

definition goal_commit :: "goal_env \<Rightarrow> goal_cache \<Rightarrow> goal_change \<Rightarrow> activation \<Rightarrow> goal_cache gop" where
  "goal_commit env c change act s =
     (let c1 = c\<lparr>gc_pending := Some (int (length (se_log (gs_session s))), act)\<rparr> in
      case append_event (gs_session s) (ge_time env) (GoalChange (change_json change)) no_intent (ge_attach env) of
        (Inl x, ses) \<Rightarrow> (Inl (AppendFailed x), s\<lparr>gs_session := ses, gs_cache := Some (c1\<lparr>gc_pending := None\<rparr>)\<rparr>)
      | (Inr e, ses) \<Rightarrow>
          (case sync_loop c1 (drop (gc_observed c1) (se_log ses)) of
             (Some x, c2) \<Rightarrow> (Inl (FoldFailed x), s\<lparr>gs_session := ses, gs_cache := Some (c2\<lparr>gc_pending := None\<rparr>)\<rparr>)
           | (None, c2) \<Rightarrow>
               let c3 = c2\<lparr>gc_pending := None\<rparr>;
                   s' = s\<lparr>gs_session := ses, gs_cache := Some c3\<rparr>
               in (case goal_view_of c3 of
                     Inl x \<Rightarrow> (Inl x, s')
                   | Inr v \<Rightarrow> (Inr c3, s'\<lparr>gs_notes := gs_notes s' @ [(change, v)]\<rparr>))))"

definition commitSnapshot ::
    "goal_env \<Rightarrow> goal_cache \<Rightarrow> goal_operation \<Rightarrow> goal_snapshot \<Rightarrow> int \<Rightarrow> int \<Rightarrow> int \<Rightarrow> activation \<Rightarrow> goal_view gop" where
  "commitSnapshot env c op g rounds created updated act =
     gbind (goal_commit env c (SnapshotChange op g rounds created updated) act) (\<lambda>c'.
     gbind (glift (goal_view_of c')) (\<lambda>v. case v of None \<Rightarrow> gfail CacheLacks | Some w \<Rightarrow> gret w))"

definition nextMutationTime :: "goal_env \<Rightarrow> goal_cache \<Rightarrow> (goal_fail, int) result" where
  "nextMutationTime env c = (case gf_updated (gc_state c) of
     None \<Rightarrow> Inl CacheLacks | Some u \<Rightarrow> Inr (max (ge_now env) u))"

definition commitCurrent ::
    "goal_env \<Rightarrow> goal_cache \<Rightarrow> goal_operation \<Rightarrow> goal_snapshot \<Rightarrow> activation \<Rightarrow> goal_view gop" where
  "commitCurrent env c op g act =
     (case gf_created (gc_state c) of
        None \<Rightarrow> gfail CacheLacks
      | Some created \<Rightarrow>
          gbind (glift (nextMutationTime env c)) (\<lambda>t.
            commitSnapshot env c op g (gf_rounds (gc_state c)) created t act))"

definition withPhase :: "goal_snapshot \<Rightarrow> goal_phase \<Rightarrow> goal_snapshot" where
  "withPhase g phase = \<lparr>g_id = g_id g, g_revision = g_revision g + 1, g_objective = g_objective g,
     g_phase = phase, g_blocked = None, g_max = g_max g\<rparr>"

definition goal_transition ::
    "goal_env \<Rightarrow> goal_ref \<Rightarrow> goal_operation \<Rightarrow> goal_phase list \<Rightarrow> goal_phase \<Rightarrow> activation \<Rightarrow> goal_view gop" where
  "goal_transition env ref op allowed phase act =
     gbind (prepareMutation env) (\<lambda>c.
     gbind (glift (expectCurrent c ref)) (\<lambda>current.
       if g_phase current \<notin> set allowed then gfail GOAL_INVALID_TRANSITION
       else commitCurrent env c op (withPhase current phase) act))"

section \<open>Operations\<close>

definition goal_get :: "goal_env \<Rightarrow> goal_view option gop" where
  "goal_get env = gbind (prepareMutation env) (\<lambda>c. glift (goal_view_of c))"

definition goal_disarm :: "goal_env \<Rightarrow> goal_view option gop" where
  "goal_disarm env = gbind (prepareMutation env) (\<lambda>c s.
     let c' = c\<lparr>gc_activation := Disarmed\<rparr> in (goal_view_of c', s\<lparr>gs_cache := Some c'\<rparr>))"

text \<open>The \<open>agent/session-start\<close> listener.\<close>

definition goal_session_start :: "unit gop" where
  "goal_session_start = gbind goal_cache_op (\<lambda>c s.
     (Inr (), s\<lparr>gs_cache := Some (c\<lparr>gc_activation := Disarmed\<rparr>)\<rparr>))"

definition goal_create :: "goal_env \<Rightarrow> int \<Rightarrow> string \<Rightarrow> int option \<Rightarrow> goal_view gop" where
  "goal_create env dflt objective mx =
     gbind (glift (resolveCreateGoal objective mx dflt)) (\<lambda>(ob, m).
     gbind (prepareMutation env) (\<lambda>c.
       case gf_goal (gc_state c) of
         Some current \<Rightarrow>
           if g_phase current \<noteq> Complete then gfail GOAL_ALREADY_EXISTS
           else commitSnapshot env c GCreate \<lparr>g_id = ''goal-'' @ ge_uuid env, g_revision = 1, g_objective = ob,
                  g_phase = Active, g_blocked = None, g_max = m\<rparr> 0 (ge_now env) (ge_now env) Armed
       | None \<Rightarrow> commitSnapshot env c GCreate \<lparr>g_id = ''goal-'' @ ge_uuid env, g_revision = 1, g_objective = ob,
                  g_phase = Active, g_blocked = None, g_max = m\<rparr> 0 (ge_now env) (ge_now env) Armed))"

definition goal_edit :: "goal_env \<Rightarrow> goal_ref \<Rightarrow> string option \<Rightarrow> int option \<Rightarrow> goal_view gop" where
  "goal_edit env ref objective mx =
     gbind (prepareMutation env) (\<lambda>c.
     gbind (glift (expectCurrent c ref)) (\<lambda>current.
       if objective = None \<and> mx = None then gfail GOAL_INVALID_EDIT
       else gbind (glift (case objective of None \<Rightarrow> Inr (g_objective current) | Some ob \<Rightarrow> resolveObjective ob)) (\<lambda>ob.
            gbind (glift (case mx of None \<Rightarrow> Inr (g_max current) | Some m \<Rightarrow> resolveMaxGoalRounds m)) (\<lambda>m.
              commitCurrent env c GEdit (current\<lparr>g_revision := g_revision current + 1, g_objective := ob, g_max := m\<rparr>)
                (gc_activation c)))))"

definition goal_pause :: "goal_env \<Rightarrow> goal_ref \<Rightarrow> goal_view gop" where
  "goal_pause env ref = goal_transition env ref GPause [Active] Paused Disarmed"

definition goal_resume :: "goal_env \<Rightarrow> goal_ref \<Rightarrow> goal_view gop" where
  "goal_resume env ref =
     gbind (prepareMutation env) (\<lambda>c.
     gbind (glift (expectCurrent c ref)) (\<lambda>current.
       if g_phase current \<notin> set [Active, Paused, Blocked] then gfail GOAL_INVALID_TRANSITION
       else if g_phase current = Active \<and> gc_activation c = Armed then gfail GOAL_INVALID_TRANSITION
       else if g_max current \<le> gf_rounds (gc_state c) then gfail GOAL_INVALID_TRANSITION
       else commitCurrent env c GResume (withPhase current Active) Armed))"

definition goal_complete :: "goal_env \<Rightarrow> goal_ref \<Rightarrow> goal_view gop" where
  "goal_complete env ref = goal_transition env ref GComplete [Active, Paused, Blocked] Complete Disarmed"

definition goal_block :: "goal_env \<Rightarrow> goal_ref \<Rightarrow> json \<Rightarrow> goal_view gop" where
  "goal_block env ref reason =
     gbind (prepareMutation env) (\<lambda>c.
     gbind (glift (expectCurrent c ref)) (\<lambda>current.
       if g_phase current \<noteq> Active then gfail GOAL_INVALID_TRANSITION
       else gbind (glift (resolveBlockReason reason)) (\<lambda>r.
              commitCurrent env c GBlock ((withPhase current Blocked)\<lparr>g_blocked := Some r\<rparr>) Disarmed)))"

definition goal_clear :: "goal_env \<Rightarrow> goal_ref \<Rightarrow> goal_ref gop" where
  "goal_clear env ref =
     gbind (prepareMutation env) (\<lambda>c.
     gbind (glift (expectCurrent c ref)) (\<lambda>current.
       let tombstone = \<lparr>gr_id = g_id current, gr_revision = g_revision current + 1\<rparr> in
       gbind (glift (nextMutationTime env c)) (\<lambda>t.
       gbind (goal_commit env c (ClearChange tombstone t) Disarmed) (\<lambda>_. gret tombstone))))"

definition remoteExportCreate :: "goal_env \<Rightarrow> int \<Rightarrow> string \<Rightarrow> int option \<Rightarrow> goal_ref gop" where
  "remoteExportCreate env dflt objective mx =
     gbind (goal_create env dflt objective mx) (\<lambda>v.
       gret \<lparr>gr_id = g_id (gw_goal v), gr_revision = g_revision (gw_goal v)\<rparr>)"

section \<open>The service's invariant\<close>

abbreviation svc_log :: "goal_service \<Rightarrow> session_event list" where
  "svc_log s \<equiv> se_log (gs_session s)"

definition service_ok :: "goal_service \<Rightarrow> bool" where
  "service_ok s \<longleftrightarrow> session_ok (gs_session s) \<and> (\<exists>st. foldGoal (svc_log s) = Inr st)
     \<and> (case gs_cache s of
          None \<Rightarrow> True
        | Some c \<Rightarrow> gc_pending c = None \<and> gc_observed c \<le> length (svc_log s)
            \<and> foldGoal (take (gc_observed c) (svc_log s)) = Inr (gc_state c))"

text \<open>The cache has seen the whole log.\<close>

definition synced :: "goal_service \<Rightarrow> goal_cache \<Rightarrow> bool" where
  "synced s c \<longleftrightarrow> session_ok (gs_session s) \<and> gs_cache s = Some c \<and> gc_pending c = None
     \<and> gc_observed c = length (svc_log s) \<and> foldGoal (svc_log s) = Inr (gc_state c)"

lemma synced_ok: "synced s c \<Longrightarrow> service_ok s"
  by (simp add: synced_def service_ok_def)

lemma synced_inv: "synced s c \<Longrightarrow> goal_inv (gc_state c)"
  using goal.inv_replay by (auto simp: synced_def foldGoal_def)

lemma sync_loop_ok:
  "replay applyGoalEvent (gc_state c) es = Inr st \<Longrightarrow>
     \<exists>act. sync_loop c es = (None, c\<lparr>gc_state := st, gc_activation := act, gc_observed := gc_observed c + length es\<rparr>)"
proof (induction es arbitrary: c)
  case Nil
  then show ?case by (cases c) simp
next
  case (Cons e es)
  then obtain st1 where ap: "applyGoalEvent (gc_state c) e = Inr st1" and rest: "replay applyGoalEvent st1 es = Inr st"
    by (auto split: sum.splits)
  let ?act = "if ev_type e = ''goal/change''
       then (case gc_pending c of Some (q, a) \<Rightarrow> (if q = ev_seq e then a else Disarmed) | None \<Rightarrow> Disarmed)
       else gc_activation c"
  have "\<exists>act. sync_loop (c\<lparr>gc_state := st1, gc_activation := ?act, gc_observed := gc_observed c + 1\<rparr>) es =
     (None, c\<lparr>gc_state := st, gc_activation := act, gc_observed := gc_observed c + 1 + length es\<rparr>)"
    using Cons.IH [of "c\<lparr>gc_state := st1, gc_activation := ?act, gc_observed := gc_observed c + 1\<rparr>"] rest by simp
  with ap show ?case by (simp only: sync_loop.simps sum.case) simp
qed

lemma prepare_ok:
  assumes ok: "service_ok s"
  shows "\<exists>c. prepareMutation env s =
     (if ge_live env then (Inr c, s\<lparr>gs_cache := Some c\<rparr>) else (Inl GOAL_AGENT_NOT_LIVE, s))
     \<and> synced (s\<lparr>gs_cache := Some c\<rparr>) c"
proof -
  obtain st where st: "foldGoal (svc_log s) = Inr st" using ok by (auto simp: service_ok_def)
  have "\<exists>c0. goal_cache_op s = (Inr c0, s\<lparr>gs_cache := Some c0\<rparr>) \<and> gc_pending c0 = None
      \<and> gc_observed c0 \<le> length (svc_log s) \<and> foldGoal (take (gc_observed c0) (svc_log s)) = Inr (gc_state c0)"
  proof (cases "gs_cache s")
    case None
    with st show ?thesis by (auto simp: goal_cache_op_def Let_def)
  next
    case (Some c)
    then have "s\<lparr>gs_cache := Some c\<rparr> = s" by simp
    with ok Some show ?thesis by (auto simp: goal_cache_op_def service_ok_def)
  qed
  then obtain c0 where c0: "goal_cache_op s = (Inr c0, s\<lparr>gs_cache := Some c0\<rparr>)" "gc_pending c0 = None"
    "gc_observed c0 \<le> length (svc_log s)" "foldGoal (take (gc_observed c0) (svc_log s)) = Inr (gc_state c0)" by blast
  have "replay applyGoalEvent (gc_state c0) (drop (gc_observed c0) (svc_log s)) = Inr st"
    using goal.incremental [OF c0(4) [unfolded foldGoal_def], of "drop (gc_observed c0) (svc_log s)"] st
    by (simp add: foldGoal_def)
  from sync_loop_ok [OF this] obtain act where
    sync: "sync_loop c0 (drop (gc_observed c0) (svc_log s)) = (None, c0\<lparr>gc_state := st, gc_activation := act,
       gc_observed := gc_observed c0 + length (drop (gc_observed c0) (svc_log s))\<rparr>)" by blast
  let ?c = "c0\<lparr>gc_state := st, gc_activation := act, gc_observed := length (svc_log s)\<rparr>"
  have "goal_sync c0 (s\<lparr>gs_cache := Some c0\<rparr>) = (Inr ?c, s\<lparr>gs_cache := Some ?c\<rparr>)"
    using sync c0(3) by (simp add: goal_sync_def)
  with c0(1) have "prepareMutation env s =
     (if ge_live env then (Inr ?c, s\<lparr>gs_cache := Some ?c\<rparr>) else (Inl GOAL_AGENT_NOT_LIVE, s))"
    by (simp add: prepareMutation_def assertLive_def gbind_def gret_def gfail_def)
  moreover have "synced (s\<lparr>gs_cache := Some ?c\<rparr>) ?c"
    using ok st c0(2) by (simp add: synced_def service_ok_def)
  ultimately show ?thesis by blast
qed

text \<open>A state in order has a view.\<close>

lemma view_ok: "goal_inv (gc_state c) \<Longrightarrow> \<exists>v. goal_view_of c = Inr v \<and> (v = None \<longleftrightarrow> gf_goal (gc_state c) = None)"
  by (auto simp: goal_inv_def goal_view_of_def split: option.splits)

text \<open>What a mutation may do to the log: nothing, or one accepted change.\<close>

definition commits :: "goal_service \<Rightarrow> goal_change \<Rightarrow> goal_service \<Rightarrow> bool" where
  "commits s ch s' \<longleftrightarrow> (\<exists>e st st'. foldGoal (svc_log s) = Inr st \<and> svc_log s' = svc_log s @ [e]
     \<and> ev_data e = GoalChange (change_json ch) \<and> valid_change ch \<and> applyGoalChange st ch = Inr st'
     \<and> foldGoal (svc_log s') = Inr st')"

lemma commit_ok:
  assumes sy: "synced s c" and v: "valid_change ch" and ap: "applyGoalChange (gc_state c) ch = Inr st'"
    and cm: "goal_commit env c ch act s = (r, s')"
  shows "service_ok s' \<and> (case r of
       Inl x \<Rightarrow> svc_log s' = svc_log s
     | Inr c' \<Rightarrow> commits s ch s' \<and> synced s' c' \<and> gc_state c' = st' \<and> gc_activation c' = act)"
proof -
  let ?c1 = "c\<lparr>gc_pending := Some (int (length (svc_log s)), act)\<rparr>"
  obtain ar ses where app: "append_event (gs_session s) (ge_time env) (GoalChange (change_json ch)) no_intent (ge_attach env) = (ar, ses)"
    by fastforce
  have ses: "session_ok (gs_session s)" using sy by (simp add: synced_def)
  note ap_ok = append_event_ok [OF ses app]
  show ?thesis
  proof (cases ar)
    case (Inl x)
    with ap_ok have "session_ok ses" "se_log ses = svc_log s" by simp_all
    with Inl app cm sy show ?thesis
      by (auto simp: goal_commit_def Let_def service_ok_def synced_def)
  next
    case (Inr e)
    with ap_ok have e: "session_ok ses" "se_log ses = svc_log s @ [e]" "ev_seq e = int (length (svc_log s))"
      "ev_data e = GoalChange (change_json ch)" by simp_all
    have st: "applyGoalEvent (gc_state c) e = Inr st'"
      using e(4) v ap by (simp add: applyGoalEvent_def decode_change_json)
    have ty: "ev_type e = ''goal/change''" using e(4) by (simp add: ev_type_def event_type_of_def)
    have drop: "drop (gc_observed ?c1) (se_log ses) = [e]" using sy e(2) by (simp add: synced_def)
    let ?c2 = "?c1\<lparr>gc_state := st', gc_activation := act, gc_observed := gc_observed c + 1\<rparr>"
    let ?c3 = "?c2\<lparr>gc_pending := None\<rparr>"
    have sync: "sync_loop ?c1 [e] = (None, ?c2)" using st ty e(3) by simp
    have fold: "foldGoal (svc_log s @ [e]) = Inr st'"
      using sy st by (simp add: synced_def foldGoal_def replay_snoc)
    then have "goal_inv (gc_state ?c3)" by (simp add: foldGoal_def goal.inv_replay)
    then obtain w where w: "goal_view_of ?c3 = Inr w" using view_ok by blast
    have res: "r = Inr ?c3" "gs_session s' = ses" "gs_cache s' = Some ?c3"
      using cm app Inr drop sync w by (auto simp: goal_commit_def Let_def)
    have "synced s' ?c3"
      using res e sy fold by (simp add: synced_def)
    moreover have "commits s ch s'"
      unfolding commits_def using sy v ap e fold res by (auto simp: synced_def)
    ultimately show ?thesis using res synced_ok by simp
  qed
qed

text \<open>The view a committed snapshot returns.\<close>

definition displays :: "goal_service \<Rightarrow> goal_view \<Rightarrow> bool" where
  "displays s v \<longleftrightarrow> (\<exists>st. foldGoal (svc_log s) = Inr st \<and> gf_goal st = Some (gw_goal v) \<and> gf_rounds st = gw_rounds v
     \<and> gf_created st = Some (gw_created v) \<and> gf_updated st = Some (gw_updated v))"

definition outcome :: "goal_service \<Rightarrow> (goal_fail, goal_view) result \<Rightarrow> goal_service \<Rightarrow> bool" where
  "outcome s r s' \<longleftrightarrow> service_ok s' \<and> (case r of
     Inl _ \<Rightarrow> svc_log s' = svc_log s
   | Inr v \<Rightarrow> (\<exists>ch. commits s ch s') \<and> displays s' v)"

lemma commitSnapshot_ok:
  assumes sy: "synced s c" and v: "valid_change (SnapshotChange op g rounds created updated)"
    and ap: "applyGoalChange (gc_state c) (SnapshotChange op g rounds created updated) = Inr st'"
    and cm: "commitSnapshot env c op g rounds created updated act s = (r, s')"
  shows "outcome s r s'"
proof -
  obtain cr s1 where c1: "goal_commit env c (SnapshotChange op g rounds created updated) act s = (cr, s1)" by fastforce
  note co = commit_ok [OF sy v ap c1]
  show ?thesis
  proof (cases cr)
    case (Inl x)
    with c1 cm co show ?thesis
      by (auto simp: commitSnapshot_def gbind_def outcome_def)
  next
    case (Inr c')
    with co have s1: "service_ok s1" "commits s (SnapshotChange op g rounds created updated) s1" "synced s1 c'" "gc_state c' = st'"
      by simp_all
    note sn = applyGoalChange_snapshot [OF ap]
    from sn s1(4) have vw: "goal_view_of c' = Inr (Some \<lparr>gw_goal = g, gw_rounds = rounds, gw_created = created,
        gw_updated = updated, gw_activation = gc_activation c'\<rparr>)" by (simp add: goal_view_of_def)
    with cm c1 Inr have "r = Inr \<lparr>gw_goal = g, gw_rounds = rounds, gw_created = created,
        gw_updated = updated, gw_activation = gc_activation c'\<rparr>" "s' = s1"
      by (auto simp: commitSnapshot_def gbind_def glift_def gret_def)
    with s1 sn show ?thesis by (auto simp: outcome_def displays_def synced_def)
  qed
qed

lemma commitCurrent_ok:
  assumes sy: "synced s c" and cur: "gf_goal (gc_state c) = Some cur" and now: "valid_time (ge_now env)"
    and g: "valid_snapshot g" "g_id g = g_id cur" "g_revision g = g_revision cur + 1"
    and op: "op \<noteq> GCreate" "check_transition (gc_state c) op g cur = Inr ()"
    and cm: "commitCurrent env c op g act s = (r, s')"
  shows "outcome s r s'"
proof -
  obtain cr u where cu: "gf_created (gc_state c) = Some cr" "gf_updated (gc_state c) = Some u"
    "valid_time cr" "valid_time u" "cr \<le> u" and rounds: "valid_time (gf_rounds (gc_state c))"
    using synced_inv [OF sy] cur by (auto simp: goal_inv_def)
  let ?t = "max (ge_now env) u"
  have t: "valid_time ?t" "cr \<le> ?t" "u \<le> ?t" using now cu by (auto simp: max_def)
  have cs: "commitSnapshot env c op g (gf_rounds (gc_state c)) cr ?t act s = (r, s')"
    using cm cu by (simp add: commitCurrent_def nextMutationTime_def gbind_def glift_def)
  have "validateSnapshotTransition (gc_state c) op g (gf_rounds (gc_state c)) cr ?t cur = Inr ()"
    using g op(2) cu t by (simp add: validateSnapshotTransition_def requireNextRevision_def snapshot_ref_def)
  then obtain st' where "applyGoalChange (gc_state c) (SnapshotChange op g (gf_rounds (gc_state c)) cr ?t) = Inr st'"
    using op(1) cur by simp
  moreover have "valid_change (SnapshotChange op g (gf_rounds (gc_state c)) cr ?t)"
    using g(1) rounds cu(3) t by simp
  ultimately show ?thesis using commitSnapshot_ok [OF sy _ _ cs] by blast
qed

lemma outcome_same: "service_ok s' \<Longrightarrow> svc_log s' = svc_log s \<Longrightarrow> outcome s (Inl x) s'"
  by (simp add: outcome_def)

text \<open>What a call needs of its environment: a sound clock, a fresh id, room for the next revision.\<close>

definition env_ok :: "goal_service \<Rightarrow> goal_env \<Rightarrow> bool" where
  "env_ok s env \<longleftrightarrow> valid_time (ge_now env)
     \<and> (\<forall>st. foldGoal (svc_log s) = Inr st \<longrightarrow> ''goal-'' @ ge_uuid env \<notin> set (gf_seen st)
          \<and> (\<forall>g. gf_goal st = Some g \<longrightarrow> g_revision g < MAX_SAFE_INTEGER))"

lemma env_current:
  assumes "env_ok s env" "synced (s\<lparr>gs_cache := Some c\<rparr>) c" "gf_goal (gc_state c) = Some g"
  shows "valid_snapshot g" "safe_int (g_revision g + 1)" "1 \<le> g_revision g + 1"
  using assms synced_inv [OF assms(2)]
  by (auto simp: goal_inv_def env_ok_def synced_def valid_snapshot_def safe_int_def)

lemma valid_withPhase:
  "valid_snapshot g \<Longrightarrow> safe_int (g_revision g + 1) \<Longrightarrow> p \<noteq> Blocked \<Longrightarrow> valid_snapshot (withPhase g p)"
  by (simp add: valid_snapshot_def withPhase_def)

lemma valid_withBlock:
  "valid_snapshot g \<Longrightarrow> safe_int (g_revision g + 1) \<Longrightarrow> valid_reason r \<Longrightarrow>
     valid_snapshot ((withPhase g Blocked)\<lparr>g_blocked := Some r\<rparr>)"
  by (simp add: valid_snapshot_def withPhase_def)

lemma resolveBlockReason_valid: "resolveBlockReason v = Inr r \<Longrightarrow> valid_reason r"
  by (auto simp: resolveBlockReason_def valid_reason_def normalized_def Let_def split: option.splits if_splits)

lemma resolveObjective_valid: "resolveObjective v = Inr ob \<Longrightarrow> normalized ob"
  by (auto simp: resolveObjective_def normalized_def split: if_splits)

lemma resolveMax_valid: "resolveMaxGoalRounds v = Inr m \<Longrightarrow> safe_int m \<and> 1 \<le> m"
  by (auto simp: resolveMaxGoalRounds_def split: if_splits)

lemma outcome_cache: "outcome (s\<lparr>gs_cache := c\<rparr>) r s' = outcome s r s'"
  by (cases r) (simp_all add: outcome_def commits_def)

section \<open>Every operation\<close>

lemmas gop_simps = gbind_def glift_def gret_def gfail_def

text \<open>Every mutation starts from a synced cache and the current goal, or has failed.\<close>

lemma mutation_start:
  assumes ok: "service_ok s" and run: "gbind (prepareMutation env) f s = (r, s')"
    and step: "\<And>c. synced (s\<lparr>gs_cache := Some c\<rparr>) c \<Longrightarrow> f c (s\<lparr>gs_cache := Some c\<rparr>) = (r, s') \<Longrightarrow>
      outcome (s\<lparr>gs_cache := Some c\<rparr>) r s'"
  shows "outcome s r s'"
proof -
  obtain c where c: "prepareMutation env s =
     (if ge_live env then (Inr c, s\<lparr>gs_cache := Some c\<rparr>) else (Inl GOAL_AGENT_NOT_LIVE, s))"
     "synced (s\<lparr>gs_cache := Some c\<rparr>) c" using prepare_ok [OF ok] by blast
  show ?thesis
  proof (cases "ge_live env")
    case True
    with c run have "f c (s\<lparr>gs_cache := Some c\<rparr>) = (r, s')" by (simp add: gbind_def)
    from step [OF c(2) this] show ?thesis by (simp add: outcome_cache)
  next
    case False
    with c run have "r = Inl GOAL_AGENT_NOT_LIVE" "s' = s" by (simp_all add: gbind_def)
    with ok show ?thesis by (simp add: outcome_def)
  qed
qed

lemma current_start:
  assumes sy: "synced s c" and run: "gbind (glift (expectCurrent c ref)) f s = (r, s')"
    and step: "\<And>cur. gf_goal (gc_state c) = Some cur \<Longrightarrow> ref = snapshot_ref cur \<Longrightarrow> f cur s = (r, s') \<Longrightarrow> outcome s r s'"
  shows "outcome s r s'"
proof (cases "expectCurrent c ref")
  case (Inl x)
  with run have "r = Inl x" "s' = s" by (simp_all add: gop_simps)
  with sy show ?thesis by (simp add: outcome_def synced_ok)
next
  case (Inr cur)
  then have "gf_goal (gc_state c) = Some cur" "ref = snapshot_ref cur"
    by (auto simp: expectCurrent_def snapshot_ref_def goal_ref.equality split: option.splits if_splits)
  with run Inr step show ?thesis by (simp add: gop_simps)
qed

lemma outcome_fail: "synced s c \<Longrightarrow> gfail x s = (r, s') \<Longrightarrow> outcome s r s'"
  by (auto simp: gfail_def outcome_def synced_ok)

lemma transition_ok:
  assumes ok: "service_ok s" and env: "env_ok s env"
    and run: "goal_transition env ref op allowed phase act s = (r, s')"
    and op: "op \<noteq> GCreate" "phase \<noteq> Blocked"
    and tr: "\<And>st cur. g_phase cur \<in> set allowed \<Longrightarrow> check_transition st op (withPhase cur phase) cur = Inr ()"
  shows "outcome s r s'"
  using ok run unfolding goal_transition_def
proof (rule mutation_start)
  fix c
  let ?s = "s\<lparr>gs_cache := Some c\<rparr>"
  assume sy: "synced ?s c"
    and run: "gbind (glift (expectCurrent c ref)) (\<lambda>current.
       if g_phase current \<notin> set allowed then gfail GOAL_INVALID_TRANSITION
       else commitCurrent env c op (withPhase current phase) act) ?s = (r, s')"
  show "outcome ?s r s'"
  proof (rule current_start [OF sy run])
    fix cur
    assume cur: "gf_goal (gc_state c) = Some cur"
      and run: "(if g_phase cur \<notin> set allowed then gfail GOAL_INVALID_TRANSITION
        else commitCurrent env c op (withPhase cur phase) act) ?s = (r, s')"
    note ec = env_current [OF env sy cur]
    show "outcome ?s r s'"
    proof (cases "g_phase cur \<in> set allowed")
      case True
      have g: "valid_snapshot (withPhase cur phase)" using ec op(2) by (intro valid_withPhase) auto
      have now: "valid_time (ge_now env)" using env by (simp add: env_ok_def)
      have "commitCurrent env c op (withPhase cur phase) act ?s = (r, s')" using run True by simp
      from commitCurrent_ok [OF sy cur now g _ _ op(1) tr [OF True] this] show ?thesis
        by (simp add: withPhase_def)
    next
      case False
      with run outcome_fail [OF sy] show ?thesis by simp
    qed
  qed
qed

lemma pause_ok: "service_ok s \<Longrightarrow> env_ok s env \<Longrightarrow> goal_pause env ref s = (r, s') \<Longrightarrow> outcome s r s'"
  unfolding goal_pause_def
  by (erule (2) transition_ok) (auto simp: check_transition_def requireSameDefinition_def withPhase_def)

lemma complete_ok: "service_ok s \<Longrightarrow> env_ok s env \<Longrightarrow> goal_complete env ref s = (r, s') \<Longrightarrow> outcome s r s'"
  unfolding goal_complete_def
  by (erule (2) transition_ok) (auto simp: check_transition_def requireSameDefinition_def withPhase_def)

lemma resume_ok:
  assumes ok: "service_ok s" and env: "env_ok s env" and run: "goal_resume env ref s = (r, s')"
  shows "outcome s r s'"
  using ok run unfolding goal_resume_def
proof (rule mutation_start)
  fix c
  let ?s = "s\<lparr>gs_cache := Some c\<rparr>"
  let ?k = "\<lambda>current. if g_phase current \<notin> set [Active, Paused, Blocked] then gfail GOAL_INVALID_TRANSITION
       else if g_phase current = Active \<and> gc_activation c = Armed then gfail GOAL_INVALID_TRANSITION
       else if g_max current \<le> gf_rounds (gc_state c) then gfail GOAL_INVALID_TRANSITION
       else commitCurrent env c GResume (withPhase current Active) Armed"
  assume sy: "synced ?s c" and run: "gbind (glift (expectCurrent c ref)) ?k ?s = (r, s')"
  show "outcome ?s r s'"
  proof (rule current_start [OF sy run])
    fix cur
    assume cur: "gf_goal (gc_state c) = Some cur" and run: "?k cur ?s = (r, s')"
    note ec = env_current [OF env sy cur]
    show "outcome ?s r s'"
    proof (cases "g_phase cur \<notin> set [Active, Paused, Blocked] \<or> g_phase cur = Active \<and> gc_activation c = Armed
        \<or> g_max cur \<le> gf_rounds (gc_state c)")
      case True
      with run have "gfail GOAL_INVALID_TRANSITION ?s = (r, s')" by (auto split: if_splits)
      with outcome_fail [OF sy] show ?thesis by blast
    next
      case False
      have g: "valid_snapshot (withPhase cur Active)" using ec by (intro valid_withPhase) auto
      have now: "valid_time (ge_now env)" using env by (simp add: env_ok_def)
      have cc: "commitCurrent env c GResume (withPhase cur Active) Armed ?s = (r, s')" using run False by auto
      have "check_transition (gc_state c) GResume (withPhase cur Active) cur = Inr ()"
        using False by (auto simp: check_transition_def requireSameDefinition_def withPhase_def)
      from commitCurrent_ok [OF sy cur now g _ _ _ this cc] show ?thesis by (simp add: withPhase_def)
    qed
  qed
qed

lemma block_ok:
  assumes ok: "service_ok s" and env: "env_ok s env" and run: "goal_block env ref reason s = (r, s')"
  shows "outcome s r s'"
  using ok run unfolding goal_block_def
proof (rule mutation_start)
  fix c
  let ?s = "s\<lparr>gs_cache := Some c\<rparr>"
  let ?k = "\<lambda>current. if g_phase current \<noteq> Active then gfail GOAL_INVALID_TRANSITION
       else gbind (glift (resolveBlockReason reason)) (\<lambda>r.
              commitCurrent env c GBlock ((withPhase current Blocked)\<lparr>g_blocked := Some r\<rparr>) Disarmed)"
  assume sy: "synced ?s c" and run: "gbind (glift (expectCurrent c ref)) ?k ?s = (r, s')"
  show "outcome ?s r s'"
  proof (rule current_start [OF sy run])
    fix cur
    assume cur: "gf_goal (gc_state c) = Some cur" and run: "?k cur ?s = (r, s')"
    note ec = env_current [OF env sy cur]
    show "outcome ?s r s'"
    proof (cases "g_phase cur = Active \<and> is_ok (resolveBlockReason reason)")
      case False
      then have "\<exists>x. gfail x ?s = (r, s')"
        using run by (cases "resolveBlockReason reason") (auto simp: gop_simps split: if_splits)
      with outcome_fail [OF sy] show ?thesis by blast
    next
      case True
      then obtain br where br: "resolveBlockReason reason = Inr br" by (auto simp: is_ok_iff)
      let ?g = "(withPhase cur Blocked)\<lparr>g_blocked := Some br\<rparr>"
      have g: "valid_snapshot ?g" using ec resolveBlockReason_valid [OF br] by (intro valid_withBlock) auto
      have now: "valid_time (ge_now env)" using env by (simp add: env_ok_def)
      have cc: "commitCurrent env c GBlock ?g Disarmed ?s = (r, s')" using run True br by (simp add: gop_simps)
      have "check_transition (gc_state c) GBlock ?g cur = Inr ()"
        using True by (auto simp: check_transition_def requireSameDefinition_def withPhase_def)
      from commitCurrent_ok [OF sy cur now g _ _ _ this cc] show ?thesis by (simp add: withPhase_def)
    qed
  qed
qed

lemma edit_ok:
  assumes ok: "service_ok s" and env: "env_ok s env" and run: "goal_edit env ref ob mx s = (r, s')"
  shows "outcome s r s'"
  using ok run unfolding goal_edit_def
proof (rule mutation_start)
  fix c
  let ?s = "s\<lparr>gs_cache := Some c\<rparr>"
  let ?ob = "\<lambda>cur. case ob of None \<Rightarrow> Inr (g_objective cur) | Some v \<Rightarrow> resolveObjective v"
  let ?mx = "\<lambda>cur. case mx of None \<Rightarrow> Inr (g_max cur) | Some m \<Rightarrow> resolveMaxGoalRounds m"
  let ?k = "\<lambda>current. if ob = None \<and> mx = None then gfail GOAL_INVALID_EDIT
       else gbind (glift (?ob current)) (\<lambda>ob. gbind (glift (?mx current)) (\<lambda>m.
              commitCurrent env c GEdit (current\<lparr>g_revision := g_revision current + 1, g_objective := ob, g_max := m\<rparr>)
                (gc_activation c)))"
  assume sy: "synced ?s c" and run: "gbind (glift (expectCurrent c ref)) ?k ?s = (r, s')"
  show "outcome ?s r s'"
  proof (rule current_start [OF sy run])
    fix cur
    assume cur: "gf_goal (gc_state c) = Some cur" and run: "?k cur ?s = (r, s')"
    note ec = env_current [OF env sy cur]
    show "outcome ?s r s'"
    proof (cases "(ob \<noteq> None \<or> mx \<noteq> None) \<and> is_ok (?ob cur) \<and> is_ok (?mx cur)")
      case False
      then have "\<exists>x. gfail x ?s = (r, s')"
        using run by (cases "?ob cur"; cases "?mx cur") (auto simp: gop_simps split: if_splits)
      with outcome_fail [OF sy] show ?thesis by blast
    next
      case True
      then obtain o' m where om: "?ob cur = Inr o'" "?mx cur = Inr m" by (auto simp: is_ok_iff)
      then have "normalized o'" "safe_int m \<and> 1 \<le> m"
        using ec(1) resolveObjective_valid resolveMax_valid by (auto simp: valid_snapshot_def split: option.splits)
      let ?g = "cur\<lparr>g_revision := g_revision cur + 1, g_objective := o', g_max := m\<rparr>"
      have g: "valid_snapshot ?g"
        using ec \<open>normalized o'\<close> \<open>safe_int m \<and> 1 \<le> m\<close>
        by (auto simp: valid_snapshot_def split: option.splits)
      have now: "valid_time (ge_now env)" using env by (simp add: env_ok_def)
      have cc: "commitCurrent env c GEdit ?g (gc_activation c) ?s = (r, s')"
        using run True om by (auto simp: gop_simps)
      have "check_transition (gc_state c) GEdit ?g cur = Inr ()" by (simp add: check_transition_def)
      from commitCurrent_ok [OF sy cur now g _ _ _ this cc] show ?thesis by simp
    qed
  qed
qed

lemma small: "safe_int 0" "safe_int 1"
  by (simp_all add: safe_int_code)

lemma create_ok:
  assumes ok: "service_ok s" and env: "env_ok s env" and run: "goal_create env dflt ob mx s = (r, s')"
  shows "outcome s r s'"
proof (cases "resolveCreateGoal ob mx dflt")
  case (Inl x)
  with run ok show ?thesis by (auto simp: goal_create_def gop_simps outcome_def)
next
  case (Inr spec)
  obtain o' m where spec: "spec = (o', m)" by (cases spec)
  with Inr have v: "normalized o'" "safe_int m \<and> 1 \<le> m"
    using resolveObjective_valid resolveMax_valid by (auto simp: resolveCreateGoal_def rbind_Inr_iff)
  let ?g = "\<lparr>g_id = ''goal-'' @ ge_uuid env, g_revision = 1, g_objective = o', g_phase = Active,
      g_blocked = None, g_max = m\<rparr>"
  let ?new = "\<lambda>c. commitSnapshot env c GCreate ?g 0 (ge_now env) (ge_now env) Armed"
  let ?k = "\<lambda>c. case gf_goal (gc_state c) of
         Some current \<Rightarrow> if g_phase current \<noteq> Complete then gfail GOAL_ALREADY_EXISTS else ?new c
       | None \<Rightarrow> ?new c"
  have "gbind (prepareMutation env) ?k s = (r, s')"
    using run Inr spec by (simp add: goal_create_def gbind_def [of "glift _"] glift_def)
  with ok show ?thesis
  proof (rule mutation_start)
    fix c
    let ?s = "s\<lparr>gs_cache := Some c\<rparr>"
    assume sy: "synced ?s c" and run: "?k c ?s = (r, s')"
    show "outcome ?s r s'"
    proof (cases "case gf_goal (gc_state c) of None \<Rightarrow> False | Some g \<Rightarrow> g_phase g \<noteq> Complete")
      case True
      with run have "gfail GOAL_ALREADY_EXISTS ?s = (r, s')" by (auto split: option.splits)
      with outcome_fail [OF sy] show ?thesis by blast
    next
      case False
      have fresh: "''goal-'' @ ge_uuid env \<notin> set (gf_seen (gc_state c))" and now: "valid_time (ge_now env)"
        using env sy by (auto simp: env_ok_def synced_def)
      from run False have cs: "?new c ?s = (r, s')" by (auto split: option.splits)
      have "valid_change (SnapshotChange GCreate ?g 0 (ge_now env) (ge_now env))"
        using v now small by (simp add: valid_snapshot_def valid_time_def)
      moreover obtain st' where "applyGoalChange (gc_state c) (SnapshotChange GCreate ?g 0 (ge_now env) (ge_now env)) = Inr st'"
        using False fresh by (auto split: option.splits)
      ultimately show ?thesis using commitSnapshot_ok [OF sy _ _ cs] by blast
    qed
  qed
qed

definition ref_outcome :: "goal_service \<Rightarrow> (goal_fail, goal_ref) result \<Rightarrow> goal_service \<Rightarrow> bool" where
  "ref_outcome s r s' \<longleftrightarrow> service_ok s' \<and> (case r of
     Inl _ \<Rightarrow> svc_log s' = svc_log s
   | Inr ref \<Rightarrow> (\<exists>ch. commits s ch s' \<and> ref = goalChangeRef ch) \<and> (\<exists>st. foldGoal (svc_log s') = Inr st \<and> gf_goal st = None))"

lemma clear_ok:
  assumes ok: "service_ok s" and env: "env_ok s env" and run: "goal_clear env ref s = (r, s')"
  shows "ref_outcome s r s'"
proof -
  obtain c where c: "prepareMutation env s =
     (if ge_live env then (Inr c, s\<lparr>gs_cache := Some c\<rparr>) else (Inl GOAL_AGENT_NOT_LIVE, s))"
     "synced (s\<lparr>gs_cache := Some c\<rparr>) c" using prepare_ok [OF ok] by blast
  let ?s = "s\<lparr>gs_cache := Some c\<rparr>"
  show ?thesis
  proof (cases "ge_live env \<and> is_ok (expectCurrent c ref)")
    case False
    then have "\<exists>x. r = Inl x" "svc_log s' = svc_log s" "s' = s \<or> s' = ?s"
      using run c(1) by (cases "ge_live env"; cases "expectCurrent c ref"; auto simp: goal_clear_def gop_simps)+
    with ok c(2) synced_ok show ?thesis by (auto simp: ref_outcome_def)
  next
    case True
    then obtain cur where cur': "expectCurrent c ref = Inr cur" by (auto simp: is_ok_iff)
    then have cur: "gf_goal (gc_state c) = Some cur" by (auto simp: expectCurrent_def split: option.splits if_splits)
    obtain u where u: "gf_updated (gc_state c) = Some u" "valid_time u"
      using synced_inv [OF c(2)] cur by (auto simp: goal_inv_def)
    let ?ch = "ClearChange \<lparr>gr_id = g_id cur, gr_revision = g_revision cur + 1\<rparr> (max (ge_now env) u)"
    have t: "valid_time (max (ge_now env) u)" using env u by (auto simp: env_ok_def max_def)
    have v: "valid_change ?ch"
      using env_current [OF env c(2) cur] t by (simp add: valid_snapshot_def)
    obtain st' where ap: "applyGoalChange (gc_state c) ?ch = Inr st'" "gf_goal st' = None"
      using cur u by (simp add: requireNextRevision_def)
    obtain cr s1 where cm: "goal_commit env c ?ch Disarmed ?s = (cr, s1)" by fastforce
    note co = commit_ok [OF c(2) v ap(1) cm]
    have res: "(r, s') = (case cr of Inl x \<Rightarrow> (Inl x, s1) | Inr _ \<Rightarrow>
        (Inr \<lparr>gr_id = g_id cur, gr_revision = g_revision cur + 1\<rparr>, s1))"
      using run c(1) True cur' u(1) cm
      by (auto simp: goal_clear_def gop_simps Let_def nextMutationTime_def split: sum.splits)
    show ?thesis
    proof (cases cr)
      case (Inl x)
      with res co show ?thesis by (simp add: ref_outcome_def)
    next
      case (Inr c')
      with co have co': "service_ok s1" "commits ?s ?ch s1" "synced s1 c'" "gc_state c' = st'" by simp_all
      then have "commits s ?ch s1" by (simp add: commits_def)
      with res Inr co' ap(2) show ?thesis
        by (auto simp: ref_outcome_def synced_def simp del: change_json.simps intro!: exI [of _ ?ch])
    qed
  qed
qed

section \<open>Requests and runs\<close>

text \<open>The mutations of the service, as a client requests them, and what it is answered.\<close>

datatype goal_request =
    ReqCreate string "int option"
  | ReqEdit goal_ref "string option" "int option"
  | ReqPause goal_ref
  | ReqResume goal_ref
  | ReqComplete goal_ref
  | ReqBlock goal_ref json
  | ReqClear goal_ref

datatype goal_answer = Displayed goal_view | Tombstone goal_ref

definition displayed :: "goal_view gop \<Rightarrow> goal_answer gop" where
  "displayed m = gbind m (\<lambda>v. gret (Displayed v))"

fun run_request :: "goal_env \<Rightarrow> int \<Rightarrow> goal_request \<Rightarrow> goal_answer gop" where
  "run_request env dflt (ReqCreate ob mx) = displayed (goal_create env dflt ob mx)"
| "run_request env dflt (ReqEdit ref ob mx) = displayed (goal_edit env ref ob mx)"
| "run_request env dflt (ReqPause ref) = displayed (goal_pause env ref)"
| "run_request env dflt (ReqResume ref) = displayed (goal_resume env ref)"
| "run_request env dflt (ReqComplete ref) = displayed (goal_complete env ref)"
| "run_request env dflt (ReqBlock ref reason) = displayed (goal_block env ref reason)"
| "run_request env dflt (ReqClear ref) = gbind (goal_clear env ref) (\<lambda>t. gret (Tombstone t))"

definition answered :: "goal_service \<Rightarrow> (goal_fail, goal_answer) result \<Rightarrow> goal_service \<Rightarrow> bool" where
  "answered s r s' \<longleftrightarrow> service_ok s' \<and> (case r of
     Inl _ \<Rightarrow> svc_log s' = svc_log s
   | Inr (Displayed v) \<Rightarrow> (\<exists>ch. commits s ch s') \<and> displays s' v
   | Inr (Tombstone t) \<Rightarrow> (\<exists>ch. commits s ch s' \<and> t = goalChangeRef ch) \<and> (\<exists>st. foldGoal (svc_log s') = Inr st \<and> gf_goal st = None))"

lemma displayed_ok:
  assumes run: "displayed m s = (r, s')" and ok: "\<And>r0. m s = (r0, s') \<Longrightarrow> outcome s r0 s'"
  shows "answered s r s'"
proof -
  obtain r0 s1 where m: "m s = (r0, s1)" by (rule prod.exhaust)
  with run have "s' = s1" "r = (case r0 of Inl x \<Rightarrow> Inl x | Inr v \<Rightarrow> Inr (Displayed v))"
    by (auto simp: displayed_def gbind_def gret_def split: sum.splits)
  with ok m show ?thesis by (cases r0) (auto simp: answered_def outcome_def)
qed

lemma run_request_ok:
  assumes ok: "service_ok s" and env: "env_ok s env" and run: "run_request env dflt q s = (r, s')"
  shows "answered s r s'"
proof (cases q)
  case (ReqClear ref)
  obtain r0 s1 where m: "goal_clear env ref s = (r0, s1)" by (rule prod.exhaust)
  with run ReqClear have "s' = s1" "r = (case r0 of Inl x \<Rightarrow> Inl x | Inr t \<Rightarrow> Inr (Tombstone t))"
    by (auto simp: gbind_def gret_def split: sum.splits)
  with clear_ok [OF ok env m] show ?thesis by (cases r0) (auto simp: answered_def ref_outcome_def)
next
  case (ReqCreate ob mx)
  with run show ?thesis by (intro displayed_ok [of "goal_create env dflt ob mx"] create_ok [OF ok env]) simp_all
next
  case (ReqEdit ref ob mx)
  with run show ?thesis by (intro displayed_ok [of "goal_edit env ref ob mx"] edit_ok [OF ok env]) simp_all
next
  case (ReqPause ref)
  with run show ?thesis by (intro displayed_ok [of "goal_pause env ref"] pause_ok [OF ok env]) simp_all
next
  case (ReqResume ref)
  with run show ?thesis by (intro displayed_ok [of "goal_resume env ref"] resume_ok [OF ok env]) simp_all
next
  case (ReqComplete ref)
  with run show ?thesis by (intro displayed_ok [of "goal_complete env ref"] complete_ok [OF ok env]) simp_all
next
  case (ReqBlock ref reason)
  with run show ?thesis by (intro displayed_ok [of "goal_block env ref reason"] block_ok [OF ok env]) simp_all
qed

text \<open>
  What may happen to a service after a moment: its mutations and reads, the start of a session, and
  the appends of anyone else to the session, as long as the strict fold still accepts its log.
\<close>

inductive service_later :: "goal_service \<Rightarrow> goal_service \<Rightarrow> bool" for s :: goal_service where
  later_now: "service_later s s"
| later_request: "service_later s s1 \<Longrightarrow> env_ok s1 env \<Longrightarrow> service_later s (snd (run_request env dflt q s1))"
| later_get: "service_later s s1 \<Longrightarrow> service_later s (snd (goal_get env s1))"
| later_disarm: "service_later s s1 \<Longrightarrow> service_later s (snd (goal_disarm env s1))"
| later_start: "service_later s s1 \<Longrightarrow> service_later s (snd (goal_session_start s1))"
| later_append:
    "service_later s s1 \<Longrightarrow> append_event (gs_session s1) time d intent at' = (r, ses) \<Longrightarrow> is_ok (foldGoal (se_log ses)) \<Longrightarrow>
     service_later s (s1\<lparr>gs_session := ses\<rparr>)"

lemma reads_ok:
  assumes ok: "service_ok s"
  shows "service_ok (snd (goal_get env s)) \<and> svc_log (snd (goal_get env s)) = svc_log s"
    "service_ok (snd (goal_disarm env s)) \<and> svc_log (snd (goal_disarm env s)) = svc_log s"
    "service_ok (snd (goal_session_start s)) \<and> svc_log (snd (goal_session_start s)) = svc_log s"
proof -
  obtain c where c: "prepareMutation env s =
     (if ge_live env then (Inr c, s\<lparr>gs_cache := Some c\<rparr>) else (Inl GOAL_AGENT_NOT_LIVE, s))"
     "synced (s\<lparr>gs_cache := Some c\<rparr>) c" using prepare_ok [OF ok] by blast
  then have "service_ok (s\<lparr>gs_cache := Some (c\<lparr>gc_activation := Disarmed\<rparr>)\<rparr>)" "service_ok (s\<lparr>gs_cache := Some c\<rparr>)"
    by (auto simp: service_ok_def synced_def)
  with c(1) ok show "service_ok (snd (goal_get env s)) \<and> svc_log (snd (goal_get env s)) = svc_log s"
    "service_ok (snd (goal_disarm env s)) \<and> svc_log (snd (goal_disarm env s)) = svc_log s"
    by (auto simp: goal_get_def goal_disarm_def gop_simps Let_def)
  show "service_ok (snd (goal_session_start s)) \<and> svc_log (snd (goal_session_start s)) = svc_log s"
    using ok by (auto simp: goal_session_start_def goal_cache_op_def gop_simps Let_def service_ok_def split: option.splits sum.splits)
qed

lemma later_append_ok:
  assumes ok: "service_ok s1" and a: "append_event (gs_session s1) time d intent at' = (r, ses)" and f: "is_ok (foldGoal (se_log ses))"
  shows "service_ok (s1\<lparr>gs_session := ses\<rparr>) \<and> (\<exists>es. se_log ses = svc_log s1 @ es)"
proof -
  have "session_ok (gs_session s1)" using ok by (simp add: service_ok_def)
  from append_event_ok [OF this a] obtain es where es: "session_ok ses" "se_log ses = svc_log s1 @ es"
    by (cases r) auto
  with ok f show ?thesis by (auto simp: service_ok_def is_ok_iff split: option.splits)
qed

lemma later_ok: "service_later s s2 \<Longrightarrow> service_ok s \<Longrightarrow> service_ok s2 \<and> (\<exists>es. svc_log s2 = svc_log s @ es)"
proof (induction rule: service_later.induct)
  case (later_request s1 env dflt q)
  from run_request_ok [OF _ later_request(2) prod.collapse [symmetric]] later_request
  have "answered s1 (fst (run_request env dflt q s1)) (snd (run_request env dflt q s1))" by blast
  with later_request show ?case
    by (auto simp: answered_def commits_def split: sum.splits goal_answer.splits)
next
  case (later_append s1 time d intent at' r ses)
  with later_append_ok [of s1 time d intent at' r ses] show ?case by auto
qed (simp_all add: reads_ok)

text \<open>A ref the history has passed: its goal is known, and current only at a later revision.\<close>

definition spent :: "goal_fold \<Rightarrow> goal_ref \<Rightarrow> bool" where
  "spent st ref \<longleftrightarrow> gr_id ref \<in> set (gf_seen st) \<and>
     (\<forall>g. gf_goal st = Some g \<and> g_id g = gr_id ref \<longrightarrow> gr_revision ref < g_revision g)"

lemma spent_change: "applyGoalChange st ch = Inr st' \<Longrightarrow> spent st ref \<Longrightarrow> spent st' ref"
proof (cases ch)
  case (SnapshotChange op g rounds created updated)
  assume a: "applyGoalChange st ch = Inr st'" and sp: "spent st ref"
  from applyGoalChange_snapshot [OF a [unfolded SnapshotChange]] sp show ?thesis
    by (cases "op = GCreate") (auto simp: spent_def)
next
  case (ClearChange r t)
  assume a: "applyGoalChange st ch = Inr st'" and sp: "spent st ref"
  from applyGoalChange_clear [OF a [unfolded ClearChange]] sp show ?thesis by (auto simp: spent_def)
qed

lemma spent_event: "applyGoalEvent st e = Inr st' \<Longrightarrow> spent st ref \<Longrightarrow> spent st' ref"
proof (erule applyGoalEvent_cases)
  fix v c
  assume "applyGoalChange st c = Inr st'" "spent st ref"
  then show ?thesis by (rule spent_change)
qed (simp_all add: spent_def)

lemma spent_replay: "replay applyGoalEvent st es = Inr st' \<Longrightarrow> spent st ref \<Longrightarrow> spent st' ref"
  by (induction es arbitrary: st) (auto split: sum.splits dest: spent_event)

lemma spent_log:
  assumes "foldGoal es = Inr st" "spent st ref" "foldGoal (es @ fs) = Inr st'"
  shows "spent st' ref"
  using assms spent_replay goal.incremental [of es st fs] by (simp add: foldGoal_def)

text \<open>The change that follows the current goal spends its ref.\<close>

lemma current_spent:
  assumes a: "applyGoalChange st ch = Inr st'" and inv: "goal_inv st"
    and cur: "gf_goal st = Some cur" "gr_id ref = g_id cur" "gr_revision ref = g_revision cur"
  shows "spent st' ref"
proof (cases ch)
  case (SnapshotChange op g rounds created updated)
  from applyGoalChange_snapshot [OF a [unfolded SnapshotChange]] inv cur show ?thesis
    by (cases "op = GCreate") (auto simp: spent_def goal_inv_def)
next
  case (ClearChange r t)
  from applyGoalChange_clear [OF a [unfolded ClearChange]] inv cur show ?thesis by (auto simp: spent_def goal_inv_def)
qed

section \<open>Properties\<close>

text \<open>C16. Whatever mutation a client requests (create, edit, pause, resume, complete, block or
  clear), the service leaves a log the strict fold accepts: a request that fails leaves the log
  as it was, and one that succeeds appended exactly one change, which is valid and accepted by
  the fold, and answered with the view of the new fold or, for a clear, with the tombstone of
  a log that has no goal. The service starts in order, the clock gives a safe time, the random
  part of an id is not one used before, and the revision has room to advance (\<open>env_ok\<close>).\<close>

theorem requests_keep_log_foldable:
  assumes "service_ok s" and "env_ok s env" and "run_request env dflt q s = (r, s')"
  shows "service_ok s' \<and> (\<exists>st. foldGoal (svc_log s') = Inr st) \<and> (case r of
     Inl _ \<Rightarrow> svc_log s' = svc_log s
   | Inr (Displayed v) \<Rightarrow> (\<exists>ch. commits s ch s') \<and> displays s' v
   | Inr (Tombstone t) \<Rightarrow> (\<exists>ch. commits s ch s' \<and> t = goalChangeRef ch) \<and> (\<exists>st. foldGoal (svc_log s') = Inr st \<and> gf_goal st = None))"
  using run_request_ok [OF assms] by (auto simp: answered_def service_ok_def)

definition fresh_service :: goal_service where
  "fresh_service = \<lparr>gs_session = empty_session sample_header, gs_cache = None, gs_notes = []\<rparr>"

definition sample_env :: goal_env where
  "sample_env = \<lparr>ge_live = True, ge_now = 10, ge_uuid = ''1'', ge_time = 10, ge_attach = Detached\<rparr>"

lemma fresh_service_ok: "service_ok fresh_service" "env_ok fresh_service sample_env"
proof -
  have log: "svc_log fresh_service = []" "gs_cache fresh_service = None"
    by (simp_all add: fresh_service_def empty_session_def)
  have "session_ok (gs_session fresh_service)"
    by (simp add: fresh_service_def session_ok_empty)
  with log show "service_ok fresh_service" by (simp add: service_ok_def foldGoal_def)
  show "env_ok fresh_service sample_env"
    using log by (auto simp: env_ok_def sample_env_def valid_time_def safe_int_code foldGoal_def emptyGoalFoldState_def)
qed

lemma fresh_service_create:
  "is_ok (fst (run_request sample_env 256 (ReqCreate ''  ship it '' (Some 3)) fresh_service))"
  by code_simp

lemma requests_keep_log_foldable_witness:
  "\<exists>v s'. run_request sample_env 256 (ReqCreate ''  ship it '' (Some 3)) fresh_service = (Inr v, s')
     \<and> (\<exists>ch. commits fresh_service ch s')"
proof -
  obtain v s' where r: "run_request sample_env 256 (ReqCreate ''  ship it '' (Some 3)) fresh_service = (Inr v, s')"
    using fresh_service_create
    by (cases "run_request sample_env 256 (ReqCreate ''  ship it '' (Some 3)) fresh_service") (auto simp: is_ok_iff)
  from requests_keep_log_foldable [OF fresh_service_ok r] r show ?thesis by (auto split: goal_answer.splits)
qed

fun request_ref :: "goal_request \<Rightarrow> goal_ref option" where
  "request_ref (ReqCreate _ _) = None"
| "request_ref (ReqEdit ref _ _) = Some ref"
| "request_ref (ReqPause ref) = Some ref"
| "request_ref (ReqResume ref) = Some ref"
| "request_ref (ReqComplete ref) = Some ref"
| "request_ref (ReqBlock ref _) = Some ref"
| "request_ref (ReqClear ref) = Some ref"

lemma request_ref_rejected:
  assumes "request_ref q = Some ref" "prepareMutation env s = (Inr c, s1)" "expectCurrent c ref = Inl x"
  shows "run_request env dflt q s = (Inl x, s1)"
  using assms
  by (cases q) (simp_all add: displayed_def goal_edit_def goal_pause_def goal_resume_def goal_complete_def goal_block_def
      goal_clear_def goal_transition_def gop_simps)

lemma request_ref_dead:
  assumes "request_ref q = Some ref" "prepareMutation env s = (Inl x, s1)"
  shows "run_request env dflt q s = (Inl x, s1)"
  using assms
  by (cases q) (simp_all add: displayed_def goal_edit_def goal_pause_def goal_resume_def goal_complete_def goal_block_def
      goal_clear_def goal_transition_def gop_simps)

text \<open>C17. A ref is spent by the mutation that used it: once a request naming a ref has succeeded,
  every later request naming the same ref is rejected and leaves the log as it is, as stale while a
  goal is current and as not found while none is, so of two clients racing on one revision at most
  one wins. Between the two lie any mutations, reads and session starts, and any appends by others
  to the session that the strict fold accepts (\<open>service_later\<close>); the service starts in order and the
  mutations run with a sound clock, fresh ids and room for the next revision (\<open>env_ok\<close>).\<close>

theorem ref_is_spent:
  assumes ok: "service_ok s" and env: "env_ok s env"
    and first: "run_request env dflt q s = (Inr v, s')" "request_ref q = Some ref"
    and later: "service_later s' s2" and again: "request_ref q2 = Some ref"
  shows "svc_log (snd (run_request env2 dflt2 q2 s2)) = svc_log s2 \<and>
    fst (run_request env2 dflt2 q2 s2) = Inl (if \<not> ge_live env2 then GOAL_AGENT_NOT_LIVE
      else if (\<exists>st g. foldGoal (svc_log s2) = Inr st \<and> gf_goal st = Some g) then GOAL_STALE_REVISION else GOAL_NOT_FOUND)"
proof -
  note out = run_request_ok [OF ok env first(1)]
  then have ok': "service_ok s'" by (simp add: answered_def)
  from out obtain ch where "commits s ch s'" by (auto simp: answered_def split: goal_answer.splits)
  then obtain st st' where st: "foldGoal (svc_log s) = Inr st" "applyGoalChange st ch = Inr st'" "foldGoal (svc_log s') = Inr st'"
    by (auto simp: commits_def)
  obtain c where c: "prepareMutation env s =
     (if ge_live env then (Inr c, s\<lparr>gs_cache := Some c\<rparr>) else (Inl GOAL_AGENT_NOT_LIVE, s))"
     "synced (s\<lparr>gs_cache := Some c\<rparr>) c" using prepare_ok [OF ok] by blast
  have live: "ge_live env" using request_ref_dead [OF first(2), of env s _ s dflt] c(1) first(1) by (cases "ge_live env") auto
  have "\<exists>cur. expectCurrent c ref = Inr cur"
    using request_ref_rejected [OF first(2), of env s c _ _ dflt] c(1) live first(1)
    by (cases "expectCurrent c ref") auto
  moreover have "gc_state c = st" using c(2) st(1) by (simp add: synced_def)
  ultimately obtain cur where cur: "gf_goal st = Some cur" "gr_id ref = g_id cur" "gr_revision ref = g_revision cur"
    by (auto simp: expectCurrent_def split: option.splits if_splits)
  have "goal_inv st" using st(1) by (simp add: foldGoal_def goal.inv_replay)
  with current_spent [OF st(2)] cur have sp: "spent st' ref" by blast
  from later_ok [OF later ok'] obtain es where ok2: "service_ok s2" and es: "svc_log s2 = svc_log s' @ es" by blast
  obtain c2 where c2: "prepareMutation env2 s2 =
     (if ge_live env2 then (Inr c2, s2\<lparr>gs_cache := Some c2\<rparr>) else (Inl GOAL_AGENT_NOT_LIVE, s2))"
     "synced (s2\<lparr>gs_cache := Some c2\<rparr>) c2" using prepare_ok [OF ok2] by blast
  then have f2: "foldGoal (svc_log s2) = Inr (gc_state c2)" by (simp add: synced_def)
  have sp2: "spent (gc_state c2) ref" using spent_log [OF st(3) sp] f2 es by simp
  show ?thesis
  proof (cases "ge_live env2")
    case False
    with request_ref_dead [OF again, of env2 s2 GOAL_AGENT_NOT_LIVE s2 dflt2] c2(1) show ?thesis by simp
  next
    case True
    have "expectCurrent c2 ref = Inl (if gf_goal (gc_state c2) \<noteq> None then GOAL_STALE_REVISION else GOAL_NOT_FOUND)"
      using sp2 by (auto simp: spent_def expectCurrent_def split: option.splits)
    from request_ref_rejected [OF again _ this, of env2 s2 _ dflt2] c2(1) True f2 show ?thesis by simp
  qed
qed

definition armed_service :: goal_service where
  "armed_service = snd (run_request sample_env 256 (ReqCreate ''ship it'' (Some 3)) fresh_service)"

definition sample_ref :: goal_ref where
  "sample_ref = \<lparr>gr_id = ''goal-1'', gr_revision = 1\<rparr>"

definition later_env :: goal_env where
  "later_env = sample_env\<lparr>ge_uuid := ''2''\<rparr>"

definition paused_service :: goal_service where
  "paused_service = snd (run_request later_env 256 (ReqPause sample_ref) armed_service)"

text \<open>After the pause the goal is cleared.\<close>

definition cleared_service :: goal_service where
  "cleared_service = snd (run_request later_env 256 (ReqClear (sample_ref\<lparr>gr_revision := 2\<rparr>)) paused_service)"

lemma later_env_ok:
  assumes "case foldGoal (svc_log s) of Inr st \<Rightarrow> gf_seen st = [''goal-1'']
      \<and> (case gf_goal st of Some g \<Rightarrow> g_revision g < 3 | None \<Rightarrow> True) | Inl _ \<Rightarrow> False"
  shows "env_ok s later_env"
  using assms
  by (auto simp: env_ok_def later_env_def sample_env_def valid_time_def safe_int_code MAX_SAFE_INTEGER_def
      split: sum.splits option.splits)

lemma armed_service_ok: "service_ok armed_service" "env_ok armed_service later_env"
proof -
  show "service_ok armed_service"
    unfolding armed_service_def
    using run_request_ok [OF fresh_service_ok prod.collapse [symmetric], of 256 "ReqCreate ''ship it'' (Some 3)"]
    by (simp add: answered_def)
  show "env_ok armed_service later_env" by (rule later_env_ok) code_simp
qed

lemma ref_is_spent_witness:
  "fst (run_request later_env 256 (ReqComplete sample_ref) paused_service) = Inl GOAL_STALE_REVISION \<and>
   fst (run_request later_env 256 (ReqComplete sample_ref) cleared_service) = Inl GOAL_NOT_FOUND"
proof -
  have "is_ok (fst (run_request later_env 256 (ReqPause sample_ref) armed_service))" by code_simp
  then obtain v where r: "run_request later_env 256 (ReqPause sample_ref) armed_service = (Inr v, paused_service)"
    by (auto simp: is_ok_iff paused_service_def prod_eq_iff)
  have refs: "request_ref (ReqPause sample_ref) = Some sample_ref" "request_ref (ReqComplete sample_ref) = Some sample_ref"
    "ge_live later_env" by (simp_all add: later_env_def sample_env_def)
  have "env_ok paused_service later_env" by (rule later_env_ok) code_simp
  then have cleared: "service_later paused_service cleared_service"
    unfolding cleared_service_def by (intro later_request later_now)
  have st: "case foldGoal (svc_log paused_service) of Inr st \<Rightarrow> gf_goal st \<noteq> None | Inl _ \<Rightarrow> False"
    "case foldGoal (svc_log cleared_service) of Inr st \<Rightarrow> gf_goal st = None | Inl _ \<Rightarrow> False" by code_simp+
  from ref_is_spent [OF armed_service_ok r refs(1) later_now refs(2), of later_env 256]
    ref_is_spent [OF armed_service_ok r refs(1) cleared refs(2), of later_env 256] refs(3) st
  show ?thesis by (auto split: sum.splits)
qed

end
