(* ===== verification/Agent_Inbox.thy ===== *)
theory Agent_Inbox
  imports Session_Log "HOL-Library.Multiset"
begin

text \<open>
  The agent inbox, \<open>src/packages/core/agent/src/inbox.ts\<close>: two lists of pending messages, the
  normalised splice that every mutation commits to the session log before it changes the
  lists, and the replay that rebuilds the lists from the log. The lemmas show that a pending
  identity is never duplicated and that the live lists are always the replay of the log.
\<close>

section \<open>State\<close>

record inbox =
  ib_turn :: "user_message list"
  ib_step :: "user_message list"

definition empty_inbox :: inbox where
  "empty_inbox = \<lparr>ib_turn = [], ib_step = []\<rparr>"

fun inbox_list :: "inbox \<Rightarrow> inbox_target \<Rightarrow> user_message list" where
  "inbox_list ib NextTurn = ib_turn ib"
| "inbox_list ib NextStep = ib_step ib"

fun set_inbox_list :: "inbox_target \<Rightarrow> user_message list \<Rightarrow> inbox \<Rightarrow> inbox" where
  "set_inbox_list NextTurn ms ib = ib\<lparr>ib_turn := ms\<rparr>"
| "set_inbox_list NextStep ms ib = ib\<lparr>ib_step := ms\<rparr>"

datatype inbox_error = InvalidSplice | AlreadyPending string | InboxAppend session_error | NotLossless | BadPersisted int

datatype inbox_note =
    Inserted user_message
  | Discarded user_message
  | Claimed user_message int

record inbox_owner =
  io_session :: session
  io_inbox :: inbox
  io_notes :: "inbox_note list"

section \<open>Splices\<close>

definition resolve_start :: "js_number \<Rightarrow> nat \<Rightarrow> nat" where
  "resolve_start start len = (case start of
       JsNaN \<Rightarrow> 0 | JsPosInf \<Rightarrow> len | JsNegInf \<Rightarrow> 0
     | JsNum r \<Rightarrow> (let off = trunc_rat r in
          if off < 0 then nat (max (int len + off) 0) else nat (min off (int len))))"

text \<open>
  A negative start above -1 truncates to negative zero, which is no lossless JSON: the append throws
  before anything else of it. The literal -0 is not a number of \<open>js_number\<close>.
\<close>

definition negative_zero :: "js_number \<Rightarrow> bool" where
  "negative_zero start \<longleftrightarrow> (case start of JsNum r \<Rightarrow> - 1 < r \<and> r < 0 | _ \<Rightarrow> False)"

definition resolve_count :: "js_number \<Rightarrow> nat \<Rightarrow> nat" where
  "resolve_count cnt room = (case cnt of
       JsNaN \<Rightarrow> 0 | JsPosInf \<Rightarrow> room | JsNegInf \<Rightarrow> 0
     | JsNum r \<Rightarrow> nat (min (max (trunc_rat r) 0) (int room)))"

fun duplicate_id :: "string list \<Rightarrow> user_message list \<Rightarrow> string option" where
  "duplicate_id ids [] = None"
| "duplicate_id ids (m # ms) = (if um_id m \<in> set ids then Some (um_id m) else duplicate_id (um_id m # ids) ms)"

definition removed_count :: "inbox_splice \<Rightarrow> int" where
  "removed_count sp = (case is_removed sp of Some n \<Rightarrow> n | None \<Rightarrow> 0)"

definition inbox_validate :: "inbox \<Rightarrow> inbox_splice \<Rightarrow> (inbox_error, unit) result" where
  "inbox_validate ib sp =
     (let list = inbox_list ib (is_target sp); cnt = removed_count sp in
      if \<not> safe_int (is_start sp) \<or> is_start sp < 0 \<or> int (length list) < is_start sp
         \<or> \<not> safe_int cnt \<or> cnt < 0 \<or> int (length list) < is_start sp + cnt
      then Inl InvalidSplice
      else let candidate = splice (nat (is_start sp)) (nat cnt) (is_inserted sp) list
           in case duplicate_id [] (case is_target sp of
                 NextTurn \<Rightarrow> candidate @ ib_step ib | NextStep \<Rightarrow> ib_turn ib @ candidate) of
                Some i \<Rightarrow> Inl (AlreadyPending i)
              | None \<Rightarrow> Inr ())"

text \<open>\<open>inbox.splice(start, count, ...inserted)\<close> on one list, with the removed messages.\<close>

definition splice_inbox :: "inbox \<Rightarrow> inbox_splice \<Rightarrow> user_message list \<times> inbox" where
  "splice_inbox ib sp =
     (let list = inbox_list ib (is_target sp); s = nat (is_start sp); n = nat (removed_count sp) in
      (take n (drop s list), set_inbox_list (is_target sp) (splice s n (is_inserted sp) list) ib))"

definition inbox_apply :: "inbox \<Rightarrow> inbox_splice \<Rightarrow> (inbox_error, user_message list \<times> inbox) result" where
  "inbox_apply ib sp = rbind (inbox_validate ib sp) (\<lambda>_. Inr (splice_inbox ib sp))"

section \<open>Replay\<close>

definition inbox_step :: "inbox \<Rightarrow> session_event \<Rightarrow> (inbox_error, inbox) result" where
  "inbox_step ib e = (case ev_data e of
       InboxSpliced sp \<Rightarrow> (case inbox_apply ib sp of
           Inl _ \<Rightarrow> Inl (BadPersisted (ev_seq e)) | Inr (_, ib') \<Rightarrow> Inr ib')
     | _ \<Rightarrow> Inr ib)"

definition seed_length :: "session \<Rightarrow> nat" where
  "seed_length s = (case sh_seed_length (se_header s) of Some n \<Rightarrow> nat n | None \<Rightarrow> 0)"

definition new_inbox :: "session \<Rightarrow> (inbox_error, inbox_owner) result" where
  "new_inbox s = rbind (replay inbox_step empty_inbox (drop (seed_length s) (se_log s)))
     (\<lambda>ib. Inr \<lparr>io_session = s, io_inbox = ib, io_notes = []\<rparr>)"

section \<open>Mutations\<close>

definition inbox_mutate ::
    "inbox_target \<Rightarrow> js_number \<Rightarrow> js_number \<Rightarrow> user_message list \<Rightarrow> bool \<Rightarrow> int \<Rightarrow> attachment \<Rightarrow>
     inbox_owner \<Rightarrow> (inbox_error, user_message list) result \<times> inbox_owner" where
  "inbox_mutate target start deleteCount ins discardRemoved time at' ow =
     (let list = inbox_list (io_inbox ow) target;
          actualStart = resolve_start start (length list);
          actualCount = resolve_count deleteCount (length list - actualStart)
      in if actualCount = 0 \<and> ins = [] then (Inr [], ow)
         else
           let sp = \<lparr>is_target = target, is_start = int actualStart,
                     is_removed = (if actualCount = 0 then None else Some (int actualCount)),
                     is_inserted = ins, is_canceled = (discardRemoved \<and> 0 < actualCount)\<rparr>
           in case inbox_validate (io_inbox ow) sp of
                Inl x \<Rightarrow> (Inl x, ow)
              | Inr _ \<Rightarrow>
                  if negative_zero start then (Inl NotLossless, ow)
                  else (case append_event (io_session ow) time (InboxSpliced sp) no_intent at' of
                     (Inl x, ses) \<Rightarrow> (Inl (InboxAppend x), ow\<lparr>io_session := ses\<rparr>)
                   | (Inr e, ses) \<Rightarrow>
                       (let removed = take actualCount (drop actualStart list) in
                        (Inr removed, ow\<lparr>io_session := ses,
                           io_inbox := set_inbox_list target (splice actualStart actualCount ins list) (io_inbox ow),
                           io_notes := io_notes ow @ (if discardRemoved then map Discarded removed else [])
                              @ map Inserted ins\<rparr>))))"

text \<open>The public \<open>splice\<close>, and what is built on it; \<open>length\<close> as a number of the caller.\<close>

definition js_len :: "'a list \<Rightarrow> js_number" where
  "js_len xs = JsNum (of_nat (length xs))"

definition inbox_splice_op :: "inbox_target \<Rightarrow> js_number \<Rightarrow> js_number \<Rightarrow> user_message list \<Rightarrow> int \<Rightarrow> attachment \<Rightarrow>
     inbox_owner \<Rightarrow> (inbox_error, user_message list) result \<times> inbox_owner" where
  "inbox_splice_op target start cnt ins time at' ow = inbox_mutate target start cnt ins True time at' ow"

definition inbox_append :: "inbox_target \<Rightarrow> user_message \<Rightarrow> int \<Rightarrow> attachment \<Rightarrow> inbox_owner \<Rightarrow>
     (inbox_error, user_message list) result \<times> inbox_owner" where
  "inbox_append target m time at' ow =
     inbox_splice_op target (js_len (inbox_list (io_inbox ow) target)) (JsNum 0) [m] time at' ow"

definition inbox_prepend :: "inbox_target \<Rightarrow> user_message \<Rightarrow> int \<Rightarrow> attachment \<Rightarrow> inbox_owner \<Rightarrow>
     (inbox_error, user_message list) result \<times> inbox_owner" where
  "inbox_prepend target m time at' ow = inbox_splice_op target (JsNum 0) (JsNum 0) [m] time at' ow"

fun find_id :: "string \<Rightarrow> user_message list \<Rightarrow> nat option" where
  "find_id i [] = None"
| "find_id i (m # ms) = (if um_id m = i then Some 0 else map_option Suc (find_id i ms))"

definition locate :: "inbox \<Rightarrow> string \<Rightarrow> (inbox_target \<times> nat) option" where
  "locate ib i = (case find_id i (ib_turn ib) of
       Some k \<Rightarrow> Some (NextTurn, k)
     | None \<Rightarrow> (case find_id i (ib_step ib) of Some k \<Rightarrow> Some (NextStep, k) | None \<Rightarrow> None))"

definition inbox_replace :: "string \<Rightarrow> user_message \<Rightarrow> int \<Rightarrow> attachment \<Rightarrow> inbox_owner \<Rightarrow>
     (inbox_error, bool) result \<times> inbox_owner" where
  "inbox_replace i m time at' ow = (case locate (io_inbox ow) i of
       None \<Rightarrow> (Inr False, ow)
     | Some (target, k) \<Rightarrow> (case inbox_splice_op target (JsNum (of_nat k)) (JsNum 1) [m] time at' ow of
           (Inl x, o2) \<Rightarrow> (Inl x, o2) | (Inr _, o2) \<Rightarrow> (Inr True, o2)))"

definition inbox_remove :: "string \<Rightarrow> int \<Rightarrow> attachment \<Rightarrow> inbox_owner \<Rightarrow>
     (inbox_error, bool) result \<times> inbox_owner" where
  "inbox_remove i time at' ow = (case locate (io_inbox ow) i of
       None \<Rightarrow> (Inr False, ow)
     | Some (target, k) \<Rightarrow> (case inbox_splice_op target (JsNum (of_nat k)) (JsNum 1) [] time at' ow of
           (Inl x, o2) \<Rightarrow> (Inl x, o2) | (Inr _, o2) \<Rightarrow> (Inr True, o2)))"

text \<open>
  Clearing and claiming make two splices: each has its own clock reading and attachment.
\<close>

type_synonym moment = "int \<times> attachment"

definition inbox_clear :: "moment \<Rightarrow> moment \<Rightarrow> inbox_owner \<Rightarrow> (inbox_error, unit) result \<times> inbox_owner" where
  "inbox_clear t1 t2 ow =
     (case inbox_splice_op NextStep (JsNum 0) (js_len (ib_step (io_inbox ow))) [] (fst t1) (snd t1) ow of
        (Inl x, o2) \<Rightarrow> (Inl x, o2)
      | (Inr _, o2) \<Rightarrow>
          (case inbox_splice_op NextTurn (JsNum 0) (js_len (ib_turn (io_inbox o2))) [] (fst t2) (snd t2) o2 of
             (Inl x, o3) \<Rightarrow> (Inl x, o3) | (Inr _, o3) \<Rightarrow> (Inr (), o3)))"

definition inbox_claim :: "inbox_target \<Rightarrow> int \<Rightarrow> moment \<Rightarrow> moment \<Rightarrow> inbox_owner \<Rightarrow>
     (inbox_error, user_message list) result \<times> inbox_owner" where
  "inbox_claim target turn t1 t2 ow =
     (case inbox_mutate NextStep (JsNum 0) (js_len (ib_step (io_inbox ow))) [] False (fst t1) (snd t1) ow of
        (Inl x, o2) \<Rightarrow> (Inl x, o2)
      | (Inr steps, o2) \<Rightarrow>
          (case (if target = NextTurn then inbox_mutate NextTurn (JsNum 0) (JsNum 1) [] False (fst t2) (snd t2) o2
                 else (Inr [], o2)) of
             (Inl x, o3) \<Rightarrow> (Inl x, o3)
           | (Inr turns, o3) \<Rightarrow>
               (Inr (steps @ turns),
                o3\<lparr>io_notes := io_notes o3 @ map (\<lambda>m. Claimed m turn) (steps @ turns)\<rparr>)))"

definition has_pending :: "inbox \<Rightarrow> bool" where
  "has_pending ib \<longleftrightarrow> 0 < length (ib_turn ib) \<or> 0 < length (ib_step ib)"

section \<open>Requests\<close>

text \<open>
  What the owner of a session may do between two looks at the inbox: an inbox operation, or
  the append of an event of another kind. The verdict of each call is kept apart from its
  value.
\<close>

datatype inbox_request =
    DoSplice inbox_target js_number js_number "user_message list"
  | DoAppend inbox_target user_message
  | DoPrepend inbox_target user_message
  | DoReplace string user_message
  | DoRemove string
  | DoClear
  | DoClaim inbox_target int
  | DoOther event_data surface_intent

fun verdict :: "('e, 'a) result \<times> 's \<Rightarrow> 'e option \<times> 's" where
  "verdict (Inl x, s) = (Some x, s)"
| "verdict (Inr a, s) = (None, s)"

fun inbox_do :: "inbox_request \<Rightarrow> moment \<Rightarrow> moment \<Rightarrow> inbox_owner \<Rightarrow> inbox_error option \<times> inbox_owner" where
  "inbox_do (DoSplice target start cnt ins) t u ow = verdict (inbox_splice_op target start cnt ins (fst t) (snd t) ow)"
| "inbox_do (DoAppend target m) t u ow = verdict (inbox_append target m (fst t) (snd t) ow)"
| "inbox_do (DoPrepend target m) t u ow = verdict (inbox_prepend target m (fst t) (snd t) ow)"
| "inbox_do (DoReplace i m) t u ow = verdict (inbox_replace i m (fst t) (snd t) ow)"
| "inbox_do (DoRemove i) t u ow = verdict (inbox_remove i (fst t) (snd t) ow)"
| "inbox_do DoClear t u ow = verdict (inbox_clear t u ow)"
| "inbox_do (DoClaim target turn) t u ow = verdict (inbox_claim target turn t u ow)"
| "inbox_do (DoOther d intent) t u ow =
     (if event_type_of d = ''agent/inbox/spliced'' then (None, ow)
      else case append_event (io_session ow) (fst t) d intent (snd t) of
             (Inl x, ses) \<Rightarrow> (Some (InboxAppend x), ow\<lparr>io_session := ses\<rparr>)
           | (Inr _, ses) \<Rightarrow> (None, ow\<lparr>io_session := ses\<rparr>))"

fun inbox_run :: "(inbox_request \<times> moment \<times> moment) list \<Rightarrow> inbox_owner \<Rightarrow> inbox_owner" where
  "inbox_run [] ow = ow"
| "inbox_run ((q, t, u) # qs) ow = inbox_run qs (snd (inbox_do q t u ow))"


section \<open>Splices in range\<close>

lemma resolve_start_le: "resolve_start start n \<le> n"
  by (auto simp: resolve_start_def Let_def split: js_number.split)

lemma resolve_count_le: "resolve_count cnt n \<le> n"
  by (auto simp: resolve_count_def split: js_number.split)

lemma resolve_nat [simp]:
  "resolve_start (JsNum (of_nat k)) n = min k n" "resolve_count (JsNum (of_nat k)) n = min k n"
  "resolve_start (JsNum 0) n = 0" "resolve_count (JsNum 0) n = 0" "resolve_count (JsNum 1) n = min 1 n"
  by (auto simp: resolve_start_def resolve_count_def trunc_rat_def Let_def)

lemma resolve_len [simp]:
  "resolve_start (js_len xs) (length xs) = length xs" "resolve_count (js_len xs) (length xs) = length xs"
  by (simp_all add: js_len_def)

lemma duplicate_id_None: "duplicate_id ids ms = None \<longleftrightarrow> distinct (map um_id ms) \<and> set (map um_id ms) \<inter> set ids = {}"
  by (induction ms arbitrary: ids) auto

lemma inbox_list_set [simp]:
  "inbox_list (set_inbox_list t ms ib) t = ms"
  "t \<noteq> u \<Longrightarrow> inbox_list (set_inbox_list t ms ib) u = inbox_list ib u"
  by (cases t; cases u; simp)+

definition pending :: "inbox \<Rightarrow> user_message list" where
  "pending ib = ib_turn ib @ ib_step ib"

definition inbox_distinct :: "inbox \<Rightarrow> bool" where
  "inbox_distinct ib \<longleftrightarrow> distinct (map um_id (pending ib))"

lemma validate_distinct:
  assumes "inbox_validate ib sp = Inr u"
  shows "inbox_distinct (snd (splice_inbox ib sp))"
  using assms
  by (cases "is_target sp")
    (auto simp: inbox_validate_def splice_inbox_def Let_def inbox_distinct_def pending_def duplicate_id_None
      split: if_splits option.splits)

lemma inbox_step_distinct: "inbox_distinct ib \<Longrightarrow> inbox_step ib e = Inr ib' \<Longrightarrow> inbox_distinct ib'"
  by (cases "ev_data e")
    (auto simp: inbox_step_def inbox_apply_def rbind_Inr_iff dest!: validate_distinct split: sum.splits prod.splits)

interpretation inbox: projection inbox_step empty_inbox inbox_distinct
  by unfold_locales (simp add: inbox_distinct_def pending_def empty_inbox_def, rule inbox_step_distinct)

section \<open>The owner's invariant\<close>

definition inbox_ok :: "inbox_owner \<Rightarrow> bool" where
  "inbox_ok ow \<longleftrightarrow> session_ok (io_session ow) \<and> seed_length (io_session ow) \<le> length (se_log (io_session ow))
     \<and> replay inbox_step empty_inbox (drop (seed_length (io_session ow)) (se_log (io_session ow))) = Inr (io_inbox ow)"

lemma inbox_ok_distinct: "inbox_ok ow \<Longrightarrow> inbox_distinct (io_inbox ow)"
  using inbox.inv_replay by (auto simp: inbox_ok_def)

lemma append_event_header: "append_event s time d intent at' = (r, s') \<Longrightarrow> se_header s' = se_header s"
  by (auto simp: append_event_def Let_def split: if_splits prod.splits option.splits)

text \<open>A session call that leaves the log, or adds an event the inbox accepts.\<close>

lemma inbox_ok_same:
  assumes "inbox_ok ow" "session_ok ses" "se_log ses = se_log (io_session ow)" "se_header ses = se_header (io_session ow)"
  shows "inbox_ok (ow\<lparr>io_session := ses\<rparr>)"
  using assms by (simp add: inbox_ok_def seed_length_def)

lemma inbox_ok_grow:
  assumes "inbox_ok ow" "session_ok ses" "se_log ses = se_log (io_session ow) @ [e]" "se_header ses = se_header (io_session ow)"
    and "inbox_step (io_inbox ow) e = Inr ib"
  shows "inbox_ok (ow\<lparr>io_session := ses, io_inbox := ib, io_notes := ns\<rparr>)"
  using assms by (simp add: inbox_ok_def seed_length_def replay_snoc)

text \<open>What one mutation does, on every branch.\<close>

definition mutation :: "inbox_target \<Rightarrow> nat \<Rightarrow> nat \<Rightarrow> user_message list \<Rightarrow> bool \<Rightarrow> inbox_owner \<Rightarrow> inbox_owner \<Rightarrow> bool" where
  "mutation target s n ins discard ow ow' \<longleftrightarrow>
     (let removed = take n (drop s (inbox_list (io_inbox ow) target)) in
      io_inbox ow' = set_inbox_list target (splice s n ins (inbox_list (io_inbox ow) target)) (io_inbox ow)
    \<and> io_notes ow' = io_notes ow @ (if discard then map Discarded removed else []) @ map Inserted ins)"

lemma splice_nothing: "splice s 0 [] xs = xs"
  by (simp add: splice_def)

lemma set_inbox_list_same: "set_inbox_list t (inbox_list ib t) ib = ib"
  by (cases t) simp_all

lemma inbox_mutate_ok:
  assumes ok: "inbox_ok ow" and run: "inbox_mutate target start cnt ins discard time at' ow = (r, ow')"
    and s: "s = resolve_start start (length (inbox_list (io_inbox ow) target))"
    and n: "n = resolve_count cnt (length (inbox_list (io_inbox ow) target) - s)"
  shows "inbox_ok ow' \<and> (case r of
       Inl _ \<Rightarrow> io_inbox ow' = io_inbox ow \<and> io_notes ow' = io_notes ow
     | Inr removed \<Rightarrow> removed = take n (drop s (inbox_list (io_inbox ow) target)) \<and> mutation target s n ins discard ow ow')"
proof (cases "n = 0 \<and> ins = []")
  case True
  with run ok s n show ?thesis
    by (auto simp: inbox_mutate_def Let_def mutation_def splice_nothing set_inbox_list_same)
next
  case False
  let ?list = "inbox_list (io_inbox ow) target"
  define sp where "sp = \<lparr>is_target = target, is_start = int s,
     is_removed = (if n = 0 then None else Some (int n)), is_inserted = ins, is_canceled = (discard \<and> 0 < n)\<rparr>"
  have cnt: "removed_count sp = int n" by (simp add: removed_count_def sp_def)
  let ?rest = "case inbox_validate (io_inbox ow) sp of
       Inl x \<Rightarrow> (Inl x, ow)
     | Inr _ \<Rightarrow> if negative_zero start then (Inl NotLossless, ow)
         else (case append_event (io_session ow) time (InboxSpliced sp) no_intent at' of
          (Inl x, ses) \<Rightarrow> (Inl (InboxAppend x), ow\<lparr>io_session := ses\<rparr>)
        | (Inr e, ses) \<Rightarrow> (Inr (take n (drop s ?list)), ow\<lparr>io_session := ses,
             io_inbox := set_inbox_list target (splice s n ins ?list) (io_inbox ow),
             io_notes := io_notes ow @ (if discard then map Discarded (take n (drop s ?list)) else []) @ map Inserted ins\<rparr>))"
  have "inbox_mutate target start cnt ins discard time at' ow = (if n = 0 \<and> ins = [] then (Inr [], ow) else ?rest)"
    unfolding sp_def n s inbox_mutate_def Let_def by (rule refl)
  then have run2: "?rest = (r, ow')"
    unfolding if_not_P [OF False] run by (rule sym)
  show ?thesis
  proof (cases "inbox_validate (io_inbox ow) sp")
    case (Inl x)
    with run2 ok show ?thesis by auto
  next
    case (Inr u)
    obtain q ses where ap: "append_event (io_session ow) time (InboxSpliced sp) no_intent at' = (q, ses)" by fastforce
    have sok: "session_ok (io_session ow)" using ok by (simp add: inbox_ok_def)
    note apk = append_event_ok [OF sok ap] and hd = append_event_header [OF ap]
    have step: "ev_data e = InboxSpliced sp \<Longrightarrow> inbox_step (io_inbox ow) e =
        Inr (set_inbox_list target (splice s n ins ?list) (io_inbox ow))" for e
      using Inr cnt by (simp add: inbox_step_def inbox_apply_def splice_inbox_def Let_def sp_def)
    show ?thesis
    proof (cases q)
      case (Inl y)
      with run2 Inr ap apk hd ok inbox_ok_same [OF ok, of ses] show ?thesis by (auto split: if_splits)
    next
      case (Inr e)
      with run2 \<open>inbox_validate (io_inbox ow) sp = Inr u\<close> ap apk hd step [of e]
      show ?thesis
        using ok by (auto simp: mutation_def Let_def intro!: inbox_ok_grow [OF ok, of ses e] split: if_splits)
    qed
  qed
qed


lemma mset_chain:
  fixes a b c d e f :: "'a multiset"
  assumes "b + d = a + e" "c + e = b + f"
  shows "c + d = a + f"
proof (rule multiset_eqI)
  fix x
  from assms have "count (b + d) x = count (a + e) x" "count (c + e) x = count (b + f) x" by simp_all
  then show "count (c + d) x = count (a + f) x" by simp
qed

text \<open>Removing from both lists what a splice removed loses nothing.\<close>

lemma mset_splice: "mset (splice s n ins xs) + mset (take n (drop s xs)) = mset xs + mset ins"
proof -
  have "xs = take s xs @ take n (drop s xs) @ drop (s + n) xs"
    by (metis append_take_drop_id add.commute drop_drop)
  then have "mset xs = mset (take s xs) + mset (take n (drop s xs)) + mset (drop (s + n) xs)"
    by (metis mset_append union_assoc)
  then show ?thesis by (simp add: splice_def)
qed

fun entered :: "inbox_note list \<Rightarrow> user_message multiset" where
  "entered [] = {#}"
| "entered (Inserted m # ns) = add_mset m (entered ns)"
| "entered (_ # ns) = entered ns"

fun settled :: "inbox_note list \<Rightarrow> user_message multiset" where
  "settled [] = {#}"
| "settled (Inserted m # ns) = settled ns"
| "settled (Discarded m # ns) = add_mset m (settled ns)"
| "settled (Claimed m t # ns) = add_mset m (settled ns)"

lemma notes_append [simp]:
  "entered (ns @ ms) = entered ns + entered ms" "settled (ns @ ms) = settled ns + settled ms"
  by (induction ns rule: entered.induct) auto

lemma notes_map [simp]:
  "entered (map Inserted ms) = mset ms" "settled (map Inserted ms) = {#}"
  "entered (map Discarded ms) = {#}" "settled (map Discarded ms) = mset ms"
  "entered (map (\<lambda>m. Claimed m t) ms) = {#}" "settled (map (\<lambda>m. Claimed m t) ms) = mset ms"
  by (induction ms) auto

lemma pending_set: "mset (pending (set_inbox_list t ms ib)) + mset (inbox_list ib t) = mset (pending ib) + mset ms"
  by (cases t) (simp_all add: pending_def)

text \<open>The messages that are pending, were discarded or were claimed, against those that came in.\<close>

definition balanced :: "inbox_owner \<Rightarrow> inbox_owner \<Rightarrow> bool" where
  "balanced ow ow' \<longleftrightarrow>
     mset (pending (io_inbox ow')) + settled (io_notes ow') + entered (io_notes ow)
   = mset (pending (io_inbox ow)) + settled (io_notes ow) + entered (io_notes ow')"

lemma balanced_refl [intro]:
  "io_inbox ow' = io_inbox ow \<Longrightarrow> io_notes ow' = io_notes ow \<Longrightarrow> balanced ow ow'"
  by (simp add: balanced_def)

lemma balanced_trans: "balanced a b \<Longrightarrow> balanced b c \<Longrightarrow> balanced a c"
  unfolding balanced_def by (rule mset_chain)

lemma mutation_conserves:
  assumes "mutation target s n ins discard ow ow'"
  shows "mset (pending (io_inbox ow')) + mset (take n (drop s (inbox_list (io_inbox ow) target)))
    = mset (pending (io_inbox ow)) + mset ins"
proof -
  let ?l = "inbox_list (io_inbox ow) target"
  have "mset (pending (io_inbox ow')) + mset ?l = mset (pending (io_inbox ow)) + mset (splice s n ins ?l)"
    using assms pending_set by (simp add: mutation_def Let_def)
  moreover have "mset (splice s n ins ?l) + mset (take n (drop s ?l)) = mset ins + mset ?l"
    using mset_splice [of s n ins ?l] by (simp add: add.commute)
  ultimately show ?thesis
    using mset_chain [of "mset (splice s n ins ?l)" "mset (take n (drop s ?l))" "mset ins" "mset ?l"
        "mset (pending (io_inbox ow'))" "mset (pending (io_inbox ow))"]
    by (simp add: multiset_eq_iff)
qed

lemma mutation_balanced: "mutation target s n ins True ow ow' \<Longrightarrow> balanced ow ow'"
  using mutation_conserves [of target s n ins True ow ow']
  by (simp add: mutation_def Let_def balanced_def algebra_simps)


section \<open>What the operations keep\<close>

text \<open>Every public splice, whatever numbers the caller passes.\<close>

lemma inbox_splice_op_ok:
  assumes "inbox_ok ow" "inbox_splice_op target start cnt ins time at' ow = (r, ow')"
  shows "inbox_ok ow' \<and> balanced ow ow'"
  using inbox_mutate_ok [OF assms(1) assms(2) [unfolded inbox_splice_op_def] refl refl] mutation_balanced
  by (auto split: sum.splits)

lemma inbox_clear_ok:
  assumes ok: "inbox_ok ow" and run: "inbox_clear t u ow = (r, ow')"
  shows "inbox_ok ow' \<and> balanced ow ow'"
proof -
  obtain r1 o1 where a: "inbox_splice_op NextStep (JsNum 0) (js_len (ib_step (io_inbox ow))) [] (fst t) (snd t) ow = (r1, o1)"
    by fastforce
  obtain r2 o2 where b: "inbox_splice_op NextTurn (JsNum 0) (js_len (ib_turn (io_inbox o1))) [] (fst u) (snd u) o1 = (r2, o2)"
    by fastforce
  have 1: "inbox_ok o1 \<and> balanced ow o1" by (rule inbox_splice_op_ok [OF ok a])
  with inbox_splice_op_ok [OF _ b] have 2: "inbox_ok o2 \<and> balanced o1 o2" by blast
  have "ow' = o1 \<or> ow' = o2"
    using run a b by (auto simp: inbox_clear_def split: sum.splits)
  with 1 2 balanced_trans show ?thesis by blast
qed

lemma inbox_claim_cases:
  assumes ok: "inbox_ok ow" and run: "inbox_claim target turn t u ow = (r, ow')"
  shows "inbox_ok ow' \<and> (case r of Inl _ \<Rightarrow> True | Inr ms \<Rightarrow>
       ms = ib_step (io_inbox ow) @ (if target = NextTurn then take 1 (ib_turn (io_inbox ow)) else [])
     \<and> io_inbox ow' = \<lparr>ib_turn = (if target = NextTurn then drop 1 (ib_turn (io_inbox ow)) else ib_turn (io_inbox ow)), ib_step = []\<rparr>
     \<and> io_notes ow' = io_notes ow @ map (\<lambda>m. Claimed m turn) ms)"
proof -
  obtain r1 o1 where a: "inbox_mutate NextStep (JsNum 0) (js_len (ib_step (io_inbox ow))) [] False (fst t) (snd t) ow = (r1, o1)"
    by fastforce
  obtain r2 o2 where b: "inbox_mutate NextTurn (JsNum 0) (JsNum 1) [] False (fst u) (snd u) o1 = (r2, o2)"
    by fastforce
  note 1 = inbox_mutate_ok [OF ok a refl refl]
  from 1 have o1: "inbox_ok o1" by blast
  note 2 = inbox_mutate_ok [OF o1 b refl refl]
  have nts: "inbox_ok o3 \<Longrightarrow> inbox_ok (o3\<lparr>io_notes := ns\<rparr>)" for o3 ns by (simp add: inbox_ok_def)
  show ?thesis
  proof (cases r1)
    case (Inl x)
    with run a 1 show ?thesis by (auto simp: inbox_claim_def)
  next
    case (Inr steps)
    have len: "min (Suc 0) (length xs) = n \<Longrightarrow> take n xs = take 1 xs \<and> drop n xs = drop 1 xs" for xs :: "user_message list" and n
      by (cases xs) auto
    from Inr 1 have s: "steps = ib_step (io_inbox ow)" "io_inbox o1 = (io_inbox ow)\<lparr>ib_step := []\<rparr>" "io_notes o1 = io_notes ow"
      by (auto simp: mutation_def splice_def js_len_def)
    show ?thesis
      using run a b Inr s o1 2 nts
      by (cases r2) (auto simp: inbox_claim_def mutation_def Let_def splice_def len split: if_splits)
  qed
qed


lemma find_id_None: "find_id i ms = None \<longleftrightarrow> i \<notin> set (map um_id ms)"
  by (induction ms) auto

lemma find_id_Some: "find_id i ms = Some k \<Longrightarrow> k < length ms \<and> um_id (ms ! k) = i"
  by (induction ms arbitrary: k) (auto split: if_splits)

lemma filter_absent: "i \<notin> um_id ` set ms \<Longrightarrow> filter (\<lambda>m. um_id m \<noteq> i) ms = ms"
  by (induction ms) auto

lemma splice_find_id:
  "distinct (map um_id ms) \<Longrightarrow> find_id i ms = Some k \<Longrightarrow> splice k (Suc 0) [] ms = filter (\<lambda>m. um_id m \<noteq> i) ms"
proof (induction ms arbitrary: k)
  case Nil
  then show ?case by simp
next
  case (Cons m ms)
  show ?case
  proof (cases "um_id m = i")
    case True
    with Cons.prems have "filter (\<lambda>m. um_id m \<noteq> i) ms = ms" by (auto intro!: filter_absent)
    with True Cons.prems show ?thesis by (simp add: splice_def)
  next
    case False
    with Cons.prems obtain j where "find_id i ms = Some j" "k = Suc j" by auto
    with False Cons show ?thesis by (simp add: splice_def)
  qed
qed

lemma verdict_snd: "verdict (r, s) = (v, s') \<longleftrightarrow> s' = s \<and> v = (case r of Inl x \<Rightarrow> Some x | Inr _ \<Rightarrow> None)"
  by (cases r) auto

lemma other_not_spliced:
  "event_type_of d \<noteq> ''agent/inbox/spliced'' \<Longrightarrow> ev_data e = d \<Longrightarrow> inbox_step ib e = Inr ib"
  by (cases d) (simp_all add: inbox_step_def event_type_of_def)

lemma inbox_do_ok:
  assumes ok: "inbox_ok ow" and run: "inbox_do q t u ow = (v, ow')"
  shows "inbox_ok ow' \<and> ((\<forall>target turn. q \<noteq> DoClaim target turn) \<or> v = None \<longrightarrow> balanced ow ow')"
proof (cases q)
  case (DoSplice target start cnt ins)
  with inbox_splice_op_ok [OF ok] run show ?thesis
    by (cases "inbox_splice_op target start cnt ins (fst t) (snd t) ow") (auto simp: verdict_snd)
next
  case (DoAppend target m)
  with inbox_splice_op_ok [OF ok] run show ?thesis
    by (cases "inbox_append target m (fst t) (snd t) ow") (auto simp: verdict_snd inbox_append_def)
next
  case (DoPrepend target m)
  with inbox_splice_op_ok [OF ok] run show ?thesis
    by (cases "inbox_prepend target m (fst t) (snd t) ow") (auto simp: verdict_snd inbox_prepend_def)
next
  case (DoReplace i m)
  with inbox_splice_op_ok [OF ok] run ok show ?thesis
    by (cases "inbox_replace i m (fst t) (snd t) ow")
      (auto simp: verdict_snd inbox_replace_def split: option.splits prod.splits sum.splits)
next
  case (DoRemove i)
  with inbox_splice_op_ok [OF ok] run ok show ?thesis
    by (cases "inbox_remove i (fst t) (snd t) ow")
      (auto simp: verdict_snd inbox_remove_def split: option.splits prod.splits sum.splits)
next
  case DoClear
  with inbox_clear_ok [OF ok] run show ?thesis
    by (cases "inbox_clear t u ow") (auto simp: verdict_snd)
next
  case (DoClaim target turn)
  obtain r o1 where c: "inbox_claim target turn t u ow = (r, o1)" by fastforce
  with DoClaim run have o1: "ow' = o1" "v = (case r of Inl x \<Rightarrow> Some x | Inr _ \<Rightarrow> None)"
    by (simp_all add: verdict_snd)
  have "mset (take 1 xs) + mset (drop 1 xs) = mset xs" for xs :: "user_message list"
    by (metis append_take_drop_id mset_append)
  with inbox_claim_cases [OF ok c] o1 DoClaim show ?thesis
    by (cases r) (auto simp: balanced_def pending_def ac_simps split: if_splits)
next
  case (DoOther d intent)
  show ?thesis
  proof (cases "event_type_of d = ''agent/inbox/spliced''")
    case True
    with DoOther run ok show ?thesis by auto
  next
    case False
    obtain r ses where ap: "append_event (io_session ow) (fst t) d intent (snd t) = (r, ses)" by fastforce
    have "session_ok (io_session ow)" using ok by (simp add: inbox_ok_def)
    note apk = append_event_ok [OF this ap] and hd = append_event_header [OF ap]
    have "inbox_ok (ow\<lparr>io_session := ses\<rparr>)"
    proof (cases r)
      case (Inl x)
      with apk hd show ?thesis by (auto intro: inbox_ok_same [OF ok])
    next
      case (Inr e)
      with apk hd other_not_spliced [OF False, of e] have "inbox_ok (ow\<lparr>io_session := ses, io_inbox := io_inbox ow, io_notes := io_notes ow\<rparr>)"
        by (intro inbox_ok_grow [OF ok]) auto
      then show ?thesis by simp
    qed
    with DoOther False run ap show ?thesis
      by (auto split: sum.splits)
  qed
qed

lemma inbox_run_ok: "inbox_ok ow \<Longrightarrow> inbox_ok (inbox_run qs ow)"
proof (induction qs ow rule: inbox_run.induct)
  case (2 q t u qs ow)
  then show ?case using inbox_do_ok [of ow q t u] by (cases "inbox_do q t u ow") simp
qed simp

lemma new_inbox_ok:
  assumes "session_ok s" "seed_length s \<le> length (se_log s)" "new_inbox s = Inr ow"
  shows "inbox_ok ow"
  using assms by (auto simp: inbox_ok_def new_inbox_def rbind_Inr_iff)


section \<open>Properties\<close>

definition sample_prompt :: "string \<Rightarrow> user_message" where
  "sample_prompt i = \<lparr>um_id = i, um_source = SrcUser, um_content = [TextBlock i]\<rparr>"

definition sample_moment :: moment where
  "sample_moment = (7, Attached False False)"

definition sample_owner :: inbox_owner where
  "sample_owner = inbox_run
     [(DoAppend NextTurn (sample_prompt ''a''), sample_moment, sample_moment),
      (DoPrepend NextTurn (sample_prompt ''b''), sample_moment, sample_moment),
      (DoAppend NextStep (sample_prompt ''c''), sample_moment, sample_moment)]
     \<lparr>io_session = empty_session sample_header, io_inbox = empty_inbox, io_notes = []\<rparr>"

lemma sample_owner_ok: "inbox_ok sample_owner"
  unfolding sample_owner_def
proof (rule inbox_run_ok)
  have "seed_length (empty_session sample_header) = 0" "se_log (empty_session sample_header) = []"
    by (simp_all add: seed_length_def empty_session_def sample_header_def)
  then show "inbox_ok \<lparr>io_session = empty_session sample_header, io_inbox = empty_inbox, io_notes = []\<rparr>"
    by (simp add: inbox_ok_def session_ok_empty)
qed

text \<open>C33.
  The live inbox of an agent is always what a restart would rebuild from the log: after any
  sequence of inbox operations and appends of other events, successful or not, replaying the
  log of the session gives the same two lists, and no pending identity occurs twice in them.
\<close>

theorem inbox_is_replay:
  assumes "session_ok s" and "seed_length s \<le> length (se_log s)" and "new_inbox s = Inr ow"
  shows "\<exists>ow2. new_inbox (io_session (inbox_run qs ow)) = Inr ow2 \<and> io_inbox ow2 = io_inbox (inbox_run qs ow)
     \<and> distinct (map um_id (ib_turn (io_inbox ow2) @ ib_step (io_inbox ow2)))"
proof -
  have ok: "inbox_ok (inbox_run qs ow)" by (rule inbox_run_ok [OF new_inbox_ok [OF assms]])
  with inbox_ok_distinct [OF ok] show ?thesis
    by (simp add: inbox_ok_def new_inbox_def inbox_distinct_def pending_def)
qed

lemma inbox_is_replay_witness:
  "\<exists>ow2. new_inbox (io_session (inbox_run [(DoAppend NextTurn (sample_prompt ''a''), sample_moment, sample_moment),
        (DoRemove ''a'', sample_moment, sample_moment)]
      \<lparr>io_session = empty_session sample_header, io_inbox = empty_inbox, io_notes = []\<rparr>)) = Inr ow2"
proof -
  have "new_inbox (empty_session sample_header)
    = Inr \<lparr>io_session = empty_session sample_header, io_inbox = empty_inbox, io_notes = []\<rparr>"
    by (simp add: new_inbox_def empty_session_def)
  moreover have "seed_length (empty_session sample_header) \<le> length (se_log (empty_session sample_header))"
    by (simp add: seed_length_def empty_session_def sample_header_def)
  ultimately show ?thesis
    using inbox_is_replay [OF session_ok_empty] by blast
qed

text \<open>No inbox operation loses or duplicates a message: what is pending after it, with what it
  published as discarded or claimed, is what was pending before with what it published as
  inserted. The one exception is a claim that throws, which may already have taken the
  next-step messages.
\<close>

theorem inbox_conserves:
  assumes "inbox_ok ow" and "inbox_do q t u ow = (v, ow')"
    and "v \<noteq> None \<longrightarrow> (\<forall>target turn. q \<noteq> DoClaim target turn)"
  shows "mset (pending (io_inbox ow')) + settled (io_notes ow') + entered (io_notes ow)
       = mset (pending (io_inbox ow)) + settled (io_notes ow) + entered (io_notes ow')"
  using inbox_do_ok [OF assms(1,2)] assms(3) unfolding balanced_def by blast

lemma inbox_conserves_witness:
  "\<exists>v ow'. inbox_do (DoReplace ''a'' (sample_prompt ''d'')) sample_moment sample_moment sample_owner = (v, ow')
     \<and> mset (pending (io_inbox ow')) + settled (io_notes ow') + entered (io_notes sample_owner)
       = mset (pending (io_inbox sample_owner)) + settled (io_notes sample_owner) + entered (io_notes ow')"
proof -
  obtain v ow' where r: "inbox_do (DoReplace ''a'' (sample_prompt ''d'')) sample_moment sample_moment sample_owner = (v, ow')"
    by fastforce
  from inbox_conserves [OF sample_owner_ok r] r show ?thesis by blast
qed

text \<open>A claim for a step takes all next-step input, oldest first, followed by the first queued
  turn when a turn boundary asks for one; exactly these messages leave the inbox and each is
  published as claimed by the turn, none as discarded.
\<close>

theorem claim_takes:
  assumes "inbox_ok ow" and "inbox_claim target turn t u ow = (Inr ms, ow')"
  shows "ms = ib_step (io_inbox ow) @ (if target = NextTurn then take 1 (ib_turn (io_inbox ow)) else [])
     \<and> ib_step (io_inbox ow') = []
     \<and> ib_turn (io_inbox ow') = (if target = NextTurn then drop 1 (ib_turn (io_inbox ow)) else ib_turn (io_inbox ow))
     \<and> io_notes ow' = io_notes ow @ map (\<lambda>m. Claimed m turn) ms"
  using inbox_claim_cases [OF assms] by simp

lemma claim_takes_witness:
  "\<exists>ms ow'. inbox_claim NextTurn 1 sample_moment sample_moment sample_owner = (Inr ms, ow')
     \<and> map um_id ms = [''c'', ''b''] \<and> ib_step (io_inbox ow') = []"
proof -
  have "is_ok (fst (inbox_claim NextTurn 1 sample_moment sample_moment sample_owner))"
    and "map um_id (ib_step (io_inbox sample_owner)) = [''c'']"
    and "map um_id (ib_turn (io_inbox sample_owner)) = [''b'', ''a'']"
    by code_simp+
  moreover from this obtain ms ow' where r: "inbox_claim NextTurn 1 sample_moment sample_moment sample_owner = (Inr ms, ow')"
    by (cases "inbox_claim NextTurn 1 sample_moment sample_moment sample_owner") (auto simp: is_ok_iff)
  ultimately show ?thesis
    using claim_takes [OF sample_owner_ok r] r by (auto simp: take_map [symmetric])
qed

text \<open>Removing by identity answers whether the message was pending and removes exactly it: both
  lists keep every other message in order.
\<close>

theorem remove_exact:
  assumes "inbox_ok ow" and "inbox_remove i time at' ow = (Inr b, ow')"
  shows "(b \<longleftrightarrow> i \<in> set (map um_id (ib_turn (io_inbox ow) @ ib_step (io_inbox ow))))
     \<and> ib_turn (io_inbox ow') = filter (\<lambda>m. um_id m \<noteq> i) (ib_turn (io_inbox ow))
     \<and> ib_step (io_inbox ow') = filter (\<lambda>m. um_id m \<noteq> i) (ib_step (io_inbox ow))"
proof -
  have dist: "distinct (map um_id (ib_turn (io_inbox ow) @ ib_step (io_inbox ow)))"
    using inbox_ok_distinct [OF assms(1)] by (simp add: inbox_distinct_def pending_def)
  show ?thesis
  proof (cases "locate (io_inbox ow) i")
    case None
    with assms(2) have "b = False" "ow' = ow" by (auto simp: inbox_remove_def)
    with None show ?thesis by (auto simp: locate_def find_id_None filter_absent split: option.splits)
  next
    case (Some tk)
    then obtain target k where tk: "locate (io_inbox ow) i = Some (target, k)" by fastforce
    then have f: "find_id i (inbox_list (io_inbox ow) target) = Some k"
      by (auto simp: locate_def split: option.splits)
    from assms(2) tk obtain rm where m: "b" and run: "inbox_mutate target (JsNum (of_nat k)) (JsNum 1) [] True time at' ow = (Inr rm, ow')"
      by (auto simp: inbox_remove_def inbox_splice_op_def split: prod.splits sum.splits)
    note kl = find_id_Some [OF f]
    have "mutation target k 1 [] True ow ow'"
      using inbox_mutate_ok [OF assms(1) run refl refl] kl by (simp add: min_absorb1 Suc_leI)
    moreover have "i \<in> um_id ` set (inbox_list (io_inbox ow) target)"
      using kl by force
    with dist have "u \<noteq> target \<Longrightarrow> i \<notin> um_id ` set (inbox_list (io_inbox ow) u)" for u
      by (cases target; cases u) auto
    from this [of NextTurn] this [of NextStep]
    have "target = NextStep \<Longrightarrow> i \<notin> um_id ` set (ib_turn (io_inbox ow))"
      "target = NextTurn \<Longrightarrow> i \<notin> um_id ` set (ib_step (io_inbox ow))" by simp_all
    moreover have "b \<longleftrightarrow> i \<in> set (map um_id (ib_turn (io_inbox ow) @ ib_step (io_inbox ow)))"
      using m kl by (cases target) force+
    ultimately show ?thesis
      using f dist by (cases target) (simp_all add: mutation_def Let_def splice_find_id filter_absent)
  qed
qed

lemma remove_exact_witness:
  "\<exists>ow'. inbox_remove ''b'' 9 Detached sample_owner = (Inr True, ow')
     \<and> ib_turn (io_inbox ow') = filter (\<lambda>m. um_id m \<noteq> ''b'') (ib_turn (io_inbox sample_owner))"
proof -
  have "is_ok (fst (inbox_remove ''b'' 9 Detached sample_owner))"
    and "''b'' \<in> set (map um_id (ib_turn (io_inbox sample_owner) @ ib_step (io_inbox sample_owner)))"
    by code_simp+
  moreover from this obtain b ow' where r: "inbox_remove ''b'' 9 Detached sample_owner = (Inr b, ow')"
    by (cases "inbox_remove ''b'' 9 Detached sample_owner") (auto simp: is_ok_iff)
  ultimately show ?thesis
    using remove_exact [OF sample_owner_ok r] by auto
qed

end
