(* ===== verification/Consumed_Work.thy ===== *)
theory Consumed_Work
  imports Session_Trace
begin

text \<open>
  How an agent's log accounts for the work it consumed,
  \<open>src/packages/core/agent/src/consumed-work.ts\<close>: one pass that remembers which turns
  entered a step and which claimed inbox input. The property says what the pass computes on
  an accepted log, without its two sets.
\<close>

section \<open>The fold\<close>

definition accountsForClaim :: "turn_end_reason \<Rightarrow> bool" where
  "accountsForClaim reason = (case reason of EndCompleted \<Rightarrow> False | _ \<Rightarrow> True)"

record consumed_state =
  cw_stepped :: "int set"
  cw_claimed :: "int set"
  cw_open :: "int option"
  cw_end :: "session_event option"
  cw_dropped :: bool

definition consumed_start :: consumed_state where
  "consumed_start = \<lparr>cw_stepped = {}, cw_claimed = {}, cw_open = None, cw_end = None, cw_dropped = False\<rparr>"

text \<open>
  \<open>stepped.delete(turn) || claimed.delete(turn) \<and> accountsForClaim(reason)\<close> deletes from
  \<open>claimed\<close> only when the turn had no step.
\<close>

definition consumed_step :: "consumed_state \<Rightarrow> session_event \<Rightarrow> consumed_state" where
  "consumed_step st e = (case ev_data e of
       TurnStart turn \<Rightarrow> st\<lparr>cw_open := Some turn\<rparr>
     | StepStart turn _ \<Rightarrow> st\<lparr>cw_stepped := insert turn (cw_stepped st)\<rparr>
     | InboxSpliced sp \<Rightarrow>
         (if is_removed sp = None then st
          else if is_canceled sp then st\<lparr>cw_dropped := cw_dropped st \<or> is_inserted sp = []\<rparr>
          else (case cw_open st of Some turn \<Rightarrow> st\<lparr>cw_claimed := insert turn (cw_claimed st)\<rparr> | None \<Rightarrow> st))
     | TurnEnd turn reason \<Rightarrow>
         (let stepped = turn \<in> cw_stepped st;
              claimed = (\<not> stepped \<and> turn \<in> cw_claimed st);
              st1 = st\<lparr>cw_open := None, cw_stepped := cw_stepped st - {turn},
                       cw_claimed := (if stepped then cw_claimed st else cw_claimed st - {turn})\<rparr>
          in if stepped \<or> claimed \<and> accountsForClaim reason
             then st1\<lparr>cw_end := Some e, cw_dropped := False\<rparr> else st1)
     | _ \<Rightarrow> st)"

record consumed_work =
  co_end :: "session_event option"
  co_dropped :: bool

definition foldConsumedWork :: "session_event list \<Rightarrow> consumed_work" where
  "foldConsumedWork es = (let st = foldl consumed_step consumed_start es in
     \<lparr>co_end = cw_end st, co_dropped = cw_dropped st\<rparr>)"

section \<open>What it means\<close>

text \<open>The turn open after a log, by the session trace.\<close>

definition open_after :: "session_event list \<Rightarrow> int option" where
  "open_after es = (case seedSession es of Inl _ \<Rightarrow> None | Inr tr \<Rightarrow> tr_openTurn tr)"

definition is_claim :: "session_event \<Rightarrow> bool" where
  "is_claim e = (case ev_data e of InboxSpliced sp \<Rightarrow> is_removed sp \<noteq> None \<and> \<not> is_canceled sp | _ \<Rightarrow> False)"

definition is_drop :: "session_event \<Rightarrow> bool" where
  "is_drop e = (case ev_data e of
     InboxSpliced sp \<Rightarrow> is_removed sp \<noteq> None \<and> is_canceled sp \<and> is_inserted sp = [] | _ \<Rightarrow> False)"

definition stepped_in :: "session_event list \<Rightarrow> int \<Rightarrow> bool" where
  "stepped_in es t \<longleftrightarrow> (\<exists>e \<in> set es. \<exists>s. ev_data e = StepStart t s)"

definition claimed_in :: "session_event list \<Rightarrow> int \<Rightarrow> bool" where
  "claimed_in es t \<longleftrightarrow> (\<exists>pre e post. es = pre @ e # post \<and> is_claim e \<and> open_after pre = Some t)"

definition accounts :: "session_event list \<Rightarrow> session_event \<Rightarrow> bool" where
  "accounts es e = (case ev_data e of
     TurnEnd t r \<Rightarrow> stepped_in es t \<or> claimed_in es t \<and> accountsForClaim r | _ \<Rightarrow> False)"

lemma stepped_in_simps:
  "\<not> stepped_in [] t"
  "stepped_in (es @ [e]) t \<longleftrightarrow> stepped_in es t \<or> (\<exists>s. ev_data e = StepStart t s)"
  by (auto simp: stepped_in_def)

lemma claimed_in_simps:
  "\<not> claimed_in [] t"
  "claimed_in (es @ [e]) t \<longleftrightarrow> claimed_in es t \<or> is_claim e \<and> open_after es = Some t"
proof -
  show "claimed_in (es @ [e]) t \<longleftrightarrow> claimed_in es t \<or> is_claim e \<and> open_after es = Some t"
  proof
    assume "claimed_in (es @ [e]) t"
    then obtain pre x post where x: "es @ [e] = pre @ x # post" "is_claim x" "open_after pre = Some t"
      by (auto simp: claimed_in_def)
    show "claimed_in es t \<or> is_claim e \<and> open_after es = Some t"
    proof (cases post rule: rev_cases)
      case Nil
      with x show ?thesis by simp
    next
      case (snoc ys y)
      with x(1) have "es = pre @ x # ys" by simp
      with x show ?thesis by (auto simp: claimed_in_def)
    qed
  next
    assume "claimed_in es t \<or> is_claim e \<and> open_after es = Some t"
    then show "claimed_in (es @ [e]) t"
      by (fastforce simp: claimed_in_def)
  qed
qed (simp add: claimed_in_def)

lemma find_last_cong: "(\<And>e. e \<in> set es \<Longrightarrow> p e = q e) \<Longrightarrow> find_last p es = find_last q es"
  unfolding find_last_def by (rule find_cong) auto

section \<open>The invariant of the pass\<close>

definition pass_inv :: "session_event list \<Rightarrow> session_trace \<Rightarrow> consumed_state \<Rightarrow> bool" where
  "pass_inv es tr st \<longleftrightarrow>
     (\<forall>e \<in> set es. \<forall>t r. ev_data e = TurnEnd t r \<longrightarrow> t < tr_nextTurn tr)
   \<and> cw_open st = tr_openTurn tr
   \<and> (\<forall>t \<ge> tr_nextTurn tr. (t \<in> cw_stepped st \<longleftrightarrow> stepped_in es t) \<and> (t \<in> cw_claimed st \<longleftrightarrow> claimed_in es t))
   \<and> cw_end st = find_last (accounts es) es
   \<and> (cw_dropped st \<longleftrightarrow> (\<exists>e \<in> set (takeWhile (\<lambda>e. \<not> accounts es e) (rev es)). is_drop e))"

text \<open>A new event does not change how an earlier turn accounts.\<close>

lemma accounts_stable:
  assumes "trace_step tr e = Inr tr'" "trace_inv tr" "open_after es = tr_openTurn tr"
    and "\<forall>e \<in> set es. \<forall>t r. ev_data e = TurnEnd t r \<longrightarrow> t < tr_nextTurn tr" and "x \<in> set es"
  shows "accounts (es @ [e]) x = accounts es x"
proof (cases "\<exists>t r. ev_data x = TurnEnd t r")
  case True
  then obtain t r where x: "ev_data x = TurnEnd t r" by blast
  with assms(4,5) have lt: "t < tr_nextTurn tr" by blast
  have "ev_data e \<noteq> StepStart t s" for s
    using assms(1,2) lt by (auto simp: trace_step_def validateEvent_def Let_def trace_inv_def rbind_Inr_iff split: if_splits)
  moreover have "open_after es \<noteq> Some t"
    using assms(2,3) lt by (auto simp: trace_inv_def)
  ultimately show ?thesis
    using x by (simp add: accounts_def stepped_in_simps claimed_in_simps)
next
  case False
  then show ?thesis by (cases "ev_data x") (auto simp: accounts_def)
qed


text \<open>The two facts about the last accounting turn, with one more event.\<close>

lemma last_accounting_snoc:
  assumes "\<forall>x \<in> set es. accounts (es @ [e]) x = accounts es x"
  shows "find_last (accounts (es @ [e])) (es @ [e]) =
      (if accounts (es @ [e]) e then Some e else find_last (accounts es) es)"
    and "(\<exists>x \<in> set (takeWhile (\<lambda>x. \<not> accounts (es @ [e]) x) (rev (es @ [e]))). is_drop x) \<longleftrightarrow>
      \<not> accounts (es @ [e]) e \<and> (is_drop e \<or> (\<exists>x \<in> set (takeWhile (\<lambda>x. \<not> accounts es x) (rev es)). is_drop x))"
proof -
  have "takeWhile (\<lambda>x. \<not> accounts (es @ [e]) x) (rev es) = takeWhile (\<lambda>x. \<not> accounts es x) (rev es)"
    by (rule takeWhile_cong) (simp_all add: assms)
  then show "(\<exists>x \<in> set (takeWhile (\<lambda>x. \<not> accounts (es @ [e]) x) (rev (es @ [e]))). is_drop x) \<longleftrightarrow>
      \<not> accounts (es @ [e]) e \<and> (is_drop e \<or> (\<exists>x \<in> set (takeWhile (\<lambda>x. \<not> accounts es x) (rev es)). is_drop x))"
    by auto
  show "find_last (accounts (es @ [e])) (es @ [e]) =
      (if accounts (es @ [e]) e then Some e else find_last (accounts es) es)"
    using find_last_cong [of es "accounts (es @ [e])" "accounts es"] assms by simp
qed

lemma pass_inv_step:
  assumes inv: "pass_inv es tr st" and tr: "seedSession es = Inr tr" and step: "trace_step tr e = Inr tr'"
  shows "pass_inv (es @ [e]) tr' (consumed_step st e)"
proof -
  have ti: "trace_inv tr" using tr trace.inv_replay by (simp add: seedSession_def)
  have op: "open_after es = tr_openTurn tr" using tr by (simp add: open_after_def)
  have closed: "\<forall>e \<in> set es. \<forall>t r. ev_data e = TurnEnd t r \<longrightarrow> t < tr_nextTurn tr"
    using inv by (simp add: pass_inv_def)
  have stable: "\<forall>x \<in> set es. accounts (es @ [e]) x = accounts es x"
    using accounts_stable [OF step ti op closed] by blast
  have nxt: "tr_openTurn tr = Some t \<Longrightarrow> t = tr_nextTurn tr" for t
    using ti by (auto simp: trace_inv_def)
  note I = inv [unfolded pass_inv_def] and L = last_accounting_snoc [OF stable]
  have P: "pass_inv (es @ [e]) tr' st' \<longleftrightarrow>
     (\<forall>x \<in> set es. \<forall>t r. ev_data x = TurnEnd t r \<longrightarrow> t < tr_nextTurn tr') \<and> (\<forall>t r. ev_data e = TurnEnd t r \<longrightarrow> t < tr_nextTurn tr')
   \<and> cw_open st' = tr_openTurn tr'
   \<and> (\<forall>t \<ge> tr_nextTurn tr'. (t \<in> cw_stepped st' \<longleftrightarrow> stepped_in es t \<or> (\<exists>s. ev_data e = StepStart t s))
        \<and> (t \<in> cw_claimed st' \<longleftrightarrow> claimed_in es t \<or> is_claim e \<and> tr_openTurn tr = Some t))
   \<and> cw_end st' = (if accounts (es @ [e]) e then Some e else cw_end st)
   \<and> (cw_dropped st' \<longleftrightarrow> \<not> accounts (es @ [e]) e \<and> (is_drop e \<or> cw_dropped st))" for st'
    unfolding pass_inv_def L stepped_in_simps claimed_in_simps op
      I [THEN conjunct2, THEN conjunct2, THEN conjunct2, THEN conjunct1, symmetric]
      I [THEN conjunct2, THEN conjunct2, THEN conjunct2, THEN conjunct2, symmetric]
    by (simp add: ball_Un conj_assoc) blast
  have other: "pass_inv (es @ [e]) tr' st"
    if "tr_openTurn tr' = tr_openTurn tr" "tr_nextTurn tr' = tr_nextTurn tr"
      "\<And>t s. ev_data e \<noteq> StepStart t s" "\<And>t r. ev_data e \<noteq> TurnEnd t r" "\<not> is_drop e"
      "is_claim e \<longrightarrow> tr_openTurn tr = None"
  proof -
    have "\<not> accounts (es @ [e]) e" using that(4) by (cases "ev_data e") (auto simp: accounts_def)
    with that I show ?thesis by (auto simp: P)
  qed
  show ?thesis
  proof (cases "ev_data e")
    case (TurnStart t)
    then have "tr_openTurn tr' = Some t" "tr_nextTurn tr' = tr_nextTurn tr" "tr_openTurn tr = None"
      using step by (auto simp: trace_step_def validateEvent_def keep_transition_def applyTransition_def Let_def
          rbind_Inr_iff split: if_splits)
    with TurnStart I show ?thesis
      by (simp add: P consumed_step_def is_claim_def is_drop_def accounts_def)
  next
    case (StepStart t s)
    then have "tr_openTurn tr' = Some t" "tr_nextTurn tr' = tr_nextTurn tr" "tr_openTurn tr = Some t"
      using step by (auto simp: trace_step_def validateEvent_def keep_transition_def applyTransition_def Let_def
          rbind_Inr_iff split: if_splits)
    with StepStart I show ?thesis
      by (auto simp: P consumed_step_def is_claim_def is_drop_def accounts_def)
  next
    case (TurnEnd t r)
    then have tr': "tr_openTurn tr' = None" "tr_nextTurn tr' = tr_nextTurn tr + 1" "tr_openTurn tr = Some t"
      using step by (auto simp: trace_step_def validateEvent_def keep_transition_def applyTransition_def Let_def
          rbind_Inr_iff split: if_splits)
    with nxt have t: "t = tr_nextTurn tr" by blast
    have st: "t \<in> cw_stepped st \<longleftrightarrow> stepped_in es t" "t \<in> cw_claimed st \<longleftrightarrow> claimed_in es t"
      using I t by auto
    have acc: "accounts (es @ [e]) e \<longleftrightarrow> t \<in> cw_stepped st \<or> t \<notin> cw_stepped st \<and> t \<in> cw_claimed st \<and> accountsForClaim r"
      using TurnEnd st by (auto simp: accounts_def stepped_in_simps claimed_in_simps is_claim_def)
    from TurnEnd tr' t I acc show ?thesis
      unfolding P by (auto simp: consumed_step_def is_claim_def is_drop_def Let_def)
  next
    case (InboxSpliced sp)
    then have tr': "tr_openTurn tr' = tr_openTurn tr" "tr_nextTurn tr' = tr_nextTurn tr"
      using step by (auto simp: trace_step_def validateEvent_def keep_transition_def applyTransition_def Let_def
          rbind_Inr_iff split: if_splits)
    show ?thesis
    proof (cases "is_claim e \<and> tr_openTurn tr \<noteq> None \<or> is_drop e")
      case True
      with InboxSpliced tr' I nxt show ?thesis
        by (auto simp: P consumed_step_def is_claim_def is_drop_def accounts_def)
    next
      case False
      have "cw_open st = tr_openTurn tr" using I by blast
      with False InboxSpliced
      have "is_removed sp = None \<or> is_canceled sp \<and> is_inserted sp \<noteq> [] \<or> \<not> is_canceled sp \<and> cw_open st = None"
        by (auto simp: is_claim_def is_drop_def)
      with InboxSpliced have "consumed_step st e = st"
        by (auto simp: consumed_step_def)
      with other InboxSpliced tr' False show ?thesis by simp
    qed
  qed (use step other in \<open>auto simp: consumed_step_def is_claim_def is_drop_def trace_step_def validateEvent_def
      keep_transition_def applyTransition_def requireOpenStep_def Let_def rbind_Inr_iff split: if_splits\<close>)
qed


lemma pass_inv_log:
  "seedSession es = Inr tr \<Longrightarrow> pass_inv es tr (foldl consumed_step consumed_start es)"
proof (induction es arbitrary: tr rule: rev_induct)
  case Nil
  then show ?case
    by (auto simp: pass_inv_def seedSession_def freshTrace_def consumed_start_def stepped_in_simps claimed_in_simps)
next
  case (snoc e es)
  then obtain tr0 where s: "seedSession es = Inr tr0" "trace_step tr0 e = Inr tr"
    by (auto simp: seedSession_def replay_snoc split: sum.splits)
  with snoc.IH pass_inv_step show ?case by simp
qed

section \<open>Properties\<close>

text \<open>C35.
  On a log the session trace accepts, the account names the last turn end that accounts for
  consumed work: of a turn that entered a step, or of a turn that claimed inbox input while it
  was open and did not simply complete; and it reports dropped work exactly when a
  cancellation that left nothing behind follows that turn end.
\<close>

theorem consumed_work_account:
  assumes "seedSession es = Inr tr"
  shows "co_end (foldConsumedWork es) = find_last (accounts es) es
     \<and> (co_dropped (foldConsumedWork es) \<longleftrightarrow>
          (\<exists>e \<in> set (takeWhile (\<lambda>e. \<not> accounts es e) (rev es)). is_drop e))"
  using pass_inv_log [OF assms] by (simp add: pass_inv_def foldConsumedWork_def Let_def)

definition sample_consumed :: "session_event list" where
  "sample_consumed =
     [plain_event 0 (TurnStart 1),
      plain_event 1 (InboxSpliced \<lparr>is_target = NextTurn, is_start = 0, is_removed = Some 1, is_inserted = [], is_canceled = False\<rparr>),
      plain_event 2 (TurnEnd 1 EndBlocked),
      plain_event 3 (InboxSpliced \<lparr>is_target = NextStep, is_start = 0, is_removed = Some 1, is_inserted = [], is_canceled = True\<rparr>)]"

lemma consumed_work_account_witness:
  "find_last (accounts sample_consumed) sample_consumed = Some (plain_event 2 (TurnEnd 1 EndBlocked))"
proof -
  have "is_ok (seedSession sample_consumed)"
    and e: "co_end (foldConsumedWork sample_consumed) = Some (plain_event 2 (TurnEnd 1 EndBlocked))"
    by code_simp+
  then obtain tr where "seedSession sample_consumed = Inr tr" by (auto simp: is_ok_iff)
  from consumed_work_account [OF this] e show ?thesis by simp
qed

end
