(* ===== verification/Session_Envelope.thy ===== *)
theory Session_Envelope
  imports Session_Log
begin

text \<open>
  The boundary where JSON becomes session values, in
  \<open>src/packages/core/session/src/index.ts\<close>: the validation of a creation header and of the
  envelope and message shape of a stored event. The input is a JSON value, because these
  functions inspect values that came from disk; \<open>isAbsolute\<close> is that of POSIX paths. The
  lemmas give the header codec's round trip and what an accepted event is known to hold.
\<close>

section \<open>Creation headers\<close>

datatype header_error =
    HeaderNotRecord | HeaderVersion | HeaderIdMismatch | HeaderCreatedAt | HeaderCwdType
  | HeaderCwdRelative | HeaderParent | HeaderSeedLength | HeaderOrigin | HeaderDepth
  | HeaderPreset | HeaderTarget

definition SESSION_FORMAT_VERSION :: int where
  "SESSION_FORMAT_VERSION = 0"

definition isAbsolute :: "string \<Rightarrow> bool" where
  "isAbsolute p = (case p of [] \<Rightarrow> False | c # _ \<Rightarrow> c = CHR ''/'')"

text \<open>An optional member: absent, or of the wanted kind.\<close>

definition opt_str :: "'e \<Rightarrow> json option \<Rightarrow> ('e, string option) result" where
  "opt_str x v = (case v of None \<Rightarrow> Inr None | Some (JStr s) \<Rightarrow> Inr (Some s) | _ \<Rightarrow> Inl x)"

definition opt_count :: "'e \<Rightarrow> json option \<Rightarrow> ('e, int option) result" where
  "opt_count x v = (case v of None \<Rightarrow> Inr None
     | Some (JInt n) \<Rightarrow> (if safe_int n \<and> 0 \<le> n then Inr (Some n) else Inl x) | _ \<Rightarrow> Inl x)"

definition need_count :: "'e \<Rightarrow> json option \<Rightarrow> ('e, int) result" where
  "need_count x v = (case as_safe v of Some n \<Rightarrow> (if 0 \<le> n then Inr n else Inl x) | None \<Rightarrow> Inl x)"

definition require :: "'e \<Rightarrow> bool \<Rightarrow> ('e, unit) result" where
  "require x b = (if b then Inr () else Inl x)"

definition validateSessionHeader :: "string \<Rightarrow> json \<Rightarrow> (header_error, session_header) result" where
  "validateSessionHeader i input = (case input of
     JObj record \<Rightarrow>
       rbind (require HeaderVersion (jget record ''version'' = Some (JInt SESSION_FORMAT_VERSION))) (\<lambda>_.
       rbind (require HeaderIdMismatch (jget record ''id'' = Some (JStr i))) (\<lambda>_.
       rbind (need_count HeaderCreatedAt (jget record ''createdAt'')) (\<lambda>created.
       rbind (opt_str HeaderCwdType (jget record ''cwd'')) (\<lambda>cwd.
       rbind (require HeaderCwdRelative (case cwd of Some p \<Rightarrow> isAbsolute p | None \<Rightarrow> True)) (\<lambda>_.
       rbind (opt_str HeaderParent (jget record ''parentSession'')) (\<lambda>parent.
       rbind (opt_count HeaderSeedLength (jget record ''seedLength'')) (\<lambda>seedLength.
       rbind (require HeaderOrigin (jget record ''origin'' \<in> {None, Some (JStr ''subagent'')})) (\<lambda>_.
       rbind (opt_count HeaderDepth (jget record ''delegationDepth'')) (\<lambda>depth.
       rbind (opt_str HeaderPreset (jget record ''agentPreset'')) (\<lambda>preset.
       rbind (opt_str HeaderTarget (jget record ''executionTarget'')) (\<lambda>target.
       rbind (require HeaderTarget (target \<noteq> Some [])) (\<lambda>_.
         Inr \<lparr>sh_id = i, sh_created = created, sh_cwd = cwd, sh_parent = parent, sh_seed_length = seedLength,
              sh_origin = as_str (jget record ''origin''), sh_depth = depth, sh_preset = preset,
              sh_target = target\<rparr>))))))))))))
   | _ \<Rightarrow> Inl HeaderNotRecord)"

text \<open>The JSON of a header, as a storage backend writes it: absent members are left out.\<close>

definition opt_member :: "string \<Rightarrow> ('a \<Rightarrow> json) \<Rightarrow> 'a option \<Rightarrow> fields" where
  "opt_member k f v = (case v of None \<Rightarrow> [] | Some x \<Rightarrow> [(k, f x)])"

definition header_json :: "session_header \<Rightarrow> json" where
  "header_json h = JObj ([(''version'', JInt SESSION_FORMAT_VERSION), (''id'', JStr (sh_id h)), (''createdAt'', JInt (sh_created h))]
     @ opt_member ''cwd'' JStr (sh_cwd h) @ opt_member ''parentSession'' JStr (sh_parent h)
     @ opt_member ''seedLength'' JInt (sh_seed_length h) @ opt_member ''origin'' JStr (sh_origin h)
     @ opt_member ''delegationDepth'' JInt (sh_depth h) @ opt_member ''agentPreset'' JStr (sh_preset h)
     @ opt_member ''executionTarget'' JStr (sh_target h))"

section \<open>Event envelopes\<close>

datatype envelope_error =
    LegacyDeltaEvent | BadEnvelope | LacksProviderModel | BadReasoningEffort | BadAdapterDefaults
  | NoIdentifiedMessage | WrongRole string | BadMessageSource | BadMessageContent
  | NotModelSource | NotToolSource | NotOneToolResult | MismatchedCallIds

text \<open>\<open>typeof value === 'object' \<and> value !== null\<close>; the members of an array are none of those read.\<close>

definition as_record :: "json option \<Rightarrow> fields option" where
  "as_record v = (case v of Some (JObj f) \<Rightarrow> Some f | Some (JArr _) \<Rightarrow> Some [] | _ \<Rightarrow> None)"

definition as_object :: "json option \<Rightarrow> fields option" where
  "as_object v = (case v of Some (JObj f) \<Rightarrow> Some f | _ \<Rightarrow> None)"

definition member :: "fields option \<Rightarrow> string \<Rightarrow> json option" where
  "member r k = (case r of Some f \<Rightarrow> jget f k | None \<Rightarrow> None)"

definition non_empty_str :: "json option \<Rightarrow> bool" where
  "non_empty_str v = (case v of Some (JStr s) \<Rightarrow> s \<noteq> [] | _ \<Rightarrow> False)"

definition hasProviderModel :: "json option \<Rightarrow> bool" where
  "hasProviderModel v = (case as_record v of
     None \<Rightarrow> False | Some p \<Rightarrow> non_empty_str (jget p ''provider'') \<and> non_empty_str (jget p ''model''))"

definition assertAdapterDefaults :: "json option \<Rightarrow> fields \<Rightarrow> (envelope_error, unit) result" where
  "assertAdapterDefaults v config = (case v of
     None \<Rightarrow> Inr ()
   | Some (JObj d) \<Rightarrow>
       require BadAdapterDefaults
         (list_all (\<lambda>(k, m). k \<in> {''reasoningEffort'', ''maxTokens''} \<and> m = JBool True) d
          \<and> \<not> (jget d ''reasoningEffort'' = Some (JBool True) \<and> jget config ''reasoningEffort'' = None)
          \<and> \<not> (jget d ''maxTokens'' = Some (JBool True) \<and> jget config ''maxTokens'' = None))
   | Some _ \<Rightarrow> Inl BadAdapterDefaults)"

definition message_types :: "string list" where
  "message_types = [''user/message'', ''assistant/message'', ''tool/result'']"

text \<open>The message of a message-bearing event.\<close>

definition message_of :: "string \<Rightarrow> fields \<Rightarrow> json option" where
  "message_of type event = (if type = ''user/message'' then jget event ''data''
     else member (as_record (jget event ''data'')) ''message'')"

definition assertToolMessage :: "fields \<Rightarrow> fields \<Rightarrow> (envelope_error, unit) result" where
  "assertToolMessage message source =
     rbind (require NotToolSource (jget source ''kind'' = Some (JStr ''tool'') \<and> non_empty_str (jget source ''callId''))) (\<lambda>_.
       (case jget message ''content'' of
          Some (JArr [JObj block]) \<Rightarrow>
            rbind (require NotOneToolResult (jget block ''type'' = Some (JStr ''tool-result'')
                \<and> (case jget block ''content'' of Some (JArr _) \<Rightarrow> True | _ \<Rightarrow> False))) (\<lambda>_.
              require MismatchedCallIds (jget block ''toolCallId'' = jget source ''callId''))
        | _ \<Rightarrow> Inl NotOneToolResult))"

definition assertMessageEventShape :: "fields \<Rightarrow> (envelope_error, unit) result" where
  "assertMessageEventShape event = (case as_str (jget event ''type'') of
     None \<Rightarrow> Inr ()
   | Some type \<Rightarrow>
       if type \<notin> set message_types then Inr ()
       else case as_record (message_of type event) of
         None \<Rightarrow> Inl NoIdentifiedMessage
       | Some message \<Rightarrow>
           if \<not> non_empty_str (jget message ''id'') then Inl NoIdentifiedMessage
           else let role = (if type = ''assistant/message'' then ''assistant'' else ''user'') in
           if jget message ''role'' \<noteq> Some (JStr role) then Inl (WrongRole role)
           else case as_record (jget message ''source'') of
             None \<Rightarrow> Inl BadMessageSource
           | Some source \<Rightarrow>
               if \<not> non_empty_str (jget source ''kind'') then Inl BadMessageSource
               else if (case jget message ''content'' of Some (JArr _) \<Rightarrow> False | _ \<Rightarrow> True) then Inl BadMessageContent
               else if type = ''assistant/message''
                 then require NotModelSource (jget source ''kind'' = Some (JStr ''model'')
                        \<and> hasProviderModel (jget message ''source''))
               else if type = ''tool/result'' then assertToolMessage message source
               else Inr ())"

definition assertCurrentLlmShape :: "fields \<Rightarrow> (envelope_error, unit) result" where
  "assertCurrentLlmShape event =
     rbind (if jget event ''type'' = Some (JStr ''request/header'')
       then let header = as_object (member (as_record (jget event ''data'')) ''header'');
                config = member header ''config''
            in rbind (require LacksProviderModel (hasProviderModel config)) (\<lambda>_.
                 case as_record config of
                   None \<Rightarrow> Inl LacksProviderModel
                 | Some cfg \<Rightarrow>
                     rbind (require BadReasoningEffort (jget cfg ''reasoningEffort'' = None \<or> non_empty_str (jget cfg ''reasoningEffort''))) (\<lambda>_.
                       assertAdapterDefaults (member header ''adapterDefaults'') cfg))
       else Inr ()) (\<lambda>_. assertMessageEventShape event)"

definition envelope_keys :: "string list" where
  "envelope_keys = [''type'', ''seq'', ''time'', ''data'', ''surfaceOp'', ''sourceEventSeqs'', ''ignorable'']"

definition assertSessionEventEnvelope :: "fields \<Rightarrow> (envelope_error, unit) result" where
  "assertSessionEventEnvelope event =
     (if jget event ''type'' = Some (JStr ''request/header-delta'') then Inl LegacyDeltaEvent
      else if \<not> list_all (\<lambda>(k, v). k \<in> set envelope_keys) event then Inl BadEnvelope
      else case (as_str (jget event ''type''), as_safe (jget event ''seq''), as_safe (jget event ''time'')) of
        (Some type, Some seq, Some _) \<Rightarrow>
          if seq < 0 \<or> jget event ''data'' = None
             \<or> (jget event ''ignorable'' \<noteq> None \<and> jget event ''ignorable'' \<noteq> Some (JBool True))
          then Inl BadEnvelope
          else if type \<in> set (''request/header'' # message_types) then assertCurrentLlmShape event
          else Inr ()
      | _ \<Rightarrow> Inl BadEnvelope)"


section \<open>Lemmas\<close>

lemma require_simps [simp]: "require x b = Inr u \<longleftrightarrow> b" "require x b = Inl y \<longleftrightarrow> \<not> b \<and> y = x"
  by (auto simp: require_def)

lemma opt_str_Inr: "opt_str x v = Inr r \<longleftrightarrow> v = map_option JStr r"
  by (cases r) (auto simp: opt_str_def split: option.splits json.splits)

lemma opt_count_Inr:
  "opt_count x v = Inr r \<longleftrightarrow> v = map_option JInt r \<and> (case r of Some n \<Rightarrow> safe_int n \<and> 0 \<le> n | None \<Rightarrow> True)"
  by (cases r) (auto simp: opt_count_def split: option.splits json.splits)

lemma need_count_Inr: "need_count x v = Inr n \<longleftrightarrow> v = Some (JInt n) \<and> safe_int n \<and> 0 \<le> n"
  by (auto simp: need_count_def as_safe_def split: option.splits json.splits)

lemma opt_str_map [simp]: "opt_str x (map_option JStr r) = Inr r"
  by (cases r) (simp_all add: opt_str_def)

lemma opt_count_map:
  "(case r of Some n \<Rightarrow> safe_int n \<and> 0 \<le> n | None \<Rightarrow> True) \<Longrightarrow> opt_count x (map_option JInt r) = Inr r"
  by (cases r) (simp_all add: opt_count_def)

definition header_valid :: "session_header \<Rightarrow> bool" where
  "header_valid h \<longleftrightarrow> safe_int (sh_created h) \<and> 0 \<le> sh_created h
     \<and> (case sh_cwd h of Some p \<Rightarrow> isAbsolute p | None \<Rightarrow> True)
     \<and> (case sh_seed_length h of Some n \<Rightarrow> safe_int n \<and> 0 \<le> n | None \<Rightarrow> True)
     \<and> sh_origin h \<in> {None, Some ''subagent''}
     \<and> (case sh_depth h of Some n \<Rightarrow> safe_int n \<and> 0 \<le> n | None \<Rightarrow> True)
     \<and> sh_target h \<noteq> Some []"

lemma validateSessionHeader_Inr:
  assumes "validateSessionHeader i j = Inr h"
  shows "sh_id h = i \<and> header_valid h"
proof (cases j)
  case (JObj f)
  have origin: "jget f ''origin'' \<in> {None, Some (JStr ''subagent'')} \<Longrightarrow> as_str (jget f ''origin'') \<in> {None, Some ''subagent''}"
    by auto
  note parts = assms [unfolded JObj validateSessionHeader_def json.case rbind_Inr_iff require_simps opt_count_Inr need_count_Inr]
  show ?thesis
    using parts unfolding sum.inject
    by (elim exE conjE, hypsubst) (use origin in \<open>simp add: header_valid_def\<close>)
qed (use assms in \<open>simp_all add: validateSessionHeader_def\<close>)

lemma jget_append: "jget (f @ g) k = (case jget f k of Some v \<Rightarrow> Some v | None \<Rightarrow> jget g k)"
  by (simp add: jget_def map_add_def) (simp add: jget_def [symmetric] split: option.split)

lemma jget_opt_member: "jget (opt_member k f v) k' = (if k' = k then map_option f v else None)"
  by (cases v) (auto simp: opt_member_def js_simps)

lemma jget_opt_append:
  "jget (opt_member k f v @ g) k' = (if k' = k then (case v of Some x \<Rightarrow> Some (f x) | None \<Rightarrow> jget g k') else jget g k')"
  by (simp add: jget_append jget_opt_member split: option.split)

lemma option_chain: "(case v of Some x \<Rightarrow> Some (f x) | None \<Rightarrow> None) = map_option f v"
  by (cases v) simp_all

lemma header_json_members:
  "\<exists>f. header_json h = JObj f
     \<and> jget f ''version'' = Some (JInt SESSION_FORMAT_VERSION) \<and> jget f ''id'' = Some (JStr (sh_id h))
     \<and> jget f ''createdAt'' = Some (JInt (sh_created h)) \<and> jget f ''cwd'' = map_option JStr (sh_cwd h)
     \<and> jget f ''parentSession'' = map_option JStr (sh_parent h) \<and> jget f ''seedLength'' = map_option JInt (sh_seed_length h)
     \<and> jget f ''origin'' = map_option JStr (sh_origin h) \<and> jget f ''delegationDepth'' = map_option JInt (sh_depth h)
     \<and> jget f ''agentPreset'' = map_option JStr (sh_preset h) \<and> jget f ''executionTarget'' = map_option JStr (sh_target h)"
  by (simp add: header_json_def jget_opt_append jget_opt_member js_simps option_chain cong: option.case_cong)

lemma map_option_inj: "(\<And>x y. f x = f y \<Longrightarrow> x = y) \<Longrightarrow> map_option f a = map_option f b \<longleftrightarrow> a = b"
  by (cases a; cases b) auto

lemma header_json_back:
  assumes "validateSessionHeader i (header_json h) = Inr h'"
  shows "h' = h"
proof -
  obtain f where f: "header_json h = JObj f"
    "jget f ''version'' = Some (JInt SESSION_FORMAT_VERSION)" "jget f ''id'' = Some (JStr (sh_id h))"
    "jget f ''createdAt'' = Some (JInt (sh_created h))" "jget f ''cwd'' = map_option JStr (sh_cwd h)"
    "jget f ''parentSession'' = map_option JStr (sh_parent h)" "jget f ''seedLength'' = map_option JInt (sh_seed_length h)"
    "jget f ''origin'' = map_option JStr (sh_origin h)" "jget f ''delegationDepth'' = map_option JInt (sh_depth h)"
    "jget f ''agentPreset'' = map_option JStr (sh_preset h)" "jget f ''executionTarget'' = map_option JStr (sh_target h)"
    using header_json_members by blast
  have o: "as_str (map_option JStr (sh_origin h)) = sh_origin h" by (cases "sh_origin h") simp_all
  have inj: "map_option JStr a = map_option JStr b \<longleftrightarrow> a = b" "map_option JInt m = map_option JInt n \<longleftrightarrow> m = n" for a b m n
    by (rule map_option_inj, simp)+
  note parts = assms [unfolded f validateSessionHeader_def json.case rbind_Inr_iff require_simps opt_str_Inr opt_count_Inr
      need_count_Inr sum.inject o inj option.inject json.inject]
  show ?thesis
    using parts by (elim exE conjE, hypsubst) simp
qed

lemma header_json_valid:
  assumes "header_valid h"
  shows "validateSessionHeader (sh_id h) (header_json h) = Inr h"
proof -
  obtain f where f: "header_json h = JObj f"
    "jget f ''version'' = Some (JInt SESSION_FORMAT_VERSION)" "jget f ''id'' = Some (JStr (sh_id h))"
    "jget f ''createdAt'' = Some (JInt (sh_created h))" "jget f ''cwd'' = map_option JStr (sh_cwd h)"
    "jget f ''parentSession'' = map_option JStr (sh_parent h)" "jget f ''seedLength'' = map_option JInt (sh_seed_length h)"
    "jget f ''origin'' = map_option JStr (sh_origin h)" "jget f ''delegationDepth'' = map_option JInt (sh_depth h)"
    "jget f ''agentPreset'' = map_option JStr (sh_preset h)" "jget f ''executionTarget'' = map_option JStr (sh_target h)"
    using header_json_members by blast
  have c: "need_count x (Some (JInt (sh_created h))) = Inr (sh_created h)" for x :: header_error
    using assms by (simp add: header_valid_def need_count_Inr)
  have origin: "map_option JStr (sh_origin h) \<in> {None, Some (JStr ''subagent'')}" "as_str (map_option JStr (sh_origin h)) = sh_origin h"
    using assms by (cases "sh_origin h"; simp add: header_valid_def)+
  have counts: "opt_count x (map_option JInt (sh_seed_length h)) = Inr (sh_seed_length h)"
    "opt_count x (map_option JInt (sh_depth h)) = Inr (sh_depth h)" for x :: header_error
    using assms by (simp_all add: header_valid_def opt_count_map)
  have rest: "case sh_cwd h of Some p \<Rightarrow> isAbsolute p | None \<Rightarrow> True" "sh_target h \<noteq> Some []"
    using assms by (simp_all add: header_valid_def)
  show ?thesis
    unfolding validateSessionHeader_def f json.case origin(2) opt_str_map counts c rbind.simps
    using rest origin(1) by (simp add: require_def)
qed

text \<open>The header validator and the JSON of a header fit: the headers it can return for an identity
  are exactly the valid ones with that identity, and it gives back each of them from its JSON.
\<close>

theorem header_roundtrip:
  "(\<exists>j. validateSessionHeader i j = Inr h) \<longleftrightarrow> sh_id h = i \<and> header_valid h
     \<and> validateSessionHeader i (header_json h) = Inr h"
  using header_json_valid [of h] validateSessionHeader_Inr [of i _ h] by blast

text \<open>C34.
  A stored message event that passes the envelope check holds one identified message of the
  role its type fixes, with an attributed source and a content array; an assistant message
  names a provider and a model, and a tool result holds exactly one result block, whose call
  is the call its source names.
\<close>

theorem accepted_message_shape:
  assumes "assertSessionEventEnvelope event = Inr ()" and "jget event ''type'' = Some (JStr type)"
    and "type \<in> set message_types"
  shows "\<exists>m i s blocks. as_record (message_of type event) = Some m
     \<and> jget m ''id'' = Some (JStr i) \<and> i \<noteq> []
     \<and> jget m ''role'' = Some (JStr (if type = ''assistant/message'' then ''assistant'' else ''user''))
     \<and> as_record (jget m ''source'') = Some s \<and> jget m ''content'' = Some (JArr blocks)
     \<and> (type = ''assistant/message'' \<longrightarrow> jget s ''kind'' = Some (JStr ''model'')
          \<and> non_empty_str (jget s ''provider'') \<and> non_empty_str (jget s ''model''))
     \<and> (type = ''tool/result'' \<longrightarrow> (\<exists>c b. jget s ''kind'' = Some (JStr ''tool'') \<and> jget s ''callId'' = Some (JStr c) \<and> c \<noteq> []
          \<and> blocks = [JObj b] \<and> jget b ''type'' = Some (JStr ''tool-result'') \<and> jget b ''toolCallId'' = Some (JStr c)))"
proof -
  have str: "non_empty_str v \<longleftrightarrow> (\<exists>s. v = Some (JStr s) \<and> s \<noteq> [])" for v
    by (auto simp: non_empty_str_def split: option.splits json.splits)
  have arr: "(case v of Some (JArr _) \<Rightarrow> False | _ \<Rightarrow> True) \<longleftrightarrow> \<not> (\<exists>bs. v = Some (JArr bs))" for v
    by (auto split: option.splits json.splits)
  have tool: "\<exists>c b. jget s ''kind'' = Some (JStr ''tool'') \<and> jget s ''callId'' = Some (JStr c) \<and> c \<noteq> []
      \<and> blocks = [JObj b] \<and> jget b ''type'' = Some (JStr ''tool-result'') \<and> jget b ''toolCallId'' = Some (JStr c)"
    if "assertToolMessage m s = Inr ()" "jget m ''content'' = Some (JArr blocks)" for m s blocks
    using that by (auto simp: assertToolMessage_def rbind_Inr_iff str split: list.splits json.splits)
  have shape: "assertMessageEventShape event = Inr ()"
    using assms by (auto simp: assertSessionEventEnvelope_def assertCurrentLlmShape_def message_types_def rbind_Inr_iff
        split: if_splits option.splits)
  obtain m s where m: "as_record (message_of type event) = Some m" "as_record (jget m ''source'') = Some s"
    and chk: "non_empty_str (jget m ''id'')"
      "jget m ''role'' = Some (JStr (if type = ''assistant/message'' then ''assistant'' else ''user''))"
      "\<exists>bs. jget m ''content'' = Some (JArr bs)"
      "type = ''assistant/message'' \<Longrightarrow> jget s ''kind'' = Some (JStr ''model'') \<and> hasProviderModel (jget m ''source'')"
      "type = ''tool/result'' \<Longrightarrow> assertToolMessage m s = Inr ()"
    using shape assms(2,3) unfolding assertMessageEventShape_def arr
    by (auto simp: Let_def split: option.splits if_splits)
  from chk(3) obtain blocks where "jget m ''content'' = Some (JArr blocks)" by blast
  with m chk tool [of m s blocks] show ?thesis
    by (auto simp: str hasProviderModel_def)
qed

definition sample_result_event :: fields where
  "sample_result_event = [(''type'', JStr ''tool/result''), (''seq'', JInt 4), (''time'', JInt 9),
     (''data'', JObj [(''turn'', JInt 1), (''step'', JInt 1), (''message'', JObj
        [(''id'', JStr ''m''), (''role'', JStr ''user''),
         (''source'', JObj [(''kind'', JStr ''tool''), (''callId'', JStr ''c'')]),
         (''content'', JArr [JObj [(''type'', JStr ''tool-result''), (''toolCallId'', JStr ''c''), (''content'', JArr [])]])])])]"

lemma accepted_message_shape_witness:
  "\<exists>m. as_record (message_of ''tool/result'' sample_result_event) = Some m \<and> jget m ''role'' = Some (JStr ''user'')"
proof -
  have "assertSessionEventEnvelope sample_result_event = Inr ()"
    and "jget sample_result_event ''type'' = Some (JStr ''tool/result'')" and "''tool/result'' \<in> set message_types"
    by code_simp+
  from accepted_message_shape [OF this] show ?thesis by auto
qed

end
