(* ===== verification/Session_Store.thy ===== *)
theory Session_Store
  imports Session_Envelope Session_Trace
begin

text \<open>
  The in-memory session store of \<open>src/packages/core/session/src/index.ts\<close>: preparation of a
  session object, entry into the store, the announcement, the publication of appended events,
  the detach capability with its deferral, and forking. Objects are references: a session is
  its index in \<open>st_objects\<close>, an entry its index in \<open>st_entries\<close>. Listeners run
  synchronously and may call back into the store, so an announcement and a published append
  are each two operations, one before and one after the listeners, with any others between.
  The properties are about every interleaving.
\<close>

section \<open>State\<close>

record entry =
  en_id :: string
  en_session :: nat
  en_announced :: bool
  en_announcing :: bool
  en_appending :: bool
  en_detach_requested :: bool
  en_entered :: bool

text \<open>
  What the store dispatches, in order: the creation of an entry's session, each event appended
  to it, and its disposal.
\<close>

datatype edge =
    Created nat
  | Published nat session_event
  | Disposed nat

record store =
  st_objects :: "session list"
  st_entries :: "entry list"
  st_live :: "(string, nat) js_map"
  st_attached :: "(nat, nat) js_map"
  st_counter :: nat
  st_edges :: "edge list"

definition empty_store :: store where
  "empty_store = \<lparr>st_objects = [], st_entries = [], st_live = [], st_attached = [], st_counter = 0, st_edges = []\<rparr>"

datatype store_error =
    AlreadyExists string
  | AlreadyAttached string
  | AlreadyAnnounced string
  | NotLive string
  | RejectedHeader header_error
  | RejectedSession session_error
  | CreationVetoed
  | FlushFailed string
  | ForkExists string
  | ForkNotFound string
  | ForkNotLive string
  | ForkBadBoundary int
  | ForkOpenTurn int

definition object_id :: "store \<Rightarrow> nat \<Rightarrow> string" where
  "object_id st r = sh_id (se_header (st_objects st ! r))"

definition update_entry :: "nat \<Rightarrow> (entry \<Rightarrow> entry) \<Rightarrow> store \<Rightarrow> store" where
  "update_entry k f st = st\<lparr>st_entries := (st_entries st)[k := f (st_entries st ! k)]\<rparr>"

definition set_object :: "nat \<Rightarrow> session \<Rightarrow> store \<Rightarrow> store" where
  "set_object r s st = st\<lparr>st_objects := (st_objects st)[r := s]\<rparr>"

section \<open>Preparation\<close>

record session_meta =
  mt_created :: "int option"
  mt_cwd :: "string option"
  mt_parent :: "string option"
  mt_seed_length :: "int option"
  mt_origin :: "string option"
  mt_depth :: "int option"
  mt_preset :: "string option"
  mt_target :: "string option"

definition no_meta :: session_meta where
  "no_meta = \<lparr>mt_created = None, mt_cwd = None, mt_parent = None, mt_seed_length = None, mt_origin = None,
     mt_depth = None, mt_preset = None, mt_target = None\<rparr>"

text \<open>A caller's seed and metadata, or a stored log with its stored header.\<close>

datatype session_options =
    CallerOptions "session_event list option" session_meta
  | PersistenceOptions "session_event list" json

definition minted_id :: "nat \<Rightarrow> string" where
  "minted_id n = ''session-'' @ show_nat n"

lemma minted_id_inj: "minted_id m = minted_id n \<Longrightarrow> m = n"
  by (metis minted_id_def read_show_nat same_append_eq)

lemma length_filter_strict:
  assumes "\<And>x. q x \<Longrightarrow> p x" and "x \<in> set xs" and "p x" and "\<not> q x"
  shows "length (filter q xs) < length (filter p xs)"
  using assms(2)
proof (induction xs)
  case (Cons y ys)
  have "length (filter q ys) \<le> length (filter p ys)"
    using assms(1) by (induction ys) auto
  with Cons assms show ?case by auto
qed simp

text \<open>\<open>do ... while (this.store.has(sessionId))\<close>.\<close>

function mint :: "nat \<Rightarrow> (string, nat) js_map \<Rightarrow> string \<times> nat" where
  "mint c live = (let i = minted_id (Suc c) in
     if map_get live i \<noteq> None then mint (Suc c) live else (i, Suc c))"
  by auto
termination
proof (relation "measure (\<lambda>(c, live). length (filter (\<lambda>kv. \<exists>j > c. fst kv = minted_id j) live))")
  fix c :: nat and live :: "(string, nat) js_map" and i
  assume i: "i = minted_id (Suc c)" and has: "map_get live i \<noteq> None"
  let ?p = "\<lambda>d kv. \<exists>j > d. fst kv = minted_id j"
  from has i obtain v where v: "(minted_id (Suc c), v) \<in> set live"
    by (auto simp: map_get_def dest: map_of_SomeD)
  have new: "?p c (minted_id (Suc c), v)" "\<not> ?p (Suc c) (minted_id (Suc c), v)"
    using minted_id_inj by auto
  have "\<And>kv. ?p (Suc c) kv \<Longrightarrow> ?p c kv" using Suc_lessD by blast
  from length_filter_strict [of "?p (Suc c)" "?p c", OF this v new]
  show "((Suc c, live), c, live) \<in> measure (\<lambda>(c, live). length (filter (\<lambda>kv. \<exists>j > c. fst kv = minted_id j) live))"
    by simp
qed simp

declare mint.simps [simp del]

text \<open>\<open>Session.create\<close> and \<open>Session.fromRestore\<close>, with the header's validation.\<close>

definition create_session ::
    "session_header \<Rightarrow> session_event list option \<Rightarrow> int \<Rightarrow> (store_error, session) result" where
  "create_session h seed now =
     (case construct h seed now of
        Inl x \<Rightarrow> Inl (RejectedSession x)
      | Inr s \<Rightarrow> (case validateSessionHeader (sh_id h) (header_json h) of
          Inl x \<Rightarrow> Inl (RejectedHeader x) | Inr _ \<Rightarrow> Inr s))"

definition restore_session ::
    "string \<Rightarrow> session_event list \<Rightarrow> json \<Rightarrow> int \<Rightarrow> (store_error, session) result" where
  "restore_session i seed meta now =
     (case validateSessionHeader i meta of
        Inl x \<Rightarrow> Inl (RejectedHeader x)
      | Inr h \<Rightarrow> (case construct h (Some seed) now of
          Inl x \<Rightarrow> Inl (RejectedSession x) | Inr s \<Rightarrow> Inr s))"

definition meta_header :: "string \<Rightarrow> session_meta \<Rightarrow> int \<Rightarrow> session_header" where
  "meta_header i m now = \<lparr>sh_id = i, sh_created = (case mt_created m of Some t \<Rightarrow> t | None \<Rightarrow> now),
     sh_cwd = mt_cwd m, sh_parent = mt_parent m, sh_seed_length = mt_seed_length m, sh_origin = mt_origin m,
     sh_depth = mt_depth m, sh_preset = mt_preset m, sh_target = mt_target m\<rparr>"

definition prepare :: "string option \<Rightarrow> session_options \<Rightarrow> int \<Rightarrow> store \<Rightarrow> (store_error, nat) result \<times> store" where
  "prepare i options now st =
     (let (sid, c) = (case i of Some sid \<Rightarrow> (sid, st_counter st) | None \<Rightarrow> mint (st_counter st) (st_live st));
          st1 = st\<lparr>st_counter := c\<rparr>
      in if map_get (st_live st1) sid \<noteq> None then (Inl (AlreadyExists sid), st1)
         else case (case options of
                 PersistenceOptions seed meta \<Rightarrow> restore_session sid seed meta now
               | CallerOptions seed meta \<Rightarrow> create_session (meta_header sid meta now) seed now) of
             Inl x \<Rightarrow> (Inl x, st1)
           | Inr s \<Rightarrow> (Inr (length (st_objects st1)), st1\<lparr>st_objects := st_objects st1 @ [s]\<rparr>))"

section \<open>Entry, announcement, publication and detachment\<close>

definition enter :: "nat \<Rightarrow> store \<Rightarrow> (store_error, nat) result \<times> store" where
  "enter r st =
     (let i = object_id st r; k = length (st_entries st) in
      if map_get (st_live st) i \<noteq> None then (Inl (AlreadyExists i), st)
      else if map_get (st_attached st) r \<noteq> None then (Inl (AlreadyAttached i), st)
      else (Inr k, st\<lparr>st_entries := st_entries st @ [\<lparr>en_id = i, en_session = r, en_announced = False, en_announcing = False,
               en_appending = False, en_detach_requested = False, en_entered = True\<rparr>],
             st_live := map_set i k (st_live st), st_attached := map_set r k (st_attached st)\<rparr>))"

definition detachEntered :: "nat \<Rightarrow> store \<Rightarrow> store" where
  "detachEntered k st =
     (let st1 = update_entry k (\<lambda>e. e\<lparr>en_detach_requested := False\<rparr>) st; e = st_entries st1 ! k in
      if map_get (st_live st1) (en_id e) \<noteq> Some k then st1
      else st1\<lparr>st_live := map_delete (en_id e) (st_live st1), st_attached := map_delete (en_session e) (st_attached st1),
               st_edges := st_edges st1 @ (if en_announced e then [Disposed k] else [])\<rparr>)"

text \<open>The capability \<open>enter\<close> returns.\<close>

definition detach :: "nat \<Rightarrow> store \<Rightarrow> store" where
  "detach k st =
     (if \<not> en_entered (st_entries st ! k) then st
      else let st1 = update_entry k (\<lambda>e. e\<lparr>en_entered := False\<rparr>) st; e = st_entries st1 ! k in
        if en_announcing e \<or> en_appending e then update_entry k (\<lambda>e. e\<lparr>en_detach_requested := True\<rparr>) st1
        else detachEntered k st1)"

definition liveEntryFor :: "nat \<Rightarrow> store \<Rightarrow> (store_error, nat) result" where
  "liveEntryFor r st = (case map_get (st_attached st) r of
     None \<Rightarrow> Inl (NotLive (object_id st r))
   | Some k \<Rightarrow> (if map_get (st_live st) (en_id (st_entries st ! k)) \<noteq> Some k then Inl (NotLive (object_id st r)) else Inr k))"

text \<open>\<open>announce\<close> up to its listeners, and its \<open>finally\<close> clause.\<close>

definition announce_begin :: "nat \<Rightarrow> store \<Rightarrow> (store_error, nat) result \<times> store" where
  "announce_begin r st = (case liveEntryFor r st of
     Inl x \<Rightarrow> (Inl x, st)
   | Inr k \<Rightarrow> let e = st_entries st ! k in
       if en_announced e \<or> en_announcing e then (Inl (AlreadyAnnounced (en_id e)), st)
       else (Inr k, (update_entry k (\<lambda>e. e\<lparr>en_announced := True, en_announcing := True\<rparr>) st)
               \<lparr>st_edges := st_edges st @ [Created k]\<rparr>))"

definition announce_finally :: "nat \<Rightarrow> store \<Rightarrow> store" where
  "announce_finally k st =
     (let st1 = update_entry k (\<lambda>e. e\<lparr>en_announcing := False\<rparr>) st; e = st_entries st1 ! k in
      if en_detach_requested e \<and> \<not> en_appending e then detachEntered k st1 else st1)"

text \<open>
  \<open>Session.append\<close> on an object of the store, up to its observers, and its \<open>finally\<close>
  clause. A veto of the internal dispatch runs the clause at once.
\<close>

definition append_finally :: "nat \<Rightarrow> store \<Rightarrow> store" where
  "append_finally k st =
     (let st1 = update_entry k (\<lambda>e. e\<lparr>en_appending := False\<rparr>) st; e = st_entries st1 ! k in
      if en_detach_requested e \<and> \<not> en_announcing e then detachEntered k st1 else st1)"

definition append_begin :: "nat \<Rightarrow> int \<Rightarrow> event_data \<Rightarrow> surface_intent \<Rightarrow> bool \<Rightarrow> store \<Rightarrow>
     (session_error, session_event) result \<times> store" where
  "append_begin r time d intent veto st =
     (case map_get (st_attached st) r of
        None \<Rightarrow> (case append_event (st_objects st ! r) time d intent Detached of
            (res, s) \<Rightarrow> (res, set_object r s st))
      | Some k \<Rightarrow>
          (case append_event (st_objects st ! r) time d intent (Attached (en_appending (st_entries st ! k)) veto) of
             (Inr e, s) \<Rightarrow> (Inr e, (update_entry k (\<lambda>en. en\<lparr>en_appending := True\<rparr>) (set_object r s st))
                              \<lparr>st_edges := st_edges st @ [Published k e]\<rparr>)
           | (Inl DispatchVeto, s) \<Rightarrow> (Inl DispatchVeto, append_finally k (set_object r s st))
           | (Inl x, s) \<Rightarrow> (Inl x, set_object r s st)))"

section \<open>Reads\<close>

definition get_session :: "string \<Rightarrow> store \<Rightarrow> nat option" where
  "get_session i st = map_option (\<lambda>k. en_session (st_entries st ! k)) (map_get (st_live st) i)"

definition list_sessions :: "store \<Rightarrow> nat list" where
  "list_sessions st = map (\<lambda>(i, k). en_session (st_entries st ! k)) (st_live st)"

text \<open>\<open>flush\<close>, with the outcome of every durability listener once all have settled.\<close>

definition flush_session :: "nat \<Rightarrow> string option list \<Rightarrow> store \<Rightarrow> (store_error, bool) result" where
  "flush_session r outcomes st = rbind (liveEntryFor r st) (\<lambda>_.
     case find (\<lambda>f. f \<noteq> None) outcomes of
       Some (Some f) \<Rightarrow> Inl (FlushFailed f) | _ \<Rightarrow> Inr (outcomes \<noteq> []))"

section \<open>Creation and forking\<close>

text \<open>
  \<open>create\<close> up to the listeners of its announcement, and from their return: a throwing listener
  rolls the entry back through the yielded detach. The listeners are a function of the new session
  and the store: whether one threw, and the store they leave, which they may have called.
\<close>

definition create_begin :: "string option \<Rightarrow> session_options \<Rightarrow> int \<Rightarrow> store \<Rightarrow> (store_error, nat \<times> nat) result \<times> store" where
  "create_begin i options now st =
     (case prepare i options now st of
        (Inl x, st1) \<Rightarrow> (Inl x, st1)
      | (Inr r, st1) \<Rightarrow> (case enter r st1 of
          (Inl x, st2) \<Rightarrow> (Inl x, st2)
        | (Inr k, st2) \<Rightarrow> (case announce_begin r st2 of
            (Inl x, st3) \<Rightarrow> (Inl x, detach k st3)
          | (Inr k', st3) \<Rightarrow> (Inr (r, k), st3))))"

definition create_end :: "nat \<Rightarrow> nat \<Rightarrow> bool \<Rightarrow> store \<Rightarrow> (store_error, nat) result \<times> store" where
  "create_end r k veto st =
     (let st1 = announce_finally k st in if veto then (Inl CreationVetoed, detach k st1) else (Inr r, st1))"

definition create ::
    "string option \<Rightarrow> session_options \<Rightarrow> int \<Rightarrow> (nat \<Rightarrow> store \<Rightarrow> bool \<times> store) \<Rightarrow> store \<Rightarrow> (store_error, nat) result \<times> store" where
  "create i options now listeners st =
     (case create_begin i options now st of
        (Inl x, st1) \<Rightarrow> (Inl x, st1)
      | (Inr (r, k), st1) \<Rightarrow> (case listeners r st1 of (veto, st2) \<Rightarrow> create_end r k veto st2))"

datatype fork_source = SourceObject nat | SourceId string

definition resolveForkSource :: "fork_source \<Rightarrow> store \<Rightarrow> (store_error, nat) result" where
  "resolveForkSource src st = (case src of
     SourceId i \<Rightarrow> (case get_session i st of None \<Rightarrow> Inl (ForkNotFound i) | Some r \<Rightarrow> Inr r)
   | SourceObject r \<Rightarrow> (case get_session (object_id st r) st of
       None \<Rightarrow> Inl (ForkNotFound (object_id st r))
     | Some l \<Rightarrow> (if l \<noteq> r then Inl (ForkNotLive (object_id st r)) else Inr r)))"

definition turn_boundary :: "session_event \<Rightarrow> bool" where
  "turn_boundary e = (case ev_data e of TurnStart _ \<Rightarrow> True | TurnEnd _ _ \<Rightarrow> True | _ \<Rightarrow> False)"

definition forkSeed_at :: "session_event list \<Rightarrow> int \<Rightarrow> (store_error, session_event list) result" where
  "forkSeed_at events boundary =
     (if \<not> safe_int boundary \<or> boundary < 0 then Inl (ForkBadBoundary boundary)
      else if int (length events) \<le> boundary then Inl (ForkBadBoundary boundary)
      else if ev_seq (events ! nat boundary) \<noteq> boundary then Inl (ForkBadBoundary boundary)
      else let prefix = take (Suc (nat boundary)) events in
        case find_last turn_boundary prefix of
          Some e \<Rightarrow> (case ev_data e of TurnStart t \<Rightarrow> Inl (ForkOpenTurn t) | _ \<Rightarrow> Inr prefix)
        | None \<Rightarrow> Inr prefix)"

definition forkSeed :: "session_event list \<Rightarrow> int option \<Rightarrow> (store_error, session_event list) result" where
  "forkSeed events requested = (case requested of
     Some b \<Rightarrow> forkSeed_at events b
   | None \<Rightarrow> (if events = [] then Inr [] else forkSeed_at events (ev_seq (last events))))"

definition fork ::
    "fork_source \<Rightarrow> int option \<Rightarrow> string option \<Rightarrow> int \<Rightarrow> (nat \<Rightarrow> store \<Rightarrow> bool \<times> store) \<Rightarrow> store \<Rightarrow> (store_error, nat) result \<times> store" where
  "fork src boundary child now listeners st =
     (case (case child of Some c \<Rightarrow> map_option (\<lambda>_. c) (get_session c st) | None \<Rightarrow> None) of
        Some c \<Rightarrow> (Inl (ForkExists c), st)
      | None \<Rightarrow> (case resolveForkSource src st of
          Inl x \<Rightarrow> (Inl x, st)
        | Inr r \<Rightarrow> (let s = st_objects st ! r in
            case forkSeed (se_log s) boundary of
              Inl x \<Rightarrow> (Inl x, st)
            | Inr seed \<Rightarrow> create child (CallerOptions (Some seed)
                (no_meta\<lparr>mt_cwd := sh_cwd (se_header s), mt_target := sh_target (se_header s),
                         mt_parent := Some (object_id st r), mt_seed_length := Some (int (length seed))\<rparr>)) now listeners st)))"


section \<open>Every interleaving\<close>

text \<open>
  One step of the program around the store: any call, by anyone, at any moment; the
  \<open>finally\<close> clauses run once their listeners have returned.
\<close>

inductive store_step :: "store \<Rightarrow> store \<Rightarrow> bool" where
  step_prepare: "prepare i options now st = (x, st') \<Longrightarrow> store_step st st'"
| step_enter: "r < length (st_objects st) \<Longrightarrow> enter r st = (y, st') \<Longrightarrow> store_step st st'"
| step_detach: "k < length (st_entries st) \<Longrightarrow> store_step st (detach k st)"
| step_announce: "r < length (st_objects st) \<Longrightarrow> announce_begin r st = (y, st') \<Longrightarrow> store_step st st'"
| step_announced: "k < length (st_entries st) \<Longrightarrow> en_announcing (st_entries st ! k) \<Longrightarrow> store_step st (announce_finally k st)"
| step_append: "r < length (st_objects st) \<Longrightarrow> append_begin r time d intent veto st = (z, st') \<Longrightarrow> store_step st st'"
| step_appended: "k < length (st_entries st) \<Longrightarrow> en_appending (st_entries st ! k) \<Longrightarrow> store_step st (append_finally k st)"
| step_read: "r < length (st_objects st) \<Longrightarrow> deriveMessages (st_objects st ! r) = (m, s) \<Longrightarrow> store_step st (set_object r s st)"
| step_header: "r < length (st_objects st) \<Longrightarrow> requestHeader (st_objects st ! r) = (h, s) \<Longrightarrow> store_step st (set_object r s st)"
| step_context: "r < length (st_objects st) \<Longrightarrow> requestContext (st_objects st ! r) = (c, s) \<Longrightarrow> store_step st (set_object r s st)"

inductive reachable :: "store \<Rightarrow> bool" where
  reach_start: "reachable empty_store"
| reach_step: "reachable st \<Longrightarrow> store_step st st' \<Longrightarrow> reachable st'"

inductive_cases store_stepE: "store_step st st'"

definition is_live :: "store \<Rightarrow> nat \<Rightarrow> bool" where
  "is_live st k \<longleftrightarrow> map_get (st_live st) (en_id (st_entries st ! k)) = Some k"

text \<open>The edges of one entry, and the life they may describe.\<close>

fun edge_entry :: "edge \<Rightarrow> nat" where
  "edge_entry (Created k) = k" | "edge_entry (Published k e) = k" | "edge_entry (Disposed k) = k"

definition edges_of :: "nat \<Rightarrow> edge list \<Rightarrow> edge list" where
  "edges_of k es = filter (\<lambda>e. edge_entry e = k) es"

datatype life = Silent | Alive | Over

fun life_step :: "life \<Rightarrow> edge \<Rightarrow> (unit, life) result" where
  "life_step Silent (Created k) = Inr Alive"
| "life_step Silent (Published k e) = Inr Silent"
| "life_step Alive (Published k e) = Inr Alive"
| "life_step Alive (Disposed k) = Inr Over"
| "life_step _ _ = Inl ()"

definition life_of :: "bool \<Rightarrow> bool \<Rightarrow> life" where
  "life_of live announced = (if announced then if live then Alive else Over else Silent)"

fun published :: "edge list \<Rightarrow> session_event list" where
  "published [] = []"
| "published (Published k e # es) = e # published es"
| "published (_ # es) = published es"

lemma published_append [simp]: "published (es @ fs) = published es @ published fs"
  by (induction es rule: published.induct) auto

lemma edges_of_append: "edges_of k (es @ fs) = edges_of k es @ edges_of k fs"
  by (simp add: edges_of_def)

lemma edges_of_one: "edges_of k [e] = (if edge_entry e = k then [e] else [])"
  by (simp add: edges_of_def)

lemmas edge_simps = edges_of_append edges_of_one

text \<open>What an entry has published is a segment of its session's log, up to the end while it is live.\<close>

definition published_ok :: "session_event list \<Rightarrow> bool \<Rightarrow> session_event list \<Rightarrow> bool" where
  "published_ok lg live es \<longleftrightarrow> (\<exists>n m. es = take m (drop n lg) \<and> n + m \<le> length lg \<and> (live \<longrightarrow> n + m = length lg))"

lemma published_ok_same: "published_ok lg live es \<Longrightarrow> (live' \<Longrightarrow> live) \<Longrightarrow> published_ok lg live' es"
  by (auto simp: published_ok_def)

lemma published_ok_quiet: "published_ok lg live es \<Longrightarrow> published_ok (lg @ [e]) False es"
  unfolding published_ok_def
proof (elim exE conjE)
  fix n m assume "es = take m (drop n lg)" "n + m \<le> length lg"
  then show "\<exists>n m. es = take m (drop n (lg @ [e])) \<and> n + m \<le> length (lg @ [e]) \<and> (False \<longrightarrow> n + m = length (lg @ [e]))"
    by (intro exI [of _ n] exI [of _ m]) auto
qed

lemma published_ok_loud: "published_ok lg True es \<Longrightarrow> published_ok (lg @ [e]) True (es @ [e])"
  unfolding published_ok_def
proof (elim exE conjE)
  fix n m assume a: "es = take m (drop n lg)" "n + m \<le> length lg" "True \<longrightarrow> n + m = length lg"
  then have "es = drop n lg" by simp
  with a show "\<exists>n m. es @ [e] = take m (drop n (lg @ [e])) \<and> n + m \<le> length (lg @ [e]) \<and> (True \<longrightarrow> n + m = length (lg @ [e]))"
    by (intro exI [of _ n] exI [of _ "Suc m"]) auto
qed

lemma published_ok_new: "published_ok lg live []"
  unfolding published_ok_def by (rule exI [of _ "length lg"], rule exI [of _ 0]) simp

section \<open>Invariants\<close>

text \<open>The tables, the objects and the edges agree.\<close>

definition tables_ok :: "store \<Rightarrow> bool" where
  "tables_ok st \<longleftrightarrow> map_ok (st_live st)
     \<and> (\<forall>i k. map_get (st_live st) i = Some k \<longrightarrow> k < length (st_entries st) \<and> en_id (st_entries st ! k) = i)
     \<and> (\<forall>r k. map_get (st_attached st) r = Some k \<longleftrightarrow> k < length (st_entries st) \<and> en_session (st_entries st ! k) = r \<and> is_live st k)
     \<and> (\<forall>s \<in> set (st_objects st). session_ok s)
     \<and> (\<forall>k < length (st_entries st). en_session (st_entries st ! k) < length (st_objects st)
          \<and> en_id (st_entries st ! k) = object_id st (en_session (st_entries st ! k)))"

definition edges_ok :: "store \<Rightarrow> bool" where
  "edges_ok st \<longleftrightarrow> (\<forall>k \<ge> length (st_entries st). edges_of k (st_edges st) = [])
     \<and> (\<forall>k < length (st_entries st). let e = st_entries st ! k in
          replay life_step Silent (edges_of k (st_edges st)) = Inr (life_of (is_live st k) (en_announced e))
        \<and> published_ok (se_log (st_objects st ! en_session e)) (is_live st k) (published (edges_of k (st_edges st))))"

text \<open>The flags of one entry: a requested detach only ever waits for a publication in progress.\<close>

definition flags_ok :: "bool \<Rightarrow> entry \<Rightarrow> bool" where
  "flags_ok live e \<longleftrightarrow>
     (\<not> live \<longrightarrow> \<not> en_entered e \<and> \<not> en_detach_requested e \<and> \<not> en_announcing e \<and> \<not> en_appending e)
   \<and> (en_detach_requested e \<longrightarrow> \<not> en_entered e \<and> (en_announcing e \<or> en_appending e))
   \<and> (live \<and> \<not> en_entered e \<longrightarrow> en_detach_requested e)
   \<and> (en_announcing e \<longrightarrow> en_announced e)"

definition store_ok :: "store \<Rightarrow> bool" where
  "store_ok st \<longleftrightarrow> tables_ok st \<and> edges_ok st \<and> (\<forall>k < length (st_entries st). flags_ok (is_live st k) (st_entries st ! k))"

lemma update_entry_simps [simp]:
  "st_objects (update_entry k f st) = st_objects st" "st_live (update_entry k f st) = st_live st"
  "st_attached (update_entry k f st) = st_attached st" "st_edges (update_entry k f st) = st_edges st"
  "length (st_entries (update_entry k f st)) = length (st_entries st)"
  "k < length (st_entries st) \<Longrightarrow> st_entries (update_entry k f st) ! j = (if j = k then f (st_entries st ! k) else st_entries st ! j)"
  "object_id (update_entry k f st) r = object_id st r"
  by (simp_all add: update_entry_def object_id_def)

text \<open>Changing the flags of one entry.\<close>

lemma update_entry_base:
  assumes "k < length (st_entries st)" "\<And>e. en_id (f e) = en_id e" "\<And>e. en_session (f e) = en_session e"
  shows "tables_ok st \<Longrightarrow> tables_ok (update_entry k f st)" and "is_live (update_entry k f st) j = is_live st j"
proof -
  show live: "is_live (update_entry k f st) j = is_live st j" for j
    using assms by (simp add: is_live_def)
  show "tables_ok st \<Longrightarrow> tables_ok (update_entry k f st)"
    using assms by (simp add: tables_ok_def live)
qed

lemma update_entry_edges:
  assumes "k < length (st_entries st)" "\<And>e. en_id (f e) = en_id e" "\<And>e. en_session (f e) = en_session e"
    "\<And>e. en_announced (f e) = en_announced e" "edges_ok st"
  shows "edges_ok (update_entry k f st)"
  using assms by (simp add: edges_ok_def update_entry_base Let_def)


text \<open>Replacing an object by a session in order with the same header and a log at least as long.\<close>

lemma set_object_simps [simp]:
  "st_entries (set_object r s st) = st_entries st" "st_live (set_object r s st) = st_live st"
  "st_attached (set_object r s st) = st_attached st" "st_edges (set_object r s st) = st_edges st"
  "length (st_objects (set_object r s st)) = length (st_objects st)"
  "is_live (set_object r s st) k = is_live st k"
  "r < length (st_objects st) \<Longrightarrow> st_objects (set_object r s st) ! q = (if q = r then s else st_objects st ! q)"
  by (simp_all add: set_object_def is_live_def)

lemma set_object_tables:
  assumes "tables_ok st" "r < length (st_objects st)" "session_ok s" "se_header s = se_header (st_objects st ! r)"
  shows "tables_ok (set_object r s st)"
proof -
  have "object_id (set_object r s st) q = object_id st q" for q
    using assms(2,4) by (simp add: object_id_def)
  moreover have "\<forall>x \<in> set (st_objects (set_object r s st)). session_ok x"
    using assms(1,3) by (auto simp: set_object_def tables_ok_def dest: set_update_subset_insert [THEN subsetD])
  ultimately show ?thesis
    using assms(1) by (simp add: tables_ok_def)
qed

lemma set_object_same_log:
  assumes "store_ok st" "r < length (st_objects st)" "session_ok s" "se_header s = se_header (st_objects st ! r)"
    and "se_log s = se_log (st_objects st ! r)"
  shows "store_ok (set_object r s st)"
proof -
  have "se_log (st_objects (set_object r s st) ! q) = se_log (st_objects st ! q)" for q
    using assms(2,5) by simp
  with assms(1) have "edges_ok (set_object r s st)"
    by (simp add: store_ok_def edges_ok_def)
  with set_object_tables [OF _ assms(2-4)] assms(1) show ?thesis
    by (simp add: store_ok_def)
qed

section \<open>What each call keeps\<close>

lemma detachEntered_ok:
  assumes t: "tables_ok st" and e: "edges_ok st" and k: "k < length (st_entries st)" and live: "is_live st k"
    and rest: "\<And>j. j < length (st_entries st) \<Longrightarrow> j \<noteq> k \<Longrightarrow> flags_ok (is_live st j) (st_entries st ! j)"
    and me: "\<not> en_entered (st_entries st ! k)" "\<not> en_announcing (st_entries st ! k)" "\<not> en_appending (st_entries st ! k)"
  shows "store_ok (detachEntered k st) \<and> \<not> is_live (detachEntered k st) k"
proof -
  let ?e = "st_entries st ! k" and ?st = "detachEntered k st"
  let ?f = "\<lambda>e. e\<lparr>en_detach_requested := False\<rparr>"
  have st: "?st = (update_entry k ?f st)\<lparr>st_live := map_delete (en_id ?e) (st_live st),
      st_attached := map_delete (en_session ?e) (st_attached st),
      st_edges := st_edges st @ (if en_announced ?e then [Disposed k] else [])\<rparr>"
    using live k by (simp add: detachEntered_def Let_def is_live_def)
  have entries: "st_entries ?st ! j = (if j = k then ?f ?e else st_entries st ! j)" for j
    using k by (simp add: st)
  have len: "length (st_entries ?st) = length (st_entries st)" by (simp add: st)
  have ids: "en_id (st_entries ?st ! j) = en_id (st_entries st ! j)"
      "en_session (st_entries ?st ! j) = en_session (st_entries st ! j)"
      "en_announced (st_entries ?st ! j) = en_announced (st_entries st ! j)" for j
    by (simp_all add: entries)
  have lives: "is_live ?st j \<longleftrightarrow> j \<noteq> k \<and> is_live st j" if "j < length (st_entries st)" for j
    using live ids unfolding is_live_def by (auto simp: st map_simps)
  have objs: "st_objects ?st = st_objects st" "object_id ?st q = object_id st q" for q
    by (simp_all add: st object_id_def)
  have one: "is_live st j \<Longrightarrow> en_session (st_entries st ! j) = en_session ?e \<Longrightarrow> j < length (st_entries st) \<Longrightarrow> j = k" for j
    using t live k unfolding tables_ok_def by (metis option.inject)
  have "tables_ok ?st"
    unfolding tables_ok_def len objs ids
  proof (intro conjI allI impI)
    show "map_ok (st_live ?st)" using t by (simp add: st tables_ok_def map_simps)
    fix i j assume "map_get (st_live ?st) i = Some j"
    then show "j < length (st_entries st)" "en_id (st_entries st ! j) = i"
      using t by (auto simp: st map_simps tables_ok_def split: if_splits)
  next
    fix r j
    have "map_get (st_attached ?st) r = Some j \<longleftrightarrow> r \<noteq> en_session ?e \<and> map_get (st_attached st) r = Some j"
      by (simp add: st map_simps)
    also have "\<dots> \<longleftrightarrow> r \<noteq> en_session ?e \<and> j < length (st_entries st) \<and> en_session (st_entries st ! j) = r \<and> is_live st j"
      using t by (auto simp: tables_ok_def)
    also have "\<dots> \<longleftrightarrow> j < length (st_entries st) \<and> en_session (st_entries st ! j) = r \<and> is_live ?st j"
      using one lives by auto
    finally show "map_get (st_attached ?st) r = Some j \<longleftrightarrow> j < length (st_entries st) \<and> en_session (st_entries st ! j) = r \<and> is_live ?st j" .
  qed (use t in \<open>auto simp: tables_ok_def\<close>)
  moreover have "edges_ok ?st"
    unfolding edges_ok_def len objs ids Let_def
  proof (intro conjI allI impI)
    fix j assume j: "j \<ge> length (st_entries st)"
    then have "edges_of j (if en_announced ?e then [Disposed k] else []) = []"
      using k by (simp add: edges_of_def)
    with e j show "edges_of j (st_edges ?st) = []" by (simp add: st edges_ok_def edge_simps)
  next
    fix j assume j: "j < length (st_entries st)"
    have old: "replay life_step Silent (edges_of j (st_edges st)) = Inr (life_of (is_live st j) (en_announced (st_entries st ! j)))"
      "published_ok (se_log (st_objects st ! en_session (st_entries st ! j))) (is_live st j) (published (edges_of j (st_edges st)))"
      using e j by (simp_all add: edges_ok_def Let_def)
    show "replay life_step Silent (edges_of j (st_edges ?st)) = Inr (life_of (is_live ?st j) (en_announced (st_entries st ! j)))"
      using old(1) lives [OF j] live by (auto simp: st edge_simps replay_append life_of_def edges_of_def)
    have "published (edges_of j (st_edges ?st)) = published (edges_of j (st_edges st))"
      by (auto simp: st edge_simps edges_of_def)
    with old(2) lives [OF j] show "published_ok (se_log (st_objects st ! en_session (st_entries st ! j))) (is_live ?st j) (published (edges_of j (st_edges ?st)))"
      by (auto intro: published_ok_same)
  qed
  moreover have "flags_ok (is_live ?st j) (st_entries ?st ! j)" if "j < length (st_entries st)" for j
    using rest [OF that] lives [OF that] me by (auto simp: entries flags_ok_def)
  ultimately show ?thesis
    using lives [OF k] by (simp add: store_ok_def len)
qed


text \<open>A flag of a live entry changes, and then perhaps the entry goes.\<close>

lemma flag_change_ok:
  assumes ok: "store_ok st" and k: "k < length (st_entries st)"
    and f: "\<And>e. en_id (f e) = en_id e" "\<And>e. en_session (f e) = en_session e" "\<And>e. en_announced (f e) = en_announced e"
    and fl: "flags_ok (is_live st k) (f (st_entries st ! k))"
  shows "store_ok (update_entry k f st)"
  using ok fl k update_entry_base [OF k f(1,2)] update_entry_edges [OF k f]
  by (simp add: store_ok_def)

lemma detach_after_flag:
  assumes ok: "store_ok st" and k: "k < length (st_entries st)" and live: "is_live st k"
    and f: "\<And>e. en_id (f e) = en_id e" "\<And>e. en_session (f e) = en_session e" "\<And>e. en_announced (f e) = en_announced e"
    and fl: "\<not> en_entered (f (st_entries st ! k))" "\<not> en_announcing (f (st_entries st ! k))" "\<not> en_appending (f (st_entries st ! k))"
  shows "store_ok (detachEntered k (update_entry k f st)) \<and> \<not> is_live (detachEntered k (update_entry k f st)) k"
  using ok k live fl update_entry_base [OF k f(1,2)] update_entry_edges [OF k f]
  by (intro detachEntered_ok) (simp_all add: store_ok_def)

lemma requested_live: "store_ok st \<Longrightarrow> k < length (st_entries st) \<Longrightarrow> en_detach_requested (st_entries st ! k) \<Longrightarrow> is_live st k"
  by (auto simp: store_ok_def flags_ok_def)

lemma detach_ok:
  assumes ok: "store_ok st" and k: "k < length (st_entries st)"
  shows "store_ok (detach k st)"
proof (cases "en_entered (st_entries st ! k)")
  case False
  with ok show ?thesis by (simp add: detach_def)
next
  case True
  have fl: "flags_ok (is_live st k) (st_entries st ! k)" using ok k by (simp add: store_ok_def)
  with True have live: "is_live st k" by (auto simp: flags_ok_def)
  show ?thesis
  proof (cases "en_announcing (st_entries st ! k) \<or> en_appending (st_entries st ! k)")
    case busy: True
    have "detach k st = update_entry k (\<lambda>e. e\<lparr>en_entered := False, en_detach_requested := True\<rparr>) st"
      using True busy k by (simp add: detach_def Let_def update_entry_def)
    moreover have "store_ok (update_entry k (\<lambda>e. e\<lparr>en_entered := False, en_detach_requested := True\<rparr>) st)"
      by (rule flag_change_ok [OF ok k]) (use fl busy live in \<open>auto simp: flags_ok_def\<close>)
    ultimately show ?thesis by simp
  next
    case idle: False
    then have "detach k st = detachEntered k (update_entry k (\<lambda>e. e\<lparr>en_entered := False\<rparr>) st)"
      using True k by (simp add: detach_def Let_def)
    with detach_after_flag [OF ok k live, of "\<lambda>e. e\<lparr>en_entered := False\<rparr>"] idle show ?thesis by simp
  qed
qed

lemma announce_finally_ok:
  assumes ok: "store_ok st" and k: "k < length (st_entries st)"
  shows "store_ok (announce_finally k st)"
proof -
  let ?f = "\<lambda>e. e\<lparr>en_announcing := False\<rparr>" and ?e = "st_entries st ! k"
  have fl: "flags_ok (is_live st k) ?e" using ok k by (simp add: store_ok_def)
  show ?thesis
  proof (cases "en_detach_requested ?e \<and> \<not> en_appending ?e")
    case True
    then have "announce_finally k st = detachEntered k (update_entry k ?f st)"
      using k by (simp add: announce_finally_def Let_def)
    with detach_after_flag [OF ok k requested_live [OF ok k], of ?f] True fl show ?thesis by (simp add: flags_ok_def)
  next
    case False
    then have "announce_finally k st = update_entry k ?f st"
      using k by (auto simp: announce_finally_def Let_def)
    moreover have "store_ok (update_entry k ?f st)"
      by (rule flag_change_ok [OF ok k]) (use fl False in \<open>auto simp: flags_ok_def\<close>)
    ultimately show ?thesis by simp
  qed
qed

lemma append_finally_ok:
  assumes ok: "store_ok st" and k: "k < length (st_entries st)"
  shows "store_ok (append_finally k st)"
proof -
  let ?f = "\<lambda>e. e\<lparr>en_appending := False\<rparr>" and ?e = "st_entries st ! k"
  have fl: "flags_ok (is_live st k) ?e" using ok k by (simp add: store_ok_def)
  show ?thesis
  proof (cases "en_detach_requested ?e \<and> \<not> en_announcing ?e")
    case True
    then have "append_finally k st = detachEntered k (update_entry k ?f st)"
      using k by (simp add: append_finally_def Let_def)
    with detach_after_flag [OF ok k requested_live [OF ok k], of ?f] True fl show ?thesis by (simp add: flags_ok_def)
  next
    case False
    then have "append_finally k st = update_entry k ?f st"
      using k by (auto simp: append_finally_def Let_def)
    moreover have "store_ok (update_entry k ?f st)"
      by (rule flag_change_ok [OF ok k]) (use fl False in \<open>auto simp: flags_ok_def\<close>)
    ultimately show ?thesis by simp
  qed
qed

lemma attached_entry:
  assumes "store_ok st" "map_get (st_attached st) r = Some k"
  shows "k < length (st_entries st) \<and> en_session (st_entries st ! k) = r \<and> is_live st k"
  using assms by (simp add: store_ok_def tables_ok_def)

lemma liveEntryFor_iff:
  assumes "store_ok st"
  shows "liveEntryFor r st = (case map_get (st_attached st) r of None \<Rightarrow> Inl (NotLive (object_id st r)) | Some k \<Rightarrow> Inr k)"
  using attached_entry [OF assms] by (auto simp: liveEntryFor_def is_live_def split: option.split)

lemma announce_begin_ok:
  assumes ok: "store_ok st" and run: "announce_begin r st = (y, st')"
  shows "store_ok st'"
proof (cases "\<exists>k. liveEntryFor r st = Inr k \<and> \<not> en_announced (st_entries st ! k) \<and> \<not> en_announcing (st_entries st ! k)")
  case False
  with run ok show ?thesis by (auto simp: announce_begin_def Let_def split: sum.splits if_splits)
next
  case True
  then obtain k where at': "map_get (st_attached st) r = Some k" and quiet: "\<not> en_announced (st_entries st ! k)" "\<not> en_announcing (st_entries st ! k)"
    using liveEntryFor_iff [OF ok] by (auto split: option.splits)
  let ?f = "\<lambda>e. e\<lparr>en_announced := True, en_announcing := True\<rparr>"
  have st': "st' = (update_entry k ?f st)\<lparr>st_edges := st_edges st @ [Created k]\<rparr>"
    using run at' quiet liveEntryFor_iff [OF ok] by (auto simp: announce_begin_def Let_def)
  from attached_entry [OF ok at'] have k: "k < length (st_entries st)" and live: "is_live st k" by auto
  have lives: "is_live st' j = is_live st j" for j
    using k by (simp add: st' is_live_def)
  have "tables_ok (update_entry k ?f st)"
    using update_entry_base(1) [OF k] ok by (simp add: store_ok_def)
  then have "tables_ok st'" by (simp add: st' tables_ok_def is_live_def object_id_def)
  moreover have "edges_ok st'"
    using ok k live quiet lives
    by (auto simp: edges_ok_def store_ok_def Let_def st' edge_simps replay_append life_of_def)
  moreover have "flags_ok (is_live st' j) (st_entries st' ! j)" if "j < length (st_entries st)" for j
  proof -
    have "st_entries st' ! j = (if j = k then ?f (st_entries st ! k) else st_entries st ! j)"
      using k by (simp add: st')
    moreover have "flags_ok (is_live st j) (st_entries st ! j)" using ok that by (simp add: store_ok_def)
    ultimately show ?thesis using live by (auto simp: lives flags_ok_def)
  qed
  ultimately show ?thesis by (simp add: store_ok_def st')
qed


text \<open>An event that the append path accepted, with its edge when the session is attached.\<close>

lemma append_event_facts:
  assumes "session_ok s" "append_event s time d intent at' = (z, s')"
  shows "session_ok s' \<and> se_header s' = se_header s
     \<and> (case z of Inl _ \<Rightarrow> se_log s' = se_log s | Inr e \<Rightarrow> se_log s' = se_log s @ [e])"
proof -
  have "se_header s' = se_header s"
    using assms(2) by (auto simp: append_event_def Let_def split: if_splits prod.splits option.splits)
  with append_event_ok [OF assms] show ?thesis by (auto split: sum.splits)
qed

lemma push_ok:
  assumes ok: "store_ok st" and r: "r < length (st_objects st)"
    and s: "session_ok s" "se_header s = se_header (st_objects st ! r)" "se_log s = se_log (st_objects st ! r) @ [e]"
    and edge: "pub = (case map_get (st_attached st) r of Some k \<Rightarrow> [Published k e] | None \<Rightarrow> [])"
  shows "store_ok ((set_object r s st)\<lparr>st_edges := st_edges st @ pub\<rparr>)"
proof -
  let ?st = "(set_object r s st)\<lparr>st_edges := st_edges st @ pub\<rparr>"
  have tab: "tables_ok st" and ed: "edges_ok st" using ok by (simp_all add: store_ok_def)
  have "tables_ok (set_object r s st)" by (rule set_object_tables [OF tab r s(1,2)])
  then have "tables_ok ?st" by (simp add: tables_ok_def is_live_def object_id_def)
  moreover have lives: "is_live ?st j = is_live st j" for j by (simp add: is_live_def)
  have pub_live: "map_get (st_attached st) q = Some j \<longleftrightarrow> j < length (st_entries st) \<and> en_session (st_entries st ! j) = q \<and> is_live st j" for q j
    using tab by (simp add: tables_ok_def)
  have "edges_ok ?st"
    unfolding edges_ok_def lives Let_def
  proof (intro conjI allI impI)
    fix j assume j: "j \<ge> length (st_entries ?st)"
    then have "edges_of j pub = []"
      using pub_live [of r j] edge by (auto simp: edges_of_def split: option.splits)
    with ed j show "edges_of j (st_edges ?st) = []" by (simp add: edges_ok_def edge_simps)
  next
    fix j assume "j < length (st_entries ?st)"
    then have j: "j < length (st_entries st)" by simp
    let ?q = "en_session (st_entries st ! j)" and ?E = "edges_of j (st_edges st)"
    have old: "replay life_step Silent ?E = Inr (life_of (is_live st j) (en_announced (st_entries st ! j)))"
      "published_ok (se_log (st_objects st ! ?q)) (is_live st j) (published ?E)"
      using ed j by (simp_all add: edges_ok_def Let_def)
    have mine: "edges_of j pub = (if ?q = r \<and> is_live st j then [Published j e] else [])"
      using pub_live [of r j] j edge by (cases "map_get (st_attached st) r") (auto simp: edges_of_def)
    show "replay life_step Silent (edges_of j (st_edges ?st)) = Inr (life_of (is_live st j) (en_announced (st_entries ?st ! j)))"
      using old(1) by (auto simp: edge_simps mine replay_append life_of_def)
    have log: "se_log (st_objects ?st ! ?q) = (if ?q = r then se_log (st_objects st ! ?q) @ [e] else se_log (st_objects st ! ?q))"
      using r s(3) by simp
    have pub: "edges_of j (st_edges ?st) = ?E @ (if ?q = r \<and> is_live st j then [Published j e] else [])"
      by (simp add: edge_simps mine)
    have "published_ok (se_log (st_objects ?st ! ?q)) (is_live st j) (published (edges_of j (st_edges ?st)))"
    proof (cases "?q = r")
      case False
      with old(2) show ?thesis unfolding pub log by simp
    next
      case True
      show ?thesis
      proof (cases "is_live st j")
        case live: True
        with old(2) have "published_ok (se_log (st_objects st ! ?q)) True (published ?E)" by simp
        from published_ok_loud [OF this, of e] show ?thesis unfolding pub log using True live by simp
      next
        case dead: False
        from published_ok_quiet [OF old(2), of e] show ?thesis unfolding pub log using True dead by simp
      qed
    qed
    then show "published_ok (se_log (st_objects ?st ! en_session (st_entries ?st ! j))) (is_live st j) (published (edges_of j (st_edges ?st)))"
      by simp
  qed
  ultimately show ?thesis
    using ok by (simp add: store_ok_def lives)
qed

lemma append_begin_ok:
  assumes ok: "store_ok st" and r: "r < length (st_objects st)" and run: "append_begin r time d intent veto st = (z, st')"
  shows "store_ok st'"
proof -
  let ?s = "st_objects st ! r"
  have sok: "session_ok ?s" using ok r by (simp add: store_ok_def tables_ok_def)
  show ?thesis
  proof (cases "map_get (st_attached st) r")
    case None
    obtain q s where ap: "append_event ?s time d intent Detached = (q, s)" by fastforce
    note f = append_event_facts [OF sok ap]
    have st': "st' = set_object r s st" using run None ap by (simp add: append_begin_def)
    show ?thesis
    proof (cases q)
      case (Inl x)
      with f st' show ?thesis using set_object_same_log [OF ok r] by auto
    next
      case (Inr e)
      have "(set_object r s st)\<lparr>st_edges := st_edges st @ []\<rparr> = set_object r s st" by (simp add: set_object_def)
      moreover have "store_ok ((set_object r s st)\<lparr>st_edges := st_edges st @ []\<rparr>)"
        by (rule push_ok [OF ok r]) (use f Inr None in auto)
      ultimately show ?thesis using st' by metis
    qed
  next
    case (Some k)
    obtain q s where ap: "append_event ?s time d intent (Attached (en_appending (st_entries st ! k)) veto) = (q, s)" by fastforce
    note f = append_event_facts [OF sok ap] and en = attached_entry [OF ok Some]
    show ?thesis
    proof (cases q)
      case (Inl x)
      then have same: "store_ok (set_object r s st)" using f set_object_same_log [OF ok r] by auto
      have "st' = (if x = DispatchVeto then append_finally k (set_object r s st) else set_object r s st)"
        using run Some ap Inl by (cases x) (simp_all add: append_begin_def)
      with same append_finally_ok [OF same] en show ?thesis by auto
    next
      case (Inr e)
      let ?f = "\<lambda>en. en\<lparr>en_appending := True\<rparr>"
      let ?st = "(set_object r s st)\<lparr>st_edges := st_edges st @ [Published k e]\<rparr>"
      have pushed: "store_ok ?st"
        by (rule push_ok [OF ok r]) (use f Inr Some in auto)
      have live: "is_live ?st k" using en by (simp add: is_live_def)
      then have "flags_ok (is_live ?st k) (?f (st_entries ?st ! k))"
        using pushed en by (auto simp: store_ok_def flags_ok_def)
      then have "store_ok (update_entry k ?f ?st)"
        using en by (intro flag_change_ok [OF pushed]) simp_all
      moreover have "st' = update_entry k ?f ?st"
        using run Some ap Inr by (cases st) (auto simp: append_begin_def update_entry_def set_object_def)
      ultimately show ?thesis by simp
    qed
  qed
qed

lemma enter_ok:
  assumes ok: "store_ok st" and r: "r < length (st_objects st)" and run: "enter r st = (y, st')"
  shows "store_ok st'"
proof (cases y)
  case (Inl x)
  with run ok show ?thesis by (auto simp: enter_def Let_def split: if_splits)
next
  case (Inr k)
  let ?i = "object_id st r" and ?n = "length (st_entries st)"
  let ?e = "\<lparr>en_id = ?i, en_session = r, en_announced = False, en_announcing = False, en_appending = False,
     en_detach_requested = False, en_entered = True\<rparr>"
  have fresh: "map_get (st_live st) ?i = None" "map_get (st_attached st) r = None"
    and st': "st' = st\<lparr>st_entries := st_entries st @ [?e], st_live := map_set ?i ?n (st_live st), st_attached := map_set r ?n (st_attached st)\<rparr>"
    using run Inr by (auto simp: enter_def Let_def split: if_splits)
  have tab: "tables_ok st" and ed: "edges_ok st" using ok by (simp_all add: store_ok_def)
  have entries: "st_entries st' ! j = (if j = ?n then ?e else st_entries st ! j)" if "j \<le> ?n" for j
    using that by (auto simp: st' nth_append)
  have lives: "is_live st' j \<longleftrightarrow> j = ?n \<or> is_live st j" if "j \<le> ?n" for j
    using that fresh(1) tab unfolding is_live_def entries [OF that] by (auto simp: st' map_simps tables_ok_def)
  have dead: "\<not> is_live st j" if "j = ?n" for j
    using tab that unfolding is_live_def tables_ok_def by blast
  have "tables_ok st'"
    unfolding tables_ok_def
  proof (intro conjI allI impI)
    show "map_ok (st_live st')" using tab by (simp add: st' tables_ok_def map_simps)
    fix i j assume "map_get (st_live st') i = Some j"
    then have "i = ?i \<and> j = ?n \<or> i \<noteq> ?i \<and> j < ?n \<and> en_id (st_entries st ! j) = i"
      using tab by (auto simp: st' map_simps tables_ok_def split: if_splits)
    then show "j < length (st_entries st')" "en_id (st_entries st' ! j) = i"
      using entries [of j] by (auto simp: st')
  next
    fix q j
    show "map_get (st_attached st') q = Some j \<longleftrightarrow> j < length (st_entries st') \<and> en_session (st_entries st' ! j) = q \<and> is_live st' j"
    proof (cases "j \<le> ?n")
      case False
      have "map_get (st_attached st') q = Some j \<Longrightarrow> j = ?n \<or> j < ?n"
        using tab by (auto simp: st' map_simps tables_ok_def split: if_splits)
      with False show ?thesis by (auto simp: st')
    next
      case True
      have "map_get (st_attached st) q = Some j \<longleftrightarrow> j < ?n \<and> en_session (st_entries st ! j) = q \<and> is_live st j"
        using tab by (simp add: tables_ok_def)
      moreover have "map_get (st_attached st) r \<noteq> Some j" using fresh(2) by simp
      then have "j < ?n \<Longrightarrow> is_live st j \<Longrightarrow> en_session (st_entries st ! j) \<noteq> r"
        using tab by (simp add: tables_ok_def)
      moreover have "length (st_entries st') = Suc ?n" by (simp add: st')
      ultimately show ?thesis
        using True dead unfolding entries [OF True] lives [OF True] by (auto simp: st' map_simps)
    qed
  next
    fix j assume "j < length (st_entries st')"
    then have "j = ?n \<or> j < ?n" by (auto simp: st')
    then show "en_session (st_entries st' ! j) < length (st_objects st')"
      "en_id (st_entries st' ! j) = object_id st' (en_session (st_entries st' ! j))"
      using tab r entries [of j] by (auto simp: st' tables_ok_def object_id_def)
  qed (use tab in \<open>simp add: st' tables_ok_def\<close>)
  moreover have "edges_ok st'"
    unfolding edges_ok_def Let_def
  proof (intro conjI allI impI)
    fix j assume "j \<ge> length (st_entries st')"
    with ed show "edges_of j (st_edges st') = []" by (simp add: st' edges_ok_def)
  next
    fix j assume "j < length (st_entries st')"
    then have j: "j \<le> ?n" by (simp add: st')
    show "replay life_step Silent (edges_of j (st_edges st')) = Inr (life_of (is_live st' j) (en_announced (st_entries st' ! j)))"
      "published_ok (se_log (st_objects st' ! en_session (st_entries st' ! j))) (is_live st' j) (published (edges_of j (st_edges st')))"
      using ed j dead unfolding entries [OF j] lives [OF j]
      by (auto simp: st' edges_ok_def Let_def life_of_def published_ok_new)
  qed
  moreover have "flags_ok (is_live st' j) (st_entries st' ! j)" if "j \<le> ?n" for j
    using ok that unfolding entries [OF that] lives [OF that] by (auto simp: store_ok_def flags_ok_def)
  ultimately show ?thesis by (simp add: store_ok_def st')
qed


lemma prepare_keeps:
  assumes ok: "store_ok st" and run: "prepare i options now st = (x, st')"
  shows "store_ok st' \<and> st_live st' = st_live st \<and> st_attached st' = st_attached st
     \<and> st_entries st' = st_entries st \<and> st_edges st' = st_edges st
     \<and> (case x of Inl _ \<Rightarrow> st_objects st' = st_objects st
        | Inr r \<Rightarrow> r = length (st_objects st) \<and> (\<exists>s. st_objects st' = st_objects st @ [s]))"
proof -
  obtain sid c where sc: "(case i of Some sid \<Rightarrow> (sid, st_counter st) | None \<Rightarrow> mint (st_counter st) (st_live st)) = (sid, c)"
    by fastforce
  let ?made = "case options of PersistenceOptions seed meta \<Rightarrow> restore_session sid seed meta now
      | CallerOptions seed meta \<Rightarrow> create_session (meta_header sid meta now) seed now"
  have made: "session_ok s" if "?made = Inr s" for s
    using that constructed_ok
    by (auto simp: restore_session_def create_session_def split: session_options.splits sum.splits)
  have "is_live (st\<lparr>st_counter := c\<rparr>) j = is_live st j" "object_id (st\<lparr>st_counter := c\<rparr>) q = object_id st q" for j q
    by (simp_all add: is_live_def object_id_def)
  then have "store_ok (st\<lparr>st_counter := c\<rparr>)"
    using ok by (simp add: store_ok_def tables_ok_def edges_ok_def)
  moreover have "store_ok (st\<lparr>st_counter := c, st_objects := st_objects st @ [s]\<rparr>)" if s: "session_ok s" for s
  proof -
    let ?st = "st\<lparr>st_counter := c, st_objects := st_objects st @ [s]\<rparr>"
    have live: "is_live ?st j = is_live st j" for j by (simp add: is_live_def)
    have obj: "q < length (st_objects st) \<Longrightarrow> st_objects ?st ! q = st_objects st ! q"
      "q < length (st_objects st) \<Longrightarrow> object_id ?st q = object_id st q" for q
      by (simp_all add: nth_append object_id_def)
    have tab: "tables_ok st" using ok by (simp add: store_ok_def)
    then have ses: "k < length (st_entries st) \<Longrightarrow> en_session (st_entries st ! k) < length (st_objects st)" for k
      by (simp add: tables_ok_def)
    have "tables_ok ?st" using tab s obj(2) unfolding tables_ok_def live by auto
    moreover have "edges_ok ?st" using ok obj(1) ses unfolding edges_ok_def live store_ok_def Let_def by simp
    ultimately show ?thesis using ok unfolding store_ok_def live by simp
  qed
  moreover have run': "(if map_get (st_live st) sid \<noteq> None then (Inl (AlreadyExists sid), st\<lparr>st_counter := c\<rparr>)
      else case ?made of Inl y \<Rightarrow> (Inl y, st\<lparr>st_counter := c\<rparr>)
         | Inr s \<Rightarrow> (Inr (length (st_objects st)), st\<lparr>st_counter := c, st_objects := st_objects st @ [s]\<rparr>)) = (x, st')"
    using run unfolding prepare_def sc by (cases "?made") (auto simp: Let_def)
  ultimately show ?thesis
    using made by (cases "map_get (st_live st) sid = None"; cases "?made") auto
qed

lemma reads_keep:
  assumes "session_ok s"
  shows "deriveMessages s = (m, s') \<Longrightarrow> session_ok s' \<and> se_log s' = se_log s \<and> se_header s' = se_header s"
    and "requestHeader s = (h, s') \<Longrightarrow> session_ok s' \<and> se_log s' = se_log s \<and> se_header s' = se_header s"
    and "requestContext s = (c, s') \<Longrightarrow> session_ok s' \<and> se_log s' = se_log s \<and> se_header s' = se_header s"
proof -
  have "se_header s' = se_header s" if "deriveMessages s = (m, s')"
    using that by (auto simp: deriveMessages_def Let_def split: prod.splits option.splits if_splits)
  then show "deriveMessages s = (m, s') \<Longrightarrow> session_ok s' \<and> se_log s' = se_log s \<and> se_header s' = se_header s"
    using deriveMessages_ok [OF assms, of m s'] by simp
  show "requestHeader s = (h, s') \<Longrightarrow> session_ok s' \<and> se_log s' = se_log s \<and> se_header s' = se_header s"
    using requestHeader_ok [OF assms, of h s'] by (auto simp: requestHeader_def Let_def)
  show "requestContext s = (c, s') \<Longrightarrow> session_ok s' \<and> se_log s' = se_log s \<and> se_header s' = se_header s"
    using requestContext_ok [OF assms, of c s'] by (auto simp: requestContext_def Let_def)
qed

lemma object_ok: "store_ok st \<Longrightarrow> r < length (st_objects st) \<Longrightarrow> session_ok (st_objects st ! r)"
  by (simp add: store_ok_def tables_ok_def)

lemma store_step_ok:
  assumes "store_ok st" "store_step st st'"
  shows "store_ok st'"
  using assms(2)
proof cases
  case (step_read r m s)
  with assms(1) reads_keep(1) [OF object_ok [OF assms(1) step_read(2)] step_read(3)] show ?thesis
    by (auto intro: set_object_same_log)
next
  case (step_header r h s)
  with assms(1) reads_keep(2) [OF object_ok [OF assms(1) step_header(2)] step_header(3)] show ?thesis
    by (auto intro: set_object_same_log)
next
  case (step_context r c s)
  with assms(1) reads_keep(3) [OF object_ok [OF assms(1) step_context(2)] step_context(3)] show ?thesis
    by (auto intro: set_object_same_log)
next
  case step_prepare
  with prepare_keeps [OF assms(1)] show ?thesis by blast
next
  case step_enter
  with enter_ok [OF assms(1)] show ?thesis by blast
next
  case step_detach
  with detach_ok [OF assms(1)] show ?thesis by simp
next
  case step_announce
  with announce_begin_ok [OF assms(1)] show ?thesis by blast
next
  case step_announced
  with announce_finally_ok [OF assms(1)] show ?thesis by simp
next
  case step_append
  with append_begin_ok [OF assms(1)] show ?thesis by blast
next
  case step_appended
  with append_finally_ok [OF assms(1)] show ?thesis by simp
qed

lemma reachable_ok: "reachable st \<Longrightarrow> store_ok st"
proof (induction rule: reachable.induct)
  case reach_start
  show ?case
    by (simp add: store_ok_def tables_ok_def edges_ok_def empty_store_def map_simps edges_of_def)
qed (rule store_step_ok)


section \<open>Reading the lifecycle off the edges\<close>

definition is_publication :: "edge \<Rightarrow> bool" where
  "is_publication e = (case e of Published _ _ \<Rightarrow> True | _ \<Rightarrow> False)"

lemma life_over: "replay life_step Over es = Inr l \<longleftrightarrow> es = [] \<and> l = Over"
  by (cases es) auto

lemma life_alive:
  "replay life_step Alive es = Inr l \<Longrightarrow> \<forall>e \<in> set es. edge_entry e = k \<Longrightarrow>
     \<exists>F. es = F @ (if l = Over then [Disposed k] else []) \<and> list_all is_publication F \<and> l \<in> {Alive, Over}"
proof (induction es)
  case Nil
  then show ?case by simp
next
  case (Cons e es)
  then show ?case
    by (cases e) (auto simp: life_over is_publication_def Cons_eq_append_conv split: if_splits)
qed

lemma life_silent:
  "replay life_step Silent es = Inr l \<Longrightarrow> \<forall>e \<in> set es. edge_entry e = k \<Longrightarrow>
     \<exists>E F. es = E @ (if l = Silent then [] else Created k # F) @ (if l = Over then [Disposed k] else [])
       \<and> list_all is_publication E \<and> list_all is_publication F"
proof (induction es)
  case Nil
  then show ?case by (auto intro!: exI [of _ "[]"])
next
  case (Cons e es)
  show ?case
  proof (cases e)
    case (Created j)
    with Cons.prems have "replay life_step Alive es = Inr l" "j = k" "\<forall>e \<in> set es. edge_entry e = k" by auto
    from life_alive [OF this(1,3)] obtain F
      where "es = F @ (if l = Over then [Disposed k] else [])" "list_all is_publication F" "l \<in> {Alive, Over}" by blast
    with Created \<open>j = k\<close> show ?thesis
      by (intro exI [of _ "[]"] exI [of _ F]) auto
  next
    case (Published j ev)
    with Cons obtain E F where "es = E @ (if l = Silent then [] else Created k # F) @ (if l = Over then [Disposed k] else [])"
      "list_all is_publication E" "list_all is_publication F" by auto
    moreover have "is_publication e" using Published by (simp add: is_publication_def)
    ultimately have "e # es = (e # E) @ (if l = Silent then [] else Created k # F) @ (if l = Over then [Disposed k] else [])"
      "list_all is_publication (e # E)" "list_all is_publication F" by simp_all
    then show ?thesis by blast
  next
    case (Disposed j)
    with Cons.prems show ?thesis by simp
  qed
qed

lemma edges_of_entry: "\<forall>e \<in> set (edges_of k es). edge_entry e = k"
  by (simp add: edges_of_def)

lemma detachEntered_live:
  assumes "k < length (st_entries st)" "map_get (st_live st) (en_id (st_entries st ! k)) = Some k"
  shows "st_live (detachEntered k st) = map_delete (en_id (st_entries st ! k)) (st_live st)"
    and "st_attached (detachEntered k st) = map_delete (en_session (st_entries st ! k)) (st_attached st)"
    and "st_entries (detachEntered k st) ! k = (st_entries st ! k)\<lparr>en_detach_requested := False\<rparr>"
    and "st_objects (detachEntered k st) = st_objects st"
  using assms by (simp_all add: detachEntered_def Let_def)

section \<open>Identities\<close>

lemma mint_spec:
  "mint c live = (i, n) \<Longrightarrow> i = minted_id n \<and> c < n \<and> map_get live i = None
     \<and> (\<forall>j. c < j \<and> j < n \<longrightarrow> map_get live (minted_id j) \<noteq> None)"
proof (induction c live rule: mint.induct)
  case (1 c live)
  show ?case
  proof (cases "map_get live (minted_id (Suc c)) = None")
    case True
    with "1.prems" show ?thesis by (auto simp: mint.simps [of c] Let_def)
  next
    case False
    with "1.prems" have "mint (Suc c) live = (i, n)" by (simp add: mint.simps [of c] Let_def)
    with "1.IH" [OF refl False] have r: "i = minted_id n \<and> Suc c < n \<and> map_get live i = None"
      and taken: "\<forall>j. Suc c < j \<and> j < n \<longrightarrow> map_get live (minted_id j) \<noteq> None" by blast+
    from taken False have "\<forall>j. c < j \<and> j < n \<longrightarrow> map_get live (minted_id j) \<noteq> None"
      by (metis Suc_lessI)
    with r show ?thesis by auto
  qed
qed

lemma mint_bound:
  assumes "mint c live = (i, n)"
  shows "n \<le> c + length live + 1"
proof -
  have "minted_id ` {Suc c..<n} \<subseteq> set (map fst live)"
    using mint_spec [OF assms] by (auto simp: map_get_None)
  then have "card (minted_id ` {Suc c..<n}) \<le> card (set (map fst live))"
    by (intro card_mono) auto
  also have "\<dots> \<le> length live" using card_length [of "map fst live"] by simp
  finally have "n - Suc c \<le> length live"
    using card_image [of minted_id "{Suc c..<n}"] minted_id_inj by (auto simp: inj_on_def)
  then show ?thesis by simp
qed

section \<open>One entry over a step\<close>

text \<open>A step leaves the identity of an entry, revives none, and publishes of a live one what its log gains.\<close>

definition keeps :: "nat \<Rightarrow> store \<Rightarrow> store \<Rightarrow> bool" where
  "keeps k st st' \<longleftrightarrow> k < length (st_entries st') \<and> en_id (st_entries st' ! k) = en_id (st_entries st ! k)
     \<and> en_session (st_entries st' ! k) = en_session (st_entries st ! k)
     \<and> (is_live st' k \<longrightarrow> is_live st k \<and> (\<exists>es. published (edges_of k (st_edges st')) = published (edges_of k (st_edges st)) @ es
          \<and> se_log (st_objects st' ! en_session (st_entries st ! k)) = se_log (st_objects st ! en_session (st_entries st ! k)) @ es))"

lemma keeps_trans: "keeps k st st1 \<Longrightarrow> keeps k st1 st2 \<Longrightarrow> keeps k st st2"
  unfolding keeps_def by (metis append_assoc)

lemma keeps_refl: "k < length (st_entries st) \<Longrightarrow> keeps k st st"
  by (simp add: keeps_def)

lemma published_of_none: "published es = [] \<Longrightarrow> published (edges_of k es) = []"
  by (induction es rule: published.induct) (auto simp: edges_of_def)

lemma keeps_quiet:
  assumes "k < length (st_entries st')" "en_id (st_entries st' ! k) = en_id (st_entries st ! k)"
    "en_session (st_entries st' ! k) = en_session (st_entries st ! k)"
    and live: "is_live st' k \<Longrightarrow> is_live st k"
    and log: "se_log (st_objects st' ! en_session (st_entries st ! k)) = se_log (st_objects st ! en_session (st_entries st ! k))"
    and edges: "st_edges st' = st_edges st @ fs" "published fs = []"
  shows "keeps k st st'"
  using assms published_of_none [OF edges(2)] by (simp add: keeps_def edges_of_append)

lemma keeps_update:
  assumes "k < length (st_entries st)" "j < length (st_entries st)" "\<And>e. en_id (f e) = en_id e" "\<And>e. en_session (f e) = en_session e"
  shows "keeps k st (update_entry j f st)"
  by (rule keeps_quiet [where fs = "[]"]) (use assms in \<open>auto simp: is_live_def split: if_splits\<close>)

lemma keeps_detachEntered:
  assumes k: "k < length (st_entries st)" and j: "j < length (st_entries st)"
  shows "keeps k st (detachEntered j st)"
proof -
  let ?e = "st_entries st ! j" and ?f = "\<lambda>e. e\<lparr>en_detach_requested := False\<rparr>"
  have entry: "en_id (st_entries (update_entry j ?f st) ! i) = en_id (st_entries st ! i)"
    "en_session (st_entries (update_entry j ?f st) ! i) = en_session (st_entries st ! i)" for i
    using j by simp_all
  show ?thesis
  proof (cases "map_get (st_live st) (en_id ?e) = Some j")
    case True
    then have st: "detachEntered j st = (update_entry j ?f st)\<lparr>st_live := map_delete (en_id ?e) (st_live st),
        st_attached := map_delete (en_session ?e) (st_attached st),
        st_edges := st_edges st @ (if en_announced ?e then [Disposed j] else [])\<rparr>"
      using j by (simp add: detachEntered_def Let_def)
    show ?thesis
      by (rule keeps_quiet [where fs = "if en_announced ?e then [Disposed j] else []"])
        (use k entry in \<open>auto simp: st is_live_def map_simps split: if_splits\<close>)
  next
    case False
    then have "detachEntered j st = update_entry j ?f st" using j by (simp add: detachEntered_def Let_def)
    with keeps_update [OF k j, of ?f] show ?thesis by simp
  qed
qed

lemma keeps_flag_detach:
  assumes "k < length (st_entries st)" "j < length (st_entries st)" "\<And>e. en_id (f e) = en_id e" "\<And>e. en_session (f e) = en_session e"
  shows "keeps k st (detachEntered j (update_entry j f st))"
  using keeps_trans [OF keeps_update [OF assms] keeps_detachEntered] assms by simp

lemma keeps_calls:
  assumes "k < length (st_entries st)" "j < length (st_entries st)"
  shows "keeps k st (detach j st)" "keeps k st (announce_finally j st)" "keeps k st (append_finally j st)"
proof -
  show "keeps k st (detach j st)"
  proof (cases "en_entered (st_entries st ! j)")
    case True
    have "keeps k (update_entry j (\<lambda>e. e\<lparr>en_entered := False\<rparr>) st) (update_entry j (\<lambda>e. e\<lparr>en_detach_requested := True\<rparr>)
        (update_entry j (\<lambda>e. e\<lparr>en_entered := False\<rparr>) st))"
      using assms by (intro keeps_update) simp_all
    with keeps_trans [OF keeps_update [OF assms, of "\<lambda>e. e\<lparr>en_entered := False\<rparr>"] this] keeps_flag_detach [OF assms, of "\<lambda>e. e\<lparr>en_entered := False\<rparr>"] True
    show ?thesis by (simp add: detach_def Let_def)
  qed (simp add: detach_def keeps_refl assms)
  show "keeps k st (announce_finally j st)"
    using keeps_flag_detach [OF assms, of "\<lambda>e. e\<lparr>en_announcing := False\<rparr>"] keeps_update [OF assms, of "\<lambda>e. e\<lparr>en_announcing := False\<rparr>"]
    by (simp add: announce_finally_def Let_def)
  show "keeps k st (append_finally j st)"
    using keeps_flag_detach [OF assms, of "\<lambda>e. e\<lparr>en_appending := False\<rparr>"] keeps_update [OF assms, of "\<lambda>e. e\<lparr>en_appending := False\<rparr>"]
    by (simp add: append_finally_def Let_def)
qed

lemma keeps_object:
  assumes "k < length (st_entries st)" "r < length (st_objects st)" "se_log s = se_log (st_objects st ! r)"
  shows "keeps k st (set_object r s st)"
  by (rule keeps_quiet [where fs = "[]"]) (use assms in simp_all)

lemma keeps_push:
  assumes ok: "store_ok st" and k: "k < length (st_entries st)" and r: "r < length (st_objects st)"
    and log: "se_log s = se_log (st_objects st ! r) @ [e]"
    and edge: "pub = (case map_get (st_attached st) r of Some j \<Rightarrow> [Published j e] | None \<Rightarrow> [])"
  shows "keeps k st ((set_object r s st)\<lparr>st_edges := st_edges st @ pub\<rparr>)"
proof -
  let ?st = "(set_object r s st)\<lparr>st_edges := st_edges st @ pub\<rparr>" and ?q = "en_session (st_entries st ! k)"
  have "\<exists>es. published (edges_of k (st_edges ?st)) = published (edges_of k (st_edges st)) @ es \<and>
      se_log (st_objects ?st ! ?q) = se_log (st_objects st ! ?q) @ es" if live: "is_live st k"
  proof -
    have at': "map_get (st_attached st) q = Some k \<longleftrightarrow> ?q = q" for q
      using ok k live by (auto simp: store_ok_def tables_ok_def)
    show ?thesis
    proof (cases "?q = r")
      case True
      with at' have "map_get (st_attached st) r = Some k" by simp
      with True edge r log show ?thesis by (intro exI [of _ "[e]"]) (simp add: edge_simps)
    next
      case False
      then have "map_get (st_attached st) r \<noteq> Some k" using at' by simp
      then have "edges_of k pub = []" using edge by (auto simp: edges_of_def split: option.splits)
      with False r show ?thesis by (intro exI [of _ "[]"]) (simp add: edge_simps)
    qed
  qed
  then show ?thesis using k by (simp add: keeps_def is_live_def)
qed

lemma keeps_append:
  assumes ok: "store_ok st" and k: "k < length (st_entries st)" and r: "r < length (st_objects st)"
    and run: "append_begin r time d intent veto st = (z, st')"
  shows "keeps k st st'"
proof (cases "map_get (st_attached st) r")
  case None
  obtain q s where ap: "append_event (st_objects st ! r) time d intent Detached = (q, s)" by fastforce
  note f = append_event_facts [OF object_ok [OF ok r] ap]
  have st': "st' = set_object r s st" using run None ap by (simp add: append_begin_def)
  show ?thesis
  proof (cases q)
    case (Inl x)
    with f keeps_object [OF k r] st' show ?thesis by simp
  next
    case (Inr e)
    have "(set_object r s st)\<lparr>st_edges := st_edges st @ []\<rparr> = set_object r s st" by (simp add: set_object_def)
    moreover have "keeps k st ((set_object r s st)\<lparr>st_edges := st_edges st @ []\<rparr>)"
      by (rule keeps_push [OF ok k r]) (use f Inr None in auto)
    ultimately show ?thesis using st' by metis
  qed
next
  case (Some j)
  obtain q s where ap: "append_event (st_objects st ! r) time d intent (Attached (en_appending (st_entries st ! j)) veto) = (q, s)" by fastforce
  note f = append_event_facts [OF object_ok [OF ok r] ap] and en = attached_entry [OF ok Some]
  show ?thesis
  proof (cases q)
    case (Inl x)
    have ob: "keeps k st (set_object r s st)" using keeps_object [OF k r] f Inl by simp
    have "st' = (if x = DispatchVeto then append_finally j (set_object r s st) else set_object r s st)"
      using run Some ap Inl by (cases x) (simp_all add: append_begin_def)
    with ob keeps_trans [OF ob keeps_calls(3), of j] k en show ?thesis by auto
  next
    case (Inr e)
    let ?f = "\<lambda>en. en\<lparr>en_appending := True\<rparr>" and ?st = "(set_object r s st)\<lparr>st_edges := st_edges st @ [Published j e]\<rparr>"
    have "keeps k st ?st" by (rule keeps_push [OF ok k r]) (use f Inr Some in auto)
    moreover have "keeps k ?st (update_entry j ?f ?st)" using k en by (intro keeps_update) simp_all
    moreover have "st' = update_entry j ?f ?st"
      using run Some ap Inr by (cases st) (auto simp: append_begin_def update_entry_def set_object_def)
    ultimately show ?thesis using keeps_trans by blast
  qed
qed

lemma keeps_prepare:
  assumes ok: "store_ok st" and k: "k < length (st_entries st)" and run: "prepare i options now st = (x, st')"
  shows "keeps k st st'"
proof -
  note pk = prepare_keeps [OF ok run]
  have "en_session (st_entries st ! k) < length (st_objects st)" using ok k by (simp add: store_ok_def tables_ok_def)
  then have "st_objects st' ! en_session (st_entries st ! k) = st_objects st ! en_session (st_entries st ! k)"
    using pk by (cases x) (auto simp: nth_append)
  with pk k show ?thesis by (intro keeps_quiet [where fs = "[]"]) (simp_all add: is_live_def)
qed

lemma keeps_enter:
  assumes ok: "store_ok st" and k: "k < length (st_entries st)" and run: "enter r st = (y, st')"
  shows "keeps k st st'"
proof (cases y)
  case (Inl x)
  with run have "st' = st" by (auto simp: enter_def Let_def split: if_splits)
  with k show ?thesis by (simp add: keeps_refl)
next
  case (Inr j)
  then have st': "st_objects st' = st_objects st" "st_edges st' = st_edges st @ []"
      "st_live st' = map_set (object_id st r) (length (st_entries st)) (st_live st)"
      "length (st_entries st') = Suc (length (st_entries st))" "st_entries st' ! k = st_entries st ! k"
    using run k by (auto simp: enter_def Let_def nth_append split: if_splits)
  with k show ?thesis by (intro keeps_quiet [OF _ _ _ _ _ st'(2)]) (auto simp: is_live_def map_simps split: if_splits)
qed

lemma keeps_announce:
  assumes ok: "store_ok st" and k: "k < length (st_entries st)" and run: "announce_begin r st = (y, st')"
  shows "keeps k st st'"
proof (cases y)
  case (Inl x)
  with run have "st' = st" by (auto simp: announce_begin_def Let_def split: sum.splits if_splits)
  with k show ?thesis by (simp add: keeps_refl)
next
  case (Inr j)
  let ?f = "\<lambda>e. e\<lparr>en_announced := True, en_announcing := True\<rparr>"
  from run Inr have st': "st' = (update_entry j ?f st)\<lparr>st_edges := st_edges st @ [Created j]\<rparr>" and l: "liveEntryFor r st = Inr j"
    by (auto simp: announce_begin_def Let_def split: sum.splits if_splits)
  have "j < length (st_entries st)"
    using l liveEntryFor_iff [OF ok, of r] attached_entry [OF ok, of r] by (auto split: option.splits)
  with k show ?thesis by (intro keeps_quiet [where fs = "[Created j]"]) (auto simp: st' is_live_def split: if_splits)
qed

lemma step_keeps:
  assumes ok: "store_ok st" and step: "store_step st st'" and k: "k < length (st_entries st)"
  shows "keeps k st st'"
  using step
proof cases
  case (step_read r m s)
  with reads_keep(1) [OF object_ok [OF ok step_read(2)] step_read(3)] k show ?thesis by (simp add: keeps_object)
next
  case (step_header r h s)
  with reads_keep(2) [OF object_ok [OF ok step_header(2)] step_header(3)] k show ?thesis by (simp add: keeps_object)
next
  case (step_context r c s)
  with reads_keep(3) [OF object_ok [OF ok step_context(2)] step_context(3)] k show ?thesis by (simp add: keeps_object)
qed (use keeps_prepare [OF ok k] keeps_enter [OF ok k] keeps_calls [OF k] keeps_announce [OF ok k] keeps_append [OF ok k] in \<open>simp_all\<close>)

text \<open>Runs of the program around the store.\<close>

inductive store_run :: "store \<Rightarrow> store \<Rightarrow> bool" for st :: store where
  run_start: "store_run st st"
| run_step: "store_run st st1 \<Longrightarrow> store_step st1 st2 \<Longrightarrow> store_run st st2"

lemma run_keeps: "store_run st st' \<Longrightarrow> store_ok st \<Longrightarrow> k < length (st_entries st) \<Longrightarrow> keeps k st st' \<and> store_ok st'"
proof (induction rule: store_run.induct)
  case run_start
  then show ?case by (simp add: keeps_refl)
next
  case (run_step st1 st2)
  then have st1: "keeps k st st1" "store_ok st1" by simp_all
  then have "k < length (st_entries st1)" by (simp add: keeps_def)
  from step_keeps [OF st1(2) run_step(2) this] st1 store_step_ok [OF st1(2) run_step(2)] show ?case
    by (blast intro: keeps_trans)
qed

lemma run_reachable: "store_run st st' \<Longrightarrow> reachable st \<Longrightarrow> reachable st'"
  by (induction rule: store_run.induct) (auto intro: reach_step)

section \<open>Properties\<close>

text \<open>C22.
  The dispatches about one store entry tell one life, in every reachable state of the store and
  whatever listeners did during the announcement and the appends: first the events appended
  before the announcement, then at most one creation, then the events appended after it, then
  at most one disposal. The disposal is there exactly when an announced entry has left the
  store, and nothing follows it.
\<close>

theorem store_lifecycle:
  assumes "reachable st" and "k < length (st_entries st)"
  shows "\<exists>E F. list_all is_publication E \<and> list_all is_publication F
     \<and> edges_of k (st_edges st) = E @ (if en_announced (st_entries st ! k) then Created k # F else [])
          @ (if en_announced (st_entries st ! k) \<and> \<not> is_live st k then [Disposed k] else [])"
proof -
  have "replay life_step Silent (edges_of k (st_edges st)) = Inr (life_of (is_live st k) (en_announced (st_entries st ! k)))"
    using reachable_ok [OF assms(1)] assms(2) by (simp add: store_ok_def edges_ok_def Let_def)
  from life_silent [OF this edges_of_entry] obtain E F
    where "edges_of k (st_edges st) = E
        @ (if life_of (is_live st k) (en_announced (st_entries st ! k)) = Silent then [] else Created k # F)
        @ (if life_of (is_live st k) (en_announced (st_entries st ! k)) = Over then [Disposed k] else [])"
      "list_all is_publication E" "list_all is_publication F" by blast
  then show ?thesis
    by (intro exI [of _ E] exI [of _ F]) (auto simp: life_of_def)
qed

text \<open>C23.
  The event feed of a live session is complete: whatever ran since its entry, the entry has
  published the tail of its log from the length the log had when the session entered, each
  event once and in order.
\<close>

theorem feed_complete:
  assumes "reachable st0" and "r < length (st_objects st0)" and "enter r st0 = (Inr k, st1)"
    and "store_run st1 st" and "is_live st k"
  shows "published (edges_of k (st_edges st)) = drop (length (se_log (st_objects st0 ! r))) (se_log (st_objects st ! r))
    \<and> length (se_log (st_objects st0 ! r)) \<le> length (se_log (st_objects st ! r))"
proof -
  have ok: "store_ok st0" using assms(1) by (rule reachable_ok)
  have ok1: "store_ok st1" using enter_ok [OF ok assms(2,3)] .
  have st1: "k = length (st_entries st0)" "st_objects st1 = st_objects st0" "st_edges st1 = st_edges st0"
    "k < length (st_entries st1)" "en_session (st_entries st1 ! k) = r"
    using assms(3) by (auto simp: enter_def Let_def split: if_splits)
  have "edges_of k (st_edges st1) = []" using ok st1(1,3) by (simp add: store_ok_def edges_ok_def)
  with run_keeps [OF assms(4) ok1 st1(4)] assms(5) st1(2,5) show ?thesis by (auto simp: keeps_def)
qed

text \<open>A detach that is asked for always happens: once the announcement and the append that were in
  progress when it was called have run their \<open>finally\<close> clauses, the session is no longer
  in the store, and its identity can be taken again.
\<close>

theorem detach_takes_effect:
  assumes "reachable st" and "k < length (st_entries st)"
    and "st1 = detach k st"
    and "st2 = (if en_announcing (st_entries st ! k) then announce_finally k st1 else st1)"
    and "st3 = (if en_appending (st_entries st ! k) then append_finally k st2 else st2)"
  shows "\<not> is_live st3 k \<and> (is_live st k \<longrightarrow> get_session (en_id (st_entries st ! k)) st3 = None)"
proof (cases "is_live st k")
  case False
  then have "flags_ok False (st_entries st ! k)"
    using reachable_ok [OF assms(1)] assms(2) by (auto simp: store_ok_def)
  with False show ?thesis by (simp add: assms(3-5) flags_ok_def detach_def)
next
  case True
  let ?e = "st_entries st ! k"
  have "flags_ok True ?e"
    using reachable_ok [OF assms(1)] assms(2) True by (auto simp: store_ok_def)
  then have "st_live st3 = map_delete (en_id ?e) (st_live st) \<and> en_id (st_entries st3 ! k) = en_id ?e"
    using assms(2) True [unfolded is_live_def]
    by (cases "en_entered ?e"; cases "en_announcing ?e"; cases "en_appending ?e")
      (simp_all add: assms(3-5) flags_ok_def detach_def announce_finally_def append_finally_def detachEntered_live Let_def)
  then show ?thesis by (simp add: is_live_def get_session_def map_simps)
qed


text \<open>An identity the store mints is free, is the first free one after its counter, and is found
  after at most one attempt more than there are live sessions.
\<close>

theorem mint_fresh:
  "\<exists>n. snd (mint c live) = n \<and> fst (mint c live) = minted_id n \<and> c < n \<and> n \<le> c + length live + 1
     \<and> map_get live (minted_id n) = None
     \<and> minted_id ` {c<..<n} \<subseteq> set (map fst live)"
proof -
  obtain i n where m: "mint c live = (i, n)" by fastforce
  from mint_spec [OF m] mint_bound [OF m] m show ?thesis by (auto simp: map_get_None)
qed

lemma map_set_new: "map_get m k = None \<Longrightarrow> map_set k v m = m @ [(k, v)]"
  by (induction m) (auto simp: map_get_def split: if_splits)

lemma map_delete_new: "map_get m k = None \<Longrightarrow> map_delete k (m @ [(k, v)]) = m"
  by (auto simp: map_delete_def map_get_def map_of_eq_None_iff intro!: filter_True)

lemma enter_prepared:
  assumes ok: "store_ok st" and p: "prepare i options now st = (Inr r, st1)" and e: "enter r st1 = (y, st2)"
    and free: "map_get (st_live st1) (object_id st1 r) = None"
  shows "y = Inr (length (st_entries st)) \<and> st_live st2 = st_live st @ [(object_id st1 r, length (st_entries st))]
     \<and> st_attached st2 = st_attached st @ [(r, length (st_entries st))]
     \<and> st_entries st2 = st_entries st @ [\<lparr>en_id = object_id st1 r, en_session = r, en_announced = False, en_announcing = False,
               en_appending = False, en_detach_requested = False, en_entered = True\<rparr>]
     \<and> st_objects st2 = st_objects st1 \<and> st_edges st2 = st_edges st \<and> store_ok st2"
proof -
  note pk = prepare_keeps [OF ok p]
  have r: "r < length (st_objects st1)" using pk by auto
  have "map_get (st_attached st1) r = None"
  proof (cases "map_get (st_attached st1) r")
    case (Some k)
    with pk have "map_get (st_attached st) r = Some k" by simp
    from attached_entry [OF ok this] have "k < length (st_entries st)" "en_session (st_entries st ! k) = r" by simp_all
    moreover have "tables_ok st" using ok by (simp add: store_ok_def)
    ultimately have "r < length (st_objects st)" unfolding tables_ok_def by blast
    with pk show ?thesis by simp
  qed simp
  note att = this
  let ?e = "\<lparr>en_id = object_id st1 r, en_session = r, en_announced = False, en_announcing = False,
               en_appending = False, en_detach_requested = False, en_entered = True\<rparr>"
  have "y = Inr (length (st_entries st1))"
    "st2 = st1\<lparr>st_entries := st_entries st1 @ [?e],
        st_live := st_live st1 @ [(object_id st1 r, length (st_entries st1))], st_attached := st_attached st1 @ [(r, length (st_entries st1))]\<rparr>"
    using e free att by (simp_all add: enter_def Let_def map_set_new)
  with pk enter_ok [OF _ r e] show ?thesis by simp
qed

text \<open>The header and the log of a constructed session.\<close>

lemma seed_loop_header: "seed_loop s i es = Inr s' \<Longrightarrow> se_header s' = se_header s"
  by (induction s i es rule: seed_loop.induct) (auto split: if_splits prod.splits option.splits)

lemma construct_header: "construct h seed now = Inr s \<Longrightarrow> se_header s = h"
  using append_event_facts
  by (auto simp: construct_def rbind_Inr_iff Let_def empty_session_def append_event_def
      dest!: seed_loop_header split: option.splits if_splits prod.splits sum.splits)

lemma create_session_facts:
  assumes "create_session h seed now = Inr s"
  shows "se_header s = h \<and> header_valid h \<and> (case seed of None \<Rightarrow> True | Some es \<Rightarrow> se_log s = marked_seed es now)"
proof -
  from assms obtain h' where c: "construct h seed now = Inr s" and v: "validateSessionHeader (sh_id h) (header_json h) = Inr h'"
    by (auto simp: create_session_def split: sum.splits)
  have "header_valid h" using validateSessionHeader_Inr [OF v] header_json_back [OF v] by simp
  moreover have "se_log s = marked_seed es now" if "seed = Some es" for es
    using construct_ok [where h = h and es = es and now = now] c that by simp
  ultimately show ?thesis
    using construct_header [OF c] by (simp split: option.split)
qed

lemma prepare_free:
  assumes "store_ok st" "prepare i options now st = (Inr r, st1)"
  shows "map_get (st_live st1) (object_id st1 r) = None"
proof -
  obtain sid c where sc: "(case i of Some sid \<Rightarrow> (sid, st_counter st) | None \<Rightarrow> mint (st_counter st) (st_live st)) = (sid, c)"
    by fastforce
  from assms(2) obtain s where free: "map_get (st_live st) sid = None"
    and s: "(case options of PersistenceOptions seed meta \<Rightarrow> restore_session sid seed meta now
      | CallerOptions seed meta \<Rightarrow> create_session (meta_header sid meta now) seed now) = Inr s"
    and st1: "st1 = st\<lparr>st_counter := c, st_objects := st_objects st @ [s]\<rparr>" "r = length (st_objects st)"
    unfolding prepare_def sc by (auto simp: Let_def split: if_splits sum.splits)
  have "sh_id (se_header s) = sid"
    using s create_session_facts construct_header validateSessionHeader_Inr
    by (fastforce simp: restore_session_def meta_header_def split: session_options.splits sum.splits)
  with free st1 show ?thesis by (simp add: object_id_def)
qed


text \<open>What \<open>create\<close> does up to its listeners.\<close>

lemma create_begin_cases:
  assumes ok: "store_ok st" and run: "create_begin i options now st = (x, st')"
  shows "case x of
       Inl _ \<Rightarrow> st_live st' = st_live st \<and> st_attached st' = st_attached st \<and> st_edges st' = st_edges st
     | Inr (r, k) \<Rightarrow> \<exists>st1. prepare i options now st = (Inr r, st1) \<and> k = length (st_entries st)
         \<and> st_objects st' = st_objects st1 \<and> st_live st' = st_live st @ [(object_id st1 r, k)]
         \<and> st_attached st' = st_attached st @ [(r, k)] \<and> k < length (st_entries st') \<and> en_id (st_entries st' ! k) = object_id st1 r
         \<and> en_session (st_entries st' ! k) = r \<and> st_edges st' = st_edges st @ [Created k] \<and> store_ok st'"
proof -
  obtain y st1 where p: "prepare i options now st = (y, st1)" by fastforce
  note pk = prepare_keeps [OF ok p]
  show ?thesis
  proof (cases y)
    case (Inl e)
    with run p pk show ?thesis by (auto simp: create_begin_def)
  next
    case (Inr r)
    obtain z st2 where e: "enter r st1 = (z, st2)" by fastforce
    have free: "map_get (st_live st1) (object_id st1 r) = None"
      using prepare_free [OF ok] p Inr by simp
    let ?k = "length (st_entries st)" and ?id = "object_id st1 r"
    note en = enter_prepared [OF ok p [unfolded Inr] e free]
    have at': "map_get (st_attached st2) r = Some ?k"
    proof -
      have "is_live st2 ?k" using en free pk by (simp add: is_live_def map_get_def map_add_def)
      moreover have "?k < length (st_entries st2)" "en_session (st_entries st2 ! ?k) = r" using en by simp_all
      moreover have "tables_ok st2" using en by (simp add: store_ok_def)
      ultimately show ?thesis unfolding tables_ok_def by blast
    qed
    have ok2: "store_ok st2" using en by simp
    let ?st3 = "(update_entry ?k (\<lambda>e. e\<lparr>en_announced := True, en_announcing := True\<rparr>) st2)\<lparr>st_edges := st_edges st2 @ [Created ?k]\<rparr>"
    have a: "announce_begin r st2 = (Inr ?k, ?st3)"
      using liveEntryFor_iff [OF ok2, of r] at' en by (simp add: announce_begin_def Let_def)
    have "store_ok ?st3" using announce_begin_ok [OF ok2 a] .
    moreover have "x = Inr (r, ?k)" "st' = ?st3" using run p Inr e en a by (simp_all add: create_begin_def)
    ultimately show ?thesis using Inr p en by auto
  qed
qed

text \<open>
  What the listeners of an announcement may do to the store: run any steps, under the announcement,
  and return when their own appends have.
\<close>

inductive calling_back :: "nat \<Rightarrow> store \<Rightarrow> store \<Rightarrow> bool" for k :: nat and st :: store where
  back_now: "calling_back k st st"
| back_next: "calling_back k st st1 \<Longrightarrow> store_step st1 st2 \<Longrightarrow> en_announcing (st_entries st2 ! k) \<Longrightarrow> calling_back k st st2"

definition returned :: "nat \<Rightarrow> store \<Rightarrow> store \<Rightarrow> bool" where
  "returned k st st' \<longleftrightarrow> calling_back k st st' \<and> en_announcing (st_entries st' ! k) \<and> \<not> en_appending (st_entries st' ! k)"

lemma calling_back_run: "calling_back k st st' \<Longrightarrow> store_run st st'"
  by (induction rule: calling_back.induct) (auto intro: store_run.intros)

text \<open>From the return of the listeners: the entry goes when one threw or asked for its detach.\<close>

lemma create_end_cases:
  assumes ok: "store_ok st" and k: "k < length (st_entries st)" and e: "en_announcing (st_entries st ! k)" "\<not> en_appending (st_entries st ! k)"
    and run: "create_end r k veto st = (x, st')"
  shows "x = (if veto then Inl CreationVetoed else Inr r) \<and> is_live st k \<and> st_objects st' = st_objects st \<and>
    (if veto \<or> en_detach_requested (st_entries st ! k)
     then st_live st' = map_delete (en_id (st_entries st ! k)) (st_live st) \<and>
       st_attached st' = map_delete (en_session (st_entries st ! k)) (st_attached st) \<and> st_edges st' = st_edges st @ [Disposed k]
     else st_live st' = st_live st \<and> st_attached st' = st_attached st \<and> st_edges st' = st_edges st)"
proof -
  let ?e = "st_entries st ! k" and ?f = "\<lambda>e. e\<lparr>en_announcing := False\<rparr>"
  have fl: "flags_ok (is_live st k) ?e" using ok k by (simp add: store_ok_def)
  with e have live: "is_live st k" and an: "en_announced ?e" by (auto simp: flags_ok_def)
  have at': "map_get (st_live st) (en_id ?e) = Some k" using live by (simp add: is_live_def)
  show ?thesis
  proof (cases "en_detach_requested ?e")
    case True
    have "announce_finally k st = detachEntered k (update_entry k ?f st)"
      using True k e by (simp add: announce_finally_def Let_def)
    then have "st_live (announce_finally k st) = map_delete (en_id ?e) (st_live st)"
      "st_attached (announce_finally k st) = map_delete (en_session ?e) (st_attached st)"
      "st_edges (announce_finally k st) = st_edges st @ [Disposed k]" "st_objects (announce_finally k st) = st_objects st"
      "\<not> en_entered (st_entries (announce_finally k st) ! k)"
      using k at' an True fl by (simp_all add: detachEntered_def Let_def flags_ok_def)
    with run True live show ?thesis by (cases veto) (simp_all add: create_end_def Let_def detach_def)
  next
    case False
    have fin: "announce_finally k st = update_entry k ?f st"
      using False k by (simp add: announce_finally_def Let_def)
    have "en_entered ?e" using fl live False by (auto simp: flags_ok_def)
    then have "detach k (update_entry k ?f st) = detachEntered k (update_entry k (\<lambda>e. e\<lparr>en_entered := False\<rparr>) (update_entry k ?f st))"
      using k e by (simp add: detach_def Let_def)
    then have "st_live (detach k (update_entry k ?f st)) = map_delete (en_id ?e) (st_live st)"
      "st_attached (detach k (update_entry k ?f st)) = map_delete (en_session ?e) (st_attached st)"
      "st_edges (detach k (update_entry k ?f st)) = st_edges st @ [Disposed k]" "st_objects (detach k (update_entry k ?f st)) = st_objects st"
      using k at' an by (simp_all add: detachEntered_def Let_def)
    with run False live show ?thesis by (cases veto) (auto simp: create_end_def Let_def fin)
  qed
qed

lemma prepare_caller:
  assumes ok: "store_ok st" and p: "prepare i (CallerOptions seed meta) now st = (Inr r, st1)"
  shows "\<exists>sid s. st_objects st1 = st_objects st @ [s] \<and> r = length (st_objects st) \<and> object_id st1 r = sid \<and> (i = None \<or> i = Some sid)
    \<and> se_header s = meta_header sid meta now \<and> (\<forall>es. seed = Some es \<longrightarrow> se_log s = marked_seed es now)"
proof -
  obtain sid c where sc: "(case i of Some sid \<Rightarrow> (sid, st_counter st) | None \<Rightarrow> mint (st_counter st) (st_live st)) = (sid, c)"
    by fastforce
  from p obtain s where s: "create_session (meta_header sid meta now) seed now = Inr s"
    and st1: "st_objects st1 = st_objects st @ [s]" "r = length (st_objects st)"
    unfolding prepare_def sc by (auto simp: Let_def split: if_splits sum.splits)
  have "object_id st1 r = sid" "se_header s = meta_header sid meta now"
    using create_session_facts [OF s] st1 by (simp_all add: object_id_def meta_header_def)
  moreover have "i = None \<or> i = Some sid" using sc by (cases i) auto
  ultimately show ?thesis using st1 create_session_facts [OF s] by (auto split: option.splits)
qed

lemma create_parts:
  assumes ok: "store_ok st" and run: "create i (CallerOptions seed meta) now listeners st = (x, st')"
    and ret: "\<forall>r k st1. create_begin i (CallerOptions seed meta) now st = (Inr (r, k), st1) \<longrightarrow> returned k st1 (snd (listeners r st1))"
  shows "(\<exists>y. x = Inl y) \<and> st_live st' = st_live st \<and> st_attached st' = st_attached st \<and> st_edges st' = st_edges st
    \<or> (\<exists>sid r k s st1 veto st2. st_objects st1 = st_objects st @ [s] \<and> r = length (st_objects st) \<and> (i = None \<or> i = Some sid)
       \<and> se_header s = meta_header sid meta now \<and> (\<forall>es. seed = Some es \<longrightarrow> se_log s = marked_seed es now)
       \<and> st_live st1 = st_live st @ [(sid, k)] \<and> st_attached st1 = st_attached st @ [(r, k)]
       \<and> st_edges st1 = st_edges st @ [Created k] \<and> listeners r st1 = (veto, st2) \<and> is_live st2 k
       \<and> x = (if veto then Inl CreationVetoed else Inr r)
       \<and> (if veto \<or> en_detach_requested (st_entries st2 ! k)
          then st_live st' = map_delete sid (st_live st2) \<and> st_attached st' = map_delete r (st_attached st2)
            \<and> st_edges st' = st_edges st2 @ [Disposed k]
          else st_live st' = st_live st2 \<and> st_attached st' = st_attached st2 \<and> st_edges st' = st_edges st2))"
proof -
  obtain y st1 where b: "create_begin i (CallerOptions seed meta) now st = (y, st1)" by fastforce
  note cb = create_begin_cases [OF ok b]
  show ?thesis
  proof (cases y)
    case (Inl e)
    with run b cb show ?thesis by (auto simp: create_def)
  next
    case (Inr rk)
    obtain r k where rk: "rk = (r, k)" by (cases rk)
    obtain veto st2 where l: "listeners r st1 = (veto, st2)" by fastforce
    have run2: "create_end r k veto st2 = (x, st')" using run b Inr rk l by (simp add: create_def)
    from cb Inr rk obtain st0 where p: "prepare i (CallerOptions seed meta) now st = (Inr r, st0)" and st1: "st_objects st1 = st_objects st0"
      "st_live st1 = st_live st @ [(object_id st0 r, k)]" "st_attached st1 = st_attached st @ [(r, k)]"
      "st_edges st1 = st_edges st @ [Created k]" "k < length (st_entries st1)" "en_id (st_entries st1 ! k) = object_id st0 r"
      "en_session (st_entries st1 ! k) = r" "store_ok st1" by auto
    from prepare_caller [OF ok p] obtain sid s where s: "st_objects st0 = st_objects st @ [s]" "r = length (st_objects st)"
      "object_id st0 r = sid" "i = None \<or> i = Some sid" "se_header s = meta_header sid meta now"
      "\<forall>es. seed = Some es \<longrightarrow> se_log s = marked_seed es now" by blast
    have "returned k st1 (snd (listeners r st1))" using ret b Inr rk by simp
    then have rk2: "calling_back k st1 st2" "en_announcing (st_entries st2 ! k)" "\<not> en_appending (st_entries st2 ! k)"
      using l by (simp_all add: returned_def)
    from run_keeps [OF calling_back_run [OF rk2(1)] st1(8,5)] have st2: "store_ok st2" "k < length (st_entries st2)"
      "en_id (st_entries st2 ! k) = sid" "en_session (st_entries st2 ! k) = r" using st1(6,7) s(3) by (simp_all add: keeps_def)
    note e = create_end_cases [OF st2(1,2) rk2(2,3) run2, unfolded st2(3,4)]
    have st1': "st_objects st1 = st_objects st @ [s]" "st_live st1 = st_live st @ [(sid, k)]" using st1(1,2) s(1,3) by simp_all
    note e' = e [THEN conjunct1] e [THEN conjunct2, THEN conjunct1] e [THEN conjunct2, THEN conjunct2, THEN conjunct2]
    show ?thesis
      by (rule disjI2, rule exI [of _ sid], rule exI [of _ r], rule exI [of _ k], rule exI [of _ s], rule exI [of _ st1],
          rule exI [of _ veto], rule exI [of _ st2], intro conjI; fact)
  qed
qed

text \<open>C24.
  Creating a session is atomic, whatever its creation listeners call back. When it fails before
  its announcement, for an occupied identity, a bad header or a bad seed, nothing is dispatched
  and the live tables are what they were. Otherwise the listeners run on a store with exactly the
  new session added, announced once and with its whole seed in its log, and it is still live when
  they return; it is then taken out again, with one disposal, exactly when one of them threw or
  asked for its detach, and in all else the tables are as the listeners left them. The listeners
  make any calls to the store under the announcement and return when their own appends have
  (\<open>returned\<close>).
\<close>

theorem create_atomic:
  assumes "reachable st" and "create i (CallerOptions seed meta) now listeners st = (x, st')"
    and "\<forall>r k st1. create_begin i (CallerOptions seed meta) now st = (Inr (r, k), st1) \<longrightarrow> returned k st1 (snd (listeners r st1))"
  shows "(\<exists>y. x = Inl y) \<and> st_live st' = st_live st \<and> st_attached st' = st_attached st \<and> st_edges st' = st_edges st
    \<or> (\<exists>sid r k s st1 veto st2. st_objects st1 = st_objects st @ [s] \<and> r = length (st_objects st) \<and> (i = None \<or> i = Some sid)
       \<and> se_header s = meta_header sid meta now \<and> (\<forall>es. seed = Some es \<longrightarrow> se_log s = marked_seed es now)
       \<and> st_live st1 = st_live st @ [(sid, k)] \<and> st_attached st1 = st_attached st @ [(r, k)]
       \<and> st_edges st1 = st_edges st @ [Created k] \<and> listeners r st1 = (veto, st2) \<and> is_live st2 k
       \<and> x = (if veto then Inl CreationVetoed else Inr r)
       \<and> (if veto \<or> en_detach_requested (st_entries st2 ! k)
          then st_live st' = map_delete sid (st_live st2) \<and> st_attached st' = map_delete r (st_attached st2)
            \<and> st_edges st' = st_edges st2 @ [Disposed k]
          else st_live st' = st_live st2 \<and> st_attached st' = st_attached st2 \<and> st_edges st' = st_edges st2))"
  by (rule create_parts [OF reachable_ok [OF assms(1)] assms(2,3)])

lemma last_boundary_open:
  assumes "seedSession es = Inr tr"
  shows "tr_openTurn tr = (case find_last turn_boundary es of
       Some e \<Rightarrow> (case ev_data e of TurnStart t \<Rightarrow> Some t | _ \<Rightarrow> None) | None \<Rightarrow> None)"
  using assms
proof (induction es arbitrary: tr rule: rev_induct)
  case Nil
  then show ?case by (auto simp: seedSession_def freshTrace_def)
next
  case (snoc e es)
  then obtain tr0 where tr0: "seedSession es = Inr tr0" "trace_step tr0 e = Inr tr"
    by (auto simp: seedSession_def replay_snoc split: sum.splits)
  note IH = snoc.IH [OF tr0(1)]
  from tr0(2) show ?case
    by (cases "ev_data e")
      (auto simp: turn_boundary_def IH trace_step_def validateEvent_def keep_transition_def requireOpenStep_def
        applyTransition_def Let_def rbind_Inr_iff split: if_splits)
qed


lemma forkSeed_at_Inr:
  assumes "forkSeed_at lg b = Inr seed"
  shows "0 \<le> b \<and> seed = take (Suc (nat b)) lg \<and> length seed = Suc (nat b)
     \<and> (\<forall>e t. find_last turn_boundary seed = Some e \<longrightarrow> ev_data e \<noteq> TurnStart t)"
proof -
  from assms have b: "0 \<le> b" "b < int (length lg)"
    and f: "(case find_last turn_boundary (take (Suc (nat b)) lg) of
          Some e \<Rightarrow> (case ev_data e of TurnStart t \<Rightarrow> Inl (ForkOpenTurn t) | _ \<Rightarrow> Inr (take (Suc (nat b)) lg))
        | None \<Rightarrow> Inr (take (Suc (nat b)) lg)) = Inr seed"
    by (auto simp: forkSeed_at_def Let_def split: if_splits)
  from f have "seed = take (Suc (nat b)) lg" by (auto split: option.splits event_data.splits)
  moreover have "find_last turn_boundary (take (Suc (nat b)) lg) = Some e \<Longrightarrow> ev_data e \<noteq> TurnStart t" for e t
    using f by auto
  ultimately show ?thesis using b by auto
qed

lemma forkSeed_Inr:
  assumes "forkSeed lg boundary = Inr seed"
  shows "(\<exists>n \<le> length lg. seed = take n lg) \<and> (\<forall>b. boundary = Some b \<longrightarrow> int (length seed) = b + 1)
     \<and> (\<forall>e t. find_last turn_boundary seed = Some e \<longrightarrow> ev_data e \<noteq> TurnStart t)"
proof (cases "boundary = None \<and> lg = []")
  case True
  with assms show ?thesis by (auto simp: forkSeed_def)
next
  case False
  then obtain b where b: "forkSeed_at lg b = Inr seed" "\<forall>b'. boundary = Some b' \<longrightarrow> b' = b"
    using assms by (auto simp: forkSeed_def split: option.splits)
  have at': "seed = take (Suc (nat b)) lg" "length seed = Suc (nat b)" "0 \<le> b"
    using forkSeed_at_Inr [OF b(1)] by blast+
  have "min (length lg) (Suc (nat b)) = Suc (nat b)"
    using at'(1,2) length_take by metis
  then have "Suc (nat b) \<le> length lg" by linarith
  with at'(1) have "\<exists>n \<le> length lg. seed = take n lg" by blast
  moreover have "\<forall>b'. boundary = Some b' \<longrightarrow> int (length seed) = b' + 1"
    using at'(2,3) b(2) by auto
  moreover have "\<forall>e t. find_last turn_boundary seed = Some e \<longrightarrow> ev_data e \<noteq> TurnStart t"
    using forkSeed_at_Inr [OF b(1)] by blast
  ultimately show ?thesis by blast
qed

text \<open>A fork takes a stable prefix: when the listeners of the child are called, its log is the prefix of
  the live source's log up to the boundary, closed by the end-of-seed mark, the prefix ends between
  turns, and the child's header names the source, the prefix length, and the source's directory
  and target.
\<close>

theorem fork_prefix:
  assumes "reachable st" and "fork src boundary child now listeners st = (Inr r, st')"
  shows "\<exists>source seed s meta k st1. resolveForkSource src st = Inr source
     \<and> create_begin child (CallerOptions (Some seed) meta) now st = (Inr (r, k), st1)
     \<and> (\<exists>n \<le> length (se_log (st_objects st ! source)). seed = take n (se_log (st_objects st ! source)))
     \<and> (\<forall>b. boundary = Some b \<longrightarrow> int (length seed) = b + 1)
     \<and> (\<forall>tr. seedSession seed = Inr tr \<longrightarrow> tr_openTurn tr = None)
     \<and> st_objects st1 = st_objects st @ [s] \<and> r = length (st_objects st) \<and> se_log s = marked_seed seed now
     \<and> sh_parent (se_header s) = Some (object_id st source) \<and> sh_seed_length (se_header s) = Some (int (length seed))
     \<and> sh_cwd (se_header s) = sh_cwd (se_header (st_objects st ! source))
     \<and> sh_target (se_header s) = sh_target (se_header (st_objects st ! source))"
proof -
  note ok = reachable_ok [OF assms(1)]
  let ?meta = "\<lambda>source seed. no_meta\<lparr>mt_cwd := sh_cwd (se_header (st_objects st ! source)),
     mt_target := sh_target (se_header (st_objects st ! source)),
     mt_parent := Some (object_id st source), mt_seed_length := Some (int (length seed))\<rparr>"
  from assms(2) obtain source seed where src: "resolveForkSource src st = Inr source"
    and seed: "forkSeed (se_log (st_objects st ! source)) boundary = Inr seed"
    and mk: "create child (CallerOptions (Some seed) (?meta source seed)) now listeners st = (Inr r, st')"
    by (auto simp: fork_def Let_def split: option.splits sum.splits)
  from mk obtain k st1 where b: "create_begin child (CallerOptions (Some seed) (?meta source seed)) now st = (Inr (r, k), st1)"
    by (auto simp: create_def create_end_def Let_def split: sum.splits prod.splits if_splits)
  from create_begin_cases [OF ok b] obtain st0 where st0: "prepare child (CallerOptions (Some seed) (?meta source seed)) now st = (Inr r, st0)"
    "st_objects st1 = st_objects st0" by auto
  from prepare_caller [OF ok st0(1)] st0(2) obtain sid s where s: "st_objects st1 = st_objects st @ [s]" "r = length (st_objects st)"
    "se_log s = marked_seed seed now" "se_header s = meta_header sid (?meta source seed) now"
    by auto
  have "tr_openTurn tr = None" if "seedSession seed = Inr tr" for tr
    using last_boundary_open [OF that] forkSeed_Inr [OF seed]
    by (auto split: option.splits event_data.splits)
  moreover have "sh_parent (se_header s) = Some (object_id st source) \<and> sh_seed_length (se_header s) = Some (int (length seed))
     \<and> sh_cwd (se_header s) = sh_cwd (se_header (st_objects st ! source))
     \<and> sh_target (se_header s) = sh_target (se_header (st_objects st ! source))"
    by (simp add: s(4) meta_header_def)
  ultimately show ?thesis
    using src b forkSeed_Inr [OF seed] s(1-3) by blast
qed


section \<open>Witnesses\<close>

text \<open>
  A session enters, is announced, takes an append while its listeners run, and asks for its
  detach twice over before they return; another one is created beside it.
\<close>

definition sample_entered :: store where
  "sample_entered = snd (enter 0 (snd (prepare (Some ''a'') (CallerOptions (Some []) no_meta) 4 empty_store)))"

definition sample_busy :: store where
  "sample_busy = snd (append_begin 0 5 (TurnStart 1) no_intent False (snd (announce_begin 0 sample_entered)))"

definition sample_gone :: store where
  "sample_gone = append_finally 0 (announce_finally 0 (detach 0 sample_busy))"

lemma sample_entered_reachable: "reachable sample_entered"
proof -
  have "reachable (snd (prepare (Some ''a'') (CallerOptions (Some []) no_meta) 4 empty_store))"
    by (rule reach_step [OF reach_start step_prepare [OF prod.collapse [symmetric]]])
  moreover have "0 < length (st_objects (snd (prepare (Some ''a'') (CallerOptions (Some []) no_meta) 4 empty_store)))"
    by code_simp
  ultimately show ?thesis
    unfolding sample_entered_def by (rule reach_step [OF _ step_enter [OF _ prod.collapse [symmetric]]])
qed

lemma sample_busy_reachable: "reachable sample_busy"
proof -
  have "0 < length (st_objects sample_entered)" by code_simp
  from reach_step [OF sample_entered_reachable step_announce [OF this prod.collapse [symmetric]]]
  have "reachable (snd (announce_begin 0 sample_entered))" .
  moreover have "0 < length (st_objects (snd (announce_begin 0 sample_entered)))" by code_simp
  ultimately show ?thesis
    unfolding sample_busy_def by (rule reach_step [OF _ step_append [OF _ prod.collapse [symmetric]]])
qed

lemma sample_gone_reachable: "reachable sample_gone"
proof -
  have "0 < length (st_entries sample_busy)" by code_simp
  from reach_step [OF sample_busy_reachable step_detach [OF this]] have "reachable (detach 0 sample_busy)" .
  moreover have "0 < length (st_entries (detach 0 sample_busy))" "en_announcing (st_entries (detach 0 sample_busy) ! 0)"
    by code_simp+
  ultimately have "reachable (announce_finally 0 (detach 0 sample_busy))"
    by (rule reach_step [OF _ step_announced])
  moreover have "0 < length (st_entries (announce_finally 0 (detach 0 sample_busy)))"
    "en_appending (st_entries (announce_finally 0 (detach 0 sample_busy)) ! 0)"
    by code_simp+
  ultimately show ?thesis
    unfolding sample_gone_def by (rule reach_step [OF _ step_appended])
qed

lemma store_lifecycle_witness:
  "\<exists>E F. edges_of 0 (st_edges sample_gone) = E @ (Created 0 # F) @ [Disposed 0] \<and> list_all is_publication F"
proof -
  have "0 < length (st_entries sample_gone)" "en_announced (st_entries sample_gone ! 0)" "\<not> is_live sample_gone 0"
    by code_simp+
  with store_lifecycle [OF sample_gone_reachable, of 0] show ?thesis by auto
qed

lemma feed_complete_witness: "map ev_data (published (edges_of 0 (st_edges sample_busy))) = [TurnStart 1]"
proof -
  let ?st0 = "snd (prepare (Some ''a'') (CallerOptions (Some []) no_meta) 4 empty_store)"
  have r: "reachable ?st0" by (rule reach_step [OF reach_start step_prepare [OF prod.collapse [symmetric]]])
  have n: "0 < length (st_objects ?st0)" "0 < length (st_objects sample_entered)"
    "0 < length (st_objects (snd (announce_begin 0 sample_entered)))" by code_simp+
  have "fst (enter 0 ?st0) = Inr 0" by code_simp
  then have e: "enter 0 ?st0 = (Inr 0, sample_entered)" by (simp add: sample_entered_def prod_eq_iff)
  have "store_run sample_entered sample_busy"
    unfolding sample_busy_def
    by (rule run_step [OF run_step [OF run_start step_announce [OF n(2) prod.collapse [symmetric]]] step_append [OF n(3) prod.collapse [symmetric]]])
  moreover have "is_live sample_busy 0" by code_simp
  moreover have "map ev_data (drop (length (se_log (st_objects ?st0 ! 0))) (se_log (st_objects sample_busy ! 0))) = [TurnStart 1]" by code_simp
  ultimately show ?thesis using feed_complete [OF r n(1) e] by simp
qed

lemma detach_takes_effect_witness:
  "\<not> is_live (append_finally 0 (announce_finally 0 (detach 0 sample_busy))) 0"
proof -
  have "0 < length (st_entries sample_busy)" "en_announcing (st_entries sample_busy ! 0)" "en_appending (st_entries sample_busy ! 0)"
    by code_simp+
  with detach_takes_effect [OF sample_busy_reachable, of 0] show ?thesis by simp
qed

text \<open>The owner of a new session asks for its detach while its creation is announced.\<close>

definition sample_unloading :: "nat \<Rightarrow> store \<Rightarrow> bool \<times> store" where
  "sample_unloading r st = (False, detach 1 st)"

lemma create_atomic_witness:
  "fst (create (Some ''b'') (CallerOptions None no_meta) 4 sample_unloading sample_busy) = Inr 1
   \<and> get_session ''b'' (snd (create (Some ''b'') (CallerOptions None no_meta) 4 sample_unloading sample_busy)) = None
   \<and> (\<exists>sid k st1 veto st2 r. st_live st1 = st_live sample_busy @ [(sid, k)] \<and> sample_unloading r st1 = (veto, st2) \<and> is_live st2 k)"
proof -
  let ?b = "create_begin (Some ''b'') (CallerOptions None no_meta) 4 sample_busy"
    and ?c = "create (Some ''b'') (CallerOptions None no_meta) 4 sample_unloading sample_busy"
  have b: "fst ?b = Inr (1, 1)" "en_announcing (st_entries (detach 1 (snd ?b)) ! 1)" "\<not> en_appending (st_entries (detach 1 (snd ?b)) ! 1)"
    "1 < length (st_entries (snd ?b))" by code_simp+
  have r: "fst ?c = Inr 1" "get_session ''b'' (snd ?c) = None" by code_simp+
  then have x: "\<not> (\<exists>y. fst ?c = Inl y)" by simp
  have rets: "returned k st1 (snd (sample_unloading r st1))" if "?b = (Inr (r, k), st1)" for r k st1
    using b that back_next [OF back_now step_detach, of 1 st1 1] by (simp add: returned_def sample_unloading_def)
  then have "\<forall>r k st1. ?b = (Inr (r, k), st1) \<longrightarrow> returned k st1 (snd (sample_unloading r st1))" by blast
  from create_atomic [OF sample_busy_reachable prod.collapse [symmetric] this] x r show ?thesis by blast
qed

lemma fork_prefix_witness:
  "\<exists>r st1 k s meta seed. create_begin (Some ''b'') (CallerOptions (Some seed) meta) 9 sample_busy = (Inr (r, k), st1)
     \<and> st_objects st1 = st_objects sample_busy @ [s] \<and> sh_seed_length (se_header s) = Some 1"
proof -
  have "is_ok (fst (fork (SourceId ''a'') (Some 0) (Some ''b'') 9 sample_unloading sample_busy))" by code_simp
  then obtain r st' where c: "fork (SourceId ''a'') (Some 0) (Some ''b'') 9 sample_unloading sample_busy = (Inr r, st')"
    by (cases "fork (SourceId ''a'') (Some 0) (Some ''b'') 9 sample_unloading sample_busy") (auto simp: is_ok_iff)
  from fork_prefix [OF sample_busy_reachable c] show ?thesis by fastforce
qed

end
