(* ===== verification/Text_Codec.thy ===== *)
theory Text_Codec
  imports JS_Prelude "HOL-Library.Word"
begin

text \<open>
  UTF-8 as \<open>TextEncoder\<close> and \<open>TextDecoder\<close> do it: the encoder of Unicode scalar values and
  the decoder of the encoding standard, which replaces each maximal malformed part by U+FFFD and
  drops a leading byte order mark. A text is the list of its scalar values. The lemmas give the
  round trip and the shape of an encoding: one lead byte, then continuation bytes.
\<close>

unbundle bit_operations_syntax

type_synonym byte = "8 word"
type_synonym codepoint = nat

section \<open>Encoding\<close>

definition scalar :: "codepoint \<Rightarrow> bool" where
  "scalar c \<longleftrightarrow> c < 0xD800 \<or> 0xE000 \<le> c \<and> c < 0x110000"

definition enc :: "codepoint \<Rightarrow> nat list" where
  "enc c = (if c < 0x80 then [c]
     else if c < 0x800 then [0xC0 + c div 64, 0x80 + c mod 64]
     else if c < 0x10000 then [0xE0 + c div 4096, 0x80 + c div 64 mod 64, 0x80 + c mod 64]
     else [0xF0 + c div 262144, 0x80 + c div 4096 mod 64, 0x80 + c div 64 mod 64, 0x80 + c mod 64])"

definition encode :: "codepoint list \<Rightarrow> byte list" where
  "encode cs = map word_of_nat (concat (map enc cs))"

section \<open>Decoding\<close>

definition replacement :: codepoint where
  "replacement = 0xFFFD"

text \<open>
  The decoder's state: how many continuation bytes are still needed, the bounds of the next
  one, and the code point so far. A byte outside the bounds is read again from the start.
\<close>

fun decode_from :: "nat \<Rightarrow> nat \<Rightarrow> nat \<Rightarrow> codepoint \<Rightarrow> nat list \<Rightarrow> codepoint list" where
  "decode_from 0 lo hi cp [] = []"
| "decode_from (Suc n) lo hi cp [] = [replacement]"
| "decode_from 0 lo hi cp (b # bs) =
     (if b < 0x80 then b # decode_from 0 0x80 0xBF 0 bs
      else if 0xC2 \<le> b \<and> b \<le> 0xDF then decode_from 1 0x80 0xBF (b - 0xC0) bs
      else if 0xE0 \<le> b \<and> b \<le> 0xEF
        then decode_from 2 (if b = 0xE0 then 0xA0 else 0x80) (if b = 0xED then 0x9F else 0xBF) (b - 0xE0) bs
      else if 0xF0 \<le> b \<and> b \<le> 0xF4
        then decode_from 3 (if b = 0xF0 then 0x90 else 0x80) (if b = 0xF4 then 0x8F else 0xBF) (b - 0xF0) bs
      else replacement # decode_from 0 0x80 0xBF 0 bs)"
| "decode_from (Suc n) lo hi cp (b # bs) =
     (if b < lo \<or> hi < b then replacement # decode_from 0 0x80 0xBF 0 (b # bs)
      else if n = 0 then (cp * 64 + (b - 0x80)) # decode_from 0 0x80 0xBF 0 bs
      else decode_from n 0x80 0xBF (cp * 64 + (b - 0x80)) bs)"

definition decode :: "byte list \<Rightarrow> codepoint list" where
  "decode bs = (let ns = map unat bs in
     decode_from 0 0x80 0xBF 0 (if take 3 ns = [0xEF, 0xBB, 0xBF] then drop 3 ns else ns))"

section \<open>Round trip\<close>

lemma enc_length: "enc c \<noteq> []" "1 \<le> length (enc c)" "length (enc c) \<le> 4"
  by (simp_all add: enc_def)

lemma enc_bytes: "scalar c \<Longrightarrow> b \<in> set (enc c) \<Longrightarrow> b < 256"
  by (auto simp: enc_def scalar_def split: if_splits)

lemma enc_tail: "b \<in> set (tl (enc c)) \<Longrightarrow> 0x80 \<le> b \<and> b < 0xC0"
  by (auto simp: enc_def split: if_splits)

lemma enc_head: "scalar c \<Longrightarrow> hd (enc c) < 0x80 \<and> length (enc c) = 1
   \<or> 0xC0 \<le> hd (enc c) \<and> hd (enc c) < 0xE0 \<and> length (enc c) = 2
   \<or> 0xE0 \<le> hd (enc c) \<and> hd (enc c) < 0xF0 \<and> length (enc c) = 3
   \<or> 0xF0 \<le> hd (enc c) \<and> hd (enc c) < 0xF8 \<and> length (enc c) = 4"
  by (auto simp: enc_def scalar_def)

lemma decode_from_idle: "decode_from 0 lo hi cp bs = decode_from 0 0x80 0xBF 0 bs"
  by (cases bs) simp_all

lemma base64:
  fixes c :: nat
  shows "(c div 4096 * 64 + c div 64 mod 64) * 64 + c mod 64 = c"
    and "((c div 262144 * 64 + c div 4096 mod 64) * 64 + c div 64 mod 64) * 64 + c mod 64 = c"
proof -
  have d: "c div 4096 = c div 64 div 64" "c div 262144 = c div 4096 div 64"
    by (simp_all add: div_mult2_eq [symmetric])
  show "(c div 4096 * 64 + c div 64 mod 64) * 64 + c mod 64 = c"
    unfolding d by simp
  then show "((c div 262144 * 64 + c div 4096 mod 64) * 64 + c div 64 mod 64) * 64 + c mod 64 = c"
    unfolding d(2) by simp
qed

lemma decode_enc:
  assumes "scalar c"
  shows "decode_from 0 0x80 0xBF 0 (enc c @ bs) = c # decode_from 0 0x80 0xBF 0 bs"
proof -
  consider "c < 0x80" | "0x80 \<le> c" "c < 0x800" | "0x800 \<le> c" "c < 0x10000" | "0x10000 \<le> c" by linarith
  then show ?thesis
  proof cases
    case 1
    then show ?thesis by (simp add: enc_def)
  next
    case 2
    define q r where "q = c div 64" and "r = c mod 64"
    with 2 have qr: "2 \<le> q" "q \<le> 31" "r \<le> 63" "c = q * 64 + r" by auto
    have "enc c = [0xC0 + q, 0x80 + r]" using 2 by (simp add: enc_def q_def r_def)
    with qr show ?thesis by simp
  next
    case 3
    define q r s where "q = c div 4096" and "r = c div 64 mod 64" and "s = c mod 64"
    have "c = (q * 64 + r) * 64 + s"
      using base64(1) [of c] by (simp add: q_def r_def s_def)
    moreover have "r < 64" "s < 64" by (simp_all add: r_def s_def)
    ultimately have c: "c = (q * 64 + r) * 64 + s" "r \<le> 63" "s \<le> 63" by simp_all
    have "q * 4096 + r * 64 + s < 0x10000" "0x800 \<le> q * 4096 + r * 64 + s"
      "q * 4096 + r * 64 + s < 0xD800 \<or> 0xE000 \<le> q * 4096 + r * 64 + s"
      using 3 assms c(1) unfolding scalar_def by auto
    with c(2,3) have q: "q \<le> 15" and e0: "q = 0 \<longrightarrow> 32 \<le> r" and ed: "q = 13 \<longrightarrow> r \<le> 31"
      by linarith+
    have "enc c = [0xE0 + q, 0x80 + r, 0x80 + s]" using 3 by (simp add: enc_def q_def r_def s_def)
    with c q e0 ed show ?thesis by (auto simp: numeral_2_eq_2)
  next
    case 4
    define q r s t where "q = c div 262144" and "r = c div 4096 mod 64" and "s = c div 64 mod 64" and "t = c mod 64"
    have "c = ((q * 64 + r) * 64 + s) * 64 + t"
      using base64(2) [of c] by (simp add: q_def r_def s_def t_def)
    moreover have "r < 64" "s < 64" "t < 64" by (simp_all add: r_def s_def t_def)
    ultimately have c: "c = ((q * 64 + r) * 64 + s) * 64 + t" "r \<le> 63" "s \<le> 63" "t \<le> 63" by simp_all
    have "0x10000 \<le> q * 262144 + r * 4096 + s * 64 + t" "q * 262144 + r * 4096 + s * 64 + t < 0x110000"
      using 4 assms c(1) unfolding scalar_def by auto
    with c(2-4) have q: "q \<le> 4" and f0: "q = 0 \<longrightarrow> 16 \<le> r" and f4: "q = 4 \<longrightarrow> r \<le> 15"
      by linarith+
    have "enc c = [0xF0 + q, 0x80 + r, 0x80 + s, 0x80 + t]" using 4 by (simp add: enc_def q_def r_def s_def t_def)
    with c q f0 f4 show ?thesis by (auto simp: numeral_3_eq_3)
  qed
qed

lemma decode_concat:
  "list_all scalar cs \<Longrightarrow> decode_from 0 0x80 0xBF 0 (concat (map enc cs)) = cs"
  by (induction cs) (simp_all add: decode_enc)

end
