(* ===== verification/Output_Retention.thy ===== *)
theory Output_Retention
  imports Text_Codec Agent_Inbox
begin

text \<open>
  Bounded output, \<open>src/packages/util/output-retention/src/index.ts\<close>: the item retainer, the
  text retainer with its rolling suffix of chunks, the trims to UTF-8 boundaries, and the
  omission notices. The lemmas compare the incremental retainers with what they keep of the
  whole stream, and show that a cut never breaks a character.
\<close>

section \<open>Vocabulary\<close>

datatype omitted = OmittedNone | OmittedExact nat | OmittedUnknown

record push_decision =
  pd_kept :: bool
  pd_truncated :: bool

record 'a retained_items =
  ri_items :: "'a list"
  ri_truncated :: bool
  ri_seen :: nat
  ri_kept :: nat
  ri_omitted :: omitted

record retained_text =
  rx_text :: "codepoint list"
  rx_truncated :: bool
  rx_omitted :: omitted

datatype text_strategy =
    KeepHead js_number
  | KeepTail js_number
  | KeepHeadTail js_number js_number

text \<open>A budget is a non-negative integer, of any size.\<close>

definition assertBudget :: "js_number \<Rightarrow> string \<Rightarrow> (string, nat) result" where
  "assertBudget v nm = (case v of
     JsNum r \<Rightarrow> if of_int \<lfloor>r\<rfloor> = r \<and> 0 \<le> r then Inr (nat \<lfloor>r\<rfloor>) else Inl (nm @ '' must be a non-negative integer'')
   | _ \<Rightarrow> Inl (nm @ '' must be a non-negative integer''))"

section \<open>Items\<close>

record 'a item_retainer =
  ir_max :: nat
  ir_items :: "'a list"
  ir_seen :: nat
  ir_dropped :: nat

definition new_item_retainer :: "js_number \<Rightarrow> (string, 'a item_retainer) result" where
  "new_item_retainer m = rbind (assertBudget m ''maxItems'')
     (\<lambda>n. Inr \<lparr>ir_max = n, ir_items = [], ir_seen = 0, ir_dropped = 0\<rparr>)"

definition push_item :: "'a \<Rightarrow> 'a item_retainer \<Rightarrow> push_decision \<times> 'a item_retainer" where
  "push_item x r =
     (let r1 = r\<lparr>ir_seen := ir_seen r + 1\<rparr> in
      if length (ir_items r1) < ir_max r1
      then (\<lparr>pd_kept = True, pd_truncated = False\<rparr>, r1\<lparr>ir_items := ir_items r1 @ [x]\<rparr>)
      else (\<lparr>pd_kept = False, pd_truncated = True\<rparr>, r1\<lparr>ir_dropped := ir_dropped r1 + 1\<rparr>))"

definition finish_items :: "'a item_retainer \<Rightarrow> 'a retained_items" where
  "finish_items r = \<lparr>ri_items = ir_items r, ri_truncated = (0 < ir_dropped r), ri_seen = ir_seen r,
     ri_kept = length (ir_items r),
     ri_omitted = (if 0 < ir_dropped r then OmittedExact (ir_dropped r) else OmittedNone)\<rparr>"

section \<open>UTF-8 boundaries\<close>

definition is_continuation :: "byte \<Rightarrow> bool" where
  "is_continuation b \<longleftrightarrow> b AND 0xC0 = 0x80"

text \<open>The scan back over at most three continuation bytes: from index \<open>i - 1\<close> down.\<close>

fun scan_back :: "byte list \<Rightarrow> nat \<Rightarrow> nat" where
  "scan_back bs 0 = 0"
| "scan_back bs (Suc i) =
     (if is_continuation (bs ! i) \<and> length bs - i \<le> 3 then scan_back bs i else Suc i)"

definition expected_length :: "byte \<Rightarrow> nat" where
  "expected_length lead = (if lead < 0x80 then 1 else if lead < 0xE0 then 2 else if lead < 0xF0 then 3
     else if lead < 0xF8 then 4 else 0)"

definition trimTrailingPartialUtf8 :: "byte list \<Rightarrow> byte list" where
  "trimTrailingPartialUtf8 bs = (case scan_back bs (length bs) of
     0 \<Rightarrow> bs
   | Suc i \<Rightarrow> let expected = expected_length (bs ! i) in
       if expected = 0 then bs
       else if length bs - i < expected then take i bs else bs)"

definition trimLeadingContinuationUtf8 :: "byte list \<Rightarrow> byte list" where
  "trimLeadingContinuationUtf8 bs = dropWhile is_continuation bs"

section \<open>Text\<close>

datatype text_chunk = ChunkBytes "byte list" | ChunkText "codepoint list"

definition chunk_bytes :: "text_chunk \<Rightarrow> byte list" where
  "chunk_bytes c = (case c of ChunkBytes bs \<Rightarrow> bs | ChunkText cs \<Rightarrow> encode cs)"

record text_retainer =
  tx_prefix_cap :: nat
  tx_suffix_cap :: nat
  tx_prefix :: "byte list list"
  tx_prefix_held :: nat
  tx_suffix :: "byte list list"
  tx_suffix_held :: nat
  tx_total :: nat

definition text_retainer_of :: "nat \<Rightarrow> nat \<Rightarrow> text_retainer" where
  "text_retainer_of p s = \<lparr>tx_prefix_cap = p, tx_suffix_cap = s, tx_prefix = [], tx_prefix_held = 0,
     tx_suffix = [], tx_suffix_held = 0, tx_total = 0\<rparr>"

definition new_text_retainer :: "text_strategy \<Rightarrow> (string, text_retainer) result" where
  "new_text_retainer st = (case st of
     KeepHead m \<Rightarrow> rbind (assertBudget m ''maxBytes'') (\<lambda>n. Inr (text_retainer_of n 0))
   | KeepTail m \<Rightarrow> rbind (assertBudget m ''maxBytes'') (\<lambda>n. Inr (text_retainer_of 0 n))
   | KeepHeadTail h t \<Rightarrow> rbind (assertBudget h ''headBytes'') (\<lambda>p.
       rbind (assertBudget t ''tailBytes'') (\<lambda>s. Inr (text_retainer_of p s))))"

definition omittedAt :: "text_retainer \<Rightarrow> nat \<Rightarrow> nat" where
  "omittedAt r tot =
     (let prefixLen = min tot (tx_prefix_cap r); suffixLen = min (tot - prefixLen) (tx_suffix_cap r)
      in tot - prefixLen - suffixLen)"

text \<open>Whole leading chunks that have slid out of the suffix window.\<close>

fun slide :: "nat \<Rightarrow> byte list list \<Rightarrow> nat \<Rightarrow> byte list list \<times> nat" where
  "slide cap [] held = ([], held)"
| "slide cap (h # hs) held = (if cap \<le> held - length h then slide cap hs (held - length h) else (h # hs, held))"

definition roll_suffix :: "nat \<Rightarrow> byte list \<Rightarrow> byte list list \<times> nat \<Rightarrow> byte list list \<times> nat" where
  "roll_suffix cap bs sfx =
     (if 0 < cap
      then (case slide cap (fst sfx @ [bs]) (snd sfx + length bs) of
              (h # hs, held) \<Rightarrow>
                (if cap < held then (drop (held - cap) h # hs, cap) else (h # hs, held))
            | ([], held) \<Rightarrow> ([], held))
      else sfx)"

definition push_text :: "text_chunk \<Rightarrow> text_retainer \<Rightarrow> push_decision \<times> text_retainer" where
  "push_text chunk r =
     (let bs = chunk_bytes chunk;
          before = tx_total r;
          tot = before + length bs;
          taken = min (tx_prefix_cap r - tx_prefix_held r) (length bs);
          (prefix, held) = (if 0 < taken then (tx_prefix r @ [take taken bs], tx_prefix_held r + taken)
                            else (tx_prefix r, tx_prefix_held r));
          (suffix, sheld) = roll_suffix (tx_suffix_cap r) bs (tx_suffix r, tx_suffix_held r);
          r' = r\<lparr>tx_prefix := prefix, tx_prefix_held := held, tx_suffix := suffix, tx_suffix_held := sheld, tx_total := tot\<rparr>
      in (\<lparr>pd_kept = (\<not> omittedAt r before < omittedAt r tot), pd_truncated = (0 < omittedAt r tot)\<rparr>, r'))"

definition finish_text :: "text_retainer \<Rightarrow> retained_text" where
  "finish_text r =
     (let prefixLen = min (tx_total r) (tx_prefix_cap r);
          suffixLen = min (tx_total r - prefixLen) (tx_suffix_cap r);
          prefix = concat (tx_prefix r);
          suffix = drop (tx_suffix_held r - suffixLen) (concat (tx_suffix r));
          budgetOmitted = omittedAt r (tx_total r);
          (keptPrefix, keptSuffix) = (if 0 < budgetOmitted
             then (trimTrailingPartialUtf8 prefix, trimLeadingContinuationUtf8 suffix) else (prefix, suffix));
          txt = (if 0 < budgetOmitted then decode keptPrefix @ decode keptSuffix else decode (prefix @ suffix));
          gone = tx_total r - length keptPrefix - length keptSuffix
      in \<lparr>rx_text = txt, rx_truncated = (0 < gone), rx_omitted = (if 0 < gone then OmittedExact gone else OmittedNone)\<rparr>)"

fun push_all :: "text_chunk list \<Rightarrow> text_retainer \<Rightarrow> text_retainer" where
  "push_all [] r = r"
| "push_all (c # cs) r = push_all cs (snd (push_text c r))"

fun push_items :: "'a list \<Rightarrow> 'a item_retainer \<Rightarrow> 'a item_retainer" where
  "push_items [] r = r"
| "push_items (x # xs) r = push_items xs (snd (push_item x r))"

section \<open>Notices\<close>

datatype retention_unit = UnitItems | UnitBytes | UnitChars | UnitLines

fun unit_word :: "retention_unit \<Rightarrow> string" where
  "unit_word UnitItems = ''items''" | "unit_word UnitBytes = ''bytes''"
| "unit_word UnitChars = ''chars''" | "unit_word UnitLines = ''lines''"

definition describeOmitted :: "omitted \<Rightarrow> retention_unit \<Rightarrow> string" where
  "describeOmitted om u = (case om of
     OmittedNone \<Rightarrow> []
   | OmittedExact n \<Rightarrow> ''Omitted '' @ show_nat n @ '' '' @ unit_word u @ ''.''
   | OmittedUnknown \<Rightarrow> ''More '' @ unit_word u @ '' were omitted.'')"

datatype retention_limit = LimitOne nat | LimitBoth nat nat

record retention_notice =
  rn_scope :: string
  rn_strategy :: string
  rn_unit :: retention_unit
  rn_limit :: retention_limit
  rn_kept :: nat
  rn_omitted :: omitted

definition formatRetentionNotice :: "retention_notice \<Rightarrow> (retention_notice \<Rightarrow> string) \<Rightarrow> string" where
  "formatRetentionNotice n recovery =
     join_with '' '' (filter (\<lambda>part. part \<noteq> []) [describeOmitted (rn_omitted n) (rn_unit n), recovery n])"


section \<open>The item retainer\<close>

lemma push_items_run:
  "length (ir_items r) \<le> ir_max r \<Longrightarrow>
     ir_max (push_items xs r) = ir_max r
   \<and> ir_items (push_items xs r) = ir_items r @ take (ir_max r - length (ir_items r)) xs
   \<and> ir_seen (push_items xs r) = ir_seen r + length xs
   \<and> ir_dropped (push_items xs r) = ir_dropped r + (length xs - (ir_max r - length (ir_items r)))"
proof (induction xs arbitrary: r)
  case Nil
  then show ?case by simp
next
  case (Cons x xs)
  show ?case
  proof (cases "length (ir_items r) < ir_max r")
    case True
    then obtain n where "ir_max r = Suc (length (ir_items r) + n)" using less_imp_Suc_add by blast
    moreover have "snd (push_item x r) = r\<lparr>ir_seen := ir_seen r + 1, ir_items := ir_items r @ [x]\<rparr>"
      using True by (simp add: push_item_def Let_def)
    ultimately show ?thesis
      using Cons.IH [of "r\<lparr>ir_seen := ir_seen r + 1, ir_items := ir_items r @ [x]\<rparr>"] True by simp
  next
    case False
    then have "snd (push_item x r) = r\<lparr>ir_seen := ir_seen r + 1, ir_dropped := ir_dropped r + 1\<rparr>"
      by (simp add: push_item_def Let_def)
    with Cons.IH [of "r\<lparr>ir_seen := ir_seen r + 1, ir_dropped := ir_dropped r + 1\<rparr>"] False Cons.prems
    show ?thesis by simp
  qed
qed

section \<open>The text retainer against the whole stream\<close>

definition last_bytes :: "nat \<Rightarrow> 'a list \<Rightarrow> 'a list" where
  "last_bytes n xs = drop (length xs - n) xs"

lemma length_last_bytes [simp]: "length (last_bytes n xs) = min n (length xs)"
  by (simp add: last_bytes_def)

lemma last_bytes_append: "last_bytes n (last_bytes n xs @ ys) = last_bytes n (xs @ ys)"
  by (cases "length xs \<le> n") (simp_all add: last_bytes_def add.commute)

lemma slide_keeps:
  "held = length (concat hs) \<Longrightarrow> slide cap hs held = (hs', held') \<Longrightarrow> 0 < cap \<Longrightarrow>
     held' = length (concat hs') \<and> last_bytes cap (concat hs') = last_bytes cap (concat hs)
   \<and> (cap \<le> held \<longrightarrow> cap \<le> held') \<and> (held < cap \<longrightarrow> hs' = hs)
   \<and> (case hs' of [] \<Rightarrow> hs = [] | h # _ \<Rightarrow> held' - length h < cap)"
proof (induction cap hs held rule: slide.induct)
  case (1 cap held)
  then show ?case by simp
next
  case (2 cap h hs held)
  show ?case
  proof (cases "cap \<le> held - length h")
    case True
    from 2(2) have l: "held - length h = length (concat hs)" by simp
    from True 2(3) have "slide cap hs (held - length h) = (hs', held')" by simp
    note IH = 2(1) [OF True l this 2(4)]
    from True l have same: "last_bytes cap (concat (h # hs)) = last_bytes cap (concat hs)"
      by (simp add: last_bytes_def)
    have "hs \<noteq> []" using True l 2(4) by auto
    with IH True 2(4) show ?thesis unfolding same by (auto split: list.split)
  next
    case False
    with 2(2,3) show ?thesis by (auto split: if_splits)
  qed
qed

definition suffix_ok :: "nat \<Rightarrow> byte list \<Rightarrow> byte list list \<times> nat \<Rightarrow> bool" where
  "suffix_ok cap bs sfx \<longleftrightarrow> snd sfx = length (concat (fst sfx)) \<and> concat (fst sfx) = last_bytes cap bs"

lemma roll_suffix_ok:
  assumes ok: "suffix_ok cap bs sfx"
  shows "suffix_ok cap (bs @ cs) (roll_suffix cap cs sfx)"
proof (cases "0 < cap")
  case False
  with ok show ?thesis by (simp add: roll_suffix_def suffix_ok_def last_bytes_def)
next
  case True
  obtain hs' held' where s: "slide cap (fst sfx @ [cs]) (snd sfx + length cs) = (hs', held')" by fastforce
  have "snd sfx + length cs = length (concat (fst sfx @ [cs]))" using ok by (simp add: suffix_ok_def)
  note k = slide_keeps [OF this s True]
  have all: "last_bytes cap (concat (fst sfx @ [cs])) = last_bytes cap (bs @ cs)"
    using ok last_bytes_append by (simp add: suffix_ok_def)
  show ?thesis
  proof (cases hs')
    case Nil
    with k show ?thesis by simp
  next
    case (Cons h hs)
    show ?thesis
    proof (cases "cap < held'")
      case big: True
      have held: "held' = length h + length (concat hs)" using k Cons by simp
      have lt: "length (concat hs) < cap" using k Cons by auto
      with big held Cons have "last_bytes cap (concat hs') = concat (drop (held' - cap) h # hs)"
        by (simp add: last_bytes_def)
      moreover have "cap = length (concat (drop (held' - cap) h # hs))"
        using big held lt by simp
      ultimately have "drop (held' - cap) h @ concat hs = last_bytes cap (bs @ cs)"
        using k all by simp
      moreover have "length (last_bytes cap (bs @ cs)) = cap"
      proof -
        have "cap < length (concat hs')" using big k by simp
        then have "length (last_bytes cap (concat hs')) = cap" by simp
        moreover have "last_bytes cap (concat hs') = last_bytes cap (bs @ cs)" using k all by simp
        ultimately show ?thesis by metis
      qed
      moreover have "roll_suffix cap cs sfx = (drop (held' - cap) h # hs, cap)"
        using True s Cons big by (simp add: roll_suffix_def)
      ultimately show ?thesis by (simp add: suffix_ok_def)
    next
      case False
      with k have "last_bytes cap (concat hs') = concat hs'" by (simp add: last_bytes_def)
      with True s Cons False k all show ?thesis by (simp add: roll_suffix_def suffix_ok_def)
    qed
  qed
qed

definition retainer_ok :: "nat \<Rightarrow> nat \<Rightarrow> byte list \<Rightarrow> text_retainer \<Rightarrow> bool" where
  "retainer_ok p s bs r \<longleftrightarrow> tx_prefix_cap r = p \<and> tx_suffix_cap r = s \<and> tx_total r = length bs
     \<and> concat (tx_prefix r) = take p bs \<and> tx_prefix_held r = min p (length bs)
     \<and> suffix_ok s bs (tx_suffix r, tx_suffix_held r)"

lemma retainer_ok_new: "retainer_ok p s [] (text_retainer_of p s)"
  by (simp add: retainer_ok_def text_retainer_of_def suffix_ok_def last_bytes_def)

lemma omittedAt_eq: "omittedAt r n = n - (tx_prefix_cap r + tx_suffix_cap r)"
proof (cases "n \<le> tx_prefix_cap r")
  case True
  then show ?thesis by (simp add: omittedAt_def)
next
  case False
  then show ?thesis by (cases "n - tx_prefix_cap r \<le> tx_suffix_cap r") (simp_all add: omittedAt_def Let_def)
qed

lemma push_text_ok:
  assumes ok: "retainer_ok p s bs r"
  shows "retainer_ok p s (bs @ chunk_bytes c) (snd (push_text c r))"
    and "pd_truncated (fst (push_text c r)) \<longleftrightarrow> p + s < length bs + length (chunk_bytes c)"
    and "pd_kept (fst (push_text c r)) \<longleftrightarrow> length bs + length (chunk_bytes c) \<le> p + s \<or> chunk_bytes c = []"
proof -
  have sfx: "suffix_ok s (bs @ chunk_bytes c) (roll_suffix s (chunk_bytes c) (tx_suffix r, tx_suffix_held r))"
    using ok by (intro roll_suffix_ok) (simp add: retainer_ok_def)
  show "retainer_ok p s (bs @ chunk_bytes c) (snd (push_text c r))"
    using ok sfx by (cases "roll_suffix s (chunk_bytes c) (tx_suffix r, tx_suffix_held r)")
      (auto simp: retainer_ok_def push_text_def Let_def take_append min_def)
  show "pd_truncated (fst (push_text c r)) \<longleftrightarrow> p + s < length bs + length (chunk_bytes c)"
    using ok by (auto simp: retainer_ok_def push_text_def Let_def omittedAt_eq split: prod.split)
  show "pd_kept (fst (push_text c r)) \<longleftrightarrow> length bs + length (chunk_bytes c) \<le> p + s \<or> chunk_bytes c = []"
  proof -
    have "pd_kept (fst (push_text c r)) \<longleftrightarrow> \<not> length bs - (p + s) < length bs + length (chunk_bytes c) - (p + s)"
      using ok by (auto simp: retainer_ok_def push_text_def Let_def omittedAt_eq split: prod.split)
    also have "\<dots> \<longleftrightarrow> length bs + length (chunk_bytes c) \<le> p + s \<or> length (chunk_bytes c) = 0" by arith
    finally show ?thesis by simp
  qed
qed

lemma push_all_ok:
  "retainer_ok p s bs r \<Longrightarrow> retainer_ok p s (bs @ concat (map chunk_bytes cs)) (push_all cs r)"
proof (induction cs arbitrary: bs r)
  case (Cons c cs)
  from Cons.IH [OF push_text_ok(1) [OF Cons.prems]] show ?case by simp
qed simp


section \<open>Cuts at character boundaries\<close>

lemma byte_unat: "n < 256 \<Longrightarrow> unat (word_of_nat n :: byte) = n"
  by (simp add: unat_of_nat)

lemma byte_less: "n < 256 \<Longrightarrow> k < 256 \<Longrightarrow> (word_of_nat n :: byte) < word_of_nat k \<longleftrightarrow> n < k"
  by (simp add: word_less_nat_alt byte_unat)

lemma continuation_table: "list_all (\<lambda>n. is_continuation (word_of_nat n) = (0x80 \<le> n \<and> n < 0xC0)) [0..<256]"
  by code_simp

lemma is_continuation_nat: "n < 256 \<Longrightarrow> is_continuation (word_of_nat n) \<longleftrightarrow> 0x80 \<le> n \<and> n < 0xC0"
  using continuation_table by (simp add: list_all_iff)

lemma expected_length_nat:
  assumes "n < 256"
  shows "expected_length (word_of_nat n) = (if n < 0x80 then 1 else if n < 0xE0 then 2 else if n < 0xF0 then 3 else if n < 0xF8 then 4 else 0)"
  using byte_less [OF assms, of "0x80"] byte_less [OF assms, of "0xE0"] byte_less [OF assms, of "0xF0"] byte_less [OF assms, of "0xF8"]
  by (simp add: expected_length_def)

text \<open>One encoded character: a lead byte that names the length, then continuation bytes.\<close>

definition enc_bytes_of :: "codepoint \<Rightarrow> byte list" where
  "enc_bytes_of c = map word_of_nat (enc c)"

lemma encode_simps: "encode [] = []" "encode (c # cs) = enc_bytes_of c @ encode cs" "encode (cs @ ds) = encode cs @ encode ds"
  by (simp_all add: encode_def enc_bytes_of_def)

lemma enc_bytes_shape:
  assumes "scalar c"
  obtains lead conts where "enc_bytes_of c = lead # conts" "\<not> is_continuation lead" "list_all is_continuation conts"
    "length conts \<le> 3" "expected_length lead = Suc (length conts)"
proof -
  obtain h t where ht: "enc c = h # t" using enc_length(1) by (cases "enc c") auto
  have b: "h < 256" "\<forall>x \<in> set t. x < 256" using enc_bytes [OF assms] ht by auto
  have "\<forall>x \<in> set t. 0x80 \<le> x \<and> x < 0xC0" using enc_tail [of _ c] ht by auto
  then have conts: "list_all is_continuation (map word_of_nat t)"
    using b(2) is_continuation_nat by (auto simp: list_all_iff)
  have "h < 0x80 \<and> t = [] \<or> 0xC0 \<le> h \<and> h < 0xE0 \<and> length t = 1 \<or> 0xE0 \<le> h \<and> h < 0xF0 \<and> length t = 2
     \<or> 0xF0 \<le> h \<and> h < 0xF8 \<and> length t = 3"
    using enc_head [OF assms] ht by auto
  then have "\<not> is_continuation (word_of_nat h)" "expected_length (word_of_nat h) = Suc (length t)" "length t \<le> 3"
    unfolding is_continuation_nat [OF b(1)] expected_length_nat [OF b(1)] by auto
  with conts ht that [of "word_of_nat h" "map word_of_nat t"] show thesis by (simp add: enc_bytes_of_def)
qed

lemma scan_back_run:
  "list_all is_continuation conts \<Longrightarrow> \<not> is_continuation lead \<Longrightarrow> length conts \<le> 3 \<Longrightarrow> k \<le> length conts \<Longrightarrow>
     scan_back (X @ lead # conts) (Suc (length X) + k) = Suc (length X)"
proof (induction k)
  case 0
  then show ?case by (simp add: nth_append)
next
  case (Suc k)
  then have "is_continuation ((X @ lead # conts) ! (Suc (length X) + k))"
    by (simp add: nth_append list_all_length)
  with Suc show ?case by simp
qed

lemma trim_trailing:
  assumes "list_all is_continuation conts" "\<not> is_continuation lead" "length conts \<le> 3" "expected_length lead \<noteq> 0"
  shows "trimTrailingPartialUtf8 (X @ lead # conts) =
    (if Suc (length conts) < expected_length lead then X else X @ lead # conts)"
proof -
  have "scan_back (X @ lead # conts) (length (X @ lead # conts)) = Suc (length X)"
    using scan_back_run [OF assms(1-3) order_refl, of X] by simp
  with assms(4) show ?thesis by (simp add: trimTrailingPartialUtf8_def Let_def)
qed

lemma list_all_take: "list_all P xs \<Longrightarrow> list_all P (take n xs)"
  by (auto simp: list_all_iff dest: in_set_takeD)

lemma list_all_drop: "list_all P xs \<Longrightarrow> list_all P (drop n xs)"
  by (auto simp: list_all_iff dest: in_set_dropD)

lemma trim_cut_char:
  assumes "scalar c" "j < length (enc_bytes_of c)"
  shows "trimTrailingPartialUtf8 (encode cs @ take j (enc_bytes_of c)) = (if j = 0 then trimTrailingPartialUtf8 (encode cs) else encode cs)"
proof (cases j)
  case 0
  then show ?thesis by simp
next
  case (Suc i)
  obtain lead conts where e: "enc_bytes_of c = lead # conts" "\<not> is_continuation lead" "list_all is_continuation conts"
    "length conts \<le> 3" "expected_length lead = Suc (length conts)"
    using enc_bytes_shape [OF assms(1)] .
  have "trimTrailingPartialUtf8 (encode cs @ lead # take i conts) = encode cs"
    using e assms(2) Suc by (subst trim_trailing) (simp_all add: list_all_take)
  with e Suc show ?thesis by simp
qed

lemma trim_whole: "list_all scalar cs \<Longrightarrow> trimTrailingPartialUtf8 (encode cs) = encode cs"
proof (cases cs rule: rev_cases)
  case Nil
  then show ?thesis by (simp add: encode_simps trimTrailingPartialUtf8_def)
next
  case (snoc ds c)
  moreover assume "list_all scalar cs"
  ultimately have "scalar c" by simp
  from enc_bytes_shape [OF this] obtain lead conts where e: "enc_bytes_of c = lead # conts" "\<not> is_continuation lead"
    "list_all is_continuation conts" "length conts \<le> 3" "expected_length lead = Suc (length conts)" .
  with trim_trailing [OF e(3,2,4), of "encode ds"] snoc show ?thesis by (simp add: encode_simps)
qed

lemma cut_prefix:
  assumes "list_all scalar cs"
  shows "\<exists>k \<le> length cs. trimTrailingPartialUtf8 (take p (encode cs)) = encode (take k cs)
     \<and> length (encode (take k cs)) \<le> p"
proof -
  have "\<exists>k j. k \<le> length cs \<and> take p (encode cs) = encode (take k cs) @ (if k < length cs then take j (enc_bytes_of (cs ! k)) else [])
     \<and> (k < length cs \<longrightarrow> j < length (enc_bytes_of (cs ! k))) \<and> length (encode (take k cs)) \<le> p"
  proof (induction cs arbitrary: p)
    case Nil
    then show ?case by (simp add: encode_simps)
  next
    case (Cons c cs)
    show ?case
    proof (cases "p < length (enc_bytes_of c)")
      case True
      then show ?thesis by (intro exI [of _ 0] exI [of _ p]) (simp add: encode_simps)
    next
      case False
      obtain k j where k: "k \<le> length cs" "take (p - length (enc_bytes_of c)) (encode cs)
          = encode (take k cs) @ (if k < length cs then take j (enc_bytes_of (cs ! k)) else [])"
        "k < length cs \<longrightarrow> j < length (enc_bytes_of (cs ! k))" "length (encode (take k cs)) \<le> p - length (enc_bytes_of c)"
        using Cons.IH by blast
      with False show ?thesis by - (rule exI [of _ "Suc k"], rule exI [of _ j], auto simp: encode_simps)
    qed
  qed
  then obtain k j where k: "k \<le> length cs" "length (encode (take k cs)) \<le> p"
    "take p (encode cs) = encode (take k cs) @ (if k < length cs then take j (enc_bytes_of (cs ! k)) else [])"
    "k < length cs \<longrightarrow> j < length (enc_bytes_of (cs ! k))" by blast
  have all: "list_all scalar (take k cs)" using assms by (rule list_all_take)
  have "k < length cs \<Longrightarrow> scalar (cs ! k)" using assms by (simp add: list_all_length)
  with k trim_cut_char [of "cs ! k" j "take k cs"] trim_whole [OF all] show ?thesis
    by (intro exI [of _ k]) (auto split: if_splits)
qed

lemma cut_suffix:
  assumes "list_all scalar cs" "q \<le> length (encode cs)"
  shows "\<exists>m \<le> length cs. trimLeadingContinuationUtf8 (drop q (encode cs)) = encode (drop m cs)
     \<and> q \<le> length (encode (take m cs))"
  using assms
proof (induction cs arbitrary: q)
  case Nil
  then show ?case by (simp add: encode_simps trimLeadingContinuationUtf8_def)
next
  case (Cons c cs)
  have start: "trimLeadingContinuationUtf8 (encode ds) = encode ds" if "list_all scalar ds" for ds
  proof (cases ds)
    case Nil
    then show ?thesis by (simp add: encode_simps trimLeadingContinuationUtf8_def)
  next
    case (Cons d ds')
    with that have "scalar d" by simp
    from enc_bytes_shape [OF this] obtain lead conts where "enc_bytes_of d = lead # conts" "\<not> is_continuation lead" .
    with Cons show ?thesis by (simp add: encode_simps trimLeadingContinuationUtf8_def)
  qed
  obtain lead conts where e: "enc_bytes_of c = lead # conts" "list_all is_continuation conts"
    using Cons.prems(1) enc_bytes_shape [of c] by (metis list.pred_inject(2))
  consider "q = 0" | "0 < q" "q < length (enc_bytes_of c)" | "length (enc_bytes_of c) \<le> q" by linarith
  then show ?case
  proof cases
    case 1
    then show ?thesis using start [OF Cons.prems(1)] by (intro exI [of _ 0]) simp
  next
    case 2
    have "drop q (encode (c # cs)) = drop (q - 1) conts @ encode cs"
      using 2 e(1) by (cases q) (simp_all add: encode_simps)
    moreover have "\<forall>b \<in> set (drop (q - 1) conts). is_continuation b"
      using e(2) by (auto simp: list_all_iff dest: in_set_dropD)
    ultimately have "trimLeadingContinuationUtf8 (drop q (encode (c # cs))) = trimLeadingContinuationUtf8 (encode cs)"
      by (simp add: trimLeadingContinuationUtf8_def dropWhile_append2)
    with 2 start [of cs] Cons.prems(1) show ?thesis
      by (intro exI [of _ 1]) (simp add: encode_simps)
  next
    case 3
    have "list_all scalar cs" "q - length (enc_bytes_of c) \<le> length (encode cs)"
      using Cons.prems 3 by (auto simp: encode_simps)
    from Cons.IH [OF this] obtain m where "m \<le> length cs"
      "trimLeadingContinuationUtf8 (drop (q - length (enc_bytes_of c)) (encode cs)) = encode (drop m cs)"
      "q - length (enc_bytes_of c) \<le> length (encode (take m cs))"
      by blast
    with 3 show ?thesis by (intro exI [of _ "Suc m"]) (simp add: encode_simps)
  qed
qed


section \<open>What a retainer returns\<close>

definition retained_of :: "nat \<Rightarrow> nat \<Rightarrow> byte list \<Rightarrow> retained_text" where
  "retained_of p s bs =
     (let (a, b) = (if length bs \<le> p + s then (bs, [])
                    else (trimTrailingPartialUtf8 (take p bs), trimLeadingContinuationUtf8 (last_bytes s bs)));
          gone = length bs - length a - length b
      in \<lparr>rx_text = (if length bs \<le> p + s then decode bs else decode a @ decode b), rx_truncated = (0 < gone),
          rx_omitted = (if 0 < gone then OmittedExact gone else OmittedNone)\<rparr>)"

lemma last_bytes_last_bytes: "n \<le> s \<Longrightarrow> drop (min s (length xs) - n) (last_bytes s xs) = last_bytes n xs"
  by (cases "s \<le> length xs") (simp_all add: last_bytes_def)

lemma finish_text_spec:
  assumes "retainer_ok p s bs r"
  shows "finish_text r = retained_of p s bs"
proof -
  let ?n = "min (length bs - min (length bs) p) s"
  have r: "tx_total r = length bs" "tx_prefix_cap r = p" "tx_suffix_cap r = s" "concat (tx_prefix r) = take p bs"
    "concat (tx_suffix r) = last_bytes s bs" "tx_suffix_held r = min s (length bs)"
    using assms by (simp_all add: retainer_ok_def suffix_ok_def)
  have suffix: "drop (min s (length bs) - ?n) (last_bytes s bs) = last_bytes ?n bs"
    by (rule last_bytes_last_bytes) simp
  show ?thesis
  proof (cases "length bs \<le> p + s")
    case True
    then have n: "?n = length bs - min (length bs) p" by linarith
    have "last_bytes ?n bs = drop p bs" unfolding n by (auto simp: last_bytes_def min_def)
    with suffix True show ?thesis
      unfolding finish_text_def retained_of_def omittedAt_eq r Let_def by (simp add: min_def)
  next
    case False
    then have "?n = s" by linarith
    with suffix False show ?thesis
      unfolding finish_text_def retained_of_def omittedAt_eq r Let_def by simp
  qed
qed

section \<open>Properties\<close>

definition budgets :: "text_strategy \<Rightarrow> (string, nat \<times> nat) result" where
  "budgets st = (case st of
     KeepHead m \<Rightarrow> rbind (assertBudget m ''maxBytes'') (\<lambda>n. Inr (n, 0))
   | KeepTail m \<Rightarrow> rbind (assertBudget m ''maxBytes'') (\<lambda>n. Inr (0, n))
   | KeepHeadTail h t \<Rightarrow> rbind (assertBudget h ''headBytes'') (\<lambda>p. rbind (assertBudget t ''tailBytes'') (\<lambda>n. Inr (p, n))))"

lemma new_text_retainer_Inr:
  "new_text_retainer st = Inr r \<longleftrightarrow> (\<exists>p s. budgets st = Inr (p, s) \<and> r = text_retainer_of p s)"
  by (cases st) (auto simp: new_text_retainer_def budgets_def rbind_Inr_iff)

lemma retainer_spec:
  assumes "new_text_retainer st = Inr r" "budgets st = Inr (p, s)"
  shows "finish_text (push_all chunks r) = retained_of p s (concat (map chunk_bytes chunks))
     \<and> length (concat (tx_prefix (push_all chunks r))) + length (concat (tx_suffix (push_all chunks r))) \<le> p + s"
proof -
  have "r = text_retainer_of p s" using assms by (simp add: new_text_retainer_Inr)
  then have ok: "retainer_ok p s (concat (map chunk_bytes chunks)) (push_all chunks r)"
    using push_all_ok [OF retainer_ok_new] by simp
  then have "length (concat (tx_prefix (push_all chunks r))) \<le> p" "length (concat (tx_suffix (push_all chunks r))) \<le> s"
    by (simp_all add: retainer_ok_def suffix_ok_def)
  with finish_text_spec [OF ok] show ?thesis by simp
qed

text \<open>C25.
  However the stream is cut into chunks, the text retainer returns what its budgets keep of the
  whole stream: everything when it fits, otherwise the prefix and the suffix, each trimmed to a
  character boundary, with the exact number of bytes left out. What it holds meanwhile stays
  within the two budgets.
\<close>

theorem text_retainer_spec:
  assumes "new_text_retainer st = Inr r" and "budgets st = Inr (p, s)"
  shows "finish_text (push_all chunks r) = retained_of p s (concat (map chunk_bytes chunks))
     \<and> length (concat (tx_prefix (push_all chunks r))) + length (concat (tx_suffix (push_all chunks r))) \<le> p + s"
  using retainer_spec [OF assms] .

lemma text_retainer_spec_witness:
  "\<exists>r. new_text_retainer (KeepHeadTail (JsNum 2) (JsNum 1)) = Inr r
     \<and> rx_text (finish_text (push_all [ChunkText [104, 233], ChunkBytes [33, 33]] r)) = [104, 33]"
proof -
  have "\<exists>r. new_text_retainer (KeepHeadTail (JsNum 2) (JsNum 1)) = Inr r"
    and b: "budgets (KeepHeadTail (JsNum 2) (JsNum 1)) = Inr (2, 1)"
    by (simp_all add: new_text_retainer_def budgets_def assertBudget_def)
  then obtain r where r: "new_text_retainer (KeepHeadTail (JsNum 2) (JsNum 1)) = Inr r" by blast
  have "rx_text (retained_of 2 1 (concat (map chunk_bytes [ChunkText [104, 233], ChunkBytes [33, 33]]))) = [104, 33]"
    by code_simp
  with text_retainer_spec [OF r b] r show ?thesis by metis
qed

text \<open>The decoder on an encoded text that has no byte order mark.\<close>

lemma decode_encode:
  assumes "list_all scalar cs" "0xFEFF \<notin> set cs"
  shows "decode (encode cs) = cs"
proof -
  have "\<forall>b \<in> set (concat (map enc cs)). b < 256"
    using assms(1) enc_bytes by (fastforce simp: list_all_iff)
  then have ns: "map unat (encode cs) = concat (map enc cs)"
    by (auto simp: encode_def byte_unat intro!: map_idI)
  have whole: "decode_from 0 0x80 0xBF 0 (concat (map enc cs)) = cs"
    by (rule decode_concat [OF assms(1)])
  have "take 3 (concat (map enc cs)) \<noteq> [0xEF, 0xBB, 0xBF]"
  proof
    assume bom: "take 3 (concat (map enc cs)) = [0xEF, 0xBB, 0xBF]"
    define rest where "rest = drop 3 (concat (map enc cs))"
    from bom have "concat (map enc cs) = [0xEF, 0xBB, 0xBF] @ rest"
      unfolding rest_def by (metis append_take_drop_id)
    with whole have "cs = decode_from 0 0x80 0xBF 0 ([0xEF, 0xBB, 0xBF] @ rest)" by simp
    then have "\<exists>ds. cs = 0xFEFF # ds" by (simp add: numeral_2_eq_2)
    with assms(2) show False by auto
  qed
  with whole show ?thesis by (simp add: decode_def ns Let_def)
qed

lemma encode_split: "encode cs = encode (take k cs) @ encode (drop k cs)"
  by (metis append_take_drop_id encode_simps(3))

lemma encode_shorter: "list_all scalar cs \<Longrightarrow> m \<le> k \<Longrightarrow> length (encode (take m cs)) \<le> length (encode (take k cs))"
  using encode_split [of "take k cs" m] by (simp add: min_absorb1)

text \<open>C26.
  Cutting never breaks a character: when the stream is the UTF-8 of a text without byte order
  marks, in whatever chunks, the retained text is a prefix of that text followed by a suffix of
  it, no replacement character is introduced, and the omitted count is the size of exactly the
  characters left out between them.
\<close>

theorem cut_keeps_characters:
  assumes "list_all scalar cs" and "0xFEFF \<notin> set cs"
    and "concat (map chunk_bytes chunks) = encode cs" and "new_text_retainer st = Inr r"
  shows "\<exists>k m. k \<le> m \<and> m \<le> length cs \<and> rx_text (finish_text (push_all chunks r)) = take k cs @ drop m cs
     \<and> rx_omitted (finish_text (push_all chunks r)) =
        (if k = m then OmittedNone else OmittedExact (length (encode (take (m - k) (drop k cs)))))"
proof -
  obtain p s where b: "budgets st = Inr (p, s)" using assms(4) by (auto simp: new_text_retainer_Inr)
  let ?bs = "encode cs"
  have fin: "finish_text (push_all chunks r) = retained_of p s ?bs"
    using retainer_spec [OF assms(4) b, of chunks] assms(3) by simp
  have dec: "decode (encode (take k cs)) = take k cs" "decode (encode (drop k cs)) = drop k cs" for k
    using assms(1,2) by (auto intro!: decode_encode list_all_take list_all_drop dest: in_set_takeD in_set_dropD)
  show ?thesis
  proof (cases "length ?bs \<le> p + s")
    case True
    with fin dec(1) [of "length cs"] show ?thesis
      by (intro exI [of _ "length cs"]) (simp add: retained_of_def Let_def)
  next
    case False
    obtain k where k: "k \<le> length cs" "trimTrailingPartialUtf8 (take p ?bs) = encode (take k cs)" "length (encode (take k cs)) \<le> p"
      using cut_prefix [OF assms(1)] by blast
    obtain m where m: "m \<le> length cs" "trimLeadingContinuationUtf8 (last_bytes s ?bs) = encode (drop m cs)"
      "length ?bs - s \<le> length (encode (take m cs))"
      using cut_suffix [OF assms(1), of "length ?bs - s"] by (auto simp: last_bytes_def)
    have "k < m"
    proof (rule ccontr)
      assume "\<not> k < m"
      then have "length (encode (take m cs)) \<le> length (encode (take k cs))"
        by (intro encode_shorter [OF assms(1)]) simp
      with k(3) m(3) False show False by linarith
    qed
    let ?mid = "take (m - k) (drop k cs)"
    have "cs = take k cs @ ?mid @ drop m cs"
      using \<open>k < m\<close> by (metis append_take_drop_id drop_drop le_add_diff_inverse2 less_imp_le)
    then have len: "length ?bs = length (encode (take k cs)) + length (encode ?mid) + length (encode (drop m cs))"
      by (metis add.assoc encode_simps(3) length_append)
    have "?mid \<noteq> []" using \<open>k < m\<close> m(1) by simp
    then have "encode ?mid \<noteq> []" by (cases ?mid) (auto simp: encode_simps enc_bytes_of_def enc_length)
    then show ?thesis
      using False fin k(2) m(1,2) len \<open>k < m\<close> dec
      by - (rule exI [of _ k], rule exI [of _ m], auto simp: retained_of_def Let_def)
  qed
qed


definition sample_chunks :: "text_chunk list" where
  "sample_chunks = [ChunkText [104, 233], ChunkText [8364, 33, 33]]"

lemma cut_keeps_characters_witness:
  "\<exists>r k m. new_text_retainer (KeepHeadTail (JsNum 2) (JsNum 3)) = Inr r
     \<and> rx_text (finish_text (push_all sample_chunks r)) = take k [104, 233, 8364, 33, 33] @ drop m [104, 233, 8364, 33, 33]"
proof -
  have "\<exists>r. new_text_retainer (KeepHeadTail (JsNum 2) (JsNum 3)) = Inr r"
    by (simp add: new_text_retainer_def assertBudget_def)
  then obtain r where r: "new_text_retainer (KeepHeadTail (JsNum 2) (JsNum 3)) = Inr r" by blast
  have "list_all scalar [104, 233, 8364, 33, 33]" "0xFEFF \<notin> set [104, 233, 8364, 33, 33 :: codepoint]"
    "concat (map chunk_bytes sample_chunks) = encode [104, 233, 8364, 33, 33]"
    by (simp_all add: scalar_def sample_chunks_def chunk_bytes_def encode_def)
  from cut_keeps_characters [OF this r] r show ?thesis by blast
qed

text \<open>Each push reports the state of the whole stream so far: it has lost something exactly when
  more bytes were seen than both budgets hold, and a chunk was kept exactly when the stream with
  it still fits, or when the chunk is empty.
\<close>

theorem push_reports:
  assumes "new_text_retainer st = Inr r" and "budgets st = Inr (p, s)"
  shows "let d = fst (push_text c (push_all chunks r)); n = length (concat (map chunk_bytes (chunks @ [c]))) in
     (pd_truncated d \<longleftrightarrow> p + s < n) \<and> (pd_kept d \<longleftrightarrow> n \<le> p + s \<or> chunk_bytes c = [])"
proof -
  have "r = text_retainer_of p s" using assms by (simp add: new_text_retainer_Inr)
  then have "retainer_ok p s (concat (map chunk_bytes chunks)) (push_all chunks r)"
    using push_all_ok [OF retainer_ok_new] by simp
  from push_text_ok(2,3) [OF this, of c] show ?thesis by (simp add: Let_def)
qed

lemma push_reports_witness:
  "\<exists>r. new_text_retainer (KeepTail (JsNum 3)) = Inr r
     \<and> pd_truncated (fst (push_text (ChunkText [33, 33]) (push_all [ChunkText [104, 105]] r)))"
proof -
  have "\<exists>r. new_text_retainer (KeepTail (JsNum 3)) = Inr r" and b: "budgets (KeepTail (JsNum 3)) = Inr (0, 3)"
    by (simp_all add: new_text_retainer_def budgets_def assertBudget_def)
  then obtain r where r: "new_text_retainer (KeepTail (JsNum 3)) = Inr r" by blast
  have "3 < length (concat (map chunk_bytes ([ChunkText [104, 105]] @ [ChunkText [33, 33]])))" by code_simp
  with push_reports [OF r b, of "ChunkText [33, 33]" "[ChunkText [104, 105]]"] r show ?thesis
    by (auto simp: Let_def)
qed

text \<open>The item retainer keeps the first units up to its cap, in order, and counts exactly how many
  it saw and how many it left out.
\<close>

theorem item_retainer_spec:
  assumes "new_item_retainer m = Inr r" and "assertBudget m ''maxItems'' = Inr n"
  shows "finish_items (push_items xs r) = \<lparr>ri_items = take n xs, ri_truncated = (n < length xs), ri_seen = length xs,
     ri_kept = min n (length xs), ri_omitted = (if n < length xs then OmittedExact (length xs - n) else OmittedNone)\<rparr>"
proof -
  have "r = \<lparr>ir_max = n, ir_items = [], ir_seen = 0, ir_dropped = 0\<rparr>"
    using assms by (simp add: new_item_retainer_def)
  with push_items_run [of r xs] show ?thesis
    by (auto simp: finish_items_def min_def)
qed

lemma item_retainer_spec_witness:
  "\<exists>r. new_item_retainer (JsNum 2) = Inr r \<and> ri_omitted (finish_items (push_items [1, 2, 3 :: nat] r)) = OmittedExact 1"
proof -
  have b: "assertBudget (JsNum 2) ''maxItems'' = Inr 2" by (simp add: assertBudget_def)
  then obtain r :: "nat item_retainer" where r: "new_item_retainer (JsNum 2) = Inr r" by (simp add: new_item_retainer_def)
  from item_retainer_spec [OF r b, of "[1, 2, 3]"] r show ?thesis by simp
qed

end
