(* ===== verification/Scope_Layers.thy ===== *)
theory Scope_Layers
  imports JS_Prelude
begin

text \<open>
  Nested scopes (\<open>src/packages/core/scope/src/index.ts\<close>) and the tables layered by them
  (\<open>src/packages/core/scope/src/store.ts\<close>). A scope key is a number standing for the object
  compared by identity; the weak map of parents is an insertion-ordered map. The loops that
  follow parents end only because no link ever closes a cycle, so they are partial functions
  whose \<open>None\<close> is the loop that does not return, and that they return is proved. A layer is
  an object shared by the disposers of its registrations: layers live in a heap, the global
  one at address 0, and a disposer holds the address of its own.
\<close>

section \<open>Scope chains\<close>

type_synonym scope_key = nat
type_synonym scope_parents = "(scope_key, scope_key) js_map"

datatype scope_error = ScopeCycle | ScopeAlreadyBound

partial_function (option) cycle_check ::
    "scope_parents \<Rightarrow> scope_key \<Rightarrow> scope_key \<Rightarrow> (scope_error, unit) result option" where
  "cycle_check P key cursor =
     (if cursor = key then Some (Inl ScopeCycle)
      else case map_get P cursor of None \<Rightarrow> Some (Inr ()) | Some next \<Rightarrow> cycle_check P key next)"

definition linkScopeParent ::
    "scope_parents \<Rightarrow> scope_key \<Rightarrow> scope_key \<Rightarrow> (scope_error, scope_parents) result option" where
  "linkScopeParent P key parent =
     map_option (\<lambda>r. rbind r (\<lambda>_. Inr (map_set key parent P))) (cycle_check P key parent)"

definition bindScopeParent ::
    "scope_parents \<Rightarrow> scope_key \<Rightarrow> scope_key \<Rightarrow> (scope_error, scope_parents) result option" where
  "bindScopeParent P key parent =
     (if map_get P key \<noteq> None then Some (Inl ScopeAlreadyBound) else linkScopeParent P key parent)"

partial_function (option) scope_chain :: "scope_parents \<Rightarrow> scope_key \<Rightarrow> scope_key list option" where
  "scope_chain P cursor =
     (case map_get P cursor of
        None \<Rightarrow> Some [cursor]
      | Some next \<Rightarrow> Option.bind (scope_chain P next) (\<lambda>chain. Some (cursor # chain)))"

definition scopeChainOf :: "scope_parents \<Rightarrow> scope_key option \<Rightarrow> scope_key list option" where
  "scopeChainOf P key = (case key of None \<Rightarrow> Some [] | Some k \<Rightarrow> scope_chain P k)"

partial_function (option) tag_walk :: "scope_parents \<Rightarrow> scope_key \<Rightarrow> scope_key \<Rightarrow> bool option" where
  "tag_walk P tag cursor =
     (if cursor = tag then Some True
      else case map_get P cursor of None \<Rightarrow> Some False | Some next \<Rightarrow> tag_walk P tag next)"

text \<open>The filter of a carrier: the verdict of the subject's own filter, its key, the listener's tag.\<close>

definition scopeTarget :: "scope_parents \<Rightarrow> bool \<Rightarrow> scope_key option \<Rightarrow> scope_key option \<Rightarrow> bool option" where
  "scopeTarget P baseFilter key tag =
     (if \<not> baseFilter then Some False
      else case tag of None \<Rightarrow> Some True
         | Some t \<Rightarrow> (case key of None \<Rightarrow> Some False | Some k \<Rightarrow> tag_walk P t k))"

text \<open>
  The relations a process can build: a first link by whoever binds the key, then links by the
  holder of that binding.
\<close>

inductive scopes :: "scope_parents \<Rightarrow> bool" where
  no_scopes: "scopes []"
| scopes_bind: "scopes P \<Longrightarrow> bindScopeParent P key parent = Some (Inr P') \<Longrightarrow> scopes P'"
| scopes_rebind:
    "scopes P \<Longrightarrow> map_get P key \<noteq> None \<Longrightarrow> linkScopeParent P key parent = Some (Inr P') \<Longrightarrow> scopes P'"

text \<open>A chain as a fact: it starts at the key, follows the links and ends at a key without one.\<close>

fun is_chain :: "scope_parents \<Rightarrow> scope_key list \<Rightarrow> bool" where
  "is_chain P [] = False"
| "is_chain P [k] = (map_get P k = None)"
| "is_chain P (k # p # ks) = (map_get P k = Some p \<and> is_chain P (p # ks))"

lemma is_chain_walks:
  "is_chain P (k # ks) \<Longrightarrow>
     scope_chain P k = Some (k # ks) \<and>
     cycle_check P key k = Some (if key \<in> set (k # ks) then Inl ScopeCycle else Inr ()) \<and>
     tag_walk P key k = Some (key \<in> set (k # ks))"
proof (induction ks arbitrary: k)
  case Nil
  then show ?case
    by (simp add: scope_chain.simps cycle_check.simps tag_walk.simps)
next
  case (Cons p ks)
  then have "map_get P k = Some p" "is_chain P (p # ks)"
    by simp_all
  with Cons.IH [OF this(2)] show ?case
    by (subst scope_chain.simps, subst cycle_check.simps, subst tag_walk.simps) auto
qed

lemma is_chain_unique: "is_chain P (k # ks) \<Longrightarrow> is_chain P (k # ks') \<Longrightarrow> ks = ks'"
  using is_chain_walks [of P k ks 0] is_chain_walks [of P k ks' 0] by simp

lemma is_chain_suffix: "is_chain P (xs @ y # ys) \<Longrightarrow> is_chain P (y # ys)"
proof (induction xs)
  case (Cons x xs)
  then show ?case
    by (cases "xs @ y # ys") auto
qed simp

lemma is_chain_distinct: "is_chain P ks \<Longrightarrow> distinct ks"
proof (induction P ks rule: is_chain.induct)
  case (3 P k p ks)
  then have chain: "is_chain P (k # p # ks)" and rest: "is_chain P (p # ks)"
    by simp_all
  have "k \<notin> set (p # ks)"
  proof
    assume "k \<in> set (p # ks)"
    then obtain xs ys where split: "p # ks = xs @ k # ys"
      by (meson split_list)
    with rest have "is_chain P (k # ys)"
      by (metis is_chain_suffix)
    with chain have "p # ks = ys"
      by (rule is_chain_unique)
    with split show False
      using arg_cong [OF split, of length] by simp
  qed
  with 3 show ?case
    by simp
qed simp_all

lemma is_chain_other: "is_chain P ks \<Longrightarrow> key \<notin> set ks \<Longrightarrow> is_chain (map_set key p P) ks"
  by (induction P ks rule: is_chain.induct) (simp_all add: map_simps)

lemma is_chain_linked:
  assumes "is_chain P (p # ps)" "key \<notin> set (p # ps)" "is_chain P (k # ks)"
  shows "\<exists>ks'. is_chain (map_set key p P) (k # ks')"
  using assms(3)
proof (induction ks arbitrary: k)
  case Nil
  show ?case
  proof (cases "k = key")
    case True
    with is_chain_other [OF assms(1,2)] have "is_chain (map_set key p P) (k # p # ps)"
      by (simp add: map_simps)
    then show ?thesis ..
  next
    case False
    with Nil have "is_chain (map_set key p P) (k # [])"
      by (simp add: map_simps)
    then show ?thesis ..
  qed
next
  case (Cons q ks)
  show ?case
  proof (cases "k = key")
    case True
    with is_chain_other [OF assms(1,2)] have "is_chain (map_set key p P) (k # p # ps)"
      by (simp add: map_simps)
    then show ?thesis ..
  next
    case False
    from Cons obtain ks' where "is_chain (map_set key p P) (q # ks')"
      by auto
    with False Cons.prems have "is_chain (map_set key p P) (k # q # ks')"
      by (simp add: map_simps)
    then show ?thesis ..
  qed
qed

definition chained :: "scope_parents \<Rightarrow> bool" where
  "chained P \<longleftrightarrow> (\<forall>k. \<exists>ks. is_chain P (k # ks))"

lemma chained_link:
  assumes "chained P" "linkScopeParent P key parent = Some (Inr P')"
  shows "chained P'"
proof -
  from assms(1) obtain ps where ps: "is_chain P (parent # ps)"
    by (auto simp: chained_def)
  with assms(2) have "P' = map_set key parent P" "key \<notin> set (parent # ps)"
    using is_chain_walks [OF ps, of key] by (auto simp: linkScopeParent_def split: if_splits)
  with assms(1) show ?thesis
    unfolding chained_def using is_chain_linked [OF ps] by blast
qed

lemma scopes_chained: "scopes P \<Longrightarrow> chained P"
proof (induction rule: scopes.induct)
  case no_scopes
  have "is_chain [] (k # [])" for k
    by (simp add: map_simps)
  then show ?case
    unfolding chained_def by blast
next
  case (scopes_bind P key parent P')
  then show ?case
    by (auto simp: bindScopeParent_def split: if_splits intro: chained_link)
next
  case (scopes_rebind P key parent P')
  then show ?case
    by (auto intro: chained_link)
qed

text \<open>In every relation of scopes a process can build, every walk along parents ends: the chain of
  a key exists, has no key twice, follows the links and stops at a root. A link is refused
  exactly when the key already lies on the chain of its new parent, and an event keyed to a
  scope reaches a tagged listener exactly when the tag lies on that chain.
\<close>
theorem scope_walks_end:
  assumes "scopes P"
  shows "\<exists>c. scopeChainOf P (Some k) = Some c \<and> hd c = k \<and> distinct c \<and> is_chain P c \<and>
     linkScopeParent P key k = Some (if key \<in> set c then Inl ScopeCycle else Inr (map_set key k P)) \<and>
     scopeTarget P True (Some k) (Some key) = Some (key \<in> set c)"
proof -
  from scopes_chained [OF assms] obtain ks where chain: "is_chain P (k # ks)"
    by (auto simp: chained_def)
  from is_chain_walks [OF chain, of key] is_chain_distinct [OF chain] chain show ?thesis
    by (intro exI [of _ "k # ks"]) (auto simp: scopeChainOf_def linkScopeParent_def scopeTarget_def)
qed

definition sample_scopes :: scope_parents where
  "sample_scopes = [(2, 1), (3, 2)]"

lemma sample_scopes_built: "scopes sample_scopes"
proof -
  have "bindScopeParent [] 2 1 = Some (Inr [(2, 1)])"
    by (simp add: bindScopeParent_def linkScopeParent_def cycle_check.simps map_simps)
  with no_scopes have "scopes [(2, 1)]"
    by (rule scopes_bind)
  moreover have "bindScopeParent [(2, 1)] 3 2 = Some (Inr sample_scopes)"
    by (simp add: bindScopeParent_def linkScopeParent_def cycle_check.simps map_get_def sample_scopes_def)
  ultimately show ?thesis
    by (rule scopes_bind)
qed

lemma scope_walks_end_witness:
  "scopes sample_scopes \<and> (\<exists>c. scopeChainOf sample_scopes (Some 3) = Some c \<and> distinct c \<and>
     linkScopeParent sample_scopes 1 3 = Some (if 1 \<in> set c then Inl ScopeCycle else Inr (map_set 1 3 sample_scopes)))"
  using scope_walks_end [OF sample_scopes_built, of 3 1] sample_scopes_built by blast

section \<open>Entry tables\<close>

text \<open>
  The undo of an entry acts once: the flag of its closure is that the registration is still
  live, and only live registrations are undone below.
\<close>

type_synonym 'v named_entries = "(string, 'v) js_map"

definition named_insert :: "string \<Rightarrow> 'v \<Rightarrow> 'v named_entries \<Rightarrow> (string, 'v named_entries) result" where
  "named_insert name v data =
     (if map_get data name \<noteq> None then Inl name else Inr (map_set name v data))"

definition named_undo :: "string \<Rightarrow> 'v named_entries \<Rightarrow> 'v named_entries" where
  "named_undo name data = map_delete name data"

record 'v anonymous_entries =
  ae_next :: nat
  ae_data :: "(nat, 'v) js_map"

definition no_entries :: "'v anonymous_entries" where
  "no_entries = \<lparr>ae_next = 0, ae_data = []\<rparr>"

definition anonymous_append :: "'v \<Rightarrow> 'v anonymous_entries \<Rightarrow> nat \<times> 'v anonymous_entries" where
  "anonymous_append v T =
     (ae_next T, T\<lparr>ae_next := Suc (ae_next T), ae_data := map_set (ae_next T) v (ae_data T)\<rparr>)"

definition anonymous_undo :: "nat \<Rightarrow> 'v anonymous_entries \<Rightarrow> 'v anonymous_entries" where
  "anonymous_undo key T = T\<lparr>ae_data := map_delete key (ae_data T)\<rparr>"

definition anonymous_values :: "'v anonymous_entries \<Rightarrow> 'v list" where
  "anonymous_values T = map snd (ae_data T)"

definition anonymous_empty :: "'v anonymous_entries \<Rightarrow> bool" where
  "anonymous_empty T \<longleftrightarrow> ae_data T = []"

definition entries_ok :: "'v anonymous_entries \<Rightarrow> bool" where
  "entries_ok T \<longleftrightarrow> (\<forall>e \<in> set (ae_data T). fst e < ae_next T)"

lemma map_set_fresh: "k \<notin> fst ` set m \<Longrightarrow> map_set k v m = m @ [(k, v)]"
  by (induction m) auto

lemma anonymous_append_ok:
  assumes "entries_ok T" "anonymous_append v T = (t, T')"
  shows "entries_ok T'" "t \<notin> fst ` set (ae_data T)" "ae_data T' = ae_data T @ [(t, v)]"
proof -
  from assms(1) have fresh: "ae_next T \<notin> fst ` set (ae_data T)"
    by (auto simp: entries_ok_def)
  with assms show "entries_ok T'" "t \<notin> fst ` set (ae_data T)" "ae_data T' = ae_data T @ [(t, v)]"
    by (force simp: anonymous_append_def map_set_fresh entries_ok_def intro: less_SucI)+
qed

lemma anonymous_undo_ok:
  "entries_ok T \<Longrightarrow> entries_ok (anonymous_undo key T)"
  "ae_data (anonymous_undo key T) = filter (\<lambda>e. fst e \<noteq> key) (ae_data T)"
  by (auto simp: entries_ok_def anonymous_undo_def map_delete_def)

section \<open>Layers\<close>

record 'l scoped_layers =
  ly_heap :: "'l list"
  ly_scoped :: "(scope_key, nat) js_map"
  ly_changes :: nat

record 'u disposer =
  dp_scope :: "scope_key option"
  dp_addr :: nat
  dp_undo :: 'u

definition new_layers :: "'l \<Rightarrow> 'l scoped_layers" where
  "new_layers createLayer = \<lparr>ly_heap = [createLayer], ly_scoped = [], ly_changes = 0\<rparr>"

definition global_layer :: "'l scoped_layers \<Rightarrow> 'l" where
  "global_layer L = ly_heap L ! 0"

definition peek :: "'l scoped_layers \<Rightarrow> scope_key option \<Rightarrow> 'l option" where
  "peek L scope = (case scope of None \<Rightarrow> None
     | Some s \<Rightarrow> map_option (\<lambda>a. ly_heap L ! a) (map_get (ly_scoped L) s))"

text \<open>The argument is the scope chain of the reader, nearest first.\<close>

definition chainLayers :: "'l scoped_layers \<Rightarrow> scope_key list \<Rightarrow> 'l list" where
  "chainLayers L chain =
     concat (map (\<lambda>key. case map_get (ly_scoped L) key of None \<Rightarrow> [] | Some a \<Rightarrow> [ly_heap L ! a]) (rev chain))"

definition merge_layers ::
    "('l \<Rightarrow> 'v named_entries) \<Rightarrow> 'l scoped_layers \<Rightarrow> scope_key list \<Rightarrow> 'v named_entries" where
  "merge_layers pick L chain =
     fold (\<lambda>layer merged. fold (\<lambda>(name, v). map_set name v) (pick layer) merged)
       (chainLayers L chain) (pick (global_layer L))"

text \<open>
  A registration: the layer of the registering scope is found or created, the action runs on
  it, and a throw reclaims a layer that it created and that stayed empty.
\<close>

definition layers_effect ::
    "'l \<Rightarrow> ('l \<Rightarrow> bool) \<Rightarrow> scope_key option \<Rightarrow> ('l \<Rightarrow> ('e, 'l \<times> 'u) result) \<Rightarrow> bool \<Rightarrow>
     'l scoped_layers \<Rightarrow> ('e, 'u disposer) result \<times> 'l scoped_layers" where
  "layers_effect createLayer isEmpty scope action notify L =
     (let (addr, created, L1) = (case scope of
            None \<Rightarrow> (0, False, L)
          | Some s \<Rightarrow> (case map_get (ly_scoped L) s of
                Some a \<Rightarrow> (a, False, L)
              | None \<Rightarrow> (length (ly_heap L), True,
                  L\<lparr>ly_heap := ly_heap L @ [createLayer],
                    ly_scoped := map_set s (length (ly_heap L)) (ly_scoped L)\<rparr>)))
      in case action (ly_heap L1 ! addr) of
           Inl e \<Rightarrow> (Inl e,
             (case scope of
                Some s \<Rightarrow> (if created \<and> isEmpty (ly_heap L1 ! addr)
                           then L1\<lparr>ly_scoped := map_delete s (ly_scoped L1)\<rparr> else L1)
              | None \<Rightarrow> L1))
         | Inr (layer, undo) \<Rightarrow>
             (Inr \<lparr>dp_scope = scope, dp_addr = addr, dp_undo = undo\<rparr>,
              L1\<lparr>ly_heap := (ly_heap L1)[addr := layer],
                 ly_changes := ly_changes L1 + (if notify then 1 else 0)\<rparr>))"

definition layers_dispose ::
    "('l \<Rightarrow> bool) \<Rightarrow> ('u \<Rightarrow> 'l \<Rightarrow> 'l) \<Rightarrow> bool \<Rightarrow> 'u disposer \<Rightarrow> 'l scoped_layers \<Rightarrow> 'l scoped_layers" where
  "layers_dispose isEmpty undo notify d L =
     (let layer = undo (dp_undo d) (ly_heap L ! dp_addr d)
      in L\<lparr>ly_heap := (ly_heap L)[dp_addr d := layer],
           ly_scoped := (case dp_scope d of
               Some s \<Rightarrow> if isEmpty layer then map_delete s (ly_scoped L) else ly_scoped L
             | None \<Rightarrow> ly_scoped L),
           ly_changes := ly_changes L + (if notify then 1 else 0)\<rparr>)"

section \<open>What the layers show\<close>

text \<open>
  The live registrations of a layered registry, in order: each with its disposer, the table it
  went to and its value. The layers are right for them when every scope shows exactly the live
  registrations made from it, and a scoped layer exists exactly while there are some.
\<close>

type_synonym ('k, 'v) registration = "('k \<times> nat) disposer \<times> 'v"

definition layer_addr :: "'l scoped_layers \<Rightarrow> scope_key option \<Rightarrow> nat option" where
  "layer_addr L scope = (case scope of None \<Rightarrow> Some 0 | Some s \<Rightarrow> map_get (ly_scoped L) s)"

definition entries_of ::
    "('k, 'v) registration list \<Rightarrow> scope_key option \<Rightarrow> 'k \<Rightarrow> (nat \<times> 'v) list" where
  "entries_of R scope k =
     map (\<lambda>r. (snd (dp_undo (fst r)), snd r))
       (filter (\<lambda>r. dp_scope (fst r) = scope \<and> fst (dp_undo (fst r)) = k) R)"

definition layers_with ::
    "scope_key option \<Rightarrow> ('l \<Rightarrow> bool) \<Rightarrow> ('l \<Rightarrow> 'k \<Rightarrow> (nat \<times> 'v) list) \<Rightarrow> ('k, 'v) registration list \<Rightarrow>
     'l scoped_layers \<Rightarrow> bool" where
  "layers_with extra good view R L \<longleftrightarrow>
     (\<forall>l \<in> set (ly_heap L). good l) \<and> ly_heap L \<noteq> [] \<and>
     (\<forall>s a. map_get (ly_scoped L) s = Some a \<longrightarrow> 0 < a \<and> a < length (ly_heap L)) \<and>
     (\<forall>s s' a. map_get (ly_scoped L) s = Some a \<longrightarrow> map_get (ly_scoped L) s' = Some a \<longrightarrow> s = s') \<and>
     (\<forall>s. map_get (ly_scoped L) s \<noteq> None \<longleftrightarrow> extra = Some s \<or> (\<exists>r \<in> set R. dp_scope (fst r) = Some s)) \<and>
     (\<forall>r \<in> set R. layer_addr L (dp_scope (fst r)) = Some (dp_addr (fst r))) \<and>
     (\<forall>scope a k. layer_addr L scope = Some a \<longrightarrow>
        view (ly_heap L ! a) k = entries_of R scope k \<and> distinct (map fst (entries_of R scope k)))"

abbreviation layers_ok ::
    "('l \<Rightarrow> bool) \<Rightarrow> ('l \<Rightarrow> 'k \<Rightarrow> (nat \<times> 'v) list) \<Rightarrow> ('k, 'v) registration list \<Rightarrow> 'l scoped_layers \<Rightarrow> bool" where
  "layers_ok \<equiv> layers_with None"

lemma layer_addr_inj:
  "layers_with x good view R L \<Longrightarrow> layer_addr L sc = Some a \<Longrightarrow> layer_addr L sc' = Some a \<Longrightarrow> sc = sc'"
  by (cases sc; cases sc') (auto simp: layers_with_def layer_addr_def)

lemma layer_addr_bound: "layers_with x good view R L \<Longrightarrow> layer_addr L sc = Some a \<Longrightarrow> a < length (ly_heap L)"
  by (cases sc) (auto simp: layers_with_def layer_addr_def)

lemma entries_of_append:
  "entries_of (R @ [r]) sc k = entries_of R sc k @
     (if dp_scope (fst r) = sc \<and> fst (dp_undo (fst r)) = k then [(snd (dp_undo (fst r)), snd r)] else [])"
  by (simp add: entries_of_def)

lemma entries_of_empty: "(\<forall>k. entries_of R sc k = []) \<longleftrightarrow> \<not> (\<exists>r \<in> set R. dp_scope (fst r) = sc)"
  by (auto simp: entries_of_def filter_empty_conv)

lemma entries_of_without:
  assumes "layers_with x good view R L" "r \<in> set R"
  shows "entries_of (filter (\<lambda>q. fst q \<noteq> fst r) R) sc k =
     (if dp_scope (fst r) = sc \<and> fst (dp_undo (fst r)) = k
      then filter (\<lambda>e. fst e \<noteq> snd (dp_undo (fst r))) (entries_of R sc k) else entries_of R sc k)"
proof -
  have same: "fst q = fst r \<longleftrightarrow> dp_scope (fst q) = dp_scope (fst r) \<and> dp_undo (fst q) = dp_undo (fst r)"
    if "q \<in> set R" for q
  proof -
    have "layer_addr L (dp_scope (fst q)) = Some (dp_addr (fst q))"
      "layer_addr L (dp_scope (fst r)) = Some (dp_addr (fst r))"
      using assms that unfolding layers_with_def by blast+
    then show ?thesis
      by (cases "fst q"; cases "fst r") auto
  qed
  show ?thesis
    unfolding entries_of_def filter_map filter_filter
    by (cases "dp_undo (fst r)")
       (auto intro!: arg_cong [where f = "map _"] filter_cong dest: same simp: prod_eq_iff)
qed

locale scope_layer =
  fixes fresh :: 'l
    and isEmpty :: "'l \<Rightarrow> bool"
    and good :: "'l \<Rightarrow> bool"
    and view :: "'l \<Rightarrow> 'k \<Rightarrow> (nat \<times> 'v) list"
    and add :: "'k \<Rightarrow> 'v \<Rightarrow> 'l \<Rightarrow> nat \<times> 'l"
    and remove :: "'k \<times> nat \<Rightarrow> 'l \<Rightarrow> 'l"
  assumes good_fresh: "good fresh"
    and view_fresh: "view fresh k = []"
    and isEmpty_view: "isEmpty l \<longleftrightarrow> (\<forall>k. view l k = [])"
    and add_good: "good l \<Longrightarrow> add k v l = (t, l') \<Longrightarrow> good l'"
    and add_token: "good l \<Longrightarrow> add k v l = (t, l') \<Longrightarrow> t \<notin> fst ` set (view l k)"
    and add_view: "good l \<Longrightarrow> add k v l = (t, l') \<Longrightarrow>
          view l' k' = (if k' = k then view l k @ [(t, v)] else view l k')"
    and remove_good: "good l \<Longrightarrow> good (remove (k, t) l)"
    and remove_view: "view (remove (k, t) l) k' =
          (if k' = k then filter (\<lambda>e. fst e \<noteq> t) (view l k) else view l k')"
begin

lemma new_layers_ok: "layers_ok good view [] (new_layers fresh)"
  by (simp add: layers_with_def new_layers_def good_fresh map_simps entries_of_def layer_addr_def view_fresh
      split: option.splits)

lemma layers_values:
  assumes ok: "layers_ok good view R L"
  shows "view (global_layer L) k = entries_of R None k"
    and "concat (map (\<lambda>l. view l k) (chainLayers L chain)) =
           concat (map (\<lambda>s. entries_of R (Some s) k) (rev chain))"
proof -
  from ok show "view (global_layer L) k = entries_of R None k"
    unfolding layers_with_def global_layer_def by (force simp: layer_addr_def)
  have "concat (map (\<lambda>l. view l k) (case map_get (ly_scoped L) s of None \<Rightarrow> [] | Some a \<Rightarrow> [ly_heap L ! a])) =
      entries_of R (Some s) k" for s
  proof (cases "map_get (ly_scoped L) s")
    case None
    with ok have "\<not> (\<exists>r \<in> set R. dp_scope (fst r) = Some s)"
      unfolding layers_with_def by metis
    with None show ?thesis
      by (auto simp: entries_of_def filter_empty_conv)
  next
    case (Some a)
    with ok have "view (ly_heap L ! a) k = entries_of R (Some s) k"
      unfolding layers_with_def by (force simp: layer_addr_def)
    with Some show ?thesis
      by simp
  qed
  then show "concat (map (\<lambda>l. view l k) (chainLayers L chain)) =
      concat (map (\<lambda>s. entries_of R (Some s) k) (rev chain))"
    by (induction chain) (simp_all add: chainLayers_def)
qed

lemma found_ok:
  assumes ok: "layers_ok good view R L"
    and new: "map_get (ly_scoped L) s = None"
  shows "layers_with (Some s) good view R
     (L\<lparr>ly_heap := ly_heap L @ [fresh], ly_scoped := map_set s (length (ly_heap L)) (ly_scoped L)\<rparr>)"
    (is "layers_with _ _ _ _ ?L'")
proof -
  have none: "\<not> (\<exists>r \<in> set R. dp_scope (fst r) = Some s)"
    using ok new unfolding layers_with_def by metis
  have addr: "layer_addr ?L' sc = (if sc = Some s then Some (length (ly_heap L)) else layer_addr L sc)" for sc
    by (cases sc) (simp_all add: layer_addr_def map_simps)
  have "view (ly_heap ?L' ! a) k = entries_of R sc k \<and> distinct (map fst (entries_of R sc k))"
    if "layer_addr ?L' sc = Some a" for sc a k
  proof (cases "sc = Some s")
    case True
    with that addr have "a = length (ly_heap L)"
      by simp
    moreover have "entries_of R (Some s) k = []"
      using none entries_of_empty [of R "Some s"] by blast
    ultimately show ?thesis
      using True by (simp add: view_fresh)
  next
    case False
    with that addr have "layer_addr L sc = Some a"
      by simp
    with layer_addr_bound [OF ok this] ok show ?thesis
      unfolding layers_with_def by (simp add: nth_append)
  qed
  moreover have "\<forall>r \<in> set R. layer_addr ?L' (dp_scope (fst r)) = Some (dp_addr (fst r))"
    using ok none addr unfolding layers_with_def by auto
  moreover have "\<forall>t a. map_get (ly_scoped ?L') t = Some a \<longrightarrow> 0 < a \<and> a < length (ly_heap ?L')"
    using ok unfolding layers_with_def by (auto simp: map_simps intro: less_SucI)
  moreover have "\<forall>t t' a. map_get (ly_scoped ?L') t = Some a \<longrightarrow> map_get (ly_scoped ?L') t' = Some a \<longrightarrow> t = t'"
    using ok unfolding layers_with_def by (auto simp: map_simps split: if_splits)
  moreover have "\<forall>t. map_get (ly_scoped ?L') t \<noteq> None \<longleftrightarrow> Some s = Some t \<or> (\<exists>r \<in> set R. dp_scope (fst r) = Some t)"
    using ok unfolding layers_with_def by (auto simp: map_simps)
  moreover have "\<forall>l \<in> set (ly_heap ?L'). good l"
    using ok good_fresh unfolding layers_with_def by auto
  ultimately show ?thesis
    unfolding layers_with_def by simp
qed

lemma added_ok:
  assumes ok: "layers_with extra good view R L"
    and extra: "extra = None \<or> extra = sc"
    and addr: "layer_addr L sc = Some a"
    and add: "add k v (ly_heap L ! a) = (t, l')"
  shows "layers_ok good view (R @ [(\<lparr>dp_scope = sc, dp_addr = a, dp_undo = (k, t)\<rparr>, v)])
     (L\<lparr>ly_heap := (ly_heap L)[a := l'], ly_changes := n\<rparr>)"
    (is "layers_ok _ _ ?R' ?L'")
proof -
  have bound: "a < length (ly_heap L)"
    by (rule layer_addr_bound [OF ok addr])
  with ok have good: "good (ly_heap L ! a)"
    unfolding layers_with_def by simp
  have same: "layer_addr ?L' = layer_addr L"
    by (rule ext) (simp add: layer_addr_def split: option.split)
  have "view (ly_heap ?L' ! b) j = entries_of ?R' sc' j \<and> distinct (map fst (entries_of ?R' sc' j))"
    if "layer_addr ?L' sc' = Some b" for sc' b j
  proof (cases "sc' = sc")
    case True
    with that same addr have "b = a"
      by simp
    moreover have "view (ly_heap L ! a) j = entries_of R sc j \<and> distinct (map fst (entries_of R sc j))"
      using ok addr unfolding layers_with_def by blast
    ultimately show ?thesis
      using bound True add_view [OF good add, of j] add_token [OF good add]
      by (auto simp: entries_of_append image_iff)
  next
    case False
    with that same addr layer_addr_inj [OF ok] have "b \<noteq> a" "layer_addr L sc' = Some b"
      by auto
    then show ?thesis
      using ok False unfolding layers_with_def by (auto simp: entries_of_append)
  qed
  moreover have "\<forall>t. map_get (ly_scoped L) t \<noteq> None \<longleftrightarrow> None = Some t \<or> (\<exists>r \<in> set ?R'. dp_scope (fst r) = Some t)"
    using ok extra addr unfolding layers_with_def by (auto simp: layer_addr_def)
  moreover have "\<forall>l \<in> set (ly_heap ?L'). good l"
    using ok add_good [OF good add] set_update_subset_insert [of "ly_heap L" a l']
    unfolding layers_with_def by auto
  ultimately show ?thesis
    using ok addr unfolding layers_with_def same by simp
qed

text \<open>Attaching a registration adds it, disposing it removes it, and nothing else is shown.\<close>

lemma attach_ok:
  assumes ok: "layers_ok good view R L"
    and run: "layers_effect fresh isEmpty sc (\<lambda>l. Inr (case add k v l of (t, l') \<Rightarrow> (l', (k, t)))) notify L = (res, L')"
  shows "\<exists>d. res = Inr d \<and> dp_scope d = sc \<and> fst (dp_undo d) = k \<and> layers_ok good view (R @ [(d, v)]) L'"
proof (cases "layer_addr L sc")
  case None
  then obtain s where s: "sc = Some s" "map_get (ly_scoped L) s = None"
    by (cases sc) (auto simp: layer_addr_def)
  obtain t l' where add: "add k v fresh = (t, l')"
    by fastforce
  let ?L1 = "L\<lparr>ly_heap := ly_heap L @ [fresh], ly_scoped := map_set s (length (ly_heap L)) (ly_scoped L)\<rparr>"
  have "layer_addr ?L1 sc = Some (length (ly_heap L))"
    by (simp add: s layer_addr_def map_simps)
  from added_ok [OF found_ok [OF ok s(2)] _ this, of k v t l'] add s run show ?thesis
    by (auto simp: layers_effect_def)
next
  case (Some a)
  obtain t l' where add: "add k v (ly_heap L ! a) = (t, l')"
    by fastforce
  from added_ok [OF ok _ Some add] Some add run show ?thesis
    by (cases sc) (auto simp: layers_effect_def layer_addr_def)
qed

lemma dispose_ok:
  assumes ok: "layers_ok good view R L" and r: "r \<in> set R"
  shows "layers_ok good view (filter (\<lambda>q. fst q \<noteq> fst r) R) (layers_dispose isEmpty remove notify (fst r) L)"
    (is "layers_ok _ _ ?R' ?L'")
proof -
  obtain sc a k t v where r_def: "r = (\<lparr>dp_scope = sc, dp_addr = a, dp_undo = (k, t)\<rparr>, v)"
    by (metis prod.exhaust_sel disposer.surjective old.unit.exhaust)
  let ?layer = "remove (k, t) (ly_heap L ! a)"
  have addr: "layer_addr L sc = Some a"
    using ok r r_def unfolding layers_with_def by fastforce
  have bound: "a < length (ly_heap L)"
    by (rule layer_addr_bound [OF ok addr])
  have good: "good (ly_heap L ! a)"
    using ok bound unfolding layers_with_def by simp
  have shown: "view (ly_heap L ! b) j = entries_of R sc' j \<and> distinct (map fst (entries_of R sc' j))"
    if "layer_addr L sc' = Some b" for sc' b j
    using ok that unfolding layers_with_def by blast
  have rest: "view ?layer j = entries_of ?R' sc j" for j
    using entries_of_without [OF ok r, of sc j] shown [OF addr, of j] by (simp add: remove_view r_def)
  have empty: "isEmpty ?layer \<longleftrightarrow> \<not> (\<exists>q \<in> set ?R'. dp_scope (fst q) = sc)"
    unfolding isEmpty_view rest by (rule entries_of_empty)
  have L': "ly_heap ?L' = (ly_heap L)[a := ?layer]"
    "map_get (ly_scoped ?L') s = (if sc = Some s \<and> isEmpty ?layer then None else map_get (ly_scoped L) s)" for s
    by (auto simp: layers_dispose_def r_def map_simps Let_def split: option.splits)
  have addr': "layer_addr ?L' sc' = (if sc' = sc \<and> sc \<noteq> None \<and> isEmpty ?layer then None else layer_addr L sc')" for sc'
    by (cases sc') (auto simp: layer_addr_def L')
  have "view (ly_heap ?L' ! b) j = entries_of ?R' sc' j \<and> distinct (map fst (entries_of ?R' sc' j))"
    if "layer_addr ?L' sc' = Some b" for sc' b j
  proof -
    from that addr' have old: "layer_addr L sc' = Some b"
      by (auto split: if_splits)
    have "distinct (map fst (entries_of ?R' sc' j))"
      using shown [OF old, of j] entries_of_without [OF ok r, of sc' j] by (simp add: distinct_map_filter)
    moreover have "view (ly_heap ?L' ! b) j = entries_of ?R' sc' j"
    proof (cases "sc' = sc")
      case True
      with old addr rest bound show ?thesis
        by (simp add: L')
    next
      case False
      with old addr layer_addr_inj [OF ok] have "b \<noteq> a"
        by auto
      then have "ly_heap ?L' ! b = ly_heap L ! b"
        by (simp add: L'(1))
      with False shown [OF old, of j] entries_of_without [OF ok r, of sc' j] show ?thesis
        by (simp add: r_def)
    qed
    ultimately show ?thesis by simp
  qed
  moreover have "\<forall>q \<in> set ?R'. layer_addr ?L' (dp_scope (fst q)) = Some (dp_addr (fst q))"
    using ok empty addr' unfolding layers_with_def by fastforce
  moreover have "\<forall>s. map_get (ly_scoped ?L') s \<noteq> None \<longleftrightarrow> None = Some s \<or> (\<exists>q \<in> set ?R'. dp_scope (fst q) = Some s)"
  proof
    fix s
    have before: "map_get (ly_scoped L) s \<noteq> None \<longleftrightarrow> (\<exists>q \<in> set R. dp_scope (fst q) = Some s)"
      using ok unfolding layers_with_def by simp
    show "map_get (ly_scoped ?L') s \<noteq> None \<longleftrightarrow> None = Some s \<or> (\<exists>q \<in> set ?R'. dp_scope (fst q) = Some s)"
    proof (cases "sc = Some s")
      case True
      with empty addr show ?thesis
        by (auto simp: L' layer_addr_def)
    next
      case False
      then have "(\<exists>q \<in> set ?R'. dp_scope (fst q) = Some s) = (\<exists>q \<in> set R. dp_scope (fst q) = Some s)"
        by (force simp: r_def)
      with False before show ?thesis
        by (simp add: L')
    qed
  qed
  moreover have "\<forall>l \<in> set (ly_heap ?L'). good l"
    using ok remove_good [OF good, of k t] set_update_subset_insert [of "ly_heap L" a ?layer]
    unfolding layers_with_def L' by auto
  moreover have "\<forall>s b. map_get (ly_scoped ?L') s = Some b \<longrightarrow> 0 < b \<and> b < length (ly_heap ?L')"
    "\<forall>s s' b. map_get (ly_scoped ?L') s = Some b \<longrightarrow> map_get (ly_scoped ?L') s' = Some b \<longrightarrow> s = s'"
    using ok unfolding layers_with_def L' by (auto split: if_splits)
  moreover have "ly_heap ?L' \<noteq> []"
    using ok unfolding layers_with_def L' by simp
  ultimately show ?thesis
    unfolding layers_with_def by (intro conjI; blast)
qed

end

end
