(* ===== verification/Jobs_Registry.thy ===== *)
theory Jobs_Registry
  imports Scope_Layers
begin

text \<open>
  The process-local registry of background jobs
  (\<open>src/packages/jobs/jobs-local/src/index.ts\<close>, vocabulary in
  \<open>src/packages/jobs/jobs/src/types.ts\<close>). Records are objects, so they live in a heap and the
  store maps identities to addresses; a wait in progress keeps the address of its job. What
  the registry calls is an argument of the operation: the answer of the producer's hooks, the
  clock, the agent registry and the scope chain of an owner. Listeners only hear: a
  notification is recorded with the listeners it reached, and a listener does not call the
  registry back from inside it.
\<close>

section \<open>Vocabulary\<close>

datatype job_status = Running | Stopping | Completed | Killed | Failed

text \<open>An agent is compared by identity; its session id and the scope of its context are fixed.\<close>

record agent =
  ag_ref :: nat
  ag_id :: string
  ag_scope :: "scope_key option"

datatype end_status = EndCompleted | EndKilled | EndFailed

fun ended :: "end_status \<Rightarrow> job_status" where
  "ended EndCompleted = Completed"
| "ended EndKilled = Killed"
| "ended EndFailed = Failed"

record job_outcome =
  oc_status :: end_status
  oc_detail :: "string option"
  oc_output :: "string option"

record job_snapshot =
  sn_id :: string
  sn_kind :: string
  sn_label :: string
  sn_limit :: "js_number option"
  sn_owner_session :: "string option"
  sn_status :: job_status
  sn_detail :: "string option"
  sn_started :: int
  sn_finished :: "int option"
  sn_reported :: bool

record job_start =
  js_kind :: string
  js_label :: string
  js_limit :: "js_number option"
  js_owner :: "agent option"

text \<open>
  The mutable record of a job. Of the hooks only whether \<open>readOutput\<close> is there is kept; the
  resolver set holds the waits that settlement releases.
\<close>

record job =
  jb_id :: string
  jb_kind :: string
  jb_label :: string
  jb_limit :: "js_number option"
  jb_owner :: "agent option"
  jb_streams :: bool
  jb_status :: job_status
  jb_detail :: "string option"
  jb_output :: "string option"
  jb_started :: int
  jb_finished :: "int option"
  jb_reported :: bool
  jb_settled :: bool
  jb_waiters :: nat
  jb_resolvers :: "nat list"

fun isTerminal :: "job_status \<Rightarrow> bool" where
  "isTerminal Completed = True"
| "isTerminal Killed = True"
| "isTerminal Failed = True"
| "isTerminal Running = False"
| "isTerminal Stopping = False"

definition snapshot :: "job \<Rightarrow> job_snapshot" where
  "snapshot j = \<lparr>sn_id = jb_id j, sn_kind = jb_kind j, sn_label = jb_label j, sn_limit = jb_limit j,
     sn_owner_session = map_option ag_id (jb_owner j), sn_status = jb_status j, sn_detail = jb_detail j,
     sn_started = jb_started j, sn_finished = jb_finished j, sn_reported = jb_reported j\<rparr>"

section \<open>Layers of the registry\<close>

datatype job_table = Controllers | DoneListeners | ChangedListeners

text \<open>The value of an entry is the number of the controller or listener registered.\<close>

record job_layer =
  jl_controllers :: "nat anonymous_entries"
  jl_listeners :: "nat anonymous_entries"
  jl_changed :: "nat anonymous_entries"

definition new_job_layer :: job_layer where
  "new_job_layer = \<lparr>jl_controllers = no_entries, jl_listeners = no_entries, jl_changed = no_entries\<rparr>"

definition job_layer_empty :: "job_layer \<Rightarrow> bool" where
  "job_layer_empty l \<longleftrightarrow>
     anonymous_empty (jl_controllers l) \<and> anonymous_empty (jl_listeners l) \<and> anonymous_empty (jl_changed l)"

fun job_entries :: "job_layer \<Rightarrow> job_table \<Rightarrow> nat anonymous_entries" where
  "job_entries l Controllers = jl_controllers l"
| "job_entries l DoneListeners = jl_listeners l"
| "job_entries l ChangedListeners = jl_changed l"

fun set_job_entries :: "job_table \<Rightarrow> nat anonymous_entries \<Rightarrow> job_layer \<Rightarrow> job_layer" where
  "set_job_entries Controllers t l = l\<lparr>jl_controllers := t\<rparr>"
| "set_job_entries DoneListeners t l = l\<lparr>jl_listeners := t\<rparr>"
| "set_job_entries ChangedListeners t l = l\<lparr>jl_changed := t\<rparr>"

definition job_layer_add :: "job_table \<Rightarrow> nat \<Rightarrow> job_layer \<Rightarrow> nat \<times> job_layer" where
  "job_layer_add k v l =
     (case anonymous_append v (job_entries l k) of (t, T) \<Rightarrow> (t, set_job_entries k T l))"

fun job_layer_remove :: "job_table \<times> nat \<Rightarrow> job_layer \<Rightarrow> job_layer" where
  "job_layer_remove (k, t) l = set_job_entries k (anonymous_undo t (job_entries l k)) l"

definition job_layer_view :: "job_layer \<Rightarrow> job_table \<Rightarrow> (nat \<times> nat) list" where
  "job_layer_view l k = ae_data (job_entries l k)"

definition job_layer_good :: "job_layer \<Rightarrow> bool" where
  "job_layer_good l \<longleftrightarrow> entries_ok (jl_controllers l) \<and> entries_ok (jl_listeners l) \<and> entries_ok (jl_changed l)"

lemma job_layer_good_table: "job_layer_good l \<longleftrightarrow> (\<forall>k. entries_ok (job_entries l k))"
  unfolding job_layer_good_def by (metis job_entries.simps job_table.exhaust)

lemma job_entries_set: "job_entries (set_job_entries k T l) k' = (if k' = k then T else job_entries l k')"
  by (cases k; cases k') simp_all

interpretation job_layers: scope_layer new_job_layer job_layer_empty job_layer_good job_layer_view
  job_layer_add job_layer_remove
proof
  fix k k' :: job_table and v t :: nat and l l' :: job_layer
  show "job_layer_good new_job_layer" "job_layer_view new_job_layer k = []"
    by (cases k; simp add: job_layer_good_def new_job_layer_def no_entries_def entries_ok_def job_layer_view_def)+
  show "job_layer_empty l \<longleftrightarrow> (\<forall>k. job_layer_view l k = [])"
    unfolding job_layer_empty_def job_layer_view_def anonymous_empty_def
    by (metis job_entries.simps job_table.exhaust)
  show "job_layer_good (job_layer_remove (k, t) l)" if "job_layer_good l"
    using that by (simp add: job_layer_good_table job_entries_set anonymous_undo_ok)
  show "job_layer_view (job_layer_remove (k, t) l) k' =
      (if k' = k then filter (\<lambda>e. fst e \<noteq> t) (job_layer_view l k) else job_layer_view l k')"
    by (simp add: job_layer_view_def job_entries_set anonymous_undo_ok)
  assume good: "job_layer_good l" and add: "job_layer_add k v l = (t, l')"
  then obtain T where T: "anonymous_append v (job_entries l k) = (t, T)" "l' = set_job_entries k T l"
    by (auto simp: job_layer_add_def split: prod.splits)
  from good have "entries_ok (job_entries l k)"
    by (simp add: job_layer_good_table)
  note facts = anonymous_append_ok [OF this T(1)]
  show "job_layer_good l'" "t \<notin> fst ` set (job_layer_view l k)"
    "job_layer_view l' k' = (if k' = k then job_layer_view l k @ [(t, v)] else job_layer_view l k')"
    using good facts by (simp_all add: T(2) job_layer_good_table job_layer_view_def job_entries_set)
qed

section \<open>State\<close>

datatype job_error =
    NoController | InvalidKind | InvalidLabel | InvalidOutputLimit
  | NoAgentRegistry | OwnerNotRegistered string | CleanupRejected
  | LimitReached nat | RunThrew string
  | UnknownJob string | BelongsToOther string
  | ReadThrew string | CancelThrew string | InvalidTimeout | WaitAborted | DelayRefused

datatype cancel_by = ByKill | ByTeardown

text \<open>
  What left the registry: a call of a job's cancel hook (by whom, with which reason, whether
  it threw), a change told to the listeners named, and a completion told to the listeners
  named, each with the address of the job where there is one.
\<close>

datatype job_note =
    CancelCalled nat cancel_by "string option" bool
  | ChangedNote "agent option" "nat list"
  | DoneNote nat job_snapshot "agent option" "nat list"

text \<open>
  A wait: its resolver is registered; its promise is resolved and the caller will continue; it
  was aborted; it returned a snapshot.
\<close>

datatype wait_state = Pending | Resumed | Rejected | Returned job_snapshot

datatype teardown = OwnerTeardown agent "nat list" | ServiceTeardown "nat list"

text \<open>
  The registry. The waits and the teardowns in progress are the suspended calls; the live
  registrations are the disposers its callers hold.
\<close>

record registry =
  rg_max :: nat
  rg_heap :: "job list"
  rg_store :: "(string, nat) js_map"
  rg_counters :: "(string, nat) js_map"
  rg_layers :: "job_layer scoped_layers"
  rg_closed :: bool
  rg_cleanups :: "agent list"
  rg_waits :: "(nat \<times> wait_state) list"
  rg_teardowns :: "teardown list"
  rg_regs :: "(job_table, nat) registration list"
  rg_notes :: "job_note list"

definition new_registry :: "nat \<Rightarrow> registry" where
  "new_registry maxConcurrentJobsPerOwner =
     \<lparr>rg_max = maxConcurrentJobsPerOwner, rg_heap = [], rg_store = [], rg_counters = [],
      rg_layers = new_layers new_job_layer, rg_closed = False, rg_cleanups = [], rg_waits = [],
      rg_teardowns = [], rg_regs = [], rg_notes = []\<rparr>"

abbreviation job_at :: "registry \<Rightarrow> nat \<Rightarrow> job" where
  "job_at rg i \<equiv> rg_heap rg ! i"

definition update_job :: "nat \<Rightarrow> (job \<Rightarrow> job) \<Rightarrow> registry \<Rightarrow> registry" where
  "update_job i f rg = rg\<lparr>rg_heap := (rg_heap rg)[i := f (rg_heap rg ! i)]\<rparr>"

definition note_job :: "job_note \<Rightarrow> registry \<Rightarrow> registry" where
  "note_job n rg = rg\<lparr>rg_notes := rg_notes rg @ [n]\<rparr>"

section \<open>Listeners and controllers\<close>

text \<open>
  The chain argument is \<open>scopeChainOf\<close>, as it answers at the time of the call, on the scope of
  the owner's context; unowned work has no scope and the empty chain.
\<close>

type_synonym chain_of = "scope_key option \<Rightarrow> scope_key list"

definition owner_layers :: "chain_of \<Rightarrow> agent option \<Rightarrow> registry \<Rightarrow> job_layer list" where
  "owner_layers ch owner rg = chainLayers (rg_layers rg) (ch (Option.bind owner ag_scope))"

definition servesOwner :: "chain_of \<Rightarrow> agent option \<Rightarrow> registry \<Rightarrow> bool" where
  "servesOwner ch owner rg \<longleftrightarrow>
     \<not> anonymous_empty (jl_controllers (global_layer (rg_layers rg))) \<or>
     list_ex (\<lambda>layer. \<not> anonymous_empty (jl_controllers layer)) (owner_layers ch owner rg)"

definition listenersFor :: "chain_of \<Rightarrow> agent option \<Rightarrow> registry \<Rightarrow> nat list" where
  "listenersFor ch owner rg =
     anonymous_values (jl_listeners (global_layer (rg_layers rg))) @
     concat (map (\<lambda>layer. anonymous_values (jl_listeners layer)) (owner_layers ch owner rg))"

definition changedFor :: "chain_of \<Rightarrow> agent option \<Rightarrow> registry \<Rightarrow> nat list" where
  "changedFor ch owner rg =
     anonymous_values (jl_changed (global_layer (rg_layers rg))) @
     concat (map (\<lambda>layer. anonymous_values (jl_changed layer)) (owner_layers ch owner rg))"

definition notifyChanged :: "chain_of \<Rightarrow> agent option \<Rightarrow> registry \<Rightarrow> registry" where
  "notifyChanged ch owner rg = note_job (ChangedNote owner (changedFor ch owner rg)) rg"

definition register_entry :: "scope_key option \<Rightarrow> job_table \<Rightarrow> nat \<Rightarrow> registry \<Rightarrow> registry" where
  "register_entry scope k v rg =
     (case layers_effect new_job_layer job_layer_empty scope
         (\<lambda>layer. Inr (case job_layer_add k v layer of (t, layer') \<Rightarrow> (layer', (k, t)))) True (rg_layers rg) of
        (Inl (_ :: unit), L) \<Rightarrow> rg\<lparr>rg_layers := L\<rparr>
      | (Inr d, L) \<Rightarrow> rg\<lparr>rg_layers := L, rg_regs := rg_regs rg @ [(d, v)]\<rparr>)"

definition onJobDone :: "scope_key option \<Rightarrow> nat \<Rightarrow> registry \<Rightarrow> registry" where
  "onJobDone scope listener rg = register_entry scope DoneListeners listener rg"

definition onJobsChanged :: "scope_key option \<Rightarrow> nat \<Rightarrow> registry \<Rightarrow> registry" where
  "onJobsChanged scope listener rg = register_entry scope ChangedListeners listener rg"

definition attachController :: "scope_key option \<Rightarrow> nat \<Rightarrow> registry \<Rightarrow> registry" where
  "attachController scope name rg = register_entry scope Controllers name rg"

definition dispose_entry :: "(job_table, nat) registration \<Rightarrow> registry \<Rightarrow> registry" where
  "dispose_entry r rg =
     rg\<lparr>rg_layers := layers_dispose job_layer_empty job_layer_remove True (fst r) (rg_layers rg),
        rg_regs := filter (\<lambda>q. fst q \<noteq> fst r) (rg_regs rg)\<rparr>"

section \<open>Settlement\<close>

definition release_waits :: "nat list \<Rightarrow> (nat \<times> wait_state) list \<Rightarrow> (nat \<times> wait_state) list" where
  "release_waits resolvers ws = fold (\<lambda>t ws. ws[t := (fst (ws ! t), Resumed)]) resolvers ws"

definition settled_record :: "job_outcome \<Rightarrow> int \<Rightarrow> job \<Rightarrow> job" where
  "settled_record outcome now job =
     job\<lparr>jb_status := ended (oc_status outcome), jb_detail := oc_detail outcome, jb_output := oc_output outcome,
         jb_finished := Some now, jb_reported := (0 < jb_waiters job \<or> jb_reported job)\<rparr>"

definition settle :: "chain_of \<Rightarrow> nat \<Rightarrow> job_outcome \<Rightarrow> int \<Rightarrow> registry \<Rightarrow> registry" where
  "settle ch i outcome now rg =
     (let job = job_at rg i
      in if isTerminal (jb_status job) then rg
         else
           let job1 = settled_record outcome now job;
               snap = snapshot job1;
               rg1 = rg\<lparr>rg_heap := (rg_heap rg)[i := job1\<lparr>jb_resolvers := [], jb_settled := True\<rparr>],
                        rg_waits := release_waits (jb_resolvers job) (rg_waits rg)\<rparr>;
               rg2 = notifyChanged ch (jb_owner job) rg1
           in if rg_closed rg2 then rg2
              else note_job (DoneNote i snap (jb_owner job) (listenersFor ch (jb_owner job) rg2)) rg2)"

text \<open>The producer's promise: its outcome, or a rejection, which is contained.\<close>

definition producer_done ::
    "chain_of \<Rightarrow> nat \<Rightarrow> (string, job_outcome) result \<Rightarrow> int \<Rightarrow> registry \<Rightarrow> registry" where
  "producer_done ch i result now rg =
     (case result of
        Inr outcome \<Rightarrow> settle ch i outcome now rg
      | Inl err \<Rightarrow> settle ch i \<lparr>oc_status = EndFailed, oc_detail = Some err, oc_output = None\<rparr> now rg)"

section \<open>Starting\<close>

definition is_active :: "job \<Rightarrow> bool" where
  "is_active job \<longleftrightarrow> jb_status job = Running \<or> jb_status job = Stopping"

definition activeTaskCount :: "agent option \<Rightarrow> registry \<Rightarrow> nat" where
  "activeTaskCount owner rg =
     length (filter (\<lambda>(_, i). jb_owner (job_at rg i) = owner \<and> is_active (job_at rg i)) (rg_store rg))"

text \<open>
  The agent registry, when there is one, maps session ids to agents; the last argument tells
  whether the owner's context accepts the effect (a disposing one does not).
\<close>

definition ensureOwnerCleanup ::
    "(string, agent) js_map option \<Rightarrow> bool \<Rightarrow> agent \<Rightarrow> registry \<Rightarrow> (job_error, registry) result" where
  "ensureOwnerCleanup agents accepts owner rg =
     (case agents of
        None \<Rightarrow> Inl NoAgentRegistry
      | Some table \<Rightarrow>
          if map_get table (ag_id owner) \<noteq> Some owner then Inl (OwnerNotRegistered (ag_id owner))
          else if owner \<in> set (rg_cleanups rg) then Inr rg
          else if \<not> accepts then Inl CleanupRejected
          else Inr (rg\<lparr>rg_cleanups := rg_cleanups rg @ [owner]\<rparr>))"

definition valid_limit :: "js_number option \<Rightarrow> bool" where
  "valid_limit limit = (case limit of None \<Rightarrow> True
     | Some n \<Rightarrow> is_safe_number n \<and> (case n of JsNum r \<Rightarrow> 0 < r | _ \<Rightarrow> False))"

definition job_id :: "string \<Rightarrow> nat \<Rightarrow> string" where
  "job_id kind n = kind @ ''-'' @ show_nat n"

definition counter :: "registry \<Rightarrow> string \<Rightarrow> nat" where
  "counter rg kind = (case map_get (rg_counters rg) kind of Some n \<Rightarrow> n | None \<Rightarrow> 0)"

definition new_job :: "string \<Rightarrow> job_start \<Rightarrow> bool \<Rightarrow> int \<Rightarrow> job" where
  "new_job i spec streams now =
     \<lparr>jb_id = i, jb_kind = js_kind spec, jb_label = js_label spec, jb_limit = js_limit spec,
      jb_owner = js_owner spec, jb_streams = streams, jb_status = Running, jb_detail = None,
      jb_output = None, jb_started = now, jb_finished = None, jb_reported = False,
      jb_settled = False, jb_waiters = 0, jb_resolvers = []\<rparr>"

text \<open>\<open>run\<close> is the answer of the producer: its error, or whether its hooks stream output.\<close>

definition start ::
    "chain_of \<Rightarrow> (string, agent) js_map option \<Rightarrow> bool \<Rightarrow> (string, bool) result \<Rightarrow> int \<Rightarrow> job_start \<Rightarrow>
     registry \<Rightarrow> (job_error, string) result \<times> registry" where
  "start ch agents accepts run now spec rg =
     (if \<not> servesOwner ch (js_owner spec) rg then (Inl NoController, rg)
      else if js_kind spec = [] then (Inl InvalidKind, rg)
      else if js_label spec = [] then (Inl InvalidLabel, rg)
      else if \<not> valid_limit (js_limit spec) then (Inl InvalidOutputLimit, rg)
      else case (case js_owner spec of None \<Rightarrow> Inr rg | Some owner \<Rightarrow> ensureOwnerCleanup agents accepts owner rg) of
        Inl e \<Rightarrow> (Inl e, rg)
      | Inr rg1 \<Rightarrow>
          if rg_max rg1 \<le> activeTaskCount (js_owner spec) rg1 then (Inl (LimitReached (rg_max rg1)), rg1)
          else case run of
            Inl e \<Rightarrow> (Inl (RunThrew e), rg1)
          | Inr streams \<Rightarrow>
              let cnt = counter rg1 (js_kind spec) + 1;
                  i = job_id (js_kind spec) cnt;
                  rg2 = rg1\<lparr>rg_counters := map_set (js_kind spec) cnt (rg_counters rg1),
                            rg_heap := rg_heap rg1 @ [new_job i spec streams now],
                            rg_store := map_set i (length (rg_heap rg1)) (rg_store rg1)\<rparr>
              in (Inr i, notifyChanged ch (js_owner spec) rg2))"

section \<open>Reading and stopping\<close>

definition expect_job :: "string \<Rightarrow> registry \<Rightarrow> (job_error, nat) result" where
  "expect_job i rg = (case map_get (rg_store rg) i of None \<Rightarrow> Inl (UnknownJob i) | Some a \<Rightarrow> Inr a)"

definition assertAccess :: "job \<Rightarrow> agent option \<Rightarrow> (job_error, unit) result" where
  "assertAccess job caller =
     (case jb_owner job of
        None \<Rightarrow> Inr ()
      | Some owner \<Rightarrow> if Some (ag_id owner) \<noteq> map_option ag_id caller then Inl (BelongsToOther (jb_id job)) else Inr ())"

definition access_job :: "string \<Rightarrow> agent option \<Rightarrow> registry \<Rightarrow> (job_error, nat) result" where
  "access_job i caller rg =
     rbind (expect_job i rg) (\<lambda>a. rbind (assertAccess (job_at rg a) caller) (\<lambda>_. Inr a))"

definition list_jobs :: "agent option \<Rightarrow> registry \<Rightarrow> job_snapshot list" where
  "list_jobs caller rg =
     map snapshot
       (filter (\<lambda>job. jb_owner job = None \<or> map_option ag_id (jb_owner job) = map_option ag_id caller)
         (map (\<lambda>(_, a). job_at rg a) (rg_store rg)))"

definition get_job :: "string \<Rightarrow> agent option \<Rightarrow> registry \<Rightarrow> (job_error, job_snapshot) result" where
  "get_job i caller rg = rbind (access_job i caller rg) (\<lambda>a. Inr (snapshot (job_at rg a)))"

definition mark_reported :: "nat \<Rightarrow> registry \<Rightarrow> registry" where
  "mark_reported a rg = update_job a (\<lambda>job. job\<lparr>jb_reported := True\<rparr>) rg"

text \<open>\<open>delta\<close> is what the producer's \<open>readOutput\<close> answers, should it be called.\<close>

definition read_job ::
    "string \<Rightarrow> agent option \<Rightarrow> (string, string) result \<Rightarrow> registry \<Rightarrow>
     (job_error, string \<times> job_snapshot) result \<times> registry" where
  "read_job i caller delta rg =
     (case access_job i caller rg of
        Inl e \<Rightarrow> (Inl e, rg)
      | Inr a \<Rightarrow>
          let job = job_at rg a
          in case (if jb_streams job then delta
                   else Inr (if isTerminal (jb_status job)
                             then (case jb_output job of Some out \<Rightarrow> out | None \<Rightarrow> []) else [])) of
               Inl e \<Rightarrow> (Inl (ReadThrew e), rg)
             | Inr txt \<Rightarrow>
                 let rg1 = (if isTerminal (jb_status job) then mark_reported a rg else rg)
                 in (Inr (txt, snapshot (job_at rg1 a)), rg1))"

datatype kill_answer = Requested | AlreadyFinished

definition mark_stopping :: "nat \<Rightarrow> registry \<Rightarrow> registry" where
  "mark_stopping a rg = update_job a (\<lambda>job. job\<lparr>jb_status := Stopping, jb_reported := True\<rparr>) rg"

text \<open>\<open>cancel\<close> is the answer of the producer's cancel hook, should it be called.\<close>

definition kill_job ::
    "chain_of \<Rightarrow> string \<Rightarrow> agent option \<Rightarrow> string option \<Rightarrow> (string, unit) result \<Rightarrow> registry \<Rightarrow>
     (job_error, kill_answer) result \<times> registry" where
  "kill_job ch i caller reason cancel rg =
     (case access_job i caller rg of
        Inl e \<Rightarrow> (Inl e, rg)
      | Inr a \<Rightarrow>
          if isTerminal (jb_status (job_at rg a)) then (Inr AlreadyFinished, mark_reported a rg)
          else case cancel of
            Inl e \<Rightarrow> (Inl (CancelThrew e), note_job (CancelCalled a ByKill reason True) rg)
          | Inr _ \<Rightarrow>
              (Inr Requested, notifyChanged ch (jb_owner (job_at rg a))
                 (mark_stopping a (note_job (CancelCalled a ByKill reason False) rg))))"

section \<open>Waiting\<close>

text \<open>
  A wait either ends at once or suspends; a suspended wait is a number of \<open>rg_waits\<close>. Its
  deadline and the caller's signal end it from outside, settlement releases it, and what is
  released continues later.
\<close>

datatype wait_answer = Waited job_snapshot | Waiting nat

text \<open>The delays \<open>deadline\<close> schedules (\<open>src/packages/util/timeout/src/index.ts\<close>); it throws on the others.\<close>

definition MAX_TIMER_DELAY_MS :: rat where
  "MAX_TIMER_DELAY_MS = 2147483647"

definition assertTimerDelay :: "js_number \<Rightarrow> bool" where
  "assertTimerDelay timeoutMs = (case timeoutMs of JsNum r \<Rightarrow> 0 < r \<and> r \<le> MAX_TIMER_DELAY_MS | _ \<Rightarrow> False)"

definition wait_job ::
    "string \<Rightarrow> js_number \<Rightarrow> agent option \<Rightarrow> bool \<Rightarrow> registry \<Rightarrow> (job_error, wait_answer) result \<times> registry" where
  "wait_job i timeoutMs caller aborted rg =
     (case access_job i caller rg of
        Inl e \<Rightarrow> (Inl e, rg)
      | Inr a \<Rightarrow>
          if \<not> (case timeoutMs of JsNum r \<Rightarrow> 0 < r | _ \<Rightarrow> False) then (Inl InvalidTimeout, rg)
          else if isTerminal (jb_status (job_at rg a)) then
            let rg1 = mark_reported a rg in (Inr (Waited (snapshot (job_at rg1 a))), rg1)
          else if aborted then (Inl WaitAborted, rg)
          else if \<not> assertTimerDelay timeoutMs then (Inl DelayRefused, rg)
          else
            let t = length (rg_waits rg)
            in (Inr (Waiting t),
                update_job a (\<lambda>job. job\<lparr>jb_waiters := jb_waiters job + 1, jb_resolvers := jb_resolvers job @ [t]\<rparr>)
                  (rg\<lparr>rg_waits := rg_waits rg @ [(a, Pending)]\<rparr>)))"

definition set_wait :: "nat \<Rightarrow> wait_state \<Rightarrow> registry \<Rightarrow> registry" where
  "set_wait t w rg = rg\<lparr>rg_waits := (rg_waits rg)[t := (fst (rg_waits rg ! t), w)]\<rparr>"

definition drop_resolver :: "nat \<Rightarrow> job \<Rightarrow> job" where
  "drop_resolver t job = job\<lparr>jb_resolvers := filter (\<lambda>u. u \<noteq> t) (jb_resolvers job)\<rparr>"

text \<open>The deadline passes: the wait stays counted until it continues.\<close>

definition wait_timeout :: "nat \<Rightarrow> registry \<Rightarrow> registry" where
  "wait_timeout t rg =
     (case rg_waits rg ! t of
        (a, Pending) \<Rightarrow> update_job a (drop_resolver t) (set_wait t Resumed rg)
      | _ \<Rightarrow> rg)"

text \<open>The caller aborts: the wait is uncounted at once.\<close>

definition wait_abort :: "nat \<Rightarrow> registry \<Rightarrow> registry" where
  "wait_abort t rg =
     (case rg_waits rg ! t of
        (a, Pending) \<Rightarrow>
          update_job a (\<lambda>job. (drop_resolver t job)\<lparr>jb_waiters := jb_waiters job - 1\<rparr>) (set_wait t Rejected rg)
      | _ \<Rightarrow> rg)"

definition wait_continue :: "nat \<Rightarrow> registry \<Rightarrow> registry" where
  "wait_continue t rg =
     (case rg_waits rg ! t of
        (a, Resumed) \<Rightarrow>
          let rg1 = update_job a (\<lambda>job. job\<lparr>jb_waiters := jb_waiters job - 1\<rparr>) rg;
              rg2 = (if isTerminal (jb_status (job_at rg1 a)) then mark_reported a rg1 else rg1)
          in set_wait t (Returned (snapshot (job_at rg2 a))) rg2
      | _ \<Rightarrow> rg)"

section \<open>Teardown\<close>

text \<open>One job of \<open>cancelForTeardown\<close>: the answer of its cancel hook decides.\<close>

definition cancel_one :: "chain_of \<Rightarrow> string \<Rightarrow> (string, unit) result \<Rightarrow> int \<Rightarrow> nat \<Rightarrow> registry \<Rightarrow> registry" where
  "cancel_one ch reason answer now a rg =
     (if isTerminal (jb_status (job_at rg a)) then rg
      else
        let rg1 = mark_reported a rg
        in case answer of
             Inr _ \<Rightarrow>
               notifyChanged ch (jb_owner (job_at rg a))
                 (update_job a (\<lambda>job. job\<lparr>jb_status := Stopping\<rparr>)
                   (note_job (CancelCalled a ByTeardown (Some reason) False) rg1))
           | Inl err \<Rightarrow>
               settle ch a
                 \<lparr>oc_status = EndFailed,
                  oc_detail = Some (''cancel threw during teardown; work may be orphaned: '' @ err),
                  oc_output = None\<rparr>
                 now (note_job (CancelCalled a ByTeardown (Some reason) True) rg1))"

definition cancelForTeardown ::
    "chain_of \<Rightarrow> string \<Rightarrow> (nat \<Rightarrow> (string, unit) result) \<Rightarrow> int \<Rightarrow> nat list \<Rightarrow> registry \<Rightarrow> registry" where
  "cancelForTeardown ch reason answers now jobs rg =
     fold (\<lambda>a rg. cancel_one ch reason (answers a) now a rg) jobs rg"

definition owned_jobs :: "agent option \<Rightarrow> registry \<Rightarrow> nat list" where
  "owned_jobs owner rg = filter (\<lambda>a. jb_owner (job_at rg a) = owner) (map snd (rg_store rg))"

definition disposeOwned ::
    "chain_of \<Rightarrow> (nat \<Rightarrow> (string, unit) result) \<Rightarrow> int \<Rightarrow> agent \<Rightarrow> registry \<Rightarrow> registry" where
  "disposeOwned ch answers now owner rg =
     (let owned = owned_jobs (Some owner) rg;
          rg1 = cancelForTeardown ch ''owner disposed'' answers now owned rg
      in rg1\<lparr>rg_teardowns := rg_teardowns rg1 @ [OwnerTeardown owner owned]\<rparr>)"

text \<open>The effect attached to the owner's context, run as that context disposes.\<close>

definition owner_cleanup ::
    "chain_of \<Rightarrow> (nat \<Rightarrow> (string, unit) result) \<Rightarrow> int \<Rightarrow> agent \<Rightarrow> registry \<Rightarrow> registry" where
  "owner_cleanup ch answers now owner rg =
     disposeOwned ch answers now owner (rg\<lparr>rg_cleanups := filter (\<lambda>o'. o' \<noteq> owner) (rg_cleanups rg)\<rparr>)"

definition all_settled :: "nat list \<Rightarrow> registry \<Rightarrow> bool" where
  "all_settled jobs rg \<longleftrightarrow> list_all (\<lambda>a. jb_settled (job_at rg a)) jobs"

text \<open>The rest of \<open>disposeOwned\<close>, once every settled promise it awaits has resolved.\<close>

definition disposeOwned_rest :: "chain_of \<Rightarrow> agent \<Rightarrow> nat list \<Rightarrow> registry \<Rightarrow> registry" where
  "disposeOwned_rest ch owner owned rg =
     (let rg1 = rg\<lparr>rg_store := fold (\<lambda>a m. map_delete (jb_id (job_at rg a)) m) owned (rg_store rg),
                   rg_teardowns := remove1 (OwnerTeardown owner owned) (rg_teardowns rg)\<rparr>
      in if owned = [] then rg1 else notifyChanged ch (Some owner) rg1)"

definition disposeAll ::
    "chain_of \<Rightarrow> (nat \<Rightarrow> (string, unit) result) \<Rightarrow> int \<Rightarrow> registry \<Rightarrow> registry" where
  "disposeAll ch answers now rg =
     (let rg1 = rg\<lparr>rg_closed := True\<rparr>;
          jobs = map snd (rg_store rg1);
          rg2 = cancelForTeardown ch ''jobs service disposed'' answers now jobs rg1
      in rg2\<lparr>rg_teardowns := rg_teardowns rg2 @ [ServiceTeardown jobs]\<rparr>)"

definition first_seen :: "'a list \<Rightarrow> 'a list" where
  "first_seen xs = rev (remdups (rev xs))"

definition disposeAll_rest ::
    "chain_of \<Rightarrow> (nat \<Rightarrow> (string, unit) result) \<Rightarrow> int \<Rightarrow> nat list \<Rightarrow> registry \<Rightarrow> registry" where
  "disposeAll_rest ch answers now jobs rg =
     (let emptied = first_seen (map (\<lambda>a. jb_owner (job_at rg a)) jobs);
          rg1 = rg\<lparr>rg_store := [], rg_teardowns := remove1 (ServiceTeardown jobs) (rg_teardowns rg)\<rparr>;
          rg2 = fold (notifyChanged ch) emptied rg1;
          owners = rg_cleanups rg2
      in fold (owner_cleanup ch answers now) owners (rg2\<lparr>rg_cleanups := []\<rparr>))"

section \<open>What a process does with a registry\<close>

inductive registry_step :: "registry \<Rightarrow> registry \<Rightarrow> bool" where
  step_attach: "registry_step rg (attachController scope name rg)"
| step_on_done: "registry_step rg (onJobDone scope listener rg)"
| step_on_changed: "registry_step rg (onJobsChanged scope listener rg)"
| step_dispose: "r \<in> set (rg_regs rg) \<Longrightarrow> registry_step rg (dispose_entry r rg)"
| step_start: "registry_step rg (snd (start ch agents accepts run now spec rg))"
| step_producer: "a < length (rg_heap rg) \<Longrightarrow> registry_step rg (producer_done ch a result now rg)"
| step_read: "registry_step rg (snd (read_job i caller delta rg))"
| step_kill: "registry_step rg (snd (kill_job ch i caller reason cancel rg))"
| step_wait: "registry_step rg (snd (wait_job i timeoutMs caller aborted rg))"
| step_timeout: "t < length (rg_waits rg) \<Longrightarrow> registry_step rg (wait_timeout t rg)"
| step_abort: "t < length (rg_waits rg) \<Longrightarrow> registry_step rg (wait_abort t rg)"
| step_continue: "t < length (rg_waits rg) \<Longrightarrow> registry_step rg (wait_continue t rg)"
| step_cleanup: "owner \<in> set (rg_cleanups rg) \<Longrightarrow> registry_step rg (owner_cleanup ch answers now owner rg)"
| step_owned_rest:
    "OwnerTeardown owner owned \<in> set (rg_teardowns rg) \<Longrightarrow> all_settled owned rg \<Longrightarrow>
     registry_step rg (disposeOwned_rest ch owner owned rg)"
| step_dispose_all: "registry_step rg (disposeAll ch answers now rg)"
| step_all_rest:
    "ServiceTeardown jobs \<in> set (rg_teardowns rg) \<Longrightarrow> all_settled jobs rg \<Longrightarrow>
     registry_step rg (disposeAll_rest ch answers now jobs rg)"

inductive registry_reachable :: "nat \<Rightarrow> registry \<Rightarrow> bool" for n :: nat where
  fresh_registry: "registry_reachable n (new_registry n)"
| next_registry: "registry_reachable n rg \<Longrightarrow> registry_step rg rg' \<Longrightarrow> registry_reachable n rg'"

section \<open>The invariant\<close>

text \<open>
  Identities are numbered per kind and never given twice, and the store indexes records by
  their identity.
\<close>

definition ids_ok :: "registry \<Rightarrow> bool" where
  "ids_ok rg \<longleftrightarrow>
     distinct (map jb_id (rg_heap rg)) \<and>
     (\<forall>job \<in> set (rg_heap rg). \<exists>m. jb_id job = job_id (jb_kind job) m \<and> m \<le> counter rg (jb_kind job)) \<and>
     map_ok (rg_store rg) \<and>
     (\<forall>(i, a) \<in> set (rg_store rg). a < length (rg_heap rg) \<and> jb_id (job_at rg a) = i)"

definition cap_ok :: "registry \<Rightarrow> bool" where
  "cap_ok rg \<longleftrightarrow> (\<forall>owner. activeTaskCount owner rg \<le> rg_max rg)"

definition counted :: "nat \<Rightarrow> nat \<times> wait_state \<Rightarrow> bool" where
  "counted a w \<longleftrightarrow> fst w = a \<and> (snd w = Pending \<or> snd w = Resumed)"

text \<open>The waiters of a job are its suspended waits, its resolvers those not yet released.\<close>

definition job_waits_ok :: "(nat \<times> wait_state) list \<Rightarrow> nat \<Rightarrow> job \<Rightarrow> bool" where
  "job_waits_ok ws a job \<longleftrightarrow>
     jb_waiters job = length (filter (counted a) ws) \<and>
     distinct (jb_resolvers job) \<and>
     set (jb_resolvers job) = {t. t < length ws \<and> ws ! t = (a, Pending)} \<and>
     (isTerminal (jb_status job) \<longleftrightarrow> jb_settled job) \<and>
     (isTerminal (jb_status job) \<longrightarrow> jb_resolvers job = [])"

definition waits_ok :: "registry \<Rightarrow> bool" where
  "waits_ok rg \<longleftrightarrow>
     (\<forall>w \<in> set (rg_waits rg). fst w < length (rg_heap rg)) \<and>
     (\<forall>a < length (rg_heap rg). job_waits_ok (rg_waits rg) a (job_at rg a))"

text \<open>The completions announced of one job, and what answers for a suppressed notice.\<close>

definition completions :: "nat \<Rightarrow> registry \<Rightarrow> job_snapshot list" where
  "completions a rg =
     concat (map (\<lambda>n. case n of DoneNote b s _ _ \<Rightarrow> if b = a then [s] else [] | _ \<Rightarrow> []) (rg_notes rg))"

definition cancel_claimed :: "nat \<Rightarrow> registry \<Rightarrow> bool" where
  "cancel_claimed a rg \<longleftrightarrow>
     list_ex (\<lambda>n. case n of CancelCalled b by' _ threw \<Rightarrow> b = a \<and> (by' = ByTeardown \<or> \<not> threw) | _ \<Rightarrow> False)
       (rg_notes rg)"

definition wait_claims :: "nat \<Rightarrow> nat \<times> wait_state \<Rightarrow> bool" where
  "wait_claims a w \<longleftrightarrow> fst w = a \<and>
     (case snd w of Resumed \<Rightarrow> True | Returned s \<Rightarrow> isTerminal (sn_status s) | _ \<Rightarrow> False)"

definition wait_claimed :: "nat \<Rightarrow> registry \<Rightarrow> bool" where
  "wait_claimed a rg \<longleftrightarrow> list_ex (wait_claims a) (rg_waits rg)"

definition unreported :: "job_snapshot \<Rightarrow> job_snapshot" where
  "unreported s = s\<lparr>sn_reported := False\<rparr>"

definition job_notes_ok :: "registry \<Rightarrow> nat \<Rightarrow> bool" where
  "job_notes_ok rg a \<longleftrightarrow>
     (\<forall>s \<in> set (completions a rg). unreported s = unreported (snapshot (job_at rg a)) \<and>
        (sn_reported s \<longrightarrow> cancel_claimed a rg \<or> wait_claimed a rg)) \<and>
     length (completions a rg) \<le> (if isTerminal (jb_status (job_at rg a)) then 1 else 0) \<and>
     (isTerminal (jb_status (job_at rg a)) \<and> \<not> rg_closed rg \<longrightarrow> completions a rg \<noteq> []) \<and>
     (\<not> isTerminal (jb_status (job_at rg a)) \<and> jb_reported (job_at rg a) \<longrightarrow> cancel_claimed a rg)"

definition notes_ok :: "registry \<Rightarrow> bool" where
  "notes_ok rg \<longleftrightarrow>
     (\<forall>a < length (rg_heap rg). job_notes_ok rg a) \<and>
     (\<forall>a. length (rg_heap rg) \<le> a \<longrightarrow> completions a rg = [])"

definition listeners_ok :: "registry \<Rightarrow> bool" where
  "listeners_ok rg \<longleftrightarrow> layers_ok job_layer_good job_layer_view (rg_regs rg) (rg_layers rg)"

definition registry_ok :: "registry \<Rightarrow> bool" where
  "registry_ok rg \<longleftrightarrow> ids_ok rg \<and> cap_ok rg \<and> waits_ok rg \<and> notes_ok rg \<and> listeners_ok rg"

lemma job_id_inj: "job_id k m = job_id k' m' \<Longrightarrow> k = k' \<and> m = m'"
proof -
  assume eq: "job_id k m = job_id k' m'"
  have last: "takeWhile (\<lambda>c. c \<noteq> CHR ''-'') (rev (job_id k m)) = rev (show_nat m)" for k m
    using show_nat_no_dash [of m] by (subst job_id_def, simp, subst takeWhile_append2) auto
  from last [of k m] last [of k' m'] eq have "show_nat m = show_nat m'"
    by simp
  then have "m = m'"
    by (metis read_show_nat)
  with eq show ?thesis
    by (simp add: job_id_def)
qed

lemma isTerminal_active: "isTerminal (jb_status j) \<longleftrightarrow> \<not> is_active j"
  by (cases "jb_status j") (simp_all add: is_active_def)

lemma isTerminal_ended [simp]: "isTerminal (ended e)"
  by (cases e) simp_all

lemma length_filter_update:
  "t < length xs \<Longrightarrow> length (filter P (xs[t := x])) + (if P (xs ! t) then 1 else 0)
     = length (filter P xs) + (if P x then 1 else (0 :: nat))"
proof (induction xs arbitrary: t)
  case (Cons y ys)
  then show ?case
    by (cases t) auto
qed simp

lemma completions_note:
  "completions a (note_job n rg) = completions a rg @
     (case n of DoneNote b s _ _ \<Rightarrow> if b = a then [s] else [] | _ \<Rightarrow> [])"
  by (simp add: completions_def note_job_def)

lemma cancel_claimed_note: "cancel_claimed a rg \<Longrightarrow> cancel_claimed a (note_job n rg)"
  by (simp add: cancel_claimed_def note_job_def)

lemma cancel_claimed_new:
  "by' = ByTeardown \<or> \<not> threw \<Longrightarrow> cancel_claimed a (note_job (CancelCalled a by' reason threw) rg)"
  by (simp add: cancel_claimed_def note_job_def)

lemma note_job_simps [simp]:
  "rg_heap (note_job n rg) = rg_heap rg" "rg_store (note_job n rg) = rg_store rg"
  "rg_counters (note_job n rg) = rg_counters rg" "rg_waits (note_job n rg) = rg_waits rg"
  "rg_max (note_job n rg) = rg_max rg" "rg_closed (note_job n rg) = rg_closed rg"
  "rg_layers (note_job n rg) = rg_layers rg" "rg_regs (note_job n rg) = rg_regs rg"
  "rg_cleanups (note_job n rg) = rg_cleanups rg" "rg_teardowns (note_job n rg) = rg_teardowns rg"
  "rg_notes (note_job n rg) = rg_notes rg @ [n]"
  by (simp_all add: note_job_def)

lemma update_job_simps [simp]:
  "rg_heap (update_job a f rg) = (rg_heap rg)[a := f (job_at rg a)]"
  "rg_store (update_job a f rg) = rg_store rg"
  "rg_counters (update_job a f rg) = rg_counters rg" "rg_waits (update_job a f rg) = rg_waits rg"
  "rg_max (update_job a f rg) = rg_max rg" "rg_closed (update_job a f rg) = rg_closed rg"
  "rg_layers (update_job a f rg) = rg_layers rg" "rg_regs (update_job a f rg) = rg_regs rg"
  "rg_cleanups (update_job a f rg) = rg_cleanups rg" "rg_teardowns (update_job a f rg) = rg_teardowns rg"
  "rg_notes (update_job a f rg) = rg_notes rg"
  by (simp_all add: update_job_def)

lemma length_filter_mono:
  "(\<And>x. x \<in> set xs \<Longrightarrow> P x \<Longrightarrow> Q x) \<Longrightarrow> length (filter P xs) \<le> length (filter Q xs)"
  by (induction xs) (auto intro: le_SucI)

text \<open>The identities and the bound see only the identity, kind, owner and activity of a record.\<close>

lemma ids_ok_heap:
  assumes "ids_ok rg" "map (\<lambda>j. (jb_id j, jb_kind j)) (rg_heap rg') = map (\<lambda>j. (jb_id j, jb_kind j)) (rg_heap rg)"
    "rg_store rg' = rg_store rg" "rg_counters rg' = rg_counters rg"
  shows "ids_ok rg'"
proof -
  from assms(2) have len: "length (rg_heap rg') = length (rg_heap rg)"
    by (metis length_map)
  have same: "jb_id (job_at rg' a) = jb_id (job_at rg a) \<and> jb_kind (job_at rg' a) = jb_kind (job_at rg a)"
    if "a < length (rg_heap rg)" for a
    using arg_cong [OF assms(2), of "\<lambda>xs. xs ! a"] that len by simp
  have ids: "map jb_id (rg_heap rg') = map jb_id (rg_heap rg)"
    by (rule nth_equalityI) (simp_all add: len same)
  show ?thesis
    using assms(1) len same ids assms(3,4)
    by (fastforce simp: ids_ok_def counter_def set_conv_nth)
qed

lemma cap_ok_heap:
  assumes "cap_ok rg" "ids_ok rg" "rg_store rg' = rg_store rg" "rg_max rg' = rg_max rg"
    "\<And>a. a < length (rg_heap rg) \<Longrightarrow> jb_owner (job_at rg' a) = jb_owner (job_at rg a) \<and>
        (is_active (job_at rg' a) \<longrightarrow> is_active (job_at rg a))"
  shows "cap_ok rg'"
proof -
  have "activeTaskCount owner rg' \<le> activeTaskCount owner rg" for owner
    unfolding activeTaskCount_def assms(3)
    by (rule length_filter_mono) (use assms(2,5) in \<open>auto simp: ids_ok_def\<close>)
  with assms(1,4) show ?thesis
    unfolding cap_ok_def by (metis order_trans)
qed

lemma completions_cong: "rg_notes rg' = rg_notes rg \<Longrightarrow> completions a rg' = completions a rg"
  by (simp add: completions_def)

lemma cancel_claimed_cong: "rg_notes rg' = rg_notes rg \<Longrightarrow> cancel_claimed a rg' = cancel_claimed a rg"
  by (simp add: cancel_claimed_def)

lemma wait_claimed_cong: "rg_waits rg' = rg_waits rg \<Longrightarrow> wait_claimed a rg' = wait_claimed a rg"
  by (simp add: wait_claimed_def)

lemma wait_claimed_nth: "wait_claimed a rg \<longleftrightarrow> (\<exists>t < length (rg_waits rg). wait_claims a (rg_waits rg ! t))"
  unfolding wait_claimed_def list_ex_iff by (metis in_set_conv_nth)

text \<open>Steps that leave the jobs, the waits and the notes alone.\<close>

lemma registry_ok_frame:
  assumes "registry_ok rg" "rg_heap rg' = rg_heap rg" "rg_store rg' = rg_store rg"
    "rg_counters rg' = rg_counters rg" "rg_max rg' = rg_max rg" "rg_waits rg' = rg_waits rg"
    "rg_notes rg' = rg_notes rg" "rg_closed rg \<Longrightarrow> rg_closed rg'" "listeners_ok rg'"
  shows "registry_ok rg'"
proof -
  have "ids_ok rg'"
    using assms by (auto simp: registry_ok_def intro: ids_ok_heap)
  moreover have "cap_ok rg'"
    using assms by (auto simp: registry_ok_def intro: cap_ok_heap)
  moreover have "waits_ok rg'"
    using assms by (simp add: registry_ok_def waits_ok_def)
  moreover have "notes_ok rg'"
    using assms
    by (auto simp: registry_ok_def notes_ok_def job_notes_ok_def completions_cong [OF assms(7)]
        cancel_claimed_cong [OF assms(7)] wait_claimed_cong [OF assms(6)])
  ultimately show ?thesis
    using assms(9) by (simp add: registry_ok_def)
qed

lemma registry_ok_note:
  assumes "registry_ok rg" "\<not> (\<exists>b s ow ls. n = DoneNote b s ow ls)"
  shows "registry_ok (note_job n rg)"
proof -
  have quiet: "completions a (note_job n rg) = completions a rg" for a
    using assms(2) by (cases n) (auto simp: completions_note)
  have "wait_claimed a (note_job n rg) = wait_claimed a rg" for a
    by (rule wait_claimed_cong) simp
  then have "notes_ok (note_job n rg)"
    using assms(1) quiet cancel_claimed_note unfolding registry_ok_def notes_ok_def job_notes_ok_def
    by auto
  moreover have "ids_ok (note_job n rg)" "cap_ok (note_job n rg)"
    using assms(1) by (auto simp: registry_ok_def intro: ids_ok_heap cap_ok_heap)
  ultimately show ?thesis
    using assms(1) by (simp add: registry_ok_def waits_ok_def listeners_ok_def)
qed

lemma registry_ok_notify: "registry_ok rg \<Longrightarrow> registry_ok (notifyChanged ch owner rg)"
  by (simp add: notifyChanged_def registry_ok_note)

text \<open>A change of one record that neither settles it nor touches its waits.\<close>

definition tame :: "bool \<Rightarrow> job \<Rightarrow> job \<Rightarrow> bool" where
  "tame claimed j j' \<longleftrightarrow>
     jb_id j' = jb_id j \<and> jb_kind j' = jb_kind j \<and> jb_owner j' = jb_owner j \<and>
     jb_waiters j' = jb_waiters j \<and> jb_resolvers j' = jb_resolvers j \<and> jb_settled j' = jb_settled j \<and>
     (isTerminal (jb_status j') \<longleftrightarrow> isTerminal (jb_status j)) \<and>
     (isTerminal (jb_status j) \<longrightarrow> unreported (snapshot j') = unreported (snapshot j)) \<and>
     (jb_reported j' \<longrightarrow> jb_reported j \<or> isTerminal (jb_status j) \<or> claimed)"

lemma registry_ok_tame:
  assumes ok: "registry_ok rg" and tame: "tame (cancel_claimed a rg) (job_at rg a) (f (job_at rg a))"
  shows "registry_ok (update_job a f rg)"
proof (cases "a < length (rg_heap rg)")
  case True
  let ?rg = "update_job a f rg"
  have at: "job_at ?rg b = (if b = a then f (job_at rg a) else job_at rg b)" if "b < length (rg_heap rg)" for b
    using that by simp
  have same: "jb_id (f (job_at rg a)) = jb_id (job_at rg a)" "jb_kind (f (job_at rg a)) = jb_kind (job_at rg a)"
    "jb_owner (f (job_at rg a)) = jb_owner (job_at rg a)"
    "is_active (f (job_at rg a)) = is_active (job_at rg a)"
    "\<And>ws. job_waits_ok ws a (f (job_at rg a)) = job_waits_ok ws a (job_at rg a)"
    using tame isTerminal_active [of "f (job_at rg a)"] isTerminal_active [of "job_at rg a"]
    by (simp_all add: tame_def job_waits_ok_def)
  have "map (\<lambda>j. (jb_id j, jb_kind j)) (rg_heap ?rg) = map (\<lambda>j. (jb_id j, jb_kind j)) (rg_heap rg)"
    by (rule nth_equalityI) (auto simp: nth_list_update [OF True] same)
  then have "ids_ok ?rg"
    using ok by (auto simp: registry_ok_def intro: ids_ok_heap)
  moreover have "cap_ok ?rg"
  proof (rule cap_ok_heap [of rg])
    show "jb_owner (job_at ?rg b) = jb_owner (job_at rg b) \<and>
        (is_active (job_at ?rg b) \<longrightarrow> is_active (job_at rg b))" for b
      using same by (cases "b = a") (simp_all add: True)
  qed (use ok in \<open>simp_all add: registry_ok_def\<close>)
  moreover
  have waits: "waits_ok rg"
    using ok by (simp add: registry_ok_def)
  have "job_waits_ok (rg_waits rg) b (job_at ?rg b)" if "b < length (rg_heap rg)" for b
  proof -
    have "job_waits_ok (rg_waits rg) b (job_at rg b)"
      using waits that by (simp add: waits_ok_def)
    then show ?thesis
      by (cases "b = a") (simp_all add: True same(5))
  qed
  then have "waits_ok ?rg"
    using waits by (simp add: waits_ok_def)
  moreover have "job_notes_ok ?rg b" if b: "b < length (rg_heap rg)" for b
  proof -
    have same: "completions c ?rg = completions c rg" "cancel_claimed c ?rg = cancel_claimed c rg"
      "wait_claimed c ?rg = wait_claimed c rg" for c
      by (simp_all add: completions_def cancel_claimed_def wait_claimed_def)
    have old: "job_notes_ok rg b"
      using ok b by (simp add: registry_ok_def notes_ok_def)
    show ?thesis
    proof (cases "b = a")
      case False
      with old show ?thesis
        unfolding job_notes_ok_def same by simp
    next
      case b: True
      show ?thesis
      proof (cases "isTerminal (jb_status (job_at rg a))")
        case True
        with old tame \<open>a < length (rg_heap rg)\<close> show ?thesis
          unfolding job_notes_ok_def same b by (simp add: tame_def)
      next
        case False
        with old b have "completions a rg = []" "jb_reported (job_at rg a) \<longrightarrow> cancel_claimed a rg"
          by (simp_all add: job_notes_ok_def)
        moreover have "\<not> isTerminal (jb_status (f (job_at rg a)))"
          "jb_reported (f (job_at rg a)) \<longrightarrow> jb_reported (job_at rg a) \<or> cancel_claimed a rg"
          using tame False by (simp_all add: tame_def)
        ultimately show ?thesis
          using \<open>a < length (rg_heap rg)\<close> unfolding job_notes_ok_def same b by simp blast
      qed
    qed
  qed
  then have "notes_ok ?rg"
    using ok by (simp add: registry_ok_def notes_ok_def completions_def)
  ultimately show ?thesis
    using ok by (simp add: registry_ok_def listeners_ok_def)
next
  case False
  then have "update_job a f rg = rg"
    by (simp add: update_job_def list_update_beyond)
  with ok show ?thesis
    by simp
qed

lemma registry_ok_reported:
  "registry_ok rg \<Longrightarrow> isTerminal (jb_status (job_at rg a)) \<or> cancel_claimed a rg \<Longrightarrow> registry_ok (mark_reported a rg)"
  unfolding mark_reported_def by (rule registry_ok_tame) (auto simp: tame_def unreported_def snapshot_def)

lemma registry_ok_stopping:
  assumes "registry_ok rg" "\<not> isTerminal (jb_status (job_at rg a))" "cancel_claimed a rg"
  shows "registry_ok (mark_stopping a rg)"
    and "registry_ok (update_job a (\<lambda>job. job\<lparr>jb_status := Stopping\<rparr>) rg)"
  using assms unfolding mark_stopping_def by (auto intro!: registry_ok_tame simp: tame_def)

lemma release_waits_spec:
  assumes "distinct ts" "\<forall>t \<in> set ts. t < length ws"
  shows "length (release_waits ts ws) = length ws \<and>
     (\<forall>u < length ws. release_waits ts ws ! u = (if u \<in> set ts then (fst (ws ! u), Resumed) else ws ! u))"
  using assms unfolding release_waits_def
proof (induction ts arbitrary: ws)
  case (Cons t ts)
  let ?ws = "ws[t := (fst (ws ! t), Resumed)]"
  from Cons.IH [of ?ws] Cons.prems show ?case
    by (auto simp: nth_list_update)
qed simp

lemma release_waits_counted:
  assumes "distinct ts" "\<forall>t \<in> set ts. t < length ws \<and> snd (ws ! t) = Pending"
  shows "length (filter (counted a) (release_waits ts ws)) = length (filter (counted a) ws)"
  using assms unfolding release_waits_def
proof (induction ts arbitrary: ws)
  case (Cons t ts)
  let ?ws = "ws[t := (fst (ws ! t), Resumed)]"
  have "counted a (fst (ws ! t), Resumed) = counted a (ws ! t)"
    using Cons.prems by (simp add: counted_def)
  then have "length (filter (counted a) ?ws) = length (filter (counted a) ws)"
    using length_filter_update [of t ws "counted a" "(fst (ws ! t), Resumed)"] Cons.prems by auto
  moreover have "\<forall>u \<in> set ts. u < length ?ws \<and> snd (?ws ! u) = Pending"
    using Cons.prems by (auto simp: nth_list_update)
  ultimately show ?case
    using Cons.IH [of ?ws] Cons.prems by simp
qed simp

definition settled_job :: "job_outcome \<Rightarrow> int \<Rightarrow> job \<Rightarrow> job" where
  "settled_job outcome now job = (settled_record outcome now job)\<lparr>jb_resolvers := [], jb_settled := True\<rparr>"

lemma settled_job_simps [simp]:
  "jb_id (settled_job oc now j) = jb_id j" "jb_kind (settled_job oc now j) = jb_kind j"
  "jb_owner (settled_job oc now j) = jb_owner j" "jb_status (settled_job oc now j) = ended (oc_status oc)"
  "jb_waiters (settled_job oc now j) = jb_waiters j" "jb_resolvers (settled_job oc now j) = []"
  "jb_settled (settled_job oc now j)"
  "jb_reported (settled_job oc now j) \<longleftrightarrow> 0 < jb_waiters j \<or> jb_reported j"
  "snapshot (settled_record oc now j) = snapshot (settled_job oc now j)"
  "sn_reported (snapshot (settled_job oc now j)) \<longleftrightarrow> 0 < jb_waiters j \<or> jb_reported j"
  by (simp_all add: settled_job_def settled_record_def snapshot_def)

lemma settle_terminal: "isTerminal (jb_status (job_at rg a)) \<Longrightarrow> settle ch a outcome now rg = rg"
  by (simp add: settle_def)

lemma listeners_cong:
  assumes "rg_layers rg' = rg_layers rg"
  shows "listenersFor ch owner rg' = listenersFor ch owner rg" "changedFor ch owner rg' = changedFor ch owner rg"
    "servesOwner ch owner rg' = servesOwner ch owner rg"
  by (simp_all add: listenersFor_def changedFor_def servesOwner_def owner_layers_def assms)

lemma settle_effect:
  assumes "\<not> isTerminal (jb_status (job_at rg a))"
  shows "rg_heap (settle ch a oc now rg) = (rg_heap rg)[a := settled_job oc now (job_at rg a)]"
    and "rg_waits (settle ch a oc now rg) = release_waits (jb_resolvers (job_at rg a)) (rg_waits rg)"
    and "rg_notes (settle ch a oc now rg) = rg_notes rg @
       ChangedNote (jb_owner (job_at rg a)) (changedFor ch (jb_owner (job_at rg a)) rg) #
       (if rg_closed rg then [] else
        [DoneNote a (snapshot (settled_job oc now (job_at rg a))) (jb_owner (job_at rg a))
           (listenersFor ch (jb_owner (job_at rg a)) rg)])"
  using assms
  by (simp_all add: settle_def Let_def notifyChanged_def settled_job_def [symmetric]
      listenersFor_def changedFor_def owner_layers_def)

lemma settle_same [simp]:
  "rg_store (settle ch a oc now rg) = rg_store rg" "rg_counters (settle ch a oc now rg) = rg_counters rg"
  "rg_max (settle ch a oc now rg) = rg_max rg" "rg_closed (settle ch a oc now rg) = rg_closed rg"
  "rg_layers (settle ch a oc now rg) = rg_layers rg" "rg_regs (settle ch a oc now rg) = rg_regs rg"
  "rg_cleanups (settle ch a oc now rg) = rg_cleanups rg" "rg_teardowns (settle ch a oc now rg) = rg_teardowns rg"
  by (simp_all add: settle_def Let_def notifyChanged_def)

lemma job_waits_ok_other:
  assumes "job_waits_ok ws b job" "length ws' = length ws"
    "\<And>t. t < length ws \<Longrightarrow> ws' ! t = ws ! t \<or> fst (ws ! t) \<noteq> b \<and> fst (ws' ! t) = fst (ws ! t)"
  shows "job_waits_ok ws' b job"
proof -
  have same: "counted b (ws' ! t) = counted b (ws ! t)" "ws' ! t = (b, Pending) \<longleftrightarrow> ws ! t = (b, Pending)"
    if "t < length ws" for t
    using assms(3) [OF that] by (auto simp: counted_def)
  have "{t. t < length ws' \<and> counted b (ws' ! t)} = {t. t < length ws \<and> counted b (ws ! t)}"
    using same(1) assms(2) by (intro Collect_cong) metis
  then have "length (filter (counted b) ws') = length (filter (counted b) ws)"
    by (simp only: length_filter_conv_card)
  moreover have "{t. t < length ws' \<and> ws' ! t = (b, Pending)} = {t. t < length ws \<and> ws ! t = (b, Pending)}"
    using same(2) assms(2) by (intro Collect_cong) metis
  ultimately show ?thesis
    using assms(1) unfolding job_waits_ok_def by metis
qed

lemma registry_ok_settle:
  assumes ok: "registry_ok rg" and a: "a < length (rg_heap rg)"
  shows "registry_ok (settle ch a outcome now rg)"
proof (cases "isTerminal (jb_status (job_at rg a))")
  case True
  with ok show ?thesis
    by (simp add: settle_terminal)
next
  case live: False
  let ?job = "job_at rg a" and ?rg = "settle ch a outcome now rg"
  let ?job' = "settled_job outcome now ?job" and ?ws = "release_waits (jb_resolvers ?job) (rg_waits rg)"
  note eff = settle_effect [OF live, of ch outcome now]
  have waits: "job_waits_ok (rg_waits rg) b (job_at rg b)" if "b < length (rg_heap rg)" for b
    using ok that by (simp add: registry_ok_def waits_ok_def)
  note here = waits [OF a, unfolded job_waits_ok_def]
  from here have res: "distinct (jb_resolvers ?job)" "\<forall>t \<in> set (jb_resolvers ?job). t < length (rg_waits rg)"
    "\<forall>t \<in> set (jb_resolvers ?job). t < length (rg_waits rg) \<and> snd (rg_waits rg ! t) = Pending"
    by auto
  note rel = release_waits_spec [OF res(1,2)] and cnt = release_waits_counted [OF res(1,3)]
  have "map (\<lambda>j. (jb_id j, jb_kind j)) (rg_heap ?rg) = map (\<lambda>j. (jb_id j, jb_kind j)) (rg_heap rg)"
    unfolding eff by (rule nth_equalityI) (auto simp: nth_list_update [OF a])
  then have "ids_ok ?rg"
    using ok by (auto simp: registry_ok_def eff intro: ids_ok_heap)
  moreover have "cap_ok ?rg"
  proof (rule cap_ok_heap [of rg])
    show "jb_owner (job_at ?rg b) = jb_owner (job_at rg b) \<and>
        (is_active (job_at ?rg b) \<longrightarrow> is_active (job_at rg b))" for b
      using live isTerminal_active [of ?job] by (cases "b = a") (simp_all add: eff a)
  qed (use ok in \<open>simp_all add: registry_ok_def eff\<close>)
  moreover have "waits_ok ?rg"
    unfolding waits_ok_def
  proof (intro conjI allI impI ballI)
    fix w assume "w \<in> set (rg_waits ?rg)"
    then obtain t where "t < length (rg_waits rg)" "w = ?ws ! t"
      using rel by (auto simp: eff in_set_conv_nth)
    then have "fst w = fst (rg_waits rg ! t)" "rg_waits rg ! t \<in> set (rg_waits rg)"
      using rel by auto
    with ok show "fst w < length (rg_heap ?rg)"
      by (simp add: registry_ok_def waits_ok_def eff)
  next
    fix b assume "b < length (rg_heap ?rg)"
    then have b: "b < length (rg_heap rg)"
      by (simp add: eff)
    show "job_waits_ok (rg_waits ?rg) b (job_at ?rg b)"
    proof (cases "b = a")
      case True
      have "t < length ?ws \<and> ?ws ! t = (a, Pending) \<longleftrightarrow> False" for t
        using rel here by (auto split: if_splits)
      with True here cnt [of a] show ?thesis
        by (simp add: job_waits_ok_def eff a)
    next
      case False
      have "?ws ! t = rg_waits rg ! t \<or> fst (rg_waits rg ! t) \<noteq> b \<and> fst (?ws ! t) = fst (rg_waits rg ! t)"
        if "t < length (rg_waits rg)" for t
        using rel that here False by auto
      with job_waits_ok_other [OF waits [OF b], of ?ws] rel False show ?thesis
        by (simp add: eff)
    qed
  qed
  moreover have "notes_ok ?rg"
    unfolding notes_ok_def
  proof (intro conjI allI impI)
    have said: "completions b ?rg = completions b rg @ (if b = a \<and> \<not> rg_closed rg then [snapshot ?job'] else [])" for b
      by (simp add: completions_def eff)
    have cancels: "cancel_claimed b ?rg = cancel_claimed b rg" for b
      by (simp add: cancel_claimed_def eff)
    fix b
    show "completions b ?rg = []" if "length (rg_heap ?rg) \<le> b"
      using that ok a by (simp add: said registry_ok_def notes_ok_def) (simp add: eff)
    assume "b < length (rg_heap ?rg)"
    then have b: "b < length (rg_heap rg)"
      by (simp add: eff)
    then have old: "job_notes_ok rg b"
      using ok by (simp add: registry_ok_def notes_ok_def)
    have claims: "wait_claimed b rg \<Longrightarrow> wait_claimed b ?rg"
    proof -
      assume "wait_claimed b rg"
      then obtain t where t: "t < length (rg_waits rg)" "wait_claims b (rg_waits rg ! t)"
        by (auto simp: wait_claimed_nth)
      then have "wait_claims b (?ws ! t)"
        using rel by (auto simp: wait_claims_def)
      with t rel show "wait_claimed b ?rg"
        by (auto simp: wait_claimed_nth eff)
    qed
    show "job_notes_ok ?rg b"
    proof (cases "b = a")
      case False
      with old claims show ?thesis
        unfolding job_notes_ok_def said cancels by (auto simp: eff)
    next
      case True
      from old live True have none: "completions a rg = []" "jb_reported ?job \<longrightarrow> cancel_claimed a rg"
        by (simp_all add: job_notes_ok_def)
      have "wait_claimed a ?rg" if "0 < jb_waiters ?job"
      proof -
        from that here obtain w where "w \<in> set (rg_waits rg)" "counted a w"
          by (metis (mono_tags, lifting) filter_empty_conv length_0_conv less_not_refl2)
        then obtain t where t: "t < length (rg_waits rg)" "counted a (rg_waits rg ! t)"
          by (auto simp: in_set_conv_nth)
        then have "wait_claims a (?ws ! t)"
          using rel here by (cases "rg_waits rg ! t") (auto simp: wait_claims_def counted_def)
        with t rel show ?thesis
          by (auto simp: wait_claimed_nth eff)
      qed
      with none show ?thesis
        unfolding job_notes_ok_def said cancels True
        by (auto simp: eff a)
    qed
  qed
  moreover have "listeners_ok ?rg"
    using ok by (simp add: registry_ok_def listeners_ok_def eff)
  ultimately show ?thesis
    by (simp add: registry_ok_def)
qed

text \<open>
  A step of one wait: the wait changes its state, its job changes its waiters and resolvers to
  match, and no released wait of a finished job ends without having seen the end.
\<close>

lemma registry_ok_wait:
  assumes ok: "registry_ok rg" and t: "t < length (rg_waits rg)" and at: "rg_waits rg ! t = (a, w)"
    and f: "f = (\<lambda>job. job\<lparr>jb_waiters := n job, jb_resolvers := ts job\<rparr>)"
    and waits: "job_waits_ok ((rg_waits rg)[t := (a, w')]) a (f (job_at rg a))"
    and claims: "isTerminal (jb_status (job_at rg a)) \<Longrightarrow> wait_claims a (a, w) \<Longrightarrow> wait_claims a (a, w')"
  shows "registry_ok (update_job a f (set_wait t w' rg))"
proof -
  let ?rg = "update_job a f (set_wait t w' rg)"
  let ?ws = "(rg_waits rg)[t := (a, w')]"
  have ws: "rg_waits ?rg = ?ws" and same [simp]: "rg_heap (set_wait t w' rg) = rg_heap rg"
    "rg_store (set_wait t w' rg) = rg_store rg" "rg_counters (set_wait t w' rg) = rg_counters rg"
    "rg_max (set_wait t w' rg) = rg_max rg" "rg_notes (set_wait t w' rg) = rg_notes rg"
    "rg_closed (set_wait t w' rg) = rg_closed rg" "rg_layers (set_wait t w' rg) = rg_layers rg"
    "rg_regs (set_wait t w' rg) = rg_regs rg"
    using at by (simp_all add: set_wait_def)
  have a: "a < length (rg_heap rg)"
    using ok t at nth_mem [OF t] by (auto simp: registry_ok_def waits_ok_def)
  have keep: "jb_id (f j) = jb_id j" "jb_kind (f j) = jb_kind j" "jb_owner (f j) = jb_owner j"
    "is_active (f j) = is_active j" "jb_status (f j) = jb_status j" "jb_reported (f j) = jb_reported j"
    "snapshot (f j) = snapshot j" for j
    by (simp_all add: f is_active_def snapshot_def)
  have heap: "job_at ?rg b = (if b = a then f (job_at rg a) else job_at rg b)" for b
    using a by simp
  have "map (\<lambda>j. (jb_id j, jb_kind j)) (rg_heap ?rg) = map (\<lambda>j. (jb_id j, jb_kind j)) (rg_heap rg)"
    by (rule nth_equalityI) (auto simp: nth_list_update [OF a] keep)
  then have "ids_ok ?rg"
    using ok by (auto simp: registry_ok_def intro: ids_ok_heap)
  moreover have "cap_ok ?rg"
  proof (rule cap_ok_heap [of rg])
    show "jb_owner (job_at ?rg b) = jb_owner (job_at rg b) \<and>
        (is_active (job_at ?rg b) \<longrightarrow> is_active (job_at rg b))" for b
      unfolding heap by (simp add: keep)
  qed (use ok in \<open>simp_all add: registry_ok_def\<close>)
  moreover have "waits_ok ?rg"
    unfolding waits_ok_def ws
  proof (intro conjI ballI allI impI)
    show "fst v < length (rg_heap ?rg)" if "v \<in> set ?ws" for v
      using that ok a set_update_subset_insert [of "rg_waits rg" t "(a, w')"]
      by (auto simp: registry_ok_def waits_ok_def)
    fix b assume "b < length (rg_heap ?rg)"
    then have b: "b < length (rg_heap rg)"
      by simp
    show "job_waits_ok ?ws b (job_at ?rg b)"
    proof (cases "b = a")
      case True
      with waits show ?thesis
        unfolding heap by simp
    next
      case False
      have "job_waits_ok (rg_waits rg) b (job_at rg b)"
        using ok b by (simp add: registry_ok_def waits_ok_def)
      then have "job_waits_ok ?ws b (job_at rg b)"
        by (rule job_waits_ok_other) (use at False t in \<open>auto simp: nth_list_update [OF t]\<close>)
      with False show ?thesis
        unfolding heap by simp
    qed
  qed
  moreover have "job_notes_ok ?rg b" if "b < length (rg_heap rg)" for b
  proof -
    have old: "job_notes_ok rg b"
      using ok that by (simp add: registry_ok_def notes_ok_def)
    have kept: "completions b ?rg = completions b rg" "cancel_claimed b ?rg = cancel_claimed b rg"
      by (simp_all add: completions_def cancel_claimed_def)
    have "wait_claimed b ?rg" if claimed: "wait_claimed b rg" "isTerminal (jb_status (job_at rg b))"
    proof -
      from claimed obtain u where u: "u < length (rg_waits rg)" "wait_claims b (rg_waits rg ! u)"
        by (auto simp: wait_claimed_nth)
      have "wait_claims b (?ws ! u)"
      proof (cases "u = t")
        case True
        with u at have "b = a" "wait_claims a (a, w)"
          by (auto simp: wait_claims_def)
        with claims claimed True t show ?thesis
          by simp
      next
        case False
        with u show ?thesis
          by simp
      qed
      with u show ?thesis
        unfolding wait_claimed_nth ws by auto
    qed
    moreover have "jb_status (job_at ?rg b) = jb_status (job_at rg b)"
      "jb_reported (job_at ?rg b) = jb_reported (job_at rg b)" "snapshot (job_at ?rg b) = snapshot (job_at rg b)"
      unfolding heap by (simp_all add: keep)
    moreover have "completions b rg = []" if "\<not> isTerminal (jb_status (job_at rg b))"
      using old that by (simp add: job_notes_ok_def)
    ultimately show ?thesis
      using old unfolding job_notes_ok_def kept by (cases "isTerminal (jb_status (job_at rg b))") auto
  qed
  then have "notes_ok ?rg"
    using ok by (simp add: registry_ok_def notes_ok_def completions_def)
  ultimately show ?thesis
    using ok by (simp add: registry_ok_def listeners_ok_def)
qed

lemma pending_resolver:
  assumes "registry_ok rg" "t < length (rg_waits rg)" "rg_waits rg ! t = (a, Pending)"
  shows "a < length (rg_heap rg) \<and> job_waits_ok (rg_waits rg) a (job_at rg a) \<and> t \<in> set (jb_resolvers (job_at rg a))"
  using assms nth_mem [OF assms(2)] by (auto simp: registry_ok_def waits_ok_def job_waits_ok_def)

lemma registry_ok_timeout:
  assumes ok: "registry_ok rg" and t: "t < length (rg_waits rg)"
  shows "registry_ok (wait_timeout t rg)"
proof (cases "\<exists>a. rg_waits rg ! t = (a, Pending)")
  case True
  then obtain a where at: "rg_waits rg ! t = (a, Pending)"
    by blast
  let ?ws = "(rg_waits rg)[t := (a, Resumed)]"
  from pending_resolver [OF ok t at] have waits: "job_waits_ok (rg_waits rg) a (job_at rg a)"
    by simp
  let ?job = "job_at rg a"
  have "set (jb_resolvers (drop_resolver t ?job)) = {u. u < length ?ws \<and> ?ws ! u = (a, Pending)}"
    using waits t unfolding job_waits_ok_def
    by (auto simp: drop_resolver_def nth_list_update [OF t])
  moreover have "jb_waiters ?job = length (filter (counted a) ?ws)"
    using length_filter_update [OF t, of "counted a" "(a, Resumed)"] waits at
    by (simp add: counted_def job_waits_ok_def)
  moreover have "distinct (jb_resolvers (drop_resolver t ?job))"
    "isTerminal (jb_status ?job) \<longrightarrow> jb_resolvers (drop_resolver t ?job) = []"
    using waits by (simp_all add: job_waits_ok_def drop_resolver_def)
  ultimately have "job_waits_ok ?ws a (drop_resolver t ?job)"
    using waits unfolding job_waits_ok_def by (simp add: drop_resolver_def del: mem_Collect_eq)
  then have "registry_ok (update_job a (drop_resolver t) (set_wait t Resumed rg))"
    by (intro registry_ok_wait [OF ok t at, where n = jb_waiters
          and ts = "\<lambda>job. filter (\<lambda>u. u \<noteq> t) (jb_resolvers job)"])
       (simp_all add: drop_resolver_def fun_eq_iff wait_claims_def)
  then show ?thesis
    by (simp add: wait_timeout_def at)
next
  case False
  then have "wait_timeout t rg = rg"
    by (auto simp: wait_timeout_def split: prod.splits wait_state.splits)
  with ok show ?thesis
    by simp
qed

lemma registry_ok_abort:
  assumes ok: "registry_ok rg" and t: "t < length (rg_waits rg)"
  shows "registry_ok (wait_abort t rg)"
proof (cases "\<exists>a. rg_waits rg ! t = (a, Pending)")
  case True
  then obtain a where at: "rg_waits rg ! t = (a, Pending)"
    by blast
  let ?ws = "(rg_waits rg)[t := (a, Rejected)]"
  let ?f = "\<lambda>job. (drop_resolver t job)\<lparr>jb_waiters := jb_waiters job - 1\<rparr>"
  from pending_resolver [OF ok t at] have waits: "job_waits_ok (rg_waits rg) a (job_at rg a)"
    by simp
  let ?job = "job_at rg a"
  have "set (jb_resolvers (drop_resolver t ?job)) = {u. u < length ?ws \<and> ?ws ! u = (a, Pending)}"
    using waits t unfolding job_waits_ok_def
    by (auto simp: drop_resolver_def nth_list_update [OF t])
  moreover have "jb_waiters ?job - 1 = length (filter (counted a) ?ws)"
    using length_filter_update [OF t, of "counted a" "(a, Rejected)"] waits at
    by (simp add: counted_def job_waits_ok_def)
  moreover have "distinct (jb_resolvers (drop_resolver t ?job))"
    "isTerminal (jb_status ?job) \<longrightarrow> jb_resolvers (drop_resolver t ?job) = []"
    using waits by (simp_all add: job_waits_ok_def drop_resolver_def)
  ultimately have "job_waits_ok ?ws a (?f ?job)"
    using waits unfolding job_waits_ok_def by (simp add: drop_resolver_def del: mem_Collect_eq)
  then have "registry_ok (update_job a ?f (set_wait t Rejected rg))"
    by (intro registry_ok_wait [OF ok t at, where n = "\<lambda>job. jb_waiters job - 1"
          and ts = "\<lambda>job. filter (\<lambda>u. u \<noteq> t) (jb_resolvers job)"])
       (simp_all add: drop_resolver_def fun_eq_iff wait_claims_def)
  then show ?thesis
    by (simp add: wait_abort_def at)
next
  case False
  then have "wait_abort t rg = rg"
    by (auto simp: wait_abort_def split: prod.splits wait_state.splits)
  with ok show ?thesis
    by simp
qed

lemma registry_ok_continue:
  assumes ok: "registry_ok rg" and t: "t < length (rg_waits rg)"
  shows "registry_ok (wait_continue t rg)"
proof (cases "\<exists>a. rg_waits rg ! t = (a, Resumed)")
  case True
  then obtain a where at: "rg_waits rg ! t = (a, Resumed)"
    by blast
  have a: "a < length (rg_heap rg)" and waits: "job_waits_ok (rg_waits rg) a (job_at rg a)"
    using ok at nth_mem [OF t] by (auto simp: registry_ok_def waits_ok_def)
  let ?f = "\<lambda>job. job\<lparr>jb_waiters := jb_waiters job - 1\<rparr>"
  let ?rg1 = "update_job a ?f rg"
  let ?fin = "isTerminal (jb_status (job_at rg a))"
  define s where "s = snapshot (job_at (if ?fin then mark_reported a ?rg1 else ?rg1) a)"
  let ?ws = "(rg_waits rg)[t := (a, Returned s)]"
  have "{u. u < length ?ws \<and> ?ws ! u = (a, Pending)} = {u. u < length (rg_waits rg) \<and> rg_waits rg ! u = (a, Pending)}"
    using at t by (auto simp: nth_list_update [OF t])
  moreover have "jb_waiters (job_at rg a) - 1 = length (filter (counted a) ?ws)"
    using length_filter_update [OF t, of "counted a" "(a, Returned s)"] waits at
    by (simp add: counted_def job_waits_ok_def)
  ultimately have "job_waits_ok ?ws a (?f (job_at rg a))"
    using waits unfolding job_waits_ok_def by (simp del: mem_Collect_eq)
  moreover have "sn_status s = jb_status (job_at rg a)"
    using a by (simp add: s_def snapshot_def mark_reported_def)
  ultimately have "registry_ok (update_job a ?f (set_wait t (Returned s) rg))"
    by (intro registry_ok_wait [OF ok t at, where n = "\<lambda>job. jb_waiters job - 1" and ts = jb_resolvers])
       (simp_all add: fun_eq_iff wait_claims_def)
  moreover have "update_job a ?f (set_wait t (Returned s) rg) = set_wait t (Returned s) ?rg1"
    by (simp add: update_job_def set_wait_def)
  ultimately have ok1: "registry_ok (set_wait t (Returned s) ?rg1)"
    by simp
  have "wait_continue t rg =
      (if ?fin then mark_reported a (set_wait t (Returned s) ?rg1) else set_wait t (Returned s) ?rg1)"
    using a by (simp add: wait_continue_def at Let_def s_def mark_reported_def)
      (simp add: update_job_def set_wait_def)
  moreover have "?fin \<Longrightarrow> registry_ok (mark_reported a (set_wait t (Returned s) ?rg1))"
    using a by (intro registry_ok_reported [OF ok1] disjI1) (simp add: set_wait_def)
  ultimately show ?thesis
    using ok1 by simp
next
  case False
  then have "wait_continue t rg = rg"
    by (auto simp: wait_continue_def split: prod.splits wait_state.splits)
  with ok show ?thesis
    by simp
qed

lemma registry_ok_ended_wait:
  assumes ok: "registry_ok rg" and a: "a < length (rg_heap rg)"
  shows "registry_ok (rg\<lparr>rg_waits := rg_waits rg @ [(a, Rejected)]\<rparr>)" (is "registry_ok ?rg")
proof -
  have "job_waits_ok (rg_waits ?rg) b (job_at rg b)" if "job_waits_ok (rg_waits rg) b (job_at rg b)" for b
  proof -
    have "{u. u < length (rg_waits ?rg) \<and> rg_waits ?rg ! u = (b, Pending)} =
        {u. u < length (rg_waits rg) \<and> rg_waits rg ! u = (b, Pending)}"
      by (auto simp: nth_append less_Suc_eq)
    moreover have "filter (counted b) (rg_waits ?rg) = filter (counted b) (rg_waits rg)"
      by (simp add: counted_def)
    ultimately show ?thesis
      using that unfolding job_waits_ok_def by (simp del: mem_Collect_eq)
  qed
  then have "waits_ok ?rg"
    using ok a by (auto simp: registry_ok_def waits_ok_def)
  moreover have "ids_ok ?rg" "cap_ok ?rg"
    using ok by (auto simp: registry_ok_def intro: ids_ok_heap cap_ok_heap)
  moreover have "completions b ?rg = completions b rg" "cancel_claimed b ?rg = cancel_claimed b rg"
    "wait_claimed b ?rg = wait_claimed b rg" for b
    by (simp_all add: completions_def cancel_claimed_def wait_claimed_def wait_claims_def)
  then have "notes_ok ?rg"
    using ok by (simp add: registry_ok_def notes_ok_def job_notes_ok_def)
  ultimately show ?thesis
    using ok by (simp add: registry_ok_def listeners_ok_def)
qed

lemma registry_ok_new_wait:
  assumes ok: "registry_ok rg" and a: "a < length (rg_heap rg)" and live: "\<not> isTerminal (jb_status (job_at rg a))"
  defines "t \<equiv> length (rg_waits rg)"
  shows "registry_ok (update_job a (\<lambda>job. job\<lparr>jb_waiters := jb_waiters job + 1, jb_resolvers := jb_resolvers job @ [t]\<rparr>)
     (rg\<lparr>rg_waits := rg_waits rg @ [(a, Pending)]\<rparr>))"
proof -
  let ?rg = "rg\<lparr>rg_waits := rg_waits rg @ [(a, Rejected)]\<rparr>"
  let ?ws = "(rg_waits ?rg)[t := (a, Pending)]"
  have t: "t < length (rg_waits ?rg)" and at: "rg_waits ?rg ! t = (a, Rejected)" and ws: "?ws = rg_waits rg @ [(a, Pending)]"
    by (simp_all add: t_def)
  note ok' = registry_ok_ended_wait [OF ok a]
  have waits: "job_waits_ok (rg_waits rg) a (job_at rg a)"
    using ok a by (simp add: registry_ok_def waits_ok_def)
  have "{u. u < length ?ws \<and> ?ws ! u = (a, Pending)} = insert t {u. u < length (rg_waits rg) \<and> rg_waits rg ! u = (a, Pending)}"
    unfolding ws by (auto simp: t_def nth_append less_Suc_eq)
  moreover have "length (filter (counted a) ?ws) = length (filter (counted a) (rg_waits rg)) + 1"
    unfolding ws by (simp add: counted_def)
  moreover have "t \<notin> {u. u < length (rg_waits rg) \<and> rg_waits rg ! u = (a, Pending)}"
    by (simp add: t_def)
  ultimately have "job_waits_ok ?ws a ((job_at rg a)\<lparr>jb_waiters := jb_waiters (job_at rg a) + 1,
      jb_resolvers := jb_resolvers (job_at rg a) @ [t]\<rparr>)"
    using waits live unfolding job_waits_ok_def by (simp del: mem_Collect_eq)
  then have "registry_ok (update_job a (\<lambda>job. job\<lparr>jb_waiters := jb_waiters job + 1, jb_resolvers := jb_resolvers job @ [t]\<rparr>)
      (set_wait t Pending ?rg))"
    by (intro registry_ok_wait [OF ok' t at]) (simp_all add: wait_claims_def)
  moreover have "set_wait t Pending ?rg = rg\<lparr>rg_waits := rg_waits rg @ [(a, Pending)]\<rparr>"
    using ws at by (simp add: set_wait_def)
  ultimately show ?thesis
    by simp
qed

lemma access_job_Inr:
  assumes "registry_ok rg" "access_job i caller rg = Inr a"
  shows "a < length (rg_heap rg)" "map_get (rg_store rg) i = Some a" "jb_id (job_at rg a) = i"
proof -
  from assms(2) show get: "map_get (rg_store rg) i = Some a"
    by (auto simp: access_job_def expect_job_def rbind_Inr_iff split: option.splits)
  have "map_ok (rg_store rg)" "\<forall>(i, a) \<in> set (rg_store rg). a < length (rg_heap rg) \<and> jb_id (job_at rg a) = i"
    using assms(1) by (simp_all add: registry_ok_def ids_ok_def)
  with get show "a < length (rg_heap rg)" "jb_id (job_at rg a) = i"
    by (auto simp: map_get_mem)
qed

lemma registry_ok_wait_job:
  assumes "registry_ok rg"
  shows "registry_ok (snd (wait_job i timeoutMs caller aborted rg))"
  using assms access_job_Inr [OF assms] registry_ok_reported registry_ok_new_wait
  by (auto simp: wait_job_def Let_def split: sum.splits js_number.splits)

lemma registry_ok_read:
  assumes "registry_ok rg"
  shows "registry_ok (snd (read_job i caller delta rg))"
  using assms registry_ok_reported by (auto simp: read_job_def Let_def split: sum.splits)

lemma registry_ok_kill:
  assumes "registry_ok rg"
  shows "registry_ok (snd (kill_job ch i caller reason cancel rg))"
proof (cases "access_job i caller rg")
  case (Inr a)
  show ?thesis
  proof (cases "isTerminal (jb_status (job_at rg a))")
    case True
    with assms Inr show ?thesis
      by (simp add: kill_job_def registry_ok_reported)
  next
    case False
    note noted = registry_ok_note [OF assms, of "CancelCalled a ByKill reason _"]
    show ?thesis
    proof (cases cancel)
      case (Inl e)
      with Inr False noted show ?thesis
        by (simp add: kill_job_def)
    next
      case (Inr u)
      have "registry_ok (mark_stopping a (note_job (CancelCalled a ByKill reason False) rg))"
        by (rule registry_ok_stopping) (use noted False in \<open>simp_all add: cancel_claimed_new\<close>)
      with \<open>access_job i caller rg = Inr a\<close> Inr False show ?thesis
        by (simp add: kill_job_def registry_ok_notify)
    qed
  qed
qed (use assms in \<open>simp add: kill_job_def\<close>)

lemma registry_ok_new_job:
  assumes ok: "registry_ok rg" and room: "activeTaskCount (js_owner spec) rg < rg_max rg"
  defines "cnt \<equiv> counter rg (js_kind spec) + 1"
  defines "i \<equiv> job_id (js_kind spec) cnt"
  shows "registry_ok (rg\<lparr>rg_counters := map_set (js_kind spec) cnt (rg_counters rg),
     rg_heap := rg_heap rg @ [new_job i spec streams now],
     rg_store := map_set i (length (rg_heap rg)) (rg_store rg)\<rparr>)" (is "registry_ok ?rg")
    and "i \<notin> set (map jb_id (rg_heap rg))"
proof -
  let ?new = "new_job i spec streams now"
  have ids: "ids_ok rg" and cap: "cap_ok rg" and waits: "waits_ok rg" and said: "notes_ok rg" and lis: "listeners_ok rg"
    using ok by (simp_all add: registry_ok_def)
  show fresh: "i \<notin> set (map jb_id (rg_heap rg))"
  proof
    assume "i \<in> set (map jb_id (rg_heap rg))"
    then obtain job where "job \<in> set (rg_heap rg)" "jb_id job = i"
      by auto
    with ids obtain m where "job_id (jb_kind job) m = job_id (js_kind spec) cnt" "m \<le> counter rg (jb_kind job)"
      unfolding ids_ok_def i_def by metis
    then show False
      using job_id_inj [of "jb_kind job" m "js_kind spec" cnt] by (simp add: cnt_def)
  qed
  then have free: "i \<notin> fst ` set (rg_store rg)"
    using ids by (force simp: ids_ok_def)
  then have store: "map_set i (length (rg_heap rg)) (rg_store rg) = rg_store rg @ [(i, length (rg_heap rg))]"
    by (rule map_set_fresh)
  have count: "counter ?rg k = (if k = js_kind spec then cnt else counter rg k)" for k
    by (simp add: counter_def map_simps)
  have "ids_ok ?rg"
    unfolding ids_ok_def
  proof (intro conjI ballI)
    show "distinct (map jb_id (rg_heap ?rg))"
      using ids fresh by (simp add: ids_ok_def new_job_def)
    show "map_ok (rg_store ?rg)"
      using ids by (simp add: ids_ok_def map_simps)
    fix job assume "job \<in> set (rg_heap ?rg)"
    then consider "job = ?new" | "job \<in> set (rg_heap rg)"
      by auto
    then show "\<exists>m. jb_id job = job_id (jb_kind job) m \<and> m \<le> counter ?rg (jb_kind job)"
    proof cases
      case 1
      then have "jb_id job = i" "jb_kind job = js_kind spec"
        by (simp_all add: new_job_def)
      then show ?thesis
        unfolding count by (intro exI [of _ cnt]) (simp add: i_def)
    next
      case 2
      with ids obtain m where "jb_id job = job_id (jb_kind job) m" "m \<le> counter rg (jb_kind job)"
        unfolding ids_ok_def by metis
      then show ?thesis
        unfolding count by (intro exI [of _ m]) (auto simp: cnt_def)
    qed
  next
    fix e assume "e \<in> set (rg_store ?rg)"
    with ids store show "case e of (j, a) \<Rightarrow> a < length (rg_heap ?rg) \<and> jb_id (job_at ?rg a) = j"
      by (auto simp: ids_ok_def nth_append new_job_def)
  qed
  moreover have "cap_ok ?rg"
  proof -
    have old: "filter (\<lambda>(_, a). jb_owner (job_at ?rg a) = owner \<and> is_active (job_at ?rg a)) (rg_store rg) =
        filter (\<lambda>(_, a). jb_owner (job_at rg a) = owner \<and> is_active (job_at rg a)) (rg_store rg)" for owner
      by (rule filter_cong [OF refl]) (use ids in \<open>auto simp: ids_ok_def nth_append\<close>)
    have "activeTaskCount owner ?rg = activeTaskCount owner rg + (if owner = js_owner spec then 1 else 0)" for owner
      using old [of owner] store by (simp add: activeTaskCount_def new_job_def is_active_def)
    with cap room show ?thesis
      by (simp add: cap_ok_def Suc_le_eq)
  qed
  moreover have "waits_ok ?rg"
  proof -
    have none: "fst w \<noteq> length (rg_heap rg)" if "w \<in> set (rg_waits rg)" for w
      using waits that by (auto simp: waits_ok_def)
    then have "filter (counted (length (rg_heap rg))) (rg_waits rg) = []"
      by (auto simp: filter_empty_conv counted_def)
    moreover have "{t. t < length (rg_waits rg) \<and> rg_waits rg ! t = (length (rg_heap rg), Pending)} = {}"
      using none nth_mem by fastforce
    ultimately have "job_waits_ok (rg_waits rg) (length (rg_heap rg)) ?new"
      by (simp add: job_waits_ok_def new_job_def del: mem_Collect_eq)
    with waits show ?thesis
      by (auto simp: waits_ok_def nth_append less_Suc_eq)
  qed
  moreover have "notes_ok ?rg"
  proof -
    have same: "completions b ?rg = completions b rg" "cancel_claimed b ?rg = cancel_claimed b rg"
      "wait_claimed b ?rg = wait_claimed b rg" for b
      by (simp_all add: completions_def cancel_claimed_def wait_claimed_def)
    have "job_notes_ok ?rg b" if "b < Suc (length (rg_heap rg))" for b
    proof (cases "b = length (rg_heap rg)")
      case True
      with said show ?thesis
        unfolding job_notes_ok_def same by (simp add: notes_ok_def new_job_def)
    next
      case False
      with that have "job_at ?rg b = job_at rg b" "b < length (rg_heap rg)"
        by (simp_all add: nth_append)
      with said show ?thesis
        unfolding job_notes_ok_def same by (simp add: notes_ok_def job_notes_ok_def)
    qed
    with said show ?thesis
      unfolding notes_ok_def same by simp
  qed
  ultimately show "registry_ok ?rg"
    using lis by (simp add: registry_ok_def listeners_ok_def)
qed

lemma registry_ok_cleanups: "registry_ok rg \<Longrightarrow> registry_ok (rg\<lparr>rg_cleanups := cs\<rparr>)"
  by (rule registry_ok_frame) (simp_all add: registry_ok_def listeners_ok_def)

lemma registry_ok_teardowns: "registry_ok rg \<Longrightarrow> registry_ok (rg\<lparr>rg_teardowns := ts\<rparr>)"
  by (rule registry_ok_frame) (simp_all add: registry_ok_def listeners_ok_def)

lemma ensureOwnerCleanup_Inr:
  "ensureOwnerCleanup agents accepts owner rg = Inr rg' \<Longrightarrow> \<exists>cs. rg' = rg\<lparr>rg_cleanups := cs\<rparr>"
  by (auto simp: ensureOwnerCleanup_def split: option.splits if_splits intro: exI [of _ "rg_cleanups rg"])

lemma start_cases:
  obtains (rejected) e cs where "start ch agents accepts run now spec rg = (Inl e, rg\<lparr>rg_cleanups := cs\<rparr>)"
  | (started) cs streams rg1 i where
      "rg1 = rg\<lparr>rg_cleanups := cs\<rparr>" "run = Inr streams"
      "activeTaskCount (js_owner spec) rg1 < rg_max rg1"
      "servesOwner ch (js_owner spec) rg"
      "i = job_id (js_kind spec) (counter rg1 (js_kind spec) + 1)"
      "start ch agents accepts run now spec rg = (Inr i, notifyChanged ch (js_owner spec)
         (rg1\<lparr>rg_counters := map_set (js_kind spec) (counter rg1 (js_kind spec) + 1) (rg_counters rg1),
              rg_heap := rg_heap rg1 @ [new_job i spec streams now],
              rg_store := map_set i (length (rg_heap rg1)) (rg_store rg1)\<rparr>))"
proof (cases "\<not> servesOwner ch (js_owner spec) rg \<or> js_kind spec = [] \<or> js_label spec = [] \<or> \<not> valid_limit (js_limit spec)")
  case True
  then have "\<exists>e. start ch agents accepts run now spec rg = (Inl e, rg\<lparr>rg_cleanups := rg_cleanups rg\<rparr>)"
    by (auto simp: start_def)
  then show ?thesis
    using rejected by blast
next
  case valid: False
  let ?res = "case js_owner spec of None \<Rightarrow> Inr rg | Some owner \<Rightarrow> ensureOwnerCleanup agents accepts owner rg"
  show ?thesis
  proof (cases ?res)
    case (Inl e)
    with valid have "start ch agents accepts run now spec rg = (Inl e, rg\<lparr>rg_cleanups := rg_cleanups rg\<rparr>)"
      by (simp add: start_def)
    then show ?thesis
      by (rule rejected)
  next
    case (Inr rg1)
    then obtain cs where cs: "rg1 = rg\<lparr>rg_cleanups := cs\<rparr>"
    proof (cases "js_owner spec")
      case None
      with Inr have "rg1 = rg\<lparr>rg_cleanups := rg_cleanups rg\<rparr>"
        by simp
      then show ?thesis
        by (rule that)
    next
      case (Some owner)
      with Inr ensureOwnerCleanup_Inr [of agents accepts owner rg rg1] that show ?thesis
        by auto
    qed
    show ?thesis
    proof (cases "rg_max rg1 \<le> activeTaskCount (js_owner spec) rg1")
      case True
      with valid Inr have "start ch agents accepts run now spec rg = (Inl (LimitReached (rg_max rg1)), rg1)"
        by (simp add: start_def)
      then show ?thesis
        unfolding cs by (rule rejected)
    next
      case room: False
      show ?thesis
      proof (cases run)
        case (Inl e)
        with valid Inr room have "start ch agents accepts run now spec rg = (Inl (RunThrew e), rg1)"
          by (simp add: start_def)
        then show ?thesis
          unfolding cs by (rule rejected)
      next
        case (Inr streams)
        with valid room \<open>?res = Inr rg1\<close> show ?thesis
          by (intro started [OF cs Inr _ _ refl]) (simp_all add: start_def Let_def)
      qed
    qed
  qed
qed

lemma registry_ok_start:
  assumes "registry_ok rg"
  shows "registry_ok (snd (start ch agents accepts run now spec rg))"
proof (cases rule: start_cases [of ch agents accepts run now spec rg])
  case (rejected e cs)
  with assms show ?thesis
    by (simp add: registry_ok_cleanups)
next
  case (started cs streams rg1 i)
  from registry_ok_new_job(1) [OF registry_ok_cleanups [OF assms, of cs, folded started(1)] started(3)] started(5,6)
  show ?thesis
    by (simp add: registry_ok_notify)
qed

lemma note_mark_commute: "note_job n (mark_reported a rg) = mark_reported a (note_job n rg)"
  by (simp add: note_job_def mark_reported_def update_job_def)

lemma settle_length: "length (rg_heap (settle ch a oc now rg)) = length (rg_heap rg)"
  by (cases "isTerminal (jb_status (job_at rg a))") (simp_all add: settle_terminal settle_effect)

lemma registry_ok_cancel_one:
  assumes ok: "registry_ok rg" and a: "a < length (rg_heap rg)"
  shows "registry_ok (cancel_one ch reason answer now a rg) \<and>
     length (rg_heap (cancel_one ch reason answer now a rg)) = length (rg_heap rg)"
proof (cases "isTerminal (jb_status (job_at rg a))")
  case True
  with ok show ?thesis
    by (simp add: cancel_one_def)
next
  case live: False
  let ?rg = "\<lambda>threw. mark_reported a (note_job (CancelCalled a ByTeardown (Some reason) threw) rg)"
  have claimed: "cancel_claimed a (?rg threw)" for threw
    using cancel_claimed_new [of ByTeardown threw a "Some reason" rg] by (simp add: cancel_claimed_def mark_reported_def)
  have ok': "registry_ok (?rg threw)" for threw
    by (rule registry_ok_reported)
       (use ok in \<open>simp_all add: registry_ok_note cancel_claimed_new\<close>)
  have live': "\<not> isTerminal (jb_status (job_at (?rg threw) a))" for threw
    using live a by (simp add: mark_reported_def)
  have len: "length (rg_heap (?rg threw)) = length (rg_heap rg)" for threw
    by (simp add: mark_reported_def)
  show ?thesis
  proof (cases answer)
    case (Inl e)
    with live registry_ok_settle [OF ok'] a len show ?thesis
      by (simp add: cancel_one_def note_mark_commute settle_length)
  next
    case (Inr u)
    with live registry_ok_notify [OF registry_ok_stopping(2) [OF ok' live' claimed]] len show ?thesis
      by (simp add: cancel_one_def note_mark_commute) (simp add: notifyChanged_def)
  qed
qed

lemma registry_ok_cancels:
  "registry_ok rg \<Longrightarrow> \<forall>a \<in> set jobs. a < length (rg_heap rg) \<Longrightarrow>
     registry_ok (cancelForTeardown ch reason answers now jobs rg)"
  unfolding cancelForTeardown_def
  by (induction jobs arbitrary: rg) (simp_all add: registry_ok_cancel_one)

lemma stored_bound: "registry_ok rg \<Longrightarrow> a \<in> set (map snd (rg_store rg)) \<Longrightarrow> a < length (rg_heap rg)"
  by (auto simp: registry_ok_def ids_ok_def)

lemma owned_subset: "set (owned_jobs owner rg) \<subseteq> set (map snd (rg_store rg))"
  by (auto simp: owned_jobs_def)

lemma registry_ok_disposeOwned: "registry_ok rg \<Longrightarrow> registry_ok (disposeOwned ch answers now owner rg)"
  unfolding disposeOwned_def Let_def
  by (rule registry_ok_teardowns, rule registry_ok_cancels) (use owned_subset stored_bound in blast)+

lemma registry_ok_cleanup: "registry_ok rg \<Longrightarrow> registry_ok (owner_cleanup ch answers now owner rg)"
  by (simp add: owner_cleanup_def registry_ok_disposeOwned registry_ok_cleanups)

text \<open>Dropping records from the store.\<close>

lemma registry_ok_store:
  assumes ok: "registry_ok rg" and sub: "st = filter P (rg_store rg)"
  shows "registry_ok (rg\<lparr>rg_store := st\<rparr>)" (is "registry_ok ?rg")
proof -
  have "ids_ok ?rg"
    using ok sub by (auto simp: registry_ok_def ids_ok_def counter_def map_ok_def distinct_map_filter)
  moreover have "activeTaskCount owner ?rg \<le> activeTaskCount owner rg" for owner
    unfolding activeTaskCount_def sub by (simp add: filter_filter) (rule length_filter_mono, auto)
  then have "cap_ok ?rg"
    using ok by (simp add: registry_ok_def cap_ok_def) (meson order_trans)
  ultimately show ?thesis
    using ok by (simp add: registry_ok_def waits_ok_def notes_ok_def job_notes_ok_def completions_def
        cancel_claimed_def wait_claimed_def listeners_ok_def)
qed

lemma fold_map_delete:
  "fold (\<lambda>a m. map_delete (f a) m) as m = filter (\<lambda>e. fst e \<notin> f ` set as) m"
  by (induction as arbitrary: m) (auto simp: map_delete_def intro!: filter_cong)

lemma registry_ok_owned_rest: "registry_ok rg \<Longrightarrow> registry_ok (disposeOwned_rest ch owner owned rg)"
proof -
  assume ok: "registry_ok rg"
  let ?st = "fold (\<lambda>a m. map_delete (jb_id (job_at rg a)) m) owned (rg_store rg)"
  have "registry_ok (rg\<lparr>rg_store := ?st\<rparr>)"
    by (rule registry_ok_store [OF ok fold_map_delete])
  then have "registry_ok (rg\<lparr>rg_store := ?st, rg_teardowns := remove1 (OwnerTeardown owner owned) (rg_teardowns rg)\<rparr>)"
    using registry_ok_teardowns [of "rg\<lparr>rg_store := ?st\<rparr>"] by simp
  then show ?thesis
    by (cases "owned = []") (simp_all add: disposeOwned_rest_def Let_def registry_ok_notify)
qed

lemma registry_ok_all: "registry_ok rg \<Longrightarrow> registry_ok (disposeAll ch answers now rg)"
proof -
  assume ok: "registry_ok rg"
  have "registry_ok (rg\<lparr>rg_closed := True\<rparr>)"
    by (rule registry_ok_frame [OF ok]) (use ok in \<open>simp_all add: registry_ok_def listeners_ok_def\<close>)
  then show ?thesis
    unfolding disposeAll_def Let_def
    by (intro registry_ok_teardowns registry_ok_cancels) (use stored_bound [OF ok] in auto)
qed

lemma registry_ok_fold: "registry_ok rg \<Longrightarrow> (\<And>x rg. registry_ok rg \<Longrightarrow> registry_ok (f x rg)) \<Longrightarrow> registry_ok (fold f xs rg)"
  by (induction xs arbitrary: rg) auto

lemma registry_ok_all_rest: "registry_ok rg \<Longrightarrow> registry_ok (disposeAll_rest ch answers now jobs rg)"
proof -
  assume ok: "registry_ok rg"
  have "registry_ok (rg\<lparr>rg_store := []\<rparr>)"
    by (rule registry_ok_store [OF ok, of _ "\<lambda>_. False"]) simp
  then have "registry_ok (rg\<lparr>rg_store := [], rg_teardowns := remove1 (ServiceTeardown jobs) (rg_teardowns rg)\<rparr>)"
    using registry_ok_teardowns [of "rg\<lparr>rg_store := []\<rparr>"] by simp
  then show ?thesis
    unfolding disposeAll_rest_def Let_def
    by (intro registry_ok_fold registry_ok_cleanups registry_ok_notify registry_ok_cleanup)
qed

lemma registry_ok_layers:
  assumes "registry_ok rg" "layers_ok job_layer_good job_layer_view R L"
  shows "registry_ok (rg\<lparr>rg_layers := L, rg_regs := R\<rparr>)"
  by (rule registry_ok_frame [OF assms(1)]) (use assms(2) in \<open>simp_all add: listeners_ok_def\<close>)

lemma registry_ok_register: "registry_ok rg \<Longrightarrow> registry_ok (register_entry scope k v rg)"
proof -
  assume ok: "registry_ok rg"
  then have layers: "layers_ok job_layer_good job_layer_view (rg_regs rg) (rg_layers rg)"
    by (simp add: registry_ok_def listeners_ok_def)
  let ?run = "layers_effect new_job_layer job_layer_empty scope
      (\<lambda>layer. Inr (case job_layer_add k v layer of (t, layer') \<Rightarrow> (layer', (k, t)))) True (rg_layers rg)"
  obtain res L where run: "?run = (res :: (unit, _) result, L)"
    by fastforce
  from job_layers.attach_ok [OF layers run] obtain d where
    "res = Inr d" "layers_ok job_layer_good job_layer_view (rg_regs rg @ [(d, v)]) L"
    by blast
  with run ok show ?thesis
    by (simp add: register_entry_def registry_ok_layers)
qed

lemma registry_ok_dispose: "registry_ok rg \<Longrightarrow> r \<in> set (rg_regs rg) \<Longrightarrow> registry_ok (dispose_entry r rg)"
  unfolding dispose_entry_def
  by (rule registry_ok_layers) (auto simp: registry_ok_def listeners_ok_def intro: job_layers.dispose_ok)

lemma registry_step_ok: "registry_step rg rg' \<Longrightarrow> registry_ok rg \<Longrightarrow> registry_ok rg'"
  by (induction rule: registry_step.induct)
     (simp_all add: attachController_def onJobDone_def onJobsChanged_def registry_ok_register registry_ok_dispose
       registry_ok_start registry_ok_settle producer_done_def registry_ok_read registry_ok_kill registry_ok_wait_job
       registry_ok_timeout registry_ok_abort registry_ok_continue registry_ok_cleanup registry_ok_owned_rest
       registry_ok_all registry_ok_all_rest split: sum.splits)

lemma new_registry_ok: "registry_ok (new_registry n)"
  using job_layers.new_layers_ok
  by (simp add: registry_ok_def new_registry_def ids_ok_def cap_ok_def waits_ok_def notes_ok_def listeners_ok_def
      activeTaskCount_def completions_def map_simps)

lemma registry_reachable_ok: "registry_reachable n rg \<Longrightarrow> registry_ok rg"
  by (induction rule: registry_reachable.induct) (auto intro: new_registry_ok registry_step_ok)

section \<open>What the registry promises\<close>

lemma max_settle [simp]: "rg_max (producer_done ch a result now rg) = rg_max rg"
  by (simp add: producer_done_def split: sum.splits)

lemma max_notify [simp]: "rg_max (notifyChanged ch owner rg) = rg_max rg"
  by (simp add: notifyChanged_def)

lemma max_start: "rg_max (snd (start ch agents accepts run now spec rg)) = rg_max rg"
  by (cases rule: start_cases [of ch agents accepts run now spec rg]) simp_all

lemma max_cancels [simp]: "rg_max (cancelForTeardown ch reason answers now jobs rg) = rg_max rg"
  unfolding cancelForTeardown_def
  by (induction jobs arbitrary: rg) (simp_all add: cancel_one_def mark_reported_def Let_def split: sum.splits)

lemma max_cleanup [simp]: "rg_max (owner_cleanup ch answers now owner rg) = rg_max rg"
  by (simp add: owner_cleanup_def disposeOwned_def Let_def)

lemma max_fold: "(\<And>x rg. rg_max (f x rg) = rg_max rg) \<Longrightarrow> rg_max (fold f xs rg) = rg_max rg"
  by (induction xs arbitrary: rg) simp_all

lemma max_step: "registry_step rg rg' \<Longrightarrow> rg_max rg' = rg_max rg"
proof (induction rule: registry_step.induct)
  case (step_all_rest jobs rg ch answers now)
  show ?case
    by (simp add: disposeAll_rest_def Let_def max_fold)
qed (auto simp: attachController_def onJobDone_def onJobsChanged_def register_entry_def dispose_entry_def max_start
      read_job_def kill_job_def wait_job_def wait_timeout_def wait_abort_def wait_continue_def mark_reported_def
      mark_stopping_def set_wait_def disposeOwned_rest_def disposeAll_def Let_def
      split: sum.splits prod.splits wait_state.splits)

lemma reachable_max: "registry_reachable n rg \<Longrightarrow> rg_max rg = n"
  by (induction rule: registry_reachable.induct) (simp_all add: new_registry_def max_step)

lemma settled_facts:
  assumes "registry_reachable n rg" "a < length (rg_heap rg)"
  shows "job_notes_ok rg a" "job_waits_ok (rg_waits rg) a (job_at rg a)"
  using registry_reachable_ok [OF assms(1)] assms(2)
  by (simp_all add: registry_ok_def notes_ok_def waits_ok_def)

text \<open>C29.
  A job settles once. In every reachable registry a record has announced no completion while
  it is live and at most one after, exactly one unless the listeners were closed; and what was
  announced is the record as it still stands, the report flag apart.
\<close>
theorem job_settles_once:
  assumes "registry_reachable n rg" "a < length (rg_heap rg)"
  shows "length (completions a rg) \<le> (if isTerminal (jb_status (job_at rg a)) then 1 else 0) \<and>
     (rg_closed rg \<or> length (completions a rg) = (if isTerminal (jb_status (job_at rg a)) then 1 else 0)) \<and>
     (\<forall>s \<in> set (completions a rg). unreported s = unreported (snapshot (job_at rg a)))"
  using settled_facts(1) [OF assms]
  by (cases "completions a rg") (auto simp: job_notes_ok_def)

text \<open>C28.
  A completion is announced as already reported only for cause: a kill or a teardown cancelled
  the job, or a wait was released by the end and has returned, or will, a terminal snapshot. No
  wait on a finished job is left suspended with its resolver, so none can still be aborted.
\<close>
theorem suppressed_notice_has_reader:
  assumes "registry_reachable n rg" "a < length (rg_heap rg)" "s \<in> set (completions a rg)"
  shows "(sn_reported s \<longrightarrow> cancel_claimed a rg \<or> wait_claimed a rg) \<and> (a, Pending) \<notin> set (rg_waits rg)"
proof -
  note said = settled_facts(1) [OF assms(1,2)] and waits = settled_facts(2) [OF assms(1,2)]
  from said assms(3) have "isTerminal (jb_status (job_at rg a))"
    by (auto simp: job_notes_ok_def split: if_splits)
  with waits have "set [] = {t. t < length (rg_waits rg) \<and> rg_waits rg ! t = (a, Pending)}"
    unfolding job_waits_ok_def by metis
  then have "(a, Pending) \<notin> set (rg_waits rg)"
    by (auto simp: in_set_conv_nth)
  with said assms(3) show ?thesis
    by (simp add: job_notes_ok_def)
qed

text \<open>No owner, and not the bucket of unowned work, ever has more live jobs than the configured
  bound; an identity is never given twice, and the store finds each record by its own.
\<close>
theorem jobs_bounded_and_distinct:
  assumes "registry_reachable n rg"
  shows "activeTaskCount owner rg \<le> n \<and> distinct (map jb_id (rg_heap rg)) \<and> distinct (map fst (rg_store rg)) \<and>
     rg_store rg = map (\<lambda>a. (jb_id (job_at rg a), a)) (map snd (rg_store rg))"
proof -
  have ok: "ids_ok rg" "cap_ok rg"
    using registry_reachable_ok [OF assms] by (simp_all add: registry_ok_def)
  have "map (\<lambda>e. (jb_id (job_at rg (snd e)), snd e)) (rg_store rg) = rg_store rg"
    by (rule map_idI) (use ok in \<open>auto simp: ids_ok_def\<close>)
  then have "rg_store rg = map (\<lambda>a. (jb_id (job_at rg a), a)) (map snd (rg_store rg))"
    by (simp add: comp_def)
  with ok show ?thesis
    using reachable_max [OF assms] by (simp add: ids_ok_def cap_ok_def map_ok_def)
qed

text \<open>A caller sees and reaches exactly the unowned jobs and those of its own session: any other
  identity is answered by an error from every operation, and nothing changes.
\<close>
theorem jobs_isolated:
  assumes "map_get (rg_store rg) i = Some a" "jb_owner (job_at rg a) = Some owner" "map_option ag_id caller \<noteq> Some (ag_id owner)"
  shows "get_job i caller rg = Inl (BelongsToOther (jb_id (job_at rg a))) \<and>
     read_job i caller delta rg = (Inl (BelongsToOther (jb_id (job_at rg a))), rg) \<and>
     kill_job ch i caller reason cancel rg = (Inl (BelongsToOther (jb_id (job_at rg a))), rg) \<and>
     wait_job i timeoutMs caller aborted rg = (Inl (BelongsToOther (jb_id (job_at rg a))), rg) \<and>
     set (map sn_owner_session (list_jobs caller rg)) \<subseteq> {None, map_option ag_id caller}"
proof -
  have "access_job i caller rg = Inl (BelongsToOther (jb_id (job_at rg a)))"
    using assms(1,2) assms(3) [symmetric] by (simp add: access_job_def expect_job_def assertAccess_def del: map_option_eq_Some)
  then show ?thesis
    by (auto simp: get_job_def read_job_def kill_job_def wait_job_def list_jobs_def snapshot_def)
qed

text \<open>C30.
  A completion reaches exactly the listeners registered, and not yet disposed, in the global
  layer and on the owner's scope chain, in order, the farthest scope first; and a job is refused
  for want of a controller exactly when none is registered there.
\<close>
theorem listeners_are_registrations:
  assumes "registry_reachable n rg"
  shows "listenersFor ch owner rg = map snd (concat (map (\<lambda>scope. entries_of (rg_regs rg) scope DoneListeners)
       (None # map Some (rev (ch (Option.bind owner ag_scope)))))) \<and>
     servesOwner ch owner rg = (\<exists>r \<in> set (rg_regs rg). fst (dp_undo (fst r)) = Controllers \<and>
       dp_scope (fst r) \<in> set (None # map Some (ch (Option.bind owner ag_scope))))"
proof -
  have layers: "layers_ok job_layer_good job_layer_view (rg_regs rg) (rg_layers rg)"
    using registry_reachable_ok [OF assms] by (simp add: registry_ok_def listeners_ok_def)
  let ?chain = "ch (Option.bind owner ag_scope)"
  note shown = job_layers.layers_values [OF layers]
  have far: "concat (map (\<lambda>l. map snd (job_layer_view l k)) (chainLayers (rg_layers rg) ?chain)) =
      map snd (concat (map (\<lambda>s. entries_of (rg_regs rg) (Some s) k) (rev ?chain)))" for k
    unfolding shown(2) [symmetric] by (simp add: map_concat comp_def)
  have "listenersFor ch owner rg = map snd (concat (map (\<lambda>scope. entries_of (rg_regs rg) scope DoneListeners)
      (None # map Some (rev ?chain))))"
    using shown(1) [of DoneListeners] far [of DoneListeners]
    by (simp add: listenersFor_def owner_layers_def anonymous_values_def job_layer_view_def comp_def)
  moreover have "servesOwner ch owner rg \<longleftrightarrow> entries_of (rg_regs rg) None Controllers \<noteq> [] \<or>
      concat (map (\<lambda>s. entries_of (rg_regs rg) (Some s) Controllers) (rev ?chain)) \<noteq> []"
    unfolding shown(1,2) [symmetric]
    by (auto simp: servesOwner_def owner_layers_def anonymous_empty_def job_layer_view_def list_ex_iff)
  moreover have "entries_of (rg_regs rg) scope Controllers \<noteq> [] \<longleftrightarrow>
      (\<exists>r \<in> set (rg_regs rg). fst (dp_undo (fst r)) = Controllers \<and> dp_scope (fst r) = scope)" for scope
    by (auto simp: entries_of_def filter_empty_conv)
  ultimately show ?thesis
    by auto
qed

fun told_reported :: "job_note \<Rightarrow> bool" where
  "told_reported (DoneNote _ s _ _) = sn_reported s"
| "told_reported _ = True"

text \<open>What a teardown cancel does to the records, one after the other.\<close>

definition cancelled_for :: "(string, unit) result \<Rightarrow> int \<Rightarrow> job \<Rightarrow> job" where
  "cancelled_for answer now job =
     (if isTerminal (jb_status job) then job
      else case answer of
        Inr _ \<Rightarrow> job\<lparr>jb_reported := True, jb_status := Stopping\<rparr>
      | Inl err \<Rightarrow> settled_job \<lparr>oc_status = EndFailed,
          oc_detail = Some (''cancel threw during teardown; work may be orphaned: '' @ err), oc_output = None\<rparr>
          now (job\<lparr>jb_reported := True\<rparr>))"

lemma cancel_one_heap:
  assumes "a < length (rg_heap rg)"
  shows "rg_heap (cancel_one ch reason answer now a rg) = (rg_heap rg)[a := cancelled_for answer now (job_at rg a)]"
  using assms
  by (auto simp: cancel_one_def cancelled_for_def Let_def mark_reported_def settle_effect notifyChanged_def
      split: sum.splits)

lemma cancel_one_same [simp]:
  "rg_store (cancel_one ch reason answer now a rg) = rg_store rg"
  "rg_closed (cancel_one ch reason answer now a rg) = rg_closed rg"
  by (simp_all add: cancel_one_def Let_def mark_reported_def notifyChanged_def split: sum.splits)

lemma cancel_one_notes:
  assumes "a < length (rg_heap rg)"
  shows "\<exists>xs. rg_notes (cancel_one ch reason answer now a rg) = rg_notes rg @ xs \<and>
     (isTerminal (jb_status (job_at rg a)) \<or> CancelCalled a ByTeardown (Some reason) (\<not> is_ok answer) \<in> set xs) \<and>
     list_all told_reported xs"
  using assms
  by (auto simp: cancel_one_def Let_def mark_reported_def notifyChanged_def settle_effect is_ok_def split: sum.splits)

lemma cancels_effect:
  assumes "distinct jobs" "\<forall>a \<in> set jobs. a < length (rg_heap rg)"
  shows "length (rg_heap (cancelForTeardown ch reason answers now jobs rg)) = length (rg_heap rg) \<and>
     (\<forall>a < length (rg_heap rg). job_at (cancelForTeardown ch reason answers now jobs rg) a =
       (if a \<in> set jobs then cancelled_for (answers a) now (job_at rg a) else job_at rg a)) \<and>
     (\<exists>xs. rg_notes (cancelForTeardown ch reason answers now jobs rg) = rg_notes rg @ xs \<and>
       (\<forall>a \<in> set jobs. isTerminal (jb_status (job_at rg a)) \<or>
          CancelCalled a ByTeardown (Some reason) (\<not> is_ok (answers a)) \<in> set xs) \<and>
       list_all told_reported xs) \<and>
     rg_store (cancelForTeardown ch reason answers now jobs rg) = rg_store rg"
  using assms unfolding cancelForTeardown_def
proof (induction jobs arbitrary: rg)
  case (Cons a jobs)
  let ?rg = "cancel_one ch reason (answers a) now a rg"
  have a: "a < length (rg_heap rg)"
    using Cons.prems by simp
  obtain xs where xs: "rg_notes ?rg = rg_notes rg @ xs"
    "isTerminal (jb_status (job_at rg a)) \<or> CancelCalled a ByTeardown (Some reason) (\<not> is_ok (answers a)) \<in> set xs"
    "list_all told_reported xs"
    using cancel_one_notes [OF a, of ch reason "answers a" now] by blast
  have IH: "distinct jobs" "\<forall>b \<in> set jobs. b < length (rg_heap ?rg)"
    using Cons.prems a by (simp_all add: cancel_one_heap)
  from Cons.IH [OF IH] obtain ys where ys:
    "rg_notes (fold (\<lambda>a. cancel_one ch reason (answers a) now a) jobs ?rg) = rg_notes ?rg @ ys"
    "\<forall>b \<in> set jobs. isTerminal (jb_status (job_at ?rg b)) \<or>
       CancelCalled b ByTeardown (Some reason) (\<not> is_ok (answers b)) \<in> set ys"
    "list_all told_reported ys"
    by blast
  have other: "job_at ?rg b = job_at rg b" if "b \<in> set jobs" for b
    using that Cons.prems a by (auto simp: cancel_one_heap nth_list_update [OF a])
  have "\<exists>zs. rg_notes (fold (\<lambda>a. cancel_one ch reason (answers a) now a) jobs ?rg) = rg_notes rg @ zs \<and>
       (\<forall>b \<in> set (a # jobs). isTerminal (jb_status (job_at rg b)) \<or>
          CancelCalled b ByTeardown (Some reason) (\<not> is_ok (answers b)) \<in> set zs) \<and>
       list_all told_reported zs"
    using xs ys other by (intro exI [of _ "xs @ ys"]) auto
  moreover note Cons.IH [OF IH]
  ultimately show ?case
    using a Cons.prems by (simp add: cancel_one_heap nth_list_update [OF a])
qed simp

lemma owner_teardown_effect:
  assumes "registry_reachable n rg"
    and owned_def: "owned = owned_jobs (Some owner) rg"
    and rg'_def: "rg' = disposeOwned ch answers now owner rg"
  shows "(\<forall>a < length (rg_heap rg). job_at rg' a =
       (if a \<in> set owned then cancelled_for (answers a) now (job_at rg a) else job_at rg a)) \<and>
     (\<exists>xs. rg_notes rg' = rg_notes rg @ xs \<and>
       (\<forall>a \<in> set owned. isTerminal (jb_status (job_at rg a)) \<or>
          CancelCalled a ByTeardown (Some ''owner disposed'') (\<not> is_ok (answers a)) \<in> set xs) \<and>
       list_all told_reported xs) \<and>
     rg_store (disposeOwned_rest ch owner owned rg') = filter (\<lambda>e. snd e \<notin> set owned) (rg_store rg)"
proof -
  have ok: "registry_ok rg"
    by (rule registry_reachable_ok [OF assms(1)])
  then have ids: "ids_ok rg"
    by (simp add: registry_ok_def)
  have bound: "\<forall>a \<in> set owned. a < length (rg_heap rg)"
    unfolding owned_def using owned_subset stored_bound [OF ok] by blast
  have "inj_on snd (set (rg_store rg))"
  proof (rule inj_onI)
    fix e e' assume "e \<in> set (rg_store rg)" "e' \<in> set (rg_store rg)" "snd e = snd e'"
    moreover have "fst d = jb_id (job_at rg (snd d))" if "d \<in> set (rg_store rg)" for d
      using ids that by (auto simp: ids_ok_def)
    ultimately show "e = e'"
      by (simp add: prod_eq_iff)
  qed
  moreover have "distinct (rg_store rg)"
    using ids by (simp add: ids_ok_def map_ok_def distinct_map)
  ultimately have "distinct owned"
    by (simp add: owned_def owned_jobs_def distinct_map)
  note run = cancels_effect [OF this bound, of ch "''owner disposed''" answers now]
  have heap: "job_at rg' a = (if a \<in> set owned then cancelled_for (answers a) now (job_at rg a) else job_at rg a)"
    if "a < length (rg_heap rg)" for a
    using run that by (simp add: rg'_def disposeOwned_def Let_def owned_def)
  have same: "rg_store rg' = rg_store rg" "rg_notes rg' = rg_notes (cancelForTeardown ch ''owner disposed'' answers now owned rg)"
    using run by (simp_all add: rg'_def disposeOwned_def Let_def owned_def)
  have keep: "jb_id (cancelled_for answer now job) = jb_id job" for answer job
    by (simp add: cancelled_for_def split: sum.splits)
  have dist: "distinct (map jb_id (rg_heap rg))"
    using ids by (simp add: ids_ok_def)
  have "fst e \<in> (\<lambda>a. jb_id (job_at rg' a)) ` set owned \<longleftrightarrow> snd e \<in> set owned" if e: "e \<in> set (rg_store rg)" for e
  proof -
    have at: "snd e < length (rg_heap rg)" "jb_id (job_at rg (snd e)) = fst e"
      using ids e by (auto simp: ids_ok_def)
    have "jb_id (job_at rg' a) = jb_id (job_at rg a)" if "a \<in> set owned" for a
      using heap [of a] that bound by (simp add: keep)
    then have "(\<lambda>a. jb_id (job_at rg' a)) ` set owned = (\<lambda>a. jb_id (job_at rg a)) ` set owned"
      by (rule image_cong [OF refl])
    moreover have "jb_id (job_at rg a) = fst e \<longleftrightarrow> a = snd e" if "a \<in> set owned" for a
      using nth_eq_iff_index_eq [OF dist, of a "snd e"] that bound at by auto
    ultimately show ?thesis
      by (metis (no_types, lifting) image_iff)
  qed
  then have "rg_store (disposeOwned_rest ch owner owned rg') = filter (\<lambda>e. snd e \<notin> set owned) (rg_store rg)"
    by (cases "owned = []")
       (auto simp: disposeOwned_rest_def Let_def notifyChanged_def fold_map_delete same intro!: filter_cong)
  with heap run show ?thesis
    unfolding same by blast
qed

text \<open>Disposing an owner cancels each of its live jobs and touches no other record: a job whose
  cancel hook returns is stopping, one whose hook throws is forced to fail, both already
  reported, so no completion told in between asks for a notice; what is over stays as it was.
  The rest of the teardown drops exactly these records.
\<close>
theorem owner_teardown:
  assumes "registry_reachable n rg"
  shows "let owned = owned_jobs (Some owner) rg; rg' = disposeOwned ch answers now owner rg in
     (\<forall>a < length (rg_heap rg). job_at rg' a =
       (if a \<in> set owned then cancelled_for (answers a) now (job_at rg a) else job_at rg a)) \<and>
     (\<exists>xs. rg_notes rg' = rg_notes rg @ xs \<and>
       (\<forall>a \<in> set owned. isTerminal (jb_status (job_at rg a)) \<or>
          CancelCalled a ByTeardown (Some ''owner disposed'') (\<not> is_ok (answers a)) \<in> set xs) \<and>
       list_all told_reported xs) \<and>
     rg_store (disposeOwned_rest ch owner owned rg') = filter (\<lambda>e. snd e \<notin> set owned) (rg_store rg)"
  unfolding Let_def by (rule owner_teardown_effect [OF assms refl refl])

section \<open>A run\<close>

text \<open>
  An agent with a controller and a completion listener starts a job, waits for it, and the
  producer ends it.
\<close>

definition sample_agent :: agent where
  "sample_agent = \<lparr>ag_ref = 1, ag_id = ''s1'', ag_scope = Some 3\<rparr>"

definition sample_spec :: job_start where
  "sample_spec = \<lparr>js_kind = ''bash'', js_label = ''ls'', js_limit = None, js_owner = Some sample_agent\<rparr>"

definition sample_chain :: chain_of where
  "sample_chain s = (case s of None \<Rightarrow> [] | Some k \<Rightarrow> [k, 2])"

definition sample_attached :: registry where
  "sample_attached = onJobDone (Some 2) 7 (attachController None 0 (new_registry 1))"

definition sample_started :: registry where
  "sample_started =
     snd (start sample_chain (Some [(''s1'', sample_agent)]) True (Inr False) 100 sample_spec sample_attached)"

definition sample_waiting :: registry where
  "sample_waiting = snd (wait_job ''bash-1'' (JsNum 5) (Some sample_agent) False sample_started)"

definition sample_settled :: registry where
  "sample_settled = producer_done sample_chain 0
     (Inr \<lparr>oc_status = EndCompleted, oc_detail = None, oc_output = Some ''ok''\<rparr>) 200 sample_waiting"

lemma sample_attached_reachable: "registry_reachable 1 sample_attached"
  unfolding sample_attached_def
  by (rule next_registry [OF next_registry [OF fresh_registry step_attach] step_on_done])

lemma sample_started_reachable: "registry_reachable 1 sample_started"
  unfolding sample_started_def
  by (rule next_registry [OF sample_attached_reachable step_start])

lemma sample_waiting_heap: "length (rg_heap sample_waiting) = 1"
  by code_simp

lemma sample_settled_reachable: "registry_reachable 1 sample_settled"
proof -
  have "registry_reachable 1 sample_waiting"
    unfolding sample_waiting_def by (rule next_registry [OF sample_started_reachable step_wait])
  then show ?thesis
    unfolding sample_settled_def by (rule next_registry) (rule step_producer, simp add: sample_waiting_heap)
qed

lemma sample_settled_heap: "length (rg_heap sample_settled) = 1"
  by code_simp

definition sample_done :: job_snapshot where
  "sample_done = \<lparr>sn_id = ''bash-1'', sn_kind = ''bash'', sn_label = ''ls'', sn_limit = None,
     sn_owner_session = Some ''s1'', sn_status = Completed, sn_detail = None, sn_started = 100,
     sn_finished = Some 200, sn_reported = True\<rparr>"

lemma sample_completions: "completions 0 sample_settled = [sample_done]"
  by code_simp

lemma job_settles_once_witness:
  "length (completions 0 sample_settled) \<le> (if isTerminal (jb_status (job_at sample_settled 0)) then 1 else 0)"
  using job_settles_once [OF sample_settled_reachable, of 0] by (simp add: sample_settled_heap)

lemma suppressed_notice_has_reader_witness:
  "sn_reported sample_done \<and> (cancel_claimed 0 sample_settled \<or> wait_claimed 0 sample_settled)"
  using suppressed_notice_has_reader [OF sample_settled_reachable, of 0 sample_done]
  by (simp add: sample_settled_heap sample_completions) (simp add: sample_done_def)

lemma jobs_bounded_and_distinct_witness: "activeTaskCount (Some sample_agent) sample_started \<le> 1"
  using jobs_bounded_and_distinct [OF sample_started_reachable] by blast

lemma listeners_are_registrations_witness:
  "servesOwner sample_chain (Some sample_agent) sample_started =
     (\<exists>r \<in> set (rg_regs sample_started). fst (dp_undo (fst r)) = Controllers \<and>
       dp_scope (fst r) \<in> set (None # map Some (sample_chain (Option.bind (Some sample_agent) ag_scope))))"
  by (rule listeners_are_registrations [OF sample_started_reachable, THEN conjunct2])

lemma owner_teardown_witness:
  "job_at (disposeOwned sample_chain (\<lambda>_. Inr ()) 300 sample_agent sample_started) 0 =
     (if 0 \<in> set (owned_jobs (Some sample_agent) sample_started)
      then cancelled_for (Inr ()) 300 (job_at sample_started 0) else job_at sample_started 0)"
proof -
  have "length (rg_heap sample_started) = 1"
    by code_simp
  then show ?thesis
    using owner_teardown [OF sample_started_reachable, of sample_agent sample_chain "\<lambda>_. Inr ()" 300]
    by (simp add: Let_def)
qed

definition stranger :: agent where
  "stranger = \<lparr>ag_ref = 2, ag_id = ''s2'', ag_scope = None\<rparr>"

lemma jobs_isolated_witness:
  "get_job ''bash-1'' (Some stranger) sample_started = Inl (BelongsToOther ''bash-1'')"
proof -
  have "map_get (rg_store sample_started) ''bash-1'' = Some 0" "jb_id (job_at sample_started 0) = ''bash-1''"
    by code_simp+
  moreover have "jb_owner (job_at sample_started 0) = Some sample_agent"
    by code_simp
  moreover have "map_option ag_id (Some stranger) \<noteq> Some (ag_id sample_agent)"
    by (simp add: stranger_def sample_agent_def)
  ultimately show ?thesis
    using jobs_isolated [of sample_started "''bash-1''" 0 sample_agent "Some stranger"] by metis
qed

text \<open>
  The service teardown clears the whole store when its jobs have settled. A job started while
  it awaits them is not refused: it is dropped while it runs and its cancel hook is not called.
\<close>

definition sample_late :: registry where
  "sample_late = disposeAll_rest sample_chain (\<lambda>_. Inr ()) 400 []
     (snd (start sample_chain (Some [(''s1'', sample_agent)]) True (Inr False) 100 sample_spec
       (disposeAll sample_chain (\<lambda>_. Inr ()) 300 sample_attached)))"

lemma late_job_dropped:
  "registry_reachable 1 sample_late \<and> rg_store sample_late = [] \<and>
     jb_status (job_at sample_late 0) = Running \<and> \<not> cancel_claimed 0 sample_late"
proof -
  let ?late = "snd (start sample_chain (Some [(''s1'', sample_agent)]) True (Inr False) 100 sample_spec
       (disposeAll sample_chain (\<lambda>_. Inr ()) 300 sample_attached))"
  have "registry_reachable 1 ?late"
    by (rule next_registry [OF next_registry [OF sample_attached_reachable step_dispose_all] step_start])
  moreover have "ServiceTeardown [] \<in> set (rg_teardowns ?late)"
    by code_simp
  ultimately have "registry_reachable 1 sample_late"
    unfolding sample_late_def by (rule next_registry [OF _ step_all_rest]) (simp add: all_settled_def)
  moreover have "rg_store sample_late = []" "jb_status (job_at sample_late 0) = Running" "\<not> cancel_claimed 0 sample_late"
    by code_simp+
  ultimately show ?thesis
    by simp
qed

end
