(* ===== verification/Tool_Scheduler.thy ===== *)
theory Tool_Scheduler
  imports Session_Trace
begin

text \<open>
  The scheduler of one step's tool calls (\<open>src/packages/core/agent-loop/src/tool-calls.ts\<close>):
  \<open>executeToolCalls\<close> and \<open>runGroup\<close> as one state machine. A state is the local variables and
  the place where the function stands; a transition runs it from one await, or one turn of a
  loop, to the next. The tool runtime, the session and the abort signal answer from outside:
  every answer is an argument of the transition, and a dispatched call may settle at any await.
  An answer \<open>Inl\<close> is a throw or a rejection.
\<close>

section \<open>Data\<close>

record tool_call =
  tc_id :: string
  tc_name :: string
  tc_args :: string

text \<open>\<open>ToolExecutionResult\<close>: the parts the scheduler reads. The error is its name and code.\<close>

record tool_outcome =
  to_content :: "content_block list"
  to_is_error :: bool
  to_info :: "(string \<times> string) option"
  to_meta :: "json option"
  to_contexts :: "user_message list"
  to_concludes :: bool

record slot =
  sl_result :: tool_outcome
  sl_needs_post :: bool

text \<open>What the preparation of a call answers: dispatch it, or its result without dispatch.\<close>

datatype prepared = PrepDispatch | PrepPost tool_outcome | PrepFinal tool_outcome

text \<open>What an append chose: the sequence number, the time, and the identity of the message.\<close>

record stamp =
  st_seq :: int
  st_time :: int
  st_id :: string

text \<open>
  The events the scheduler appends: the call of the plan at an index, and its result, which
  cites the sequence number of the call.
\<close>

datatype call_entry =
    CallEntry nat stamp
  | ResultEntry nat int tool_outcome stamp

definition TOOL_ABORTED_BEFORE_DISPATCH :: string where
  "TOOL_ABORTED_BEFORE_DISPATCH = ''ABORTED_BEFORE_DISPATCH''"

definition skipped_result :: tool_outcome where
  "skipped_result = \<lparr>to_content = [TextBlock ''Error: tool call aborted before dispatch''],
     to_is_error = True, to_info = Some (''AbortError'', TOOL_ABORTED_BEFORE_DISPATCH),
     to_meta = None, to_contexts = [], to_concludes = False\<rparr>"

text \<open>The session events behind the entries: \<open>appendToolCall\<close> and \<open>appendToolResult\<close>.\<close>

definition createToolResultMessage :: "string \<Rightarrow> string \<Rightarrow> content_block list \<Rightarrow> bool \<Rightarrow> tool_result_message" where
  "createToolResultMessage i callId content isError =
     \<lparr>tm_id = i, tm_source_call = callId, tm_call = callId, tm_is_error = Some isError, tm_content = content\<rparr>"

fun entry_event :: "int \<Rightarrow> int \<Rightarrow> tool_call list \<Rightarrow> call_entry \<Rightarrow> session_event" where
  "entry_event turn step plan (CallEntry i s) =
     (let c = plan ! i in
      \<lparr>ev_seq = st_seq s, ev_time = st_time s,
       ev_data = ToolCall turn step (tc_id c) (tc_name c) (tc_args c),
       ev_ignorable = False, ev_surface_op = None, ev_sources = None\<rparr>)"
| "entry_event turn step plan (ResultEntry i callSeq r s) =
     \<lparr>ev_seq = st_seq s, ev_time = st_time s,
      ev_data = ToolResult \<lparr>tr_turn = turn, tr_step = step,
        tr_message = createToolResultMessage (st_id s) (tc_id (plan ! i)) (to_content r) (to_is_error r),
        tr_error = to_info r, tr_meta = to_meta r\<rparr>,
      ev_ignorable = False, ev_surface_op = Some append_op, ev_sources = Some (JArr [JInt callSeq])\<rparr>"

section \<open>State\<close>

datatype place =
    AtClassify
  | AtFill
  | AtPrepare nat
  | AtStarted nat
  | AtCommit
  | AtCommitted
  | AtFinalize
  | AtRace
  | AtSkip nat
  | AtDrain
  | Returned
  | Threw string

text \<open>
  \<open>sd_next\<close> and \<open>sd_concluded\<close> are \<open>executeToolCalls\<close>'s; the rest below them is \<open>runGroup\<close>'s,
  whose indices count from the start of the group. \<open>sd_done\<close> are the dispatches whose
  promise has resolved, \<open>sd_kinds\<close> the modes under which the group's calls were started.
\<close>

record sched =
  sd_calls :: "tool_call list"
  sd_max :: nat
  sd_signal :: bool
  sd_next :: nat
  sd_concluded :: bool
  sd_size :: nat
  sd_parallel :: bool
  sd_slots :: "slot option list"
  sd_call_seqs :: "int list"
  sd_start :: nat
  sd_committed :: nat
  sd_started :: nat
  sd_aborted :: bool
  sd_group_concluded :: bool
  sd_failure :: "string option"
  sd_flight :: "nat list"
  sd_done :: "nat list"
  sd_kinds :: "bool list"
  sd_place :: place
  sd_log :: "call_entry list"
  sd_contexts :: "user_message list"

definition begin_calls :: "tool_call list \<Rightarrow> nat \<Rightarrow> bool \<Rightarrow> sched" where
  "begin_calls plan maxParallel signal =
     \<lparr>sd_calls = plan, sd_max = maxParallel, sd_signal = signal, sd_next = 0, sd_concluded = False,
      sd_size = 0, sd_parallel = False, sd_slots = [], sd_call_seqs = [], sd_start = 0, sd_committed = 0,
      sd_started = 0, sd_aborted = False, sd_group_concluded = False, sd_failure = None, sd_flight = [],
      sd_done = [], sd_kinds = [], sd_place = AtClassify, sd_log = [], sd_contexts = []\<rparr>"

section \<open>Transitions\<close>

text \<open>
  The head of the outer loop: the next unstarted call is classified and opens its group, a
  barrier of one or the pool of all that remain.
\<close>

definition classify_next :: "(string, bool) result \<Rightarrow> sched \<Rightarrow> sched" where
  "classify_next parallel st =
     (if length (sd_calls st) \<le> sd_next st then st\<lparr>sd_place := Returned\<rparr>
      else case parallel of
        Inl e \<Rightarrow> st\<lparr>sd_place := Threw e\<rparr>
      | Inr par \<Rightarrow>
          let size = (if par then length (sd_calls st) - sd_next st else 1)
          in st\<lparr>sd_size := size, sd_parallel := par, sd_slots := replicate size None,
                sd_call_seqs := replicate size (-1), sd_start := 0, sd_committed := 0, sd_started := 0,
                sd_aborted := sd_signal st, sd_group_concluded := False, sd_failure := None,
                sd_flight := [], sd_done := [], sd_kinds := [], sd_place := AtFill\<rparr>)"

text \<open>The catch of \<open>runGroup\<close>: the first failure is kept, and what is in flight is awaited.\<close>

definition group_throw :: "string \<Rightarrow> sched \<Rightarrow> sched" where
  "group_throw e st =
     st\<lparr>sd_failure := (case sd_failure st of None \<Rightarrow> Some e | Some f \<Rightarrow> Some f), sd_place := AtDrain\<rparr>"

text \<open>One turn of \<open>fillPool\<close>: the next call is appended as started, or the pool is full enough.\<close>

definition fill_one :: "(string, bool) result \<Rightarrow> (string, stamp) result \<Rightarrow> sched \<Rightarrow> sched" where
  "fill_one mode app st =
     (if \<not> sd_aborted st \<and> sd_start st < sd_size st \<and> length (sd_flight st) < sd_max st then
        (case (if 0 < sd_start st \<and> sd_parallel st then mode else Inr (sd_parallel st)) of
          Inl e \<Rightarrow> group_throw e st
        | Inr kind \<Rightarrow>
            if 0 < sd_start st \<and> sd_parallel st \<and> \<not> kind then st\<lparr>sd_place := AtRace\<rparr>
            else case app of
              Inl e \<Rightarrow> group_throw e st
            | Inr s \<Rightarrow>
                st\<lparr>sd_call_seqs := (sd_call_seqs st)[sd_start st := st_seq s],
                   sd_started := sd_started st + 1,
                   sd_kinds := sd_kinds st @ [kind],
                   sd_log := sd_log st @ [CallEntry (sd_next st + sd_start st) s],
                   sd_place := AtPrepare (sd_start st)\<rparr>)
      else st\<lparr>sd_place := AtRace\<rparr>)"

definition on_prepared :: "nat \<Rightarrow> (string, prepared) result \<Rightarrow> sched \<Rightarrow> sched" where
  "on_prepared i answer st =
     (case answer of
        Inl e \<Rightarrow> group_throw e st
      | Inr p \<Rightarrow>
          (case sd_failure st of
             Some e \<Rightarrow> group_throw e st
           | None \<Rightarrow>
               let st1 = (case p of
                     PrepDispatch \<Rightarrow> st\<lparr>sd_flight := sd_flight st @ [i]\<rparr>
                   | PrepPost r \<Rightarrow> st\<lparr>sd_slots := (sd_slots st)[i := Some \<lparr>sl_result = r, sl_needs_post = True\<rparr>]\<rparr>
                   | PrepFinal r \<Rightarrow> st\<lparr>sd_slots := (sd_slots st)[i := Some \<lparr>sl_result = r, sl_needs_post = False\<rparr>]\<rparr>)
               in st1\<lparr>sd_place := AtStarted i\<rparr>))"

definition on_started :: "nat \<Rightarrow> sched \<Rightarrow> sched" where
  "on_started i st =
     (let st1 = st\<lparr>sd_start := i + 1\<rparr>
      in case sd_failure st of Some e \<Rightarrow> group_throw e st1 | None \<Rightarrow> st1\<lparr>sd_place := AtCommit\<rparr>)"

text \<open>
  A result is committed: appended, its contexts accepted in turn, counted. The acceptor may
  throw, after it took a number of contexts.
\<close>

definition commit_result ::
    "(string, tool_outcome) result \<Rightarrow> (string, stamp) result \<Rightarrow> (nat \<times> string) option \<Rightarrow> sched \<Rightarrow> sched" where
  "commit_result answer app accept st =
     (case answer of
        Inl e \<Rightarrow> group_throw e st
      | Inr r \<Rightarrow>
          (case app of
             Inl e \<Rightarrow> group_throw e st
           | Inr s \<Rightarrow>
               let st1 = st\<lparr>sd_log := sd_log st @
                     [ResultEntry (sd_next st + sd_committed st) (sd_call_seqs st ! sd_committed st) r s]\<rparr>
               in case accept of
                    Some (k, e) \<Rightarrow> group_throw e (st1\<lparr>sd_contexts := sd_contexts st @ take k (to_contexts r)\<rparr>)
                  | None \<Rightarrow>
                      st1\<lparr>sd_contexts := sd_contexts st @ to_contexts r,
                          sd_group_concluded := (sd_group_concluded st \<or> to_concludes r),
                          sd_committed := sd_committed st + 1, sd_place := AtCommit\<rparr>))"

text \<open>
  One turn of \<open>commitReady\<close>: the slot next in model order is finalized, which awaits, or
  finished; without one the pool goes on, unless a dispatch has failed meanwhile.
  \<open>AtCommitted\<close> and \<open>AtStarted\<close> are the awaits of \<open>commitReady\<close> and \<open>startCall\<close> themselves.
\<close>

definition commit_one ::
    "(string, tool_outcome) result \<Rightarrow> (string, stamp) result \<Rightarrow> (nat \<times> string) option \<Rightarrow> sched \<Rightarrow> sched" where
  "commit_one answer app accept st =
     (case (if sd_committed st < sd_size st then sd_slots st ! sd_committed st else None) of
        Some s \<Rightarrow> (if sl_needs_post s then st\<lparr>sd_place := AtFinalize\<rparr> else commit_result answer app accept st)
      | None \<Rightarrow> st\<lparr>sd_place := AtCommitted\<rparr>)"

definition on_committed :: "sched \<Rightarrow> sched" where
  "on_committed st =
     (case sd_failure st of
        Some e \<Rightarrow> group_throw e st
      | None \<Rightarrow> st\<lparr>sd_aborted := (sd_aborted st \<or> sd_signal st), sd_place := AtFill\<rparr>)"

text \<open>The race returns a dispatch that has settled.\<close>

definition race_won :: "nat \<Rightarrow> sched \<Rightarrow> sched" where
  "race_won i st =
     (let st1 = st\<lparr>sd_flight := remove1 i (sd_flight st)\<rparr>
      in case sd_failure st1 of Some e \<Rightarrow> group_throw e st1 | None \<Rightarrow> st1\<lparr>sd_place := AtCommit\<rparr>)"

text \<open>
  The end of a group with nothing in flight. An aborted group skips the calls it has not
  started, and \<open>executeToolCalls\<close> all that follow.
\<close>

definition end_group :: "sched \<Rightarrow> sched" where
  "end_group st =
     (if sd_aborted st then
        st\<lparr>sd_concluded := (sd_concluded st \<or> sd_group_concluded st),
           sd_place := AtSkip (sd_next st + sd_started st)\<rparr>
      else if sd_committed st \<noteq> sd_started st then
        st\<lparr>sd_place := Threw ''tool-call scheduler: uncommitted settled calls''\<rparr>
      else
        st\<lparr>sd_concluded := (sd_concluded st \<or> sd_group_concluded st), sd_next := sd_next st + sd_started st,
           sd_size := 0, sd_start := 0, sd_committed := 0, sd_started := 0, sd_place := AtClassify\<rparr>)"

definition skip_one :: "nat \<Rightarrow> (string, stamp) result \<Rightarrow> (string, stamp) result \<Rightarrow> sched \<Rightarrow> sched" where
  "skip_one k app1 app2 st =
     (if length (sd_calls st) \<le> k then st\<lparr>sd_place := Returned\<rparr>
      else case app1 of
        Inl e \<Rightarrow> st\<lparr>sd_place := Threw e\<rparr>
      | Inr s \<Rightarrow>
          let st1 = st\<lparr>sd_log := sd_log st @ [CallEntry k s]\<rparr>
          in case app2 of
               Inl e \<Rightarrow> st1\<lparr>sd_place := Threw e\<rparr>
             | Inr s' \<Rightarrow>
                 st1\<lparr>sd_log := sd_log st1 @ [ResultEntry k (st_seq s) skipped_result s'],
                     sd_place := AtSkip (k + 1)\<rparr>)"

definition drained :: "sched \<Rightarrow> sched" where
  "drained st = st\<lparr>sd_place := Threw (case sd_failure st of Some e \<Rightarrow> e | None \<Rightarrow> '''')\<rparr>"

text \<open>A dispatch settles: its slot is filled, or the first failure recorded.\<close>

definition settle_dispatch :: "nat \<Rightarrow> (string, slot) result \<Rightarrow> sched \<Rightarrow> sched" where
  "settle_dispatch i outcome st =
     (let st1 = st\<lparr>sd_done := sd_done st @ [i]\<rparr>
      in case outcome of
           Inl e \<Rightarrow> st1\<lparr>sd_failure := (case sd_failure st of None \<Rightarrow> Some e | Some f \<Rightarrow> Some f)\<rparr>
         | Inr s \<Rightarrow> st1\<lparr>sd_slots := (sd_slots st)[i := Some s]\<rparr>)"

fun awaits :: "place \<Rightarrow> bool" where
  "awaits (AtPrepare i) = True"
| "awaits (AtStarted i) = True"
| "awaits AtFinalize = True"
| "awaits AtCommitted = True"
| "awaits AtRace = True"
| "awaits AtDrain = True"
| "awaits _ = False"

inductive sched_step :: "sched \<Rightarrow> sched \<Rightarrow> bool" where
  step_classify: "sd_place st = AtClassify \<Longrightarrow> sched_step st (classify_next parallel st)"
| step_fill: "sd_place st = AtFill \<Longrightarrow> sched_step st (fill_one mode app st)"
| step_prepared: "sd_place st = AtPrepare i \<Longrightarrow> sched_step st (on_prepared i answer st)"
| step_started: "sd_place st = AtStarted i \<Longrightarrow> sched_step st (on_started i st)"
| step_commit: "sd_place st = AtCommit \<Longrightarrow> sched_step st (commit_one result app accept st)"
| step_committed: "sd_place st = AtCommitted \<Longrightarrow> sched_step st (on_committed st)"
| step_finalized: "sd_place st = AtFinalize \<Longrightarrow> sched_step st (commit_result result app accept st)"
| step_race:
    "sd_place st = AtRace \<Longrightarrow> i \<in> set (sd_flight st) \<Longrightarrow> i \<in> set (sd_done st) \<Longrightarrow> sched_step st (race_won i st)"
| step_end_group: "sd_place st = AtRace \<Longrightarrow> sd_flight st = [] \<Longrightarrow> sched_step st (end_group st)"
| step_skip: "sd_place st = AtSkip k \<Longrightarrow> sched_step st (skip_one k app1 app2 st)"
| step_drained: "sd_place st = AtDrain \<Longrightarrow> set (sd_flight st) \<subseteq> set (sd_done st) \<Longrightarrow> sched_step st (drained st)"
| step_settle:
    "awaits (sd_place st) \<Longrightarrow> i \<in> set (sd_flight st) \<Longrightarrow> i \<notin> set (sd_done st) \<Longrightarrow>
     sched_step st (settle_dispatch i outcome st)"
| step_abort: "\<not> sd_signal st \<Longrightarrow> sched_step st (st\<lparr>sd_signal := True\<rparr>)"

inductive sched_reachable :: "tool_call list \<Rightarrow> nat \<Rightarrow> sched \<Rightarrow> bool" for plan :: "tool_call list" and n :: nat where
  sched_begin: "sched_reachable plan n (begin_calls plan n signal)"
| sched_next: "sched_reachable plan n st \<Longrightarrow> sched_step st st' \<Longrightarrow> sched_reachable plan n st'"

section \<open>The invariant\<close>

text \<open>
  The log as a queue: a call enters it, numbered in plan order, and a result takes the oldest
  call out and cites it. The replay of a log gives the calls not yet answered and the number
  of calls.
\<close>

fun fifo_step :: "(nat \<times> int) list \<times> nat \<Rightarrow> call_entry \<Rightarrow> (call_entry, (nat \<times> int) list \<times> nat) result" where
  "fifo_step (q, m) (CallEntry i s) = (if i = m then Inr (q @ [(i, st_seq s)], m + 1) else Inl (CallEntry i s))"
| "fifo_step (q, m) (ResultEntry i c r s) =
     (case q of
        [] \<Rightarrow> Inl (ResultEntry i c r s)
      | p # q' \<Rightarrow> if p = (i, c) then Inr (q', m) else Inl (ResultEntry i c r s))"

definition fifo :: "call_entry list \<Rightarrow> (call_entry, (nat \<times> int) list \<times> nat) result" where
  "fifo lg = replay fifo_step ([], 0) lg"

definition unanswered :: "sched \<Rightarrow> (nat \<times> int) list" where
  "unanswered st = map (\<lambda>i. (sd_next st + i, sd_call_seqs st ! i)) [sd_committed st..<sd_started st]"

text \<open>What holds of the variables of a group wherever it stands.\<close>

definition slot_or_flight :: "nat \<Rightarrow> sched \<Rightarrow> bool" where
  "slot_or_flight i st \<longleftrightarrow> sd_slots st ! i \<noteq> None \<or> i \<in> set (sd_flight st)"

definition group_ok :: "sched \<Rightarrow> bool" where
  "group_ok st \<longleftrightarrow>
     0 < sd_size st \<and> sd_next st + sd_size st \<le> length (sd_calls st) \<and> (sd_parallel st \<or> sd_size st = 1) \<and>
     length (sd_slots st) = sd_size st \<and> length (sd_call_seqs st) = sd_size st \<and>
     sd_committed st \<le> sd_start st \<and> sd_start st \<le> sd_started st \<and> sd_started st \<le> sd_size st \<and>
     distinct (sd_flight st) \<and> set (sd_flight st) \<subseteq> {..<sd_started st} \<and> length (sd_flight st) \<le> sd_max st \<and>
     (\<forall>i < sd_size st. sd_slots st ! i \<noteq> None \<longrightarrow> i < sd_started st) \<and>
     (sd_failure st = None \<longrightarrow> (\<forall>i < sd_start st. slot_or_flight i st)) \<and>
     length (sd_kinds st) = sd_started st \<and> (\<forall>k \<in> set (sd_kinds st). k = sd_parallel st)"

definition frontier_ok :: "sched \<Rightarrow> bool" where
  "frontier_ok st \<longleftrightarrow> (sd_committed st < sd_start st \<longrightarrow> sd_committed st \<in> set (sd_flight st))"

text \<open>Where the group stands, with the log it has written.\<close>

definition pool_ok :: "sched \<Rightarrow> bool" where
  "pool_ok st \<longleftrightarrow> group_ok st \<and> fifo (sd_log st) = Inr (unanswered st, sd_next st + sd_started st)"

definition place_ok :: "sched \<Rightarrow> bool" where
  "place_ok st =
     (case sd_place st of
        AtClassify \<Rightarrow> sd_next st \<le> length (sd_calls st) \<and> sd_flight st = [] \<and> fifo (sd_log st) = Inr ([], sd_next st) \<and>
          sd_started st = 0 \<and> sd_committed st = 0
      | AtFill \<Rightarrow> pool_ok st \<and> sd_started st = sd_start st \<and> sd_failure st = None \<and> frontier_ok st
      | AtPrepare i \<Rightarrow> pool_ok st \<and> i = sd_start st \<and> sd_started st = sd_start st + 1 \<and>
          length (sd_flight st) < sd_max st \<and> i \<notin> set (sd_flight st)
      | AtStarted i \<Rightarrow> pool_ok st \<and> i = sd_start st \<and> sd_started st = sd_start st + 1 \<and>
          (sd_failure st = None \<longrightarrow> slot_or_flight i st)
      | AtCommit \<Rightarrow> pool_ok st \<and> sd_started st = sd_start st
      | AtCommitted \<Rightarrow> pool_ok st \<and> sd_started st = sd_start st \<and> (sd_failure st = None \<longrightarrow> frontier_ok st)
      | AtFinalize \<Rightarrow> pool_ok st \<and> sd_started st = sd_start st \<and> sd_committed st < sd_start st
      | AtRace \<Rightarrow> pool_ok st \<and> sd_started st = sd_start st \<and> frontier_ok st \<and>
          (sd_failure st \<noteq> None \<longrightarrow> sd_flight st \<noteq> []) \<and> (sd_aborted st \<or> 0 < sd_start st \<or> sd_max st = 0)
      | AtSkip k \<Rightarrow> k \<le> length (sd_calls st) \<and> sd_flight st = [] \<and> fifo (sd_log st) = Inr ([], k)
      | AtDrain \<Rightarrow> group_ok st \<and> (\<exists>q. fifo (sd_log st) = Inr (q, sd_next st + sd_started st)) \<and> sd_failure st \<noteq> None
      | Returned \<Rightarrow> sd_flight st = [] \<and> fifo (sd_log st) = Inr ([], length (sd_calls st))
      | Threw e \<Rightarrow> (sd_flight st = [] \<or> group_ok st) \<and> set (sd_flight st) \<subseteq> set (sd_done st) \<and>
          (\<exists>q m. fifo (sd_log st) = Inr (q, m) \<and> m \<le> length (sd_calls st)))"

lemmas sched_ok_defs = place_ok_def pool_ok_def group_ok_def frontier_ok_def slot_or_flight_def unanswered_def

lemma fifo_snoc: "fifo (lg @ [e]) = rbind (fifo lg) (\<lambda>qm. fifo_step qm e)"
  by (cases "replay fifo_step ([], 0) lg") (simp_all add: fifo_def replay_snoc)

lemma fifo_two: "fifo (lg @ [e, e']) = rbind (fifo lg) (\<lambda>qm. rbind (fifo_step qm e) (\<lambda>qm. fifo_step qm e'))"
  using fifo_snoc [of "lg @ [e]" e'] fifo_snoc [of lg e] by (cases "fifo lg") simp_all

lemma fifo_Nil: "fifo [] = Inr ([], 0)"
  by (simp add: fifo_def)

lemma ok_begin: "place_ok (begin_calls plan n signal)"
  by (simp add: place_ok_def begin_calls_def fifo_Nil)

lemma ok_classify: "place_ok st \<Longrightarrow> sd_place st = AtClassify \<Longrightarrow> place_ok (classify_next parallel st)"
  by (auto simp: sched_ok_defs classify_next_def Let_def split: sum.splits)

lemma ok_throw:
  assumes "group_ok st" "\<exists>q. fifo (sd_log st) = Inr (q, sd_next st + sd_started st)"
  shows "place_ok (group_throw e st)"
  using assms by (auto simp: place_ok_def group_throw_def group_ok_def split: option.splits)

lemma pool_throw: "pool_ok st \<Longrightarrow> place_ok (group_throw e st)"
  by (rule ok_throw) (auto simp: pool_ok_def)

lemma unanswered_start:
  assumes "sd_committed st \<le> sd_started st" "sd_started st = sd_start st" "sd_start st < length (sd_call_seqs st)"
  shows "unanswered (st\<lparr>sd_call_seqs := (sd_call_seqs st)[sd_start st := n], sd_started := sd_started st + 1,
      sd_kinds := ks, sd_log := lg, sd_place := pl\<rparr>) = unanswered st @ [(sd_next st + sd_start st, n)]"
  using assms by (auto simp: unanswered_def nth_list_update)

lemma ok_fill:
  assumes ok: "place_ok st" and at: "sd_place st = AtFill"
  shows "place_ok (fill_one mode app st)"
proof -
  from ok at have pool: "pool_ok st" and start: "sd_started st = sd_start st" and none: "sd_failure st = None"
    and front: "frontier_ok st"
    by (simp_all add: place_ok_def)
  have race: "place_ok (st\<lparr>sd_place := AtRace\<rparr>)" if "sd_aborted st \<or> 0 < sd_start st \<or> sd_max st = 0"
    using pool start none front that by (simp add: sched_ok_defs)
  have full: "sd_aborted st \<or> 0 < sd_start st \<or> sd_max st = 0"
    if "sd_aborted st \<or> sd_size st \<le> sd_start st \<or> sd_max st \<le> length (sd_flight st)"
  proof (cases "sd_start st")
    case 0
    with pool start have "sd_flight st = []" "0 < sd_size st"
      by (simp_all add: pool_ok_def group_ok_def)
    with that 0 show ?thesis by simp
  qed simp
  have started: "place_ok (st\<lparr>sd_call_seqs := (sd_call_seqs st)[sd_start st := st_seq s],
      sd_started := sd_started st + 1, sd_kinds := sd_kinds st @ [sd_parallel st],
      sd_log := sd_log st @ [CallEntry (sd_next st + sd_start st) s], sd_place := AtPrepare (sd_start st)\<rparr>)"
    if "sd_start st < sd_size st" "length (sd_flight st) < sd_max st" for s
    using pool start that unanswered_start [of st]
    by (simp add: place_ok_def pool_ok_def group_ok_def slot_or_flight_def fifo_snoc less_SucI subset_iff)
      (meson less_irrefl)
  show ?thesis
    using race full started pool_throw [OF pool]
    by (auto simp: fill_one_def not_less split: sum.splits)
qed

lemma pool_dispatch:
  assumes "pool_ok st" "i \<notin> set (sd_flight st)" "i < sd_started st" "length (sd_flight st) < sd_max st"
  shows "pool_ok (st\<lparr>sd_flight := sd_flight st @ [i], sd_place := pl\<rparr>)"
  using assms by (auto simp: pool_ok_def group_ok_def unanswered_def slot_or_flight_def)

lemma pool_slot:
  assumes "pool_ok st" "i < sd_started st"
  shows "pool_ok (st\<lparr>sd_slots := (sd_slots st)[i := Some s], sd_place := pl\<rparr>)"
  using assms by (simp add: pool_ok_def group_ok_def unanswered_def slot_or_flight_def nth_list_update)

lemma ok_prepared:
  assumes ok: "place_ok st" and at: "sd_place st = AtPrepare i"
  shows "place_ok (on_prepared i answer st)"
proof -
  from ok at have pool: "pool_ok st" and i: "i = sd_start st" "sd_started st = Suc i" "i \<notin> set (sd_flight st)"
      "length (sd_flight st) < sd_max st"
    by (auto simp: place_ok_def)
  then have bound: "i < length (sd_slots st)" by (simp add: pool_ok_def group_ok_def)
  have flight: "place_ok (st\<lparr>sd_flight := sd_flight st @ [i], sd_place := AtStarted i\<rparr>)"
    using pool_dispatch [OF pool, of i "AtStarted i"] i by (simp add: place_ok_def slot_or_flight_def)
  have slot: "place_ok (st\<lparr>sd_slots := (sd_slots st)[i := Some s], sd_place := AtStarted i\<rparr>)" for s
    using pool_slot [OF pool, where i = i and s = s and pl = "AtStarted i"] i bound by (simp add: place_ok_def slot_or_flight_def)
  show ?thesis
    using flight slot pool_throw [OF pool]
    by (simp add: on_prepared_def Let_def split: sum.splits option.splits prepared.splits)
qed

lemma pool_started:
  assumes "pool_ok st" "sd_started st = Suc (sd_start st)" "sd_failure st = None \<longrightarrow> slot_or_flight (sd_start st) st"
  shows "pool_ok (st\<lparr>sd_start := Suc (sd_start st)\<rparr>)"
  using assms by (simp add: pool_ok_def group_ok_def unanswered_def slot_or_flight_def less_Suc_eq)

lemma ok_started:
  assumes ok: "place_ok st" and at: "sd_place st = AtStarted i"
  shows "place_ok (on_started i st)"
proof -
  from ok at have i: "i = sd_start st" "sd_started st = Suc (sd_start st)" by (simp_all add: place_ok_def)
  from ok at have pool: "pool_ok (st\<lparr>sd_start := Suc (sd_start st)\<rparr>)"
    by (intro pool_started) (auto simp: place_ok_def)
  have "place_ok (st\<lparr>sd_start := Suc (sd_start st), sd_place := AtCommit\<rparr>)"
    using pool i by (simp add: place_ok_def pool_ok_def group_ok_def unanswered_def slot_or_flight_def)
  with pool_throw [OF pool] i show ?thesis
    by (simp add: on_started_def Let_def split: option.splits)
qed

lemma unanswered_commit:
  assumes "sd_committed st < sd_started st"
  shows "unanswered st = (sd_next st + sd_committed st, sd_call_seqs st ! sd_committed st)
    # unanswered (st\<lparr>sd_committed := sd_committed st + 1\<rparr>)"
  using assms by (simp add: unanswered_def upt_conv_Cons)

lemma ok_commit_result:
  assumes pool: "pool_ok st" and start: "sd_started st = sd_start st" and less: "sd_committed st < sd_start st"
  shows "place_ok (commit_result answer app accept st)"
proof -
  have q: "fifo (sd_log st @ [ResultEntry (sd_next st + sd_committed st) (sd_call_seqs st ! sd_committed st) r s])
      = Inr (unanswered (st\<lparr>sd_committed := sd_committed st + 1\<rparr>), sd_next st + sd_started st)" for r s
    using pool unanswered_commit [of st] start less by (simp add: pool_ok_def fifo_snoc)
  have group: "group_ok st" using pool by (simp add: pool_ok_def)
  have thrown: "place_ok (group_throw e (st\<lparr>sd_log := sd_log st @
      [ResultEntry (sd_next st + sd_committed st) (sd_call_seqs st ! sd_committed st) r s], sd_contexts := cs\<rparr>))"
    for e r s cs
    by (rule ok_throw) (use group q in \<open>simp_all add: group_ok_def slot_or_flight_def\<close>)
  have committed: "place_ok (st\<lparr>sd_log := sd_log st @
      [ResultEntry (sd_next st + sd_committed st) (sd_call_seqs st ! sd_committed st) r s], sd_contexts := cs,
      sd_group_concluded := g, sd_committed := sd_committed st + 1, sd_place := AtCommit\<rparr>)" for r s cs g
    using group q start less by (simp add: place_ok_def pool_ok_def group_ok_def slot_or_flight_def unanswered_def)
  show ?thesis
    using pool_throw [OF pool] thrown committed
    by (simp add: commit_result_def Let_def split: sum.splits option.splits)
qed

lemma ok_commit:
  assumes ok: "place_ok st" and at: "sd_place st = AtCommit"
  shows "place_ok (commit_one answer app accept st)"
proof -
  from ok at have pool: "pool_ok st" and start: "sd_started st = sd_start st"
    by (simp_all add: place_ok_def)
  show ?thesis
  proof (cases "if sd_committed st < sd_size st then sd_slots st ! sd_committed st else None")
    case None
    have "frontier_ok st" if "sd_failure st = None"
      using pool start None that unfolding frontier_ok_def pool_ok_def group_ok_def slot_or_flight_def
      by (metis order_less_le_trans)
    with pool start have "place_ok (st\<lparr>sd_place := AtCommitted\<rparr>)"
      by (simp add: sched_ok_defs)
    with None show ?thesis by (simp add: commit_one_def)
  next
    case (Some s)
    then have less: "sd_committed st < sd_start st"
      using pool start by (auto simp: pool_ok_def group_ok_def split: if_splits)
    have "place_ok (st\<lparr>sd_place := AtFinalize\<rparr>)"
      using pool start less by (simp add: sched_ok_defs)
    with Some ok_commit_result [OF pool start less] show ?thesis
      by (simp add: commit_one_def)
  qed
qed

lemma ok_committed:
  assumes "place_ok st" "sd_place st = AtCommitted"
  shows "place_ok (on_committed st)"
proof -
  from assms have pool: "pool_ok st" by (simp add: place_ok_def)
  from pool_throw [OF this] pool assms show ?thesis
    by (auto simp: on_committed_def place_ok_def pool_ok_def group_ok_def unanswered_def slot_or_flight_def frontier_ok_def
        split: option.splits)
qed

lemma ok_finalized:
  "place_ok st \<Longrightarrow> sd_place st = AtFinalize \<Longrightarrow> place_ok (commit_result answer app accept st)"
  by (rule ok_commit_result) (simp_all add: place_ok_def)

lemma ok_race:
  assumes ok: "place_ok st" and at: "sd_place st = AtRace"
    and mem: "i \<in> set (sd_flight st)" and settled: "sd_failure st = None \<longrightarrow> sd_slots st ! i \<noteq> None"
  shows "place_ok (race_won i st)"
proof -
  have sub: "set (remove1 i (sd_flight st)) \<subseteq> set (sd_flight st)" by (rule set_remove1_subset)
  have len: "length (remove1 i (sd_flight st)) \<le> length (sd_flight st)" by (simp add: length_remove1)
  from ok at have "distinct (sd_flight st)" by (simp add: place_ok_def pool_ok_def group_ok_def)
  then have rest: "set (remove1 i (sd_flight st)) = set (sd_flight st) - {i}" "distinct (remove1 i (sd_flight st))"
    by simp_all
  from ok at rest len settled have pool: "pool_ok (st\<lparr>sd_flight := remove1 i (sd_flight st)\<rparr>)"
    by (auto simp: sched_ok_defs)
  with pool_throw [OF pool] ok at show ?thesis
    by (auto simp: race_won_def place_ok_def Let_def pool_ok_def group_ok_def unanswered_def slot_or_flight_def
        split: option.splits)
qed

lemma ok_end_group:
  assumes ok: "place_ok st" and at: "sd_place st = AtRace" and idle: "sd_flight st = []"
  shows "place_ok (end_group st) \<and> sd_place (end_group st) \<in> {AtSkip (sd_next st + sd_started st), AtClassify}"
proof -
  from ok at idle have pool: "pool_ok st" and all: "sd_committed st = sd_started st"
    by (auto simp: place_ok_def frontier_ok_def pool_ok_def group_ok_def)
  then have "fifo (sd_log st) = Inr ([], sd_next st + sd_started st)"
    by (simp add: pool_ok_def unanswered_def)
  with pool all idle show ?thesis
    by (simp add: end_group_def place_ok_def pool_ok_def group_ok_def)
qed

lemma ok_skip: "place_ok st \<Longrightarrow> sd_place st = AtSkip k \<Longrightarrow> place_ok (skip_one k app1 app2 st)"
  by (auto simp: place_ok_def skip_one_def fifo_snoc fifo_two Let_def split: sum.splits)

lemma ok_drained:
  "place_ok st \<Longrightarrow> sd_place st = AtDrain \<Longrightarrow> set (sd_flight st) \<subseteq> set (sd_done st) \<Longrightarrow> place_ok (drained st)"
  by (auto simp: place_ok_def drained_def group_ok_def slot_or_flight_def)

lemma settle_keeps:
  "sd_log (settle_dispatch i r st) = sd_log st" "unanswered (settle_dispatch i r st) = unanswered st"
  "sd_next (settle_dispatch i r st) = sd_next st" "sd_started (settle_dispatch i r st) = sd_started st"
  "sd_start (settle_dispatch i r st) = sd_start st" "sd_committed (settle_dispatch i r st) = sd_committed st"
  "sd_flight (settle_dispatch i r st) = sd_flight st" "sd_place (settle_dispatch i r st) = sd_place st"
  "sd_max (settle_dispatch i r st) = sd_max st" "sd_calls (settle_dispatch i r st) = sd_calls st"
  "sd_done (settle_dispatch i r st) = sd_done st @ [i]" "sd_signal (settle_dispatch i r st) = sd_signal st"
  "sd_size (settle_dispatch i r st) = sd_size st" "sd_kinds (settle_dispatch i r st) = sd_kinds st"
  "sd_parallel (settle_dispatch i r st) = sd_parallel st" "sd_aborted (settle_dispatch i r st) = sd_aborted st"
  "sd_contexts (settle_dispatch i r st) = sd_contexts st" "sd_concluded (settle_dispatch i r st) = sd_concluded st"
  "sd_group_concluded (settle_dispatch i r st) = sd_group_concluded st"
  "length (sd_slots (settle_dispatch i r st)) = length (sd_slots st)"
  "sd_call_seqs (settle_dispatch i r st) = sd_call_seqs st"
  by (simp_all add: settle_dispatch_def Let_def unanswered_def split: sum.splits)

lemma settle_failure: "sd_failure (settle_dispatch i r st) = None \<Longrightarrow> sd_failure st = None \<and> (\<exists>s. r = Inr s)"
  by (auto simp: settle_dispatch_def Let_def split: sum.splits option.splits)

lemma settle_failure_stays: "sd_failure st \<noteq> None \<Longrightarrow> sd_failure (settle_dispatch i r st) \<noteq> None"
  by (auto simp: settle_dispatch_def Let_def split: sum.splits)

lemma settle_slot: "slot_or_flight k st \<Longrightarrow> slot_or_flight k (settle_dispatch i r st)"
  by (cases "i < length (sd_slots st)")
    (auto simp: slot_or_flight_def settle_dispatch_def Let_def nth_list_update list_update_beyond split: sum.splits)

lemma settle_slots:
  "sd_slots (settle_dispatch i r st) ! k \<noteq> None \<Longrightarrow> i \<in> set (sd_flight st) \<Longrightarrow>
     sd_slots st ! k \<noteq> None \<or> k \<in> set (sd_flight st)"
  by (cases "k = i") (auto simp: settle_dispatch_def Let_def split: sum.splits)

lemma group_settle:
  assumes group: "group_ok st" and mem: "i \<in> set (sd_flight st)"
  shows "group_ok (settle_dispatch i outcome st)"
proof -
  have "\<forall>k < sd_size st. sd_slots (settle_dispatch i outcome st) ! k \<noteq> None \<longrightarrow> k < sd_started st"
  proof (intro allI impI)
    fix k assume "k < sd_size st" "sd_slots (settle_dispatch i outcome st) ! k \<noteq> None"
    with settle_slots [OF _ mem] group show "k < sd_started st"
      by (metis group_ok_def lessThan_iff subset_iff)
  qed
  moreover have "sd_failure (settle_dispatch i outcome st) = None \<longrightarrow>
      (\<forall>k < sd_start st. slot_or_flight k (settle_dispatch i outcome st))"
    using group settle_failure settle_slot by (metis group_ok_def)
  ultimately show ?thesis
    using group by (simp add: group_ok_def settle_keeps)
qed

lemma pool_settle:
  "pool_ok st \<Longrightarrow> i \<in> set (sd_flight st) \<Longrightarrow> pool_ok (settle_dispatch i outcome st)"
  unfolding pool_ok_def settle_keeps using group_settle by blast

lemma frontier_settle: "frontier_ok st \<Longrightarrow> frontier_ok (settle_dispatch i outcome st)"
  by (simp add: frontier_ok_def settle_keeps)

lemma ok_settle:
  assumes ok: "place_ok st" and at: "awaits (sd_place st)" and mem: "i \<in> set (sd_flight st)"
  shows "place_ok (settle_dispatch i outcome st)"
proof -
  let ?st = "settle_dispatch i outcome st"
  have *: "pool_ok st \<Longrightarrow> pool_ok ?st" "group_ok st \<Longrightarrow> group_ok ?st"
    using mem pool_settle group_settle by blast+
  have **: "slot_or_flight (sd_start st) st \<Longrightarrow> slot_or_flight (sd_start st) ?st" "frontier_ok st \<Longrightarrow> frontier_ok ?st"
    using settle_slot frontier_settle by blast+
  have none: "sd_failure ?st = None \<Longrightarrow> sd_failure st = None" "sd_failure st \<noteq> None \<Longrightarrow> sd_failure ?st \<noteq> None"
    using settle_failure settle_failure_stays by blast+
  show ?thesis
  proof (cases "sd_place st")
    case (AtPrepare k)
    then show ?thesis using ok *(1) by (auto simp: place_ok_def settle_keeps)
  next
    case (AtStarted k)
    then show ?thesis using ok *(1) **(1) none(1) by (auto simp: place_ok_def settle_keeps)
  next
    case AtCommitted
    then show ?thesis using ok *(1) **(2) none(1) by (auto simp: place_ok_def settle_keeps)
  next
    case AtFinalize
    then show ?thesis using ok *(1) by (simp add: place_ok_def settle_keeps)
  next
    case AtRace
    moreover have "sd_flight st \<noteq> []" using mem by auto
    ultimately show ?thesis using ok *(1) **(2) by (simp add: place_ok_def settle_keeps)
  next
    case AtDrain
    then show ?thesis using ok *(2) none(2) by (simp add: place_ok_def settle_keeps)
  qed (use at in simp_all)
qed

text \<open>What has settled has filled its slot, unless something failed.\<close>

definition settled_ok :: "sched \<Rightarrow> bool" where
  "settled_ok st \<longleftrightarrow> (sd_failure st = None \<longrightarrow> (\<forall>i \<in> set (sd_done st). sd_slots st ! i \<noteq> None))"

lemma settled_update:
  "settled_ok st \<Longrightarrow> settled_ok (st\<lparr>sd_slots := (sd_slots st)[i := Some s], sd_place := pl\<rparr>)"
  by (cases "i < length (sd_slots st)") (auto simp: settled_ok_def nth_list_update list_update_beyond)

lemma settled_throw: "settled_ok (group_throw e st)"
  by (auto simp: settled_ok_def group_throw_def split: option.splits)

lemma settled_commit: "settled_ok st \<Longrightarrow> settled_ok (commit_result answer app accept st)"
  using settled_throw by (auto simp: commit_result_def Let_def settled_ok_def split: sum.splits option.splits)

lemma settled_same:
  "settled_ok st \<Longrightarrow> sd_failure st' = sd_failure st \<Longrightarrow> sd_done st' = sd_done st \<Longrightarrow> sd_slots st' = sd_slots st \<Longrightarrow>
     settled_ok st'"
  by (simp add: settled_ok_def)

lemma awaits_group: "place_ok st \<Longrightarrow> awaits (sd_place st) \<Longrightarrow> group_ok st"
  by (cases "sd_place st") (simp_all add: place_ok_def pool_ok_def)

lemma settled_settle:
  assumes "settled_ok st" "place_ok st" "awaits (sd_place st)" "i \<in> set (sd_flight st)"
  shows "settled_ok (settle_dispatch i outcome st)"
proof -
  have "i < length (sd_slots st)"
    using awaits_group [OF assms(2,3)] assms(4) by (auto simp: group_ok_def)
  then show ?thesis
    using assms(1) by (cases outcome; cases "sd_failure st") (simp_all add: settle_dispatch_def settled_ok_def nth_list_update)
qed

lemma settled_prepared: "settled_ok st \<Longrightarrow> settled_ok (on_prepared i answer st)"
  using settled_update [of st]
  by (cases "sd_failure st") (simp_all add: on_prepared_def settled_throw settled_same [of st] Let_def
      split: sum.splits prepared.splits)

lemma settled_commit_one: "settled_ok st \<Longrightarrow> settled_ok (commit_one answer app accept st)"
  using settled_commit settled_same [of st] by (simp add: commit_one_def split: option.splits)

lemma settled_fill: "settled_ok st \<Longrightarrow> settled_ok (fill_one mode app st)"
  by (simp add: fill_one_def settled_throw settled_same [of st] split: sum.splits)

lemma settled_step:
  assumes ok: "settled_ok st" "place_ok st" and step: "sched_step st st'"
  shows "settled_ok st'"
  using step
proof cases
  case (step_classify parallel)
  with ok show ?thesis by (simp add: classify_next_def settled_ok_def Let_def split: sum.splits)
next
  case (step_skip k app1 app2)
  with ok show ?thesis by (simp add: skip_one_def settled_ok_def Let_def split: sum.splits)
next
  case (step_started i)
  with ok settled_throw show ?thesis
    by (simp add: on_started_def Let_def settled_ok_def split: option.splits)
next
  case step_committed
  with ok settled_throw show ?thesis
    by (simp add: on_committed_def settled_ok_def split: option.splits)
next
  case (step_race i)
  with ok settled_throw show ?thesis
    by (simp add: race_won_def Let_def settled_ok_def split: option.splits)
next
  case step_end_group
  with ok show ?thesis by (simp add: end_group_def settled_ok_def)
next
  case step_drained
  with ok show ?thesis by (simp add: drained_def settled_ok_def)
next
  case step_abort
  with ok show ?thesis by (simp add: settled_ok_def)
qed (use ok settled_fill settled_prepared settled_commit_one settled_commit settled_settle in blast)+

lemma place_step:
  assumes "settled_ok st" "place_ok st" "sched_step st st'"
  shows "place_ok st'"
  using assms(3)
proof cases
  case (step_race i)
  with assms(1,2) show ?thesis by (auto simp: settled_ok_def intro: ok_race)
next
  case step_abort
  with assms(2) show ?thesis by (cases "sd_place st") (auto simp: sched_ok_defs)
qed (use assms(2) in \<open>auto intro: ok_classify ok_fill ok_prepared ok_started ok_commit ok_committed ok_finalized
    ok_end_group [THEN conjunct1] ok_skip ok_drained ok_settle\<close>)

lemma step_constants: "sched_step st st' \<Longrightarrow> sd_calls st' = sd_calls st \<and> sd_max st' = sd_max st"
  by (induction rule: sched_step.induct)
    (simp_all add: classify_next_def Let_def on_started_def fill_one_def group_throw_def on_prepared_def
      commit_one_def commit_result_def on_committed_def race_won_def end_group_def skip_one_def drained_def settle_keeps
      split: sum.splits option.splits prepared.splits)

theorem sched_reachable_ok:
  assumes "sched_reachable plan n st"
  shows "place_ok st \<and> settled_ok st \<and> sd_calls st = plan \<and> sd_max st = n"
  using assms
proof induction
  case (sched_begin signal)
  show ?case using ok_begin [of plan n signal] by (auto simp: settled_ok_def begin_calls_def)
next
  case (sched_next st st')
  then show ?case using settled_step place_step step_constants by metis
qed

section \<open>The work left\<close>

text \<open>
  A bound on the transitions still to come: what each call not yet started, committed and
  consumed can cost, the dispatches in flight, and the place in the loop.
\<close>

definition unsettled :: "sched \<Rightarrow> nat list" where
  "unsettled st = filter (\<lambda>i. i \<notin> set (sd_done st)) (sd_flight st)"

definition group_work :: "sched \<Rightarrow> nat" where
  "group_work st =
     3 * (length (sd_calls st) - sd_next st) + 11 * (length (sd_calls st) - (sd_next st + sd_started st))
       + 2 * (length (sd_calls st) - (sd_next st + sd_committed st)) + 5 * length (sd_flight st)
       + length (unsettled st)"

definition work :: "sched \<Rightarrow> nat" where
  "work st =
     (case sd_place st of
        AtClassify \<Rightarrow> 16 * (length (sd_calls st) - sd_next st) + 3
      | AtFill \<Rightarrow> group_work st + 2
      | AtPrepare i \<Rightarrow> group_work st + 12
      | AtStarted i \<Rightarrow> group_work st + 5
      | AtCommit \<Rightarrow> group_work st + 4
      | AtCommitted \<Rightarrow> group_work st + 3
      | AtFinalize \<Rightarrow> group_work st + 3
      | AtRace \<Rightarrow> group_work st + 1
      | AtSkip k \<Rightarrow> Suc (length (sd_calls st) - k)
      | AtDrain \<Rightarrow> group_work st + 1
      | Returned \<Rightarrow> 0
      | Threw e \<Rightarrow> 0) + (if sd_signal st then 0 else 1)"

lemma work_at:
  "sd_place st = AtClassify \<Longrightarrow> work st = 16 * (length (sd_calls st) - sd_next st) + 3 + (if sd_signal st then 0 else 1)"
  "sd_place st = AtFill \<Longrightarrow> work st = group_work st + 2 + (if sd_signal st then 0 else 1)"
  "sd_place st = AtPrepare i \<Longrightarrow> work st = group_work st + 12 + (if sd_signal st then 0 else 1)"
  "sd_place st = AtStarted i \<Longrightarrow> work st = group_work st + 5 + (if sd_signal st then 0 else 1)"
  "sd_place st = AtCommit \<Longrightarrow> work st = group_work st + 4 + (if sd_signal st then 0 else 1)"
  "sd_place st = AtCommitted \<Longrightarrow> work st = group_work st + 3 + (if sd_signal st then 0 else 1)"
  "sd_place st = AtFinalize \<Longrightarrow> work st = group_work st + 3 + (if sd_signal st then 0 else 1)"
  "sd_place st = AtRace \<Longrightarrow> work st = group_work st + 1 + (if sd_signal st then 0 else 1)"
  "sd_place st = AtSkip k \<Longrightarrow> work st = Suc (length (sd_calls st) - k) + (if sd_signal st then 0 else 1)"
  "sd_place st = AtDrain \<Longrightarrow> work st = group_work st + 1 + (if sd_signal st then 0 else 1)"
  "sd_place st = Returned \<Longrightarrow> work st = 0 + (if sd_signal st then 0 else 1)"
  "sd_place st = Threw e \<Longrightarrow> work st = 0 + (if sd_signal st then 0 else 1)"
  by (simp_all add: work_def)

lemma group_work_throw: "work (group_throw e st) = group_work st + 1 + (if sd_signal st then 0 else 1)"
  by (simp add: work_def group_throw_def group_work_def unsettled_def)

lemma work_classify: "place_ok st \<Longrightarrow> sd_place st = AtClassify \<Longrightarrow> work (classify_next parallel st) < work st"
  by (simp add: work_at classify_next_def group_work_def unsettled_def Let_def split: sum.splits)

lemma work_fill:
  assumes ok: "place_ok st" and at: "sd_place st = AtFill"
  shows "work (fill_one mode app st) < work st"
proof -
  have "work (group_throw e st) < work st" for e
    using at by (simp add: group_work_throw work_at)
  moreover have "work (st\<lparr>sd_place := AtRace\<rparr>) < work st"
    using at by (simp add: work_at group_work_def unsettled_def)
  moreover have "work (st\<lparr>sd_call_seqs := cs, sd_started := sd_started st + 1, sd_kinds := ks, sd_log := lg,
      sd_place := AtPrepare i\<rparr>) < work st" if "sd_start st < sd_size st" for cs ks lg i
  proof -
    have "sd_next st + sd_started st < length (sd_calls st)"
      using ok at that by (simp add: place_ok_def pool_ok_def group_ok_def)
    with at show ?thesis by (simp add: work_at group_work_def unsettled_def)
  qed
  ultimately show ?thesis
    by (simp add: fill_one_def split: sum.splits)
qed

lemma work_prepared:
  assumes at: "sd_place st = AtPrepare i"
  shows "work (on_prepared i answer st) < work st"
proof -
  have "work (group_throw e st) < work st" for e
    using at by (simp add: group_work_throw work_at)
  moreover have "work (st\<lparr>sd_flight := sd_flight st @ [i], sd_place := AtStarted i\<rparr>) < work st"
    using at by (simp add: work_at group_work_def unsettled_def)
  moreover have "work (st\<lparr>sd_slots := sl, sd_place := AtStarted i\<rparr>) < work st" for sl
    using at by (simp add: work_at group_work_def unsettled_def)
  ultimately show ?thesis
    by (cases answer; cases "sd_failure st") (simp_all add: on_prepared_def Let_def split: prepared.splits)
qed

lemma work_commit_result:
  assumes "pool_ok st" "sd_committed st < sd_started st" "sd_place st = AtCommit \<or> sd_place st = AtFinalize"
  shows "work (commit_result answer app accept st) < work st"
proof -
  have "sd_next st + sd_committed st < length (sd_calls st)"
    using assms(1,2) by (simp add: pool_ok_def group_ok_def)
  then have "work (st\<lparr>sd_log := lg, sd_contexts := cs, sd_group_concluded := g, sd_committed := sd_committed st + 1,
      sd_place := AtCommit\<rparr>) < work st" for lg cs g
    using assms(3) by (auto simp: work_at group_work_def unsettled_def)
  moreover have "work (group_throw e (st\<lparr>sd_log := lg, sd_contexts := cs\<rparr>)) < work st" "work (group_throw e st) < work st"
    for e lg cs
    using assms(3) by (auto simp: group_work_throw work_at group_work_def unsettled_def)
  ultimately show ?thesis
    by (simp add: commit_result_def Let_def split: sum.splits option.splits)
qed

lemma work_commit:
  assumes ok: "place_ok st" and at: "sd_place st = AtCommit"
  shows "work (commit_one answer app accept st) < work st"
proof -
  from ok at have pool: "pool_ok st" by (simp add: place_ok_def)
  have "sd_committed st < sd_started st" if "sd_committed st < sd_size st" "sd_slots st ! sd_committed st \<noteq> None"
    using pool that by (simp add: pool_ok_def group_ok_def)
  with work_commit_result [OF pool] at have "work (commit_result answer app accept st) < work st"
    if "sd_committed st < sd_size st" "sd_slots st ! sd_committed st \<noteq> None"
    using that by blast
  moreover have "work (st\<lparr>sd_place := AtFinalize\<rparr>) < work st" "work (st\<lparr>sd_place := AtCommitted\<rparr>) < work st"
    using at by (simp_all add: work_at group_work_def unsettled_def)
  ultimately show ?thesis
    by (simp add: commit_one_def split: option.splits)
qed

lemma work_race:
  assumes "place_ok st" "sd_place st = AtRace" "i \<in> set (sd_flight st)" "i \<in> set (sd_done st)"
  shows "work (race_won i st) < work st"
proof -
  have "unsettled (st\<lparr>sd_flight := remove1 i (sd_flight st)\<rparr>) = unsettled st"
    using assms(4) by (simp add: unsettled_def filter_remove1)
  moreover have "length (sd_flight st) = Suc (length (remove1 i (sd_flight st)))"
    using assms(3) length_pos_if_in_set [OF assms(3)] by (simp add: length_remove1)
  ultimately show ?thesis
    using assms(2) by (cases "sd_failure st")
      (simp_all add: race_won_def group_work_throw work_at group_work_def unsettled_def)
qed

lemma work_end_group:
  assumes ok: "place_ok st" and at: "sd_place st = AtRace" and idle: "sd_flight st = []" and max: "0 < sd_max st"
  shows "work (end_group st) < work st"
proof -
  have g: "0 < sd_size st" "sd_next st + sd_size st \<le> length (sd_calls st)" "sd_started st \<le> sd_size st"
    "sd_aborted st \<or> 0 < sd_started st" "sd_committed st = sd_started st"
    using ok at idle max by (auto simp: place_ok_def pool_ok_def group_ok_def frontier_ok_def)
  then show ?thesis
    using at idle by (auto simp: end_group_def work_at group_work_def unsettled_def)
qed

lemma work_settle:
  assumes "awaits (sd_place st)" "i \<in> set (sd_flight st)" "i \<notin> set (sd_done st)"
  shows "work (settle_dispatch i outcome st) < work st"
proof -
  have "unsettled (settle_dispatch i outcome st) = filter (\<lambda>j. j \<noteq> i) (unsettled st)"
    unfolding unsettled_def settle_keeps filter_filter by (rule filter_cong) auto
  moreover have "i \<in> set (unsettled st)" using assms by (simp add: unsettled_def)
  ultimately have "length (unsettled (settle_dispatch i outcome st)) < length (unsettled st)"
    using length_filter_less [of i "unsettled st" "\<lambda>j. j \<noteq> i"] by simp
  then have "group_work (settle_dispatch i outcome st) < group_work st"
    by (simp add: group_work_def settle_keeps)
  with assms(1) show ?thesis
    by (cases "sd_place st") (simp_all add: work_at settle_keeps)
qed

lemma work_step:
  assumes ok: "place_ok st" and max: "0 < sd_max st" and step: "sched_step st st'"
  shows "work st' < work st"
  using step
proof cases
  case (step_started i)
  with ok show ?thesis
    by (cases "sd_failure st") (simp_all add: on_started_def group_work_throw work_at group_work_def unsettled_def)
next
  case step_committed
  with ok show ?thesis
    by (cases "sd_failure st") (simp_all add: on_committed_def group_work_throw work_at group_work_def unsettled_def)
next
  case (step_finalized answer app accept)
  with ok work_commit_result show ?thesis by (simp add: place_ok_def)
next
  case (step_skip k app1 app2)
  with ok show ?thesis by (auto simp: skip_one_def work_at Let_def split: sum.splits)
next
  case step_drained
  then show ?thesis by (simp add: drained_def work_at)
next
  case step_abort
  then show ?thesis by (cases "sd_place st") (simp_all add: work_at group_work_def unsettled_def)
qed (use ok max work_classify work_fill work_prepared work_commit work_race work_end_group work_settle in blast)+

section \<open>What the log says\<close>

definition called :: "call_entry list \<Rightarrow> nat list" where
  "called lg = concat (map (\<lambda>e. case e of CallEntry i s \<Rightarrow> [i] | ResultEntry i c r s \<Rightarrow> []) lg)"

definition answered :: "call_entry list \<Rightarrow> nat list" where
  "answered lg = concat (map (\<lambda>e. case e of CallEntry i s \<Rightarrow> [] | ResultEntry i c r s \<Rightarrow> [i]) lg)"

definition outcomes :: "call_entry list \<Rightarrow> tool_outcome list" where
  "outcomes lg = concat (map (\<lambda>e. case e of CallEntry i s \<Rightarrow> [] | ResultEntry i c r s \<Rightarrow> [r]) lg)"

text \<open>Every result cites the sequence number of the call it answers.\<close>

definition cites :: "call_entry list \<Rightarrow> bool" where
  "cites lg \<longleftrightarrow> (\<forall>i c r s. ResultEntry i c r s \<in> set lg \<longrightarrow> (\<exists>s'. CallEntry i s' \<in> set lg \<and> st_seq s' = c))"

lemma log_snoc:
  "called (lg @ [CallEntry i s]) = called lg @ [i]" "called (lg @ [ResultEntry i c r s]) = called lg"
  "answered (lg @ [CallEntry i s]) = answered lg" "answered (lg @ [ResultEntry i c r s]) = answered lg @ [i]"
  "outcomes (lg @ [CallEntry i s]) = outcomes lg" "outcomes (lg @ [ResultEntry i c r s]) = outcomes lg @ [r]"
  "called [] = []" "answered [] = []" "outcomes [] = []"
  by (simp_all add: called_def answered_def outcomes_def)

definition queued :: "call_entry list \<Rightarrow> (nat \<times> int) list \<Rightarrow> bool" where
  "queued lg q \<longleftrightarrow> (\<forall>i c. (i, c) \<in> set q \<longrightarrow> (\<exists>s. CallEntry i s \<in> set lg \<and> st_seq s = c))"

lemma fifo_shape:
  "fifo lg = Inr (q, m) \<Longrightarrow>
     called lg = [0..<m] \<and> answered lg @ map fst q = [0..<m] \<and> queued lg q \<and> cites lg"
proof (induction lg arbitrary: q m rule: rev_induct)
  case Nil
  then show ?case by (simp add: fifo_Nil log_snoc queued_def cites_def)
next
  case (snoc e lg)
  then obtain q0 m0 where f: "fifo lg = Inr (q0, m0)" and step: "fifo_step (q0, m0) e = Inr (q, m)"
    by (cases "fifo lg") (auto simp: fifo_snoc)
  from snoc.IH [OF f] have ih: "called lg = [0..<m0]" "answered lg @ map fst q0 = [0..<m0]" "queued lg q0" "cites lg"
    by simp_all
  show ?case
  proof (cases e)
    case (CallEntry i s)
    with step have "i = m0" "q = q0 @ [(m0, st_seq s)]" "m = Suc m0" by (auto split: if_splits)
    with CallEntry ih show ?thesis by (auto simp: log_snoc queued_def cites_def) metis
  next
    case (ResultEntry i c r s)
    with step have "q0 = (i, c) # q" "m = m0" by (auto split: list.splits if_splits)
    with ResultEntry ih show ?thesis by (auto simp: log_snoc queued_def cites_def)
  qed
qed

lemma fifo_reachable:
  assumes "sched_reachable plan n st"
  shows "\<exists>q m. fifo (sd_log st) = Inr (q, m) \<and> m \<le> length plan \<and> (sd_place st = Returned \<longrightarrow> q = [] \<and> m = length plan)"
proof -
  have ok: "place_ok st" "sd_calls st = plan" using sched_reachable_ok [OF assms] by auto
  have group: "sd_next st + sd_started st \<le> length plan" if "group_ok st"
    using that ok(2) by (simp add: group_ok_def)
  show ?thesis
    using ok group by (cases "sd_place st") (auto simp: place_ok_def pool_ok_def)
qed

text \<open>The contexts accepted and the conclusion are those of the results in the log.\<close>

definition reported :: "sched \<Rightarrow> bool" where
  "reported st \<longleftrightarrow>
     sd_contexts st = concat (map to_contexts (outcomes (sd_log st))) \<and>
     (sd_concluded st \<or> sd_group_concluded st) = (\<exists>r \<in> set (outcomes (sd_log st)). to_concludes r)"

fun report_at :: "place \<Rightarrow> sched \<Rightarrow> bool" where
  "report_at AtDrain st = True"
| "report_at (Threw e) st = True"
| "report_at AtClassify st = (reported st \<and> (sd_group_concluded st \<longrightarrow> sd_concluded st))"
| "report_at Returned st = (reported st \<and> (sd_group_concluded st \<longrightarrow> sd_concluded st))"
| "report_at (AtSkip k) st = (reported st \<and> (sd_group_concluded st \<longrightarrow> sd_concluded st))"
| "report_at _ st = reported st"

lemma report_throw: "report_at (sd_place (group_throw e st)) (group_throw e st)"
  by (simp add: group_throw_def)

lemma outcomes_two: "outcomes (lg @ [CallEntry i s, ResultEntry j c r s']) = outcomes lg @ [r]"
  by (simp add: outcomes_def)

lemma report_commit_result:
  "reported st \<Longrightarrow> report_at (sd_place (commit_result answer app accept st)) (commit_result answer app accept st)"
  using report_throw by (auto simp: commit_result_def reported_def log_snoc Let_def split: sum.splits option.splits)

lemma report_step:
  assumes ok: "report_at (sd_place st) st" and step: "sched_step st st'"
  shows "report_at (sd_place st') st'"
  using step
proof cases
  case (step_classify parallel)
  with ok show ?thesis by (auto simp: reported_def classify_next_def Let_def split: sum.splits)
next
  case (step_fill mode app)
  with ok report_throw show ?thesis by (simp add: reported_def fill_one_def log_snoc split: sum.splits)
next
  case (step_prepared i answer)
  with ok report_throw show ?thesis
    by (simp add: reported_def on_prepared_def Let_def split: sum.splits option.splits prepared.splits)
next
  case (step_started i)
  with ok report_throw show ?thesis by (simp add: reported_def on_started_def Let_def split: option.splits)
next
  case (step_commit answer app accept)
  with ok have "reported st" by simp
  with step_commit report_commit_result [of st] show ?thesis
    by (auto simp: commit_one_def reported_def split: option.splits if_splits)
next
  case step_committed
  with ok report_throw show ?thesis by (simp add: reported_def on_committed_def split: option.splits)
next
  case (step_finalized answer app accept)
  with ok report_commit_result show ?thesis by simp
next
  case (step_race i)
  with ok report_throw show ?thesis by (simp add: reported_def race_won_def Let_def split: option.splits)
next
  case step_end_group
  with ok show ?thesis by (auto simp: reported_def end_group_def)
next
  case (step_skip k app1 app2)
  with ok show ?thesis
    by (auto simp: reported_def skip_one_def log_snoc outcomes_two skipped_result_def Let_def split: sum.splits)
next
  case step_drained
  then show ?thesis by (simp add: drained_def)
next
  case (step_settle i outcome)
  with ok show ?thesis
    by (cases "sd_place st") (simp_all add: settle_keeps reported_def)
next
  case step_abort
  with ok show ?thesis by (cases "sd_place st") (simp_all add: reported_def)
qed

lemma report_reachable: "sched_reachable plan n st \<Longrightarrow> report_at (sd_place st) st"
  by (induction rule: sched_reachable.induct) (auto simp: begin_calls_def reported_def log_snoc intro: report_step)

section \<open>The events in the session log\<close>

fun entry_seq :: "call_entry \<Rightarrow> int" where
  "entry_seq (CallEntry i s) = st_seq s"
| "entry_seq (ResultEntry i c r s) = st_seq s"

definition pending_ids :: "tool_call list \<Rightarrow> (nat \<times> int) list \<Rightarrow> string list" where
  "pending_ids plan q = map (\<lambda>p. tc_id (plan ! fst p)) q"

lemma trace_call:
  assumes "tr_openTurn tr = Some turn" "tr_openStep tr = Some step" "tr_lastSeq tr < st_seq s"
    and "tc_id (plan ! i) \<notin> set (tr_pending tr)"
  shows "trace_step tr (entry_event turn step plan (CallEntry i s)) =
    Inr (tr\<lparr>tr_lastSeq := st_seq s, tr_pending := tr_pending tr @ [tc_id (plan ! i)]\<rparr>)"
  using assms
  by (simp add: trace_step_def validateEvent_def keep_transition_def requireOpenStep_def applyTransition_def Let_def)

lemma trace_result:
  assumes "tr_openTurn tr = Some turn" "tr_openStep tr = Some step" "tr_lastSeq tr < st_seq s"
    and "tc_id (plan ! i) \<in> set (tr_pending tr)"
  shows "trace_step tr (entry_event turn step plan (ResultEntry i c r s)) =
    Inr (tr\<lparr>tr_lastSeq := st_seq s, tr_pending := filter (\<lambda>x. x \<noteq> tc_id (plan ! i)) (tr_pending tr)\<rparr>)"
  using assms
  by (simp add: trace_step_def validateEvent_def keep_transition_def requireOpenStep_def applyTransition_def
      createToolResultMessage_def Let_def)

lemma same_id:
  assumes "distinct (map tc_id plan)" "i < length plan" "j < length plan"
  shows "tc_id (plan ! i) = tc_id (plan ! j) \<longleftrightarrow> i = j"
  using assms nth_eq_iff_index_eq [of "map tc_id plan" i j] by simp

lemma pending_other:
  assumes "distinct (map tc_id plan)" "i < length plan" "i \<notin> set (map fst q)" "set (map fst q) \<subseteq> {..<m}" "m \<le> length plan"
  shows "tc_id (plan ! i) \<notin> set (pending_ids plan q)"
proof
  assume "tc_id (plan ! i) \<in> set (pending_ids plan q)"
  then obtain p where p: "p \<in> set q" "tc_id (plan ! i) = tc_id (plan ! fst p)"
    by (auto simp: pending_ids_def)
  then have "fst p < length plan" using assms(4,5) by fastforce
  with p assms(1-3) show False using same_id by fastforce
qed

lemma fresh_id: "set (map tc_id plan) \<inter> X = {} \<Longrightarrow> i < length plan \<Longrightarrow> tc_id (plan ! i) \<notin> X"
  by (metis IntI empty_iff length_map nth_map nth_mem)

lemma filter_other: "x \<notin> set xs \<Longrightarrow> filter (\<lambda>y. y \<noteq> x) xs = xs"
  by (rule filter_True) auto

lemma pending_later:
  assumes "distinct (map tc_id plan)" "m < length plan" "set (map fst q) \<subseteq> {..<m}"
  shows "tc_id (plan ! m) \<notin> set (pending_ids plan q)"
  by (rule pending_other [OF assms(1,2) _ assms(3)]) (use assms in auto)

text \<open>One entry: what it does to the queue it does to the pending calls of the trace.\<close>

lemma entry_trace:
  assumes open_step: "tr_openTurn tr = Some turn" "tr_openStep tr = Some step" "tr_lastSeq tr < entry_seq e"
    and dist: "distinct (map tc_id plan)" and fresh: "set (map tc_id plan) \<inter> set ps = {}"
    and pending: "tr_pending tr = ps @ pending_ids plan q0"
    and f: "fifo lg = Inr (q0, m0)" and st: "fifo_step (q0, m0) e = Inr (q, m)" and m: "m \<le> length plan"
  shows "trace_step tr (entry_event turn step plan e) =
    Inr (tr\<lparr>tr_lastSeq := entry_seq e, tr_pending := ps @ pending_ids plan q\<rparr>)"
proof -
  have shape: "answered lg @ map fst q0 = [0..<m0]" using fifo_shape [OF f] by simp
  then have dq: "distinct (map fst q0)" "set (map fst q0) \<subseteq> {..<m0}"
    by (metis distinct_append distinct_upt, metis Un_upper2 atLeast_upt set_append)
  show ?thesis
  proof (cases e)
    case (CallEntry i s)
    with st have i: "i = m0" "q = q0 @ [(m0, st_seq s)]" "m = Suc m0" by (auto split: if_splits)
    have "m0 < length plan" using i(3) m by simp
    then have "tc_id (plan ! m0) \<notin> set ps" using fresh_id [OF fresh] by blast
    with pending_later [OF dist \<open>m0 < length plan\<close> dq(2)] pending have "tc_id (plan ! m0) \<notin> set (tr_pending tr)" by simp
    with CallEntry i open_step pending show ?thesis
      by (subst CallEntry, subst trace_call) (simp_all add: pending_ids_def)
  next
    case (ResultEntry i c r s)
    with st have i: "q0 = (i, c) # q" "m = m0" by (auto split: list.splits if_splits)
    have "i < length plan" using dq(2) i m by auto
    then have "tc_id (plan ! i) \<notin> set ps" using fresh_id [OF fresh] by blast
    moreover have "tc_id (plan ! i) \<notin> set (pending_ids plan q)"
      using dq i m pending_other [OF dist, of i q m] \<open>i < length plan\<close> by simp
    ultimately have "filter (\<lambda>x. x \<noteq> tc_id (plan ! i)) (tr_pending tr) = ps @ pending_ids plan q"
      using filter_other [of "tc_id (plan ! i)" ps] filter_other [of "tc_id (plan ! i)" "pending_ids plan q"]
      by (simp add: pending i(1) pending_ids_def)
    with ResultEntry i open_step pending show ?thesis
      by (subst ResultEntry, subst trace_result) (simp_all add: pending_ids_def)
  qed
qed

lemma fifo_trace:
  assumes open_step: "tr_openTurn tr = Some turn" "tr_openStep tr = Some step"
    and dist: "distinct (map tc_id plan)" and fresh: "set (map tc_id plan) \<inter> set (tr_pending tr) = {}"
  shows "fifo lg = Inr (q, m) \<Longrightarrow> m \<le> length plan \<Longrightarrow> sorted_wrt (<) (tr_lastSeq tr # map entry_seq lg) \<Longrightarrow>
    replay trace_step tr (map (entry_event turn step plan) lg) =
      Inr (tr\<lparr>tr_lastSeq := last (tr_lastSeq tr # map entry_seq lg), tr_pending := tr_pending tr @ pending_ids plan q\<rparr>)"
proof (induction lg arbitrary: q m rule: rev_induct)
  case Nil
  then show ?case by (simp add: fifo_Nil pending_ids_def)
next
  case (snoc e lg)
  then obtain q0 m0 where f: "fifo lg = Inr (q0, m0)" and st: "fifo_step (q0, m0) e = Inr (q, m)"
    by (cases "fifo lg") (auto simp: fifo_snoc)
  then have m: "m0 \<le> m" by (cases e) (auto split: list.splits if_splits)
  from snoc.prems(3) have seqs: "sorted_wrt (<) (tr_lastSeq tr # map entry_seq lg)"
    "last (tr_lastSeq tr # map entry_seq lg) < entry_seq e"
    by (auto simp: sorted_wrt_append last_map)
  let ?tr0 = "tr\<lparr>tr_lastSeq := last (tr_lastSeq tr # map entry_seq lg), tr_pending := tr_pending tr @ pending_ids plan q0\<rparr>"
  have ih: "replay trace_step tr (map (entry_event turn step plan) lg) = Inr ?tr0"
    using snoc.IH [OF f] m snoc.prems(2) seqs by simp
  have "trace_step ?tr0 (entry_event turn step plan e) = Inr (?tr0\<lparr>tr_lastSeq := entry_seq e,
      tr_pending := tr_pending tr @ pending_ids plan q\<rparr>)"
    by (rule entry_trace [OF _ _ _ dist fresh _ f st snoc.prems(2)]) (use open_step seqs in simp_all)
  then show ?case by (simp add: replay_snoc ih)
qed

section \<open>Runs\<close>

text \<open>A run as a list of moves, for evaluation.\<close>

datatype sched_move =
    MClassify "(string, bool) result"
  | MFill "(string, bool) result" "(string, stamp) result"
  | MPrepared "(string, prepared) result"
  | MStarted
  | MCommit "(string, tool_outcome) result" "(string, stamp) result" "(nat \<times> string) option"
  | MCommitted
  | MRace nat
  | MEnd
  | MSkip "(string, stamp) result" "(string, stamp) result"
  | MDrained
  | MSettle nat "(string, slot) result"
  | MAbort

fun move :: "sched_move \<Rightarrow> sched \<Rightarrow> sched option" where
  "move (MClassify r) st = (if sd_place st = AtClassify then Some (classify_next r st) else None)"
| "move (MFill m a) st = (if sd_place st = AtFill then Some (fill_one m a st) else None)"
| "move (MPrepared a) st = (case sd_place st of AtPrepare i \<Rightarrow> Some (on_prepared i a st) | _ \<Rightarrow> None)"
| "move MStarted st = (case sd_place st of AtStarted i \<Rightarrow> Some (on_started i st) | _ \<Rightarrow> None)"
| "move (MCommit r a c) st =
     (if sd_place st = AtCommit then Some (commit_one r a c st)
      else if sd_place st = AtFinalize then Some (commit_result r a c st) else None)"
| "move MCommitted st = (if sd_place st = AtCommitted then Some (on_committed st) else None)"
| "move (MRace i) st =
     (if sd_place st = AtRace \<and> i \<in> set (sd_flight st) \<and> i \<in> set (sd_done st) then Some (race_won i st) else None)"
| "move MEnd st = (if sd_place st = AtRace \<and> sd_flight st = [] then Some (end_group st) else None)"
| "move (MSkip a b) st = (case sd_place st of AtSkip k \<Rightarrow> Some (skip_one k a b st) | _ \<Rightarrow> None)"
| "move MDrained st =
     (if sd_place st = AtDrain \<and> set (sd_flight st) \<subseteq> set (sd_done st) then Some (drained st) else None)"
| "move (MSettle i r) st =
     (if awaits (sd_place st) \<and> i \<in> set (sd_flight st) \<and> i \<notin> set (sd_done st) then Some (settle_dispatch i r st) else None)"
| "move MAbort st = (if sd_signal st then None else Some (st\<lparr>sd_signal := True\<rparr>))"

fun moves :: "sched_move list \<Rightarrow> sched \<Rightarrow> sched option" where
  "moves [] st = Some st"
| "moves (m # ms) st = (case move m st of None \<Rightarrow> None | Some st' \<Rightarrow> moves ms st')"

lemma move_step: "move m st = Some st' \<Longrightarrow> sched_step st st'"
  by (cases m) (auto intro: sched_step.intros split: place.splits if_splits)

lemma moves_reach: "sched_reachable plan n st \<Longrightarrow> moves ms st = Some st' \<Longrightarrow> sched_reachable plan n st'"
  by (induction ms arbitrary: st) (auto split: option.splits dest: move_step intro: sched_next)

lemma moves_reachable: "moves ms (begin_calls plan n sig) = Some st \<Longrightarrow> sched_reachable plan n st"
  by (rule moves_reach [OF sched_begin])

text \<open>Every step is a move.\<close>

lemma step_is_move: "sched_step st st' \<Longrightarrow> \<exists>m. move m st = Some st'"
proof (induction rule: sched_step.induct)
  case (step_classify st parallel)
  then show ?case by (intro exI [of _ "MClassify parallel"]) simp
next
  case (step_fill st mode app)
  then show ?case by (intro exI [of _ "MFill mode app"]) simp
next
  case (step_prepared st i answer)
  then show ?case by (intro exI [of _ "MPrepared answer"]) simp
next
  case (step_started st i)
  then show ?case by (intro exI [of _ MStarted]) simp
next
  case (step_commit st answer app accept)
  then show ?case by (intro exI [of _ "MCommit answer app accept"]) simp
next
  case (step_committed st)
  then show ?case by (intro exI [of _ MCommitted]) simp
next
  case (step_finalized st answer app accept)
  then show ?case by (intro exI [of _ "MCommit answer app accept"]) simp
next
  case (step_race st i)
  then show ?case by (intro exI [of _ "MRace i"]) simp
next
  case (step_end_group st)
  then show ?case by (intro exI [of _ MEnd]) simp
next
  case (step_skip st k app1 app2)
  then show ?case by (intro exI [of _ "MSkip app1 app2"]) simp
next
  case (step_drained st)
  then show ?case by (intro exI [of _ MDrained]) simp
next
  case (step_settle st i outcome)
  then show ?case by (intro exI [of _ "MSettle i outcome"]) simp
next
  case (step_abort st)
  then show ?case by (intro exI [of _ MAbort]) simp
qed

definition sample_plan :: "tool_call list" where
  "sample_plan = [\<lparr>tc_id = ''a'', tc_name = ''read'', tc_args = ''{}''\<rparr>, \<lparr>tc_id = ''b'', tc_name = ''grep'', tc_args = ''{}''\<rparr>]"

definition sample_outcome :: "string \<Rightarrow> tool_outcome" where
  "sample_outcome t = \<lparr>to_content = [TextBlock t], to_is_error = False, to_info = None, to_meta = None,
     to_contexts = [], to_concludes = False\<rparr>"

definition sample_stamp :: "int \<Rightarrow> (string, stamp) result" where
  "sample_stamp q = Inr \<lparr>st_seq = q, st_time = 0, st_id = ''m''\<rparr>"

text \<open>Two calls in parallel; the second settles first, the results are committed in order.\<close>

definition sample_moves :: "sched_move list" where
  "sample_moves =
     (let dispatch = [MPrepared (Inr PrepDispatch), MStarted, MCommit (Inl []) (Inl []) None];
          slot = (\<lambda>t post. Inr \<lparr>sl_result = sample_outcome t, sl_needs_post = post\<rparr>);
          fill = MFill (Inr True); idle = MFill (Inr True) (Inl []) in
      [MClassify (Inr True), fill (sample_stamp 10)] @ dispatch @ [MCommitted, fill (sample_stamp 11)] @ dispatch
      @ [MSettle 1 (slot ''two'' True), MCommitted, idle, MRace 1, MCommit (Inl []) (Inl []) None, MCommitted, idle,
         MSettle 0 (slot ''one'' False), MRace 0, MCommit (Inr (sample_outcome ''one'')) (sample_stamp 12) None,
         MCommit (Inl []) (Inl []) None, MCommit (Inr (sample_outcome ''TWO'')) (sample_stamp 13) None,
         MCommit (Inl []) (Inl []) None, MCommitted, idle, MEnd, MClassify (Inr True)])"

definition sample_end :: sched where
  "sample_end = the (moves sample_moves (begin_calls sample_plan 2 False))"

lemma sample_end_reachable: "sched_reachable sample_plan 2 sample_end"
proof (rule moves_reachable)
  show "moves sample_moves (begin_calls sample_plan 2 False) = Some sample_end"
    by code_simp
qed

lemma sample_end_place: "sd_place sample_end = Returned \<and> answered (sd_log sample_end) = [0, 1]"
  by code_simp

section \<open>Properties\<close>

text \<open>C36. The scheduler answers the calls of the model in order: at any point the calls recorded
  and the results recorded are the first ones of the plan, each once and in order, and every
  result cites the event of its own call. When it returns, cancelled or not, every call of
  the plan has been recorded and answered.\<close>

theorem calls_answered_in_order:
  assumes "sched_reachable plan n st"
  shows "called (sd_log st) = [0..<length (called (sd_log st))]
    \<and> answered (sd_log st) = [0..<length (answered (sd_log st))]
    \<and> length (answered (sd_log st)) \<le> length (called (sd_log st)) \<and> length (called (sd_log st)) \<le> length plan
    \<and> cites (sd_log st)
    \<and> (sd_place st = Returned \<longrightarrow> called (sd_log st) = [0..<length plan] \<and> answered (sd_log st) = [0..<length plan])"
proof -
  obtain q m where f: "fifo (sd_log st) = Inr (q, m)" "m \<le> length plan"
    "sd_place st = Returned \<Longrightarrow> q = [] \<and> m = length plan"
    using fifo_reachable [OF assms] by blast
  from fifo_shape [OF f(1)] have shape: "called (sd_log st) = [0..<m]" "answered (sd_log st) @ map fst q = [0..<m]"
    "cites (sd_log st)" by simp_all
  then have k: "length (answered (sd_log st)) \<le> m" by (metis diff_zero length_append length_upt le_add1)
  then have "answered (sd_log st) = [0..<length (answered (sd_log st))]"
    using shape(2) by (metis append_eq_conv_conj take_upt add_0)
  with shape k f(2,3) show ?thesis by auto
qed

lemma calls_answered_in_order_witness:
  "called (sd_log sample_end) = [0..<2] \<and> cites (sd_log sample_end)"
  using calls_answered_in_order [OF sample_end_reachable] sample_end_place by (simp add: sample_plan_def numeral_2_eq_2)

lemma pool_group:
  assumes "group_ok st"
  shows "length (sd_flight st) \<le> sd_max st \<and> distinct (sd_flight st)
    \<and> (\<forall>i \<in> set (sd_flight st). i < length (sd_kinds st) \<and> (1 < length (sd_flight st) \<longrightarrow> sd_kinds st ! i))"
proof -
  have g: "distinct (sd_flight st)" "set (sd_flight st) \<subseteq> {..<sd_started st}" "length (sd_flight st) \<le> sd_max st"
    "length (sd_kinds st) = sd_started st" "\<forall>k \<in> set (sd_kinds st). k = sd_parallel st" "sd_started st \<le> sd_size st"
    "sd_parallel st \<or> sd_size st = 1"
    using assms by (simp_all add: group_ok_def)
  have "length (sd_flight st) \<le> sd_started st"
    using g(1,2) by (metis card_lessThan card_mono distinct_card finite_lessThan)
  then have "sd_parallel st" if "1 < length (sd_flight st)" using g(6,7) that by auto
  then show ?thesis using g by (auto simp: subset_iff)
qed

text \<open>The environment answers somehow, and settles what is awaited.\<close>

lemma keeps_signal:
  "sd_signal (classify_next r st) = sd_signal st" "sd_signal (fill_one r a st) = sd_signal st"
  "sd_signal (on_prepared i p st) = sd_signal st" "sd_signal (on_started i st) = sd_signal st"
  "sd_signal (commit_one t a c st) = sd_signal st" "sd_signal (on_committed st) = sd_signal st"
  "sd_signal (commit_result t a c st) = sd_signal st" "sd_signal (race_won i st) = sd_signal st"
  "sd_signal (end_group st) = sd_signal st" "sd_signal (skip_one k a b st) = sd_signal st"
  "sd_signal (drained st) = sd_signal st" "sd_signal (settle_dispatch i o' st) = sd_signal st"
  by (simp_all add: classify_next_def fill_one_def on_prepared_def on_started_def commit_one_def commit_result_def
      on_committed_def race_won_def end_group_def skip_one_def drained_def settle_keeps group_throw_def Let_def
      split: sum.splits option.splits prepared.splits)

lemma sched_progress:
  assumes "sd_place st \<noteq> Returned" "\<forall>e. sd_place st \<noteq> Threw e"
  shows "\<exists>st'. sched_step st st' \<and> sd_signal st' = sd_signal st"
proof (cases "sd_place st")
  case AtRace
  then show ?thesis
    using step_end_group step_race step_settle keeps_signal awaits.simps
    by (metis list.set_intros(1) neq_Nil_conv)
next
  case AtDrain
  then show ?thesis
    using step_drained step_settle keeps_signal awaits.simps by (metis subsetI)
qed (use assms keeps_signal sched_step.intros in metis)+

text \<open>C37. The pool is bounded and exclusive calls are barriers: at most the configured number of
  dispatches is in flight, each a call recorded as started, and when there is more than one,
  every one of them was started as a parallel call.\<close>

theorem pool_bounded:
  assumes "sched_reachable plan n st"
  shows "length (sd_flight st) \<le> n \<and> distinct (sd_flight st)
    \<and> (\<forall>i \<in> set (sd_flight st). i < length (sd_kinds st) \<and> (1 < length (sd_flight st) \<longrightarrow> sd_kinds st ! i))"
proof -
  have ok: "place_ok st" "sd_max st = n" using sched_reachable_ok [OF assms] by auto
  have "group_ok st \<or> sd_flight st = []"
    using ok(1) by (cases "sd_place st") (auto simp: place_ok_def pool_ok_def)
  then show ?thesis using pool_group ok(2) by force
qed

definition sample_mid :: sched where
  "sample_mid = the (moves (take 8 sample_moves) (begin_calls sample_plan 2 False))"

lemma sample_mid_reachable: "sched_reachable sample_plan 2 sample_mid"
proof (rule moves_reachable)
  show "moves (take 8 sample_moves) (begin_calls sample_plan 2 False) = Some sample_mid"
    by code_simp
qed

lemma sample_mid_flight: "sd_flight sample_mid = [0, 1]"
  by code_simp

lemma pool_bounded_witness: "sd_kinds sample_mid ! 1"
  using pool_bounded [OF sample_mid_reachable] sample_mid_flight by simp

text \<open>No dispatch outlives the scheduler: when it has returned, none is in flight, and when it
  throws, every dispatch in flight has settled. It throws the internal error about uncommitted
  calls never.\<close>

theorem dispatches_drained:
  assumes "sched_reachable plan n st"
  shows "(sd_place st = Returned \<longrightarrow> sd_flight st = []) \<and> (\<forall>e. sd_place st = Threw e \<longrightarrow> set (sd_flight st) \<subseteq> set (sd_done st))
    \<and> (sd_place st = AtRace \<and> sd_flight st = [] \<longrightarrow> sd_place (end_group st) \<noteq> Threw ''tool-call scheduler: uncommitted settled calls'')"
  using sched_reachable_ok [OF assms] ok_end_group [of st] by (auto simp: place_ok_def)

lemma dispatches_drained_witness: "sd_flight sample_end = []"
  using dispatches_drained [OF sample_end_reachable] sample_end_place by simp

text \<open>C38. The scheduler ends: with a positive bound every run is finite, whatever the tools answer,
  and as long as it has not returned or thrown it can go on without a cancellation.\<close>

theorem scheduler_terminates:
  assumes "0 < n"
  shows "wf {(st', st). sched_reachable plan n st \<and> sched_step st st'}
    \<and> (\<forall>st. sched_reachable plan n st \<and> sd_place st \<noteq> Returned \<and> (\<forall>e. sd_place st \<noteq> Threw e) \<longrightarrow>
          (\<exists>st'. sched_step st st' \<and> sd_signal st' = sd_signal st))"
proof -
  have "{(st', st). sched_reachable plan n st \<and> sched_step st st'} \<subseteq> measure work"
    using work_step sched_reachable_ok assms by (fastforce simp: in_measure)
  then show ?thesis using wf_subset [OF wf_measure] sched_progress by blast
qed

lemma scheduler_terminates_witness:
  "wf {(st', st). sched_reachable sample_plan 2 st \<and> sched_step st st'} \<and> (\<exists>st'. sched_step sample_mid st' \<and> \<not> sd_signal st')"
proof -
  have "\<not> sd_signal sample_mid \<and> sd_place sample_mid = AtStarted 1" by code_simp
  then show ?thesis using scheduler_terminates [of 2 sample_plan] sample_mid_reachable by fastforce
qed

text \<open>When the scheduler returns, it has accepted exactly the contexts of the results in the
  log, in order, and reports the turn as concluded exactly when one of them says so.\<close>

theorem scheduler_reports:
  assumes "sched_reachable plan n st" "sd_place st = Returned"
  shows "sd_contexts st = concat (map to_contexts (outcomes (sd_log st)))
    \<and> (sd_concluded st \<longleftrightarrow> (\<exists>r \<in> set (outcomes (sd_log st)). to_concludes r))"
  using report_reachable [OF assms(1)] assms(2) by (auto simp: reported_def)

lemma scheduler_reports_witness: "\<not> sd_concluded sample_end"
proof -
  have "\<not> (\<exists>r \<in> set (outcomes (sd_log sample_end)). to_concludes r)" by code_simp
  then show ?thesis using scheduler_reports [OF sample_end_reachable] sample_end_place by simp
qed

text \<open>C39. What the scheduler writes is a legal stretch of the session log: inside an open step, with
  call identities that are distinct and not pending, the trace invariants accept its events,
  the calls pending are those not yet answered, and after it returns none of its own.\<close>

theorem scheduled_log_accepted:
  assumes "sched_reachable plan n st" "tr_openTurn tr = Some turn" "tr_openStep tr = Some step"
    and "distinct (map tc_id plan)" "set (map tc_id plan) \<inter> set (tr_pending tr) = {}"
    and "sorted_wrt (<) (tr_lastSeq tr # map entry_seq (sd_log st))"
  shows "\<exists>tr'. replay trace_step tr (map (entry_event turn step plan) (sd_log st)) = Inr tr'
    \<and> tr_openTurn tr' = Some turn \<and> tr_openStep tr' = Some step
    \<and> tr_pending tr' = tr_pending tr @ map (\<lambda>i. tc_id (plan ! i)) [length (answered (sd_log st))..<length (called (sd_log st))]
    \<and> (sd_place st = Returned \<longrightarrow> tr_pending tr' = tr_pending tr)"
proof -
  obtain q m where f: "fifo (sd_log st) = Inr (q, m)" "m \<le> length plan"
    "sd_place st = Returned \<Longrightarrow> q = [] \<and> m = length plan"
    using fifo_reachable [OF assms(1)] by blast
  from fifo_shape [OF f(1)] have "map fst q = [length (answered (sd_log st))..<length (called (sd_log st))]"
    by (metis append_eq_conv_conj drop_upt add_0 diff_zero length_upt)
  then have "pending_ids plan q = map (\<lambda>i. tc_id (plan ! i)) [length (answered (sd_log st))..<length (called (sd_log st))]"
    by (metis (no_types, lifting) pending_ids_def map_map comp_apply map_eq_conv)
  moreover have "sd_place st = Returned \<Longrightarrow> pending_ids plan q = []" using f(3) by (simp add: pending_ids_def)
  ultimately show ?thesis
    using fifo_trace [OF assms(2-5) f(1,2) assms(6)] assms(2,3) by auto
qed

definition sample_open_trace :: session_trace where
  "sample_open_trace = \<lparr>tr_lastSeq = 5, tr_openTurn = Some 1, tr_openStep = Some 1, tr_nextTurn = 1,
     tr_nextStep = 1, tr_pending = []\<rparr>"

lemma scheduled_log_accepted_witness:
  "\<exists>tr'. replay trace_step sample_open_trace (map (entry_event 1 1 sample_plan) (sd_log sample_end)) = Inr tr' \<and> tr_pending tr' = []"
proof -
  have "distinct (map tc_id sample_plan)" "set (map tc_id sample_plan) \<inter> set (tr_pending sample_open_trace) = {}"
    by (simp_all add: sample_plan_def sample_open_trace_def)
  moreover have "sorted_wrt (<) (tr_lastSeq sample_open_trace # map entry_seq (sd_log sample_end))"
    by code_simp
  moreover have "tr_openTurn sample_open_trace = Some 1" "tr_openStep sample_open_trace = Some 1"
    "tr_pending sample_open_trace = []"
    by (simp_all add: sample_open_trace_def)
  ultimately show ?thesis
    using scheduled_log_accepted [OF sample_end_reachable, of sample_open_trace 1 1] sample_end_place by auto
qed

end
