(* ===== verification/Block_Assembler.thy ===== *)
theory Block_Assembler
  imports Session_Types
begin

text \<open>
  The assembler of model streams (\<open>src/packages/llm/llm/src/assembler.ts\<close>): chunks are pushed
  one at a time into partial blocks kept by index, and read back as content blocks in the order
  in which their indices first appeared. The reference definition at the end assembles each
  index from its own chunks; the two agree on every stream.
\<close>

section \<open>State\<close>

record partial_block =
  pb_type :: string
  pb_text :: string
  pb_call_id :: "string option"
  pb_call_name :: "string option"
  pb_arguments :: string
  pb_block :: "content_block option"

record assembler =
  as_partials :: "(int, partial_block) js_map"
  as_order :: "int list"
  as_usage :: "token_usage option"
  as_finish :: "finish_reason option"
  as_replay :: "json option"

datatype assembly_error =
    CannotAssemble string
  | NoPartial int

definition new_assembler :: assembler where
  "new_assembler = \<lparr>as_partials = [], as_order = [], as_usage = None, as_finish = None, as_replay = None\<rparr>"

definition fresh_partial :: "string \<Rightarrow> partial_block" where
  "fresh_partial t = \<lparr>pb_type = t, pb_text = [], pb_call_id = None, pb_call_name = None, pb_arguments = [], pb_block = None\<rparr>"

section \<open>Operations\<close>

definition ensure :: "int \<Rightarrow> string \<Rightarrow> assembler \<Rightarrow> partial_block \<times> assembler" where
  "ensure i t a =
     (case map_get (as_partials a) i of
        Some p \<Rightarrow> (p, a)
      | None \<Rightarrow> (fresh_partial t, a\<lparr>as_partials := map_set i (fresh_partial t) (as_partials a), as_order := as_order a @ [i]\<rparr>))"

text \<open>The writes to a partial block, which is shared with the table.\<close>

definition update_partial :: "int \<Rightarrow> partial_block \<Rightarrow> assembler \<Rightarrow> assembler" where
  "update_partial i p a = a\<lparr>as_partials := map_set i p (as_partials a)\<rparr>"

definition truthy_name :: "string option \<Rightarrow> bool" where
  "truthy_name n \<longleftrightarrow> n \<noteq> None \<and> n \<noteq> Some []"

fun push :: "stream_chunk \<Rightarrow> assembler \<Rightarrow> assembler" where
  "push (BlockStart i t) a = snd (ensure i t a)"
| "push (TextDelta i t) a =
     (let (p, a1) = ensure i ''text'' a
      in if pb_block p \<noteq> None then a1 else update_partial i (p\<lparr>pb_text := pb_text p @ t\<rparr>) a1)"
| "push (ReasoningDelta i t) a =
     (let (p, a1) = ensure i ''reasoning'' a
      in if pb_block p \<noteq> None then a1 else update_partial i (p\<lparr>pb_text := pb_text p @ t\<rparr>) a1)"
| "push (ToolCallDelta i c n d) a =
     (let (p, a1) = ensure i ''tool-call'' a
      in if pb_block p \<noteq> None then a1
         else update_partial i (p\<lparr>pb_call_id := Some c,
                pb_call_name := (if truthy_name n then n else pb_call_name p),
                pb_arguments := pb_arguments p @ d\<rparr>) a1)"
| "push (BlockEnd i b) a =
     (let (p, a1) = ensure i (block_type b) a
      in if pb_block p \<noteq> None then a1 else update_partial i (p\<lparr>pb_block := Some b\<rparr>) a1)"
| "push (UsageChunk u) a = a\<lparr>as_usage := Some u\<rparr>"
| "push (FinishChunk r s) a = a\<lparr>as_finish := Some r, as_replay := s\<rparr>"

definition push_all :: "stream_chunk list \<Rightarrow> assembler \<Rightarrow> assembler" where
  "push_all cs a = foldl (\<lambda>a c. push c a) a cs"

definition or_else :: "'a option \<Rightarrow> 'a \<Rightarrow> 'a" where
  "or_else x d = (case x of Some v \<Rightarrow> v | None \<Rightarrow> d)"

definition assemble :: "partial_block \<Rightarrow> int \<Rightarrow> (assembly_error, content_block) result" where
  "assemble p i =
     (case pb_block p of
        Some b \<Rightarrow> Inr b
      | None \<Rightarrow>
          if pb_type p = ''text'' then Inr (TextBlock (pb_text p))
          else if pb_type p = ''reasoning'' then Inr (ReasoningBlock (pb_text p))
          else if pb_type p = ''tool-call'' then
            Inr (ToolCallBlock (or_else (pb_call_id p) (''call-'' @ show_int i)) (or_else (pb_call_name p) []) (pb_arguments p))
          else Inl (CannotAssemble (pb_type p)))"

definition mustGet :: "assembler \<Rightarrow> int \<Rightarrow> (assembly_error, partial_block) result" where
  "mustGet a i = (case map_get (as_partials a) i of Some p \<Rightarrow> Inr p | None \<Rightarrow> Inl (NoPartial i))"

definition finish_of :: "assembler \<Rightarrow> finish_reason" where
  "finish_of a = or_else (as_finish a) FinishStop"

text \<open>Mapping with a function that may throw: the first throw is the result.\<close>

fun map_result :: "('a \<Rightarrow> ('e, 'b) result) \<Rightarrow> 'a list \<Rightarrow> ('e, 'b list) result" where
  "map_result f [] = Inr []"
| "map_result f (x # xs) = rbind (f x) (\<lambda>y. rbind (map_result f xs) (\<lambda>ys. Inr (y # ys)))"

fun is_tool_call :: "content_block \<Rightarrow> bool" where
  "is_tool_call (ToolCallBlock i n a) = True"
| "is_tool_call _ = False"

definition drop_truncated :: "finish_reason \<Rightarrow> content_block list \<Rightarrow> content_block list" where
  "drop_truncated r bs = (if r = FinishMaxTokens then filter (\<lambda>b. \<not> is_tool_call b) bs else bs)"

definition blocks :: "assembler \<Rightarrow> (assembly_error, content_block list) result" where
  "blocks a =
     rbind (map_result (\<lambda>i. rbind (mustGet a i) (\<lambda>p. assemble p i)) (as_order a))
       (\<lambda>bs. Inr (drop_truncated (finish_of a) bs))"

text \<open>\<open>createAssistantMessage\<close> over the blocks.\<close>

definition assistant_of :: "string \<Rightarrow> string \<Rightarrow> string \<Rightarrow> assembler \<Rightarrow> (assembly_error, assistant_message) result" where
  "assistant_of i provider model a =
     rbind (blocks a) (\<lambda>bs. Inr \<lparr>am_id = i, am_provider = provider, am_model = model, am_replay = as_replay a, am_content = bs\<rparr>)"

section \<open>The reference\<close>

fun chunk_index :: "stream_chunk \<Rightarrow> int option" where
  "chunk_index (BlockStart i t) = Some i"
| "chunk_index (TextDelta i t) = Some i"
| "chunk_index (ReasoningDelta i t) = Some i"
| "chunk_index (ToolCallDelta i c n d) = Some i"
| "chunk_index (BlockEnd i b) = Some i"
| "chunk_index (UsageChunk u) = None"
| "chunk_index (FinishChunk r s) = None"

definition at_index :: "int \<Rightarrow> stream_chunk list \<Rightarrow> stream_chunk list" where
  "at_index i cs = filter (\<lambda>c. chunk_index c = Some i) cs"

text \<open>The indices in the order of their first chunk.\<close>

definition indices :: "stream_chunk list \<Rightarrow> int list" where
  "indices cs = rev (remdups (rev (concat (map (\<lambda>c. case chunk_index c of Some i \<Rightarrow> [i] | None \<Rightarrow> []) cs))))"

text \<open>A block from the chunks of its index: the first \<open>block-end\<close>, else what the deltas add up to.\<close>

fun opens_as :: "stream_chunk \<Rightarrow> string" where
  "opens_as (BlockStart i t) = t"
| "opens_as (TextDelta i t) = ''text''"
| "opens_as (ReasoningDelta i t) = ''reasoning''"
| "opens_as (ToolCallDelta i c n d) = ''tool-call''"
| "opens_as (BlockEnd i b) = block_type b"
| "opens_as _ = []"

fun closed_by :: "stream_chunk list \<Rightarrow> content_block option" where
  "closed_by [] = None"
| "closed_by (BlockEnd i b # cs) = Some b"
| "closed_by (c # cs) = closed_by cs"

fun delta_text :: "stream_chunk \<Rightarrow> string" where
  "delta_text (TextDelta i t) = t"
| "delta_text (ReasoningDelta i t) = t"
| "delta_text _ = []"

fun delta_arguments :: "stream_chunk \<Rightarrow> string" where
  "delta_arguments (ToolCallDelta i c n d) = d"
| "delta_arguments _ = []"

fun delta_ids :: "stream_chunk \<Rightarrow> string list" where
  "delta_ids (ToolCallDelta i c n d) = [c]"
| "delta_ids _ = []"

fun delta_names :: "stream_chunk \<Rightarrow> string list" where
  "delta_names (ToolCallDelta i c (Some n) d) = (if n = [] then [] else [n])"
| "delta_names _ = []"

definition last_of :: "'a list \<Rightarrow> 'a \<Rightarrow> 'a" where
  "last_of xs d = (if xs = [] then d else last xs)"

definition block_of :: "int \<Rightarrow> stream_chunk list \<Rightarrow> (assembly_error, content_block) result" where
  "block_of i cs =
     (case closed_by cs of
        Some b \<Rightarrow> Inr b
      | None \<Rightarrow>
          let t = opens_as (hd cs) in
          if t = ''text'' then Inr (TextBlock (concat (map delta_text cs)))
          else if t = ''reasoning'' then Inr (ReasoningBlock (concat (map delta_text cs)))
          else if t = ''tool-call'' then
            Inr (ToolCallBlock (last_of (concat (map delta_ids cs)) (''call-'' @ show_int i))
              (last_of (concat (map delta_names cs)) []) (concat (map delta_arguments cs)))
          else Inl (CannotAssemble t))"

fun finishes :: "stream_chunk \<Rightarrow> finish_reason list" where
  "finishes (FinishChunk r s) = [r]"
| "finishes _ = []"

definition stream_finish :: "stream_chunk list \<Rightarrow> finish_reason" where
  "stream_finish cs = last_of (concat (map finishes cs)) FinishStop"

definition stream_blocks :: "stream_chunk list \<Rightarrow> (assembly_error, content_block list) result" where
  "stream_blocks cs =
     rbind (map_result (\<lambda>i. block_of i (at_index i cs)) (indices cs)) (\<lambda>bs. Inr (drop_truncated (stream_finish cs) bs))"

section \<open>The invariant\<close>

text \<open>The partial block that the chunks of an index add up to.\<close>

definition open_chunks :: "stream_chunk list \<Rightarrow> stream_chunk list" where
  "open_chunks cs = takeWhile (\<lambda>c. case c of BlockEnd i b \<Rightarrow> False | _ \<Rightarrow> True) cs"

definition last_opt :: "'a list \<Rightarrow> 'a option" where
  "last_opt xs = (if xs = [] then None else Some (last xs))"

definition partial_of :: "stream_chunk list \<Rightarrow> partial_block" where
  "partial_of cs =
     (let o' = open_chunks cs in
      \<lparr>pb_type = opens_as (hd cs), pb_text = concat (map delta_text o'),
       pb_call_id = last_opt (concat (map delta_ids o')), pb_call_name = last_opt (concat (map delta_names o')),
       pb_arguments = concat (map delta_arguments o'), pb_block = closed_by cs\<rparr>)"

definition assembled :: "stream_chunk list \<Rightarrow> assembler \<Rightarrow> bool" where
  "assembled cs a \<longleftrightarrow>
     as_order a = indices cs \<and>
     (\<forall>i. map_get (as_partials a) i = (if at_index i cs = [] then None else Some (partial_of (at_index i cs)))) \<and>
     as_finish a = last_opt (concat (map finishes cs))"

lemma indices_snoc:
  "indices (cs @ [c]) = (case chunk_index c of None \<Rightarrow> indices cs
     | Some i \<Rightarrow> if at_index i cs = [] then indices cs @ [i] else indices cs)"
proof (cases "chunk_index c")
  case (Some i)
  have "i \<in> set (concat (map (\<lambda>c. case chunk_index c of Some i \<Rightarrow> [i] | None \<Rightarrow> []) cs)) \<longleftrightarrow> at_index i cs \<noteq> []"
    by (induction cs) (auto simp: at_index_def split: option.splits)
  with Some show ?thesis by (simp add: indices_def)
qed (simp add: indices_def)

lemma at_index_snoc:
  "at_index i (cs @ [c]) = (if chunk_index c = Some i then at_index i cs @ [c] else at_index i cs)"
  by (simp add: at_index_def)

lemma closed_by_append: "closed_by (cs @ ds) = (case closed_by cs of Some b \<Rightarrow> Some b | None \<Rightarrow> closed_by ds)"
  by (induction cs rule: closed_by.induct) auto

lemma open_chunks_closed: "closed_by cs \<noteq> None \<Longrightarrow> open_chunks (cs @ ds) = open_chunks cs"
  unfolding open_chunks_def by (induction cs rule: closed_by.induct) auto

lemma open_chunks_open: "closed_by cs = None \<Longrightarrow> open_chunks (cs @ ds) = cs @ open_chunks ds"
  unfolding open_chunks_def by (induction cs rule: closed_by.induct) auto

lemma open_chunks_all: "closed_by cs = None \<Longrightarrow> open_chunks cs = cs"
  using open_chunks_open [of cs "[]"] by (simp add: open_chunks_def)

lemma hd_snoc: "hd (cs @ [c]) = (if cs = [] then c else hd cs)"
  by simp

lemma partial_of_closed: "closed_by cs \<noteq> None \<Longrightarrow> cs \<noteq> [] \<Longrightarrow> partial_of (cs @ [c]) = partial_of cs"
  by (auto simp: partial_of_def open_chunks_closed closed_by_append split: option.splits)

lemma pb_block_partial: "pb_block (partial_of cs) = closed_by cs"
  by (simp add: partial_of_def Let_def)

lemma last_opt_one: "last_opt [x] = Some x"
  by (simp add: last_opt_def)

lemma last_opt_append: "last_opt (xs @ ys) = (if ys = [] then last_opt xs else last_opt ys)"
  by (simp add: last_opt_def)

text \<open>The state after \<open>ensure\<close>: the partial of the index, fresh at its first chunk.\<close>

definition partial_at :: "stream_chunk list \<Rightarrow> string \<Rightarrow> partial_block" where
  "partial_at cs t = (if cs = [] then fresh_partial t else partial_of cs)"

lemma ensure_assembled:
  assumes "assembled cs a" "chunk_index c = Some i"
  shows "fst (ensure i t a) = partial_at (at_index i cs) t"
    "as_order (snd (ensure i t a)) = indices (cs @ [c])"
    "map_get (as_partials (snd (ensure i t a))) j =
       (if j = i then Some (partial_at (at_index i cs) t) else map_get (as_partials a) j)"
    "as_finish (snd (ensure i t a)) = as_finish a"
  using assms by (auto simp: ensure_def assembled_def indices_snoc partial_at_def map_simps)

lemma partial_at_block: "pb_block (partial_at cs t) = closed_by cs"
  by (simp add: partial_at_def fresh_partial_def pb_block_partial)

text \<open>What a chunk makes of the partial of its index.\<close>

fun absorb :: "stream_chunk \<Rightarrow> partial_block \<Rightarrow> partial_block" where
  "absorb (TextDelta i t) p = p\<lparr>pb_text := pb_text p @ t\<rparr>"
| "absorb (ReasoningDelta i t) p = p\<lparr>pb_text := pb_text p @ t\<rparr>"
| "absorb (ToolCallDelta i c n d) p = p\<lparr>pb_call_id := Some c,
     pb_call_name := (if truthy_name n then n else pb_call_name p), pb_arguments := pb_arguments p @ d\<rparr>"
| "absorb (BlockEnd i b) p = p\<lparr>pb_block := Some b\<rparr>"
| "absorb _ p = p"

lemma push_absorbs:
  assumes "chunk_index c = Some i"
  shows "push c a = (let (p, a1) = ensure i (opens_as c) a in
    if pb_block p \<noteq> None then a1 else if (\<exists>t. c = BlockStart i t) then a1 else update_partial i (absorb c p) a1)"
  using assms by (cases c) (auto simp: Let_def split: prod.splits)

lemma partial_of_snoc:
  assumes "closed_by cs = None"
  shows "partial_of (cs @ [c]) = absorb c (partial_at cs (opens_as c))"
proof -
  have o': "open_chunks (cs @ [c]) = cs @ open_chunks [c]" "open_chunks cs = cs"
    using assms by (simp_all add: open_chunks_open open_chunks_all)
  have cl: "closed_by (cs @ [c]) = closed_by [c]" using assms by (simp add: closed_by_append)
  have at: "partial_at cs t = \<lparr>pb_type = (if cs = [] then t else opens_as (hd cs)), pb_text = concat (map delta_text cs),
      pb_call_id = last_opt (concat (map delta_ids cs)), pb_call_name = last_opt (concat (map delta_names cs)),
      pb_arguments = concat (map delta_arguments cs), pb_block = None\<rparr>" for t
    using assms o'(2) by (simp add: partial_at_def partial_of_def fresh_partial_def last_opt_def)
  have "delta_names c = (case c of ToolCallDelta i c n d \<Rightarrow> if truthy_name n then [the n] else [] | _ \<Rightarrow> [])"
    by (cases c rule: delta_names.cases) (auto simp: truthy_name_def)
  then show ?thesis
    unfolding partial_of_def o' cl at Let_def
    by (cases c) (auto simp: open_chunks_def last_opt_append last_opt_one truthy_name_def)
qed

lemma assembled_push:
  assumes a: "assembled cs a"
  shows "assembled (cs @ [c]) (push c a)"
proof (cases "chunk_index c")
  case None
  then show ?thesis
    using a by (cases c) (simp_all add: assembled_def indices_snoc at_index_snoc last_opt_def)
next
  case (Some i)
  note e = ensure_assembled [OF a Some, of "opens_as c"]
  obtain p a1 where pa: "ensure i (opens_as c) a = (p, a1)" by (cases "ensure i (opens_as c) a")
  have fin: "concat (map finishes (cs @ [c])) = concat (map finishes cs)"
    using Some by (cases c) simp_all
  let ?q = "partial_of (at_index i cs @ [c])"
  have goal: "assembled (cs @ [c]) a2"
    if "as_order a2 = indices (cs @ [c])" "as_finish a2 = as_finish a"
      "\<And>j. map_get (as_partials a2) j = (if j = i then Some ?q else map_get (as_partials a) j)" for a2
    using a that Some fin by (auto simp: assembled_def at_index_snoc)
  show ?thesis
  proof (cases "closed_by (at_index i cs)")
    case open_index: None
    have q: "?q = absorb c p"
      using partial_of_snoc [OF open_index, of c] e(1) pa by simp
    have "pb_block p = None" using e(1) pa open_index by (simp add: partial_at_block)
    then have "push c a = (if \<exists>t. c = BlockStart i t then a1 else update_partial i ?q a1)" "(\<exists>t. c = BlockStart i t) \<Longrightarrow> ?q = p"
      using q pa by (auto simp: push_absorbs [OF Some])
    moreover have "assembled (cs @ [c]) (update_partial i ?q a1)"
      by (rule goal) (use e pa in \<open>simp_all add: update_partial_def map_simps\<close>)
    moreover have "assembled (cs @ [c]) a1" if "?q = p"
      by (rule goal) (use e pa that in simp_all)
    ultimately show ?thesis by auto
  next
    case (Some b)
    then have "at_index i cs \<noteq> []" by auto
    then have "?q = p" using partial_of_closed [of "at_index i cs" c] Some e(1) pa by (simp add: partial_at_def)
    moreover have "pb_block p \<noteq> None" using e(1) pa Some by (simp add: partial_at_block)
    ultimately have "push c a = a1" using pa by (simp add: push_absorbs [OF \<open>chunk_index c = Some i\<close>])
    moreover have "assembled (cs @ [c]) a1"
      by (rule goal) (use e pa \<open>?q = p\<close> in simp_all)
    ultimately show ?thesis by simp
  qed
qed

lemma assembled_all: "assembled cs (push_all cs new_assembler)"
proof (induction cs rule: rev_induct)
  case Nil
  then show ?case
    by (simp add: push_all_def assembled_def new_assembler_def indices_def at_index_def map_simps last_opt_def)
next
  case (snoc c cs)
  then show ?case using assembled_push by (simp add: push_all_def)
qed

section \<open>Properties\<close>

lemma or_else_last_opt: "or_else (last_opt xs) d = last_of xs d"
  by (simp add: or_else_def last_opt_def last_of_def)

lemma assemble_partial:
  assumes "cs \<noteq> []"
  shows "assemble (partial_of cs) i = block_of i cs"
proof (cases "closed_by cs")
  case None
  then have "open_chunks cs = cs" by (rule open_chunks_all)
  with None show ?thesis
    by (simp add: assemble_def block_of_def partial_of_def or_else_last_opt)
qed (simp add: assemble_def block_of_def partial_of_def Let_def)

lemma indices_seen: "i \<in> set (indices cs) \<longleftrightarrow> at_index i cs \<noteq> []"
proof (induction cs rule: rev_induct)
  case (snoc c cs)
  then show ?case by (auto simp: indices_snoc at_index_snoc split: option.splits)
qed (simp add: indices_def at_index_def)

lemma map_result_cong: "(\<And>x. x \<in> set xs \<Longrightarrow> f x = g x) \<Longrightarrow> map_result f xs = map_result g xs"
  by (induction xs) simp_all

lemma assembly_by_index_fact: "blocks (push_all cs new_assembler) = stream_blocks cs"
proof -
  let ?a = "push_all cs new_assembler"
  have a: "as_order ?a = indices cs" "as_finish ?a = last_opt (concat (map finishes cs))"
    "map_get (as_partials ?a) i = (if at_index i cs = [] then None else Some (partial_of (at_index i cs)))" for i
    using assembled_all [of cs] by (simp_all add: assembled_def)
  have "map_result (\<lambda>i. rbind (mustGet ?a i) (\<lambda>p. assemble p i)) (indices cs)
      = map_result (\<lambda>i. block_of i (at_index i cs)) (indices cs)"
    by (rule map_result_cong) (simp add: mustGet_def a indices_seen assemble_partial)
  then show ?thesis
    by (simp add: blocks_def stream_blocks_def finish_of_def stream_finish_def a or_else_last_opt)
qed

text \<open>C40. Assembly is by index: however the chunks of different blocks are interleaved, the blocks
  read back are one per index, in the order in which the indices first appeared, each put
  together from the chunks of its index alone: its first \<open>block-end\<close>, or else what its deltas
  add up to; the last finish reason decides whether tool calls are dropped.\<close>

theorem assembly_by_index: "blocks (push_all cs new_assembler) = stream_blocks cs"
  by (rule assembly_by_index_fact)

lemma rbind_Inl_iff: "rbind r f = Inl e \<longleftrightarrow> r = Inl e \<or> (\<exists>x. r = Inr x \<and> f x = Inl e)"
  by (cases r) simp_all

lemma map_result_Inl:
  "map_result f xs = Inl e \<Longrightarrow> \<exists>x \<in> set xs. f x = Inl e"
  by (induction xs) (auto simp: rbind_Inl_iff)

lemma map_result_Inr:
  "map_result f xs = Inr ys \<Longrightarrow> length ys = length xs \<and> (\<forall>k < length xs. f (xs ! k) = Inr (ys ! k))"
  by (induction xs arbitrary: ys) (auto simp: rbind_Inr_iff nth_Cons' less_Suc_eq_0_disj)

lemma block_of_fails:
  assumes "cs = at_index i ds" "cs \<noteq> []"
  shows "(\<exists>e. block_of i cs = Inl e) \<longleftrightarrow>
    (\<exists>t. hd cs = BlockStart i t \<and> t \<notin> {''text'', ''reasoning'', ''tool-call''} \<and> closed_by cs = None)"
proof -
  obtain c cs' where c: "cs = c # cs'" using assms(2) by (cases cs) auto
  then have "c \<in> set (at_index i ds)" using assms(1) by (metis list.set_intros(1))
  then have "chunk_index c = Some i" by (simp add: at_index_def)
  with c have c: "cs = c # cs'" "chunk_index c = Some i" by simp_all
  then show ?thesis
    by (cases c) (auto simp: block_of_def Let_def split: option.splits)
qed

text \<open>Reading fails only on an incomplete block of an unknown type: some index was opened by a
  \<open>block-start\<close> of a type that has no deltas and never closed. It fails on every such stream.\<close>

theorem assembly_fails_iff:
  "(\<exists>e. blocks (push_all cs new_assembler) = Inl e) \<longleftrightarrow>
     (\<exists>i t. at_index i cs \<noteq> [] \<and> hd (at_index i cs) = BlockStart i t
        \<and> t \<notin> {''text'', ''reasoning'', ''tool-call''} \<and> closed_by (at_index i cs) = None)"
proof -
  let ?f = "\<lambda>i. block_of i (at_index i cs)"
  have "(\<exists>e. blocks (push_all cs new_assembler) = Inl e) \<longleftrightarrow> (\<exists>e. map_result ?f (indices cs) = Inl e)"
    by (simp add: assembly_by_index_fact stream_blocks_def rbind_Inl_iff)
  also have "\<dots> \<longleftrightarrow> (\<exists>i \<in> set (indices cs). \<exists>e. ?f i = Inl e)"
  proof
    assume "\<exists>e. map_result ?f (indices cs) = Inl e"
    then obtain e where "map_result ?f (indices cs) = Inl e" ..
    from map_result_Inl [OF this] obtain i where "i \<in> set (indices cs)" "?f i = Inl e" by (rule bexE)
    then show "\<exists>i \<in> set (indices cs). \<exists>e. ?f i = Inl e" by (intro bexI exI)
  next
    assume "\<exists>i \<in> set (indices cs). \<exists>e. ?f i = Inl e"
    then obtain i e where i: "i \<in> set (indices cs)" "?f i = Inl e" by blast
    show "\<exists>e. map_result ?f (indices cs) = Inl e"
    proof (cases "map_result ?f (indices cs)")
      case (Inr ys)
      from i(1) obtain k where "k < length (indices cs)" "indices cs ! k = i" by (metis in_set_conv_nth)
      with map_result_Inr [OF Inr] i(2) show ?thesis by auto
    qed simp
  qed
  also have "\<dots> \<longleftrightarrow> (\<exists>i. at_index i cs \<noteq> [] \<and> (\<exists>e. ?f i = Inl e))"
    by (auto simp: indices_seen)
  also have "\<dots> \<longleftrightarrow> (\<exists>i. at_index i cs \<noteq> [] \<and> (\<exists>t. hd (at_index i cs) = BlockStart i t
      \<and> t \<notin> {''text'', ''reasoning'', ''tool-call''} \<and> closed_by (at_index i cs) = None))"
    using block_of_fails [OF refl, of _ cs] by (intro ex_cong1) auto
  finally show ?thesis by blast
qed

text \<open>A stream cut by the token limit yields no tool call; any other stream yields one block for
  each of its indices.\<close>

theorem truncated_has_no_call:
  assumes "blocks (push_all cs new_assembler) = Inr bs"
  shows "(stream_finish cs = FinishMaxTokens \<longrightarrow> (\<forall>b \<in> set bs. \<not> is_tool_call b))
    \<and> (stream_finish cs \<noteq> FinishMaxTokens \<longrightarrow> length bs = length (indices cs))"
  using assms unfolding assembly_by_index_fact
  by (auto simp: stream_blocks_def rbind_Inr_iff drop_truncated_def dest: map_result_Inr)

definition sample_stream :: "stream_chunk list" where
  "sample_stream = [BlockStart 0 ''text'', ToolCallDelta 1 ''c'' (Some ''read'') ''{'', TextDelta 0 ''hi'',
     FinishChunk FinishMaxTokens None]"

lemma truncated_has_no_call_witness: "\<forall>b \<in> set [TextBlock ''hi'']. \<not> is_tool_call b"
proof -
  have "blocks (push_all sample_stream new_assembler) = Inr [TextBlock ''hi'']" "stream_finish sample_stream = FinishMaxTokens"
    by code_simp+
  then show ?thesis using truncated_has_no_call [of sample_stream "[TextBlock ''hi'']"] by blast
qed

lemma map_set_set: "map_set k v (map_set k w m) = map_set k v m"
  by (induction m) auto

lemma ensure_twice:
  "ensure i t (snd (ensure i t' a)) = (fst (ensure i t' a), snd (ensure i t' a))"
  by (auto simp: ensure_def map_simps split: option.splits)

lemma ensure_update:
  "ensure i t (update_partial i p (snd (ensure i t' a))) = (p, update_partial i p (snd (ensure i t' a)))"
  by (simp add: ensure_def update_partial_def map_simps)

lemma update_twice: "update_partial i p (update_partial i q a) = update_partial i p a"
  by (simp add: update_partial_def map_set_set)

lemma delta_cut:
  "push (TextDelta i (s @ t)) a = push (TextDelta i t) (push (TextDelta i s) a)"
  "push (ReasoningDelta i (s @ t)) a = push (ReasoningDelta i t) (push (ReasoningDelta i s) a)"
  "push (ToolCallDelta i c n (s @ t)) a = push (ToolCallDelta i c n t) (push (ToolCallDelta i c n s) a)"
  by (auto simp: Let_def split_def ensure_update ensure_twice update_twice)

text \<open>How a provider cuts its deltas does not matter: replacing a text, reasoning or argument
  delta by two that carry its parts gives the same assembler, whatever came before and after.\<close>

theorem delta_cut_irrelevant:
  "push_all (cs @ [TextDelta i (s @ t)] @ ds) a = push_all (cs @ [TextDelta i s, TextDelta i t] @ ds) a
    \<and> push_all (cs @ [ReasoningDelta i (s @ t)] @ ds) a = push_all (cs @ [ReasoningDelta i s, ReasoningDelta i t] @ ds) a
    \<and> push_all (cs @ [ToolCallDelta i c n (s @ t)] @ ds) a
      = push_all (cs @ [ToolCallDelta i c n s, ToolCallDelta i c n t] @ ds) a"
  unfolding push_all_def foldl_append foldl_Cons foldl_Nil delta_cut by simp

end
