(* ===== verification/Agent_Driver.thy ===== *)
theory Agent_Driver
  imports Agent_Inbox Session_Header Session_Repair Tool_Scheduler Block_Assembler
begin

text \<open>
  The default agent driver (\<open>src/packages/core/agent-loop/src/agent.ts\<close>, \<open>ReactLoopAgent\<close>): phases,
  the public calls that send input and cancel, and the driver's turn and step loop as a state
  machine over the session, the inbox and the log. A state is the fields of the agent, the local
  variables of the running turn and the place where the driver stands; a transition runs it to
  the next await or the next check of the abort signal. Prompts, hooks, the model and the tools
  answer from outside: their answers are arguments of the transitions, and the public calls and
  appends of other plugins may come between any two of them.
\<close>

section \<open>Data\<close>

datatype cancel_cause = CauseUser | CauseParent | CauseHook string | CauseDisposed

definition cause_json :: "cancel_cause \<Rightarrow> json" where
  "cause_json c = (case c of
       CauseUser \<Rightarrow> JObj [(''kind'', JStr ''user'')]
     | CauseParent \<Rightarrow> JObj [(''kind'', JStr ''parent'')]
     | CauseHook r \<Rightarrow> JObj [(''kind'', JStr ''hook''), (''reason'', JStr r)]
     | CauseDisposed \<Rightarrow> JObj [(''kind'', JStr ''disposed'')])"

text \<open>The abort controller of a phase is the cause it was aborted with; the first cause stays.\<close>

datatype phase =
    Idle (phase_turn: int)
  | Maintenance "cancel_cause option" (phase_turn: int) bool
  | Running "cancel_cause option" (phase_turn: int) int bool

fun abort_of :: "phase \<Rightarrow> cancel_cause option" where
  "abort_of (Idle t) = None"
| "abort_of (Maintenance c t w) = c"
| "abort_of (Running c t s w) = c"

fun is_idle :: "phase \<Rightarrow> bool" where
  "is_idle (Idle t) = True"
| "is_idle _ = False"

fun is_running :: "phase \<Rightarrow> bool" where
  "is_running (Running c t s w) = True"
| "is_running _ = False"

fun wake_requested :: "phase \<Rightarrow> bool" where
  "wake_requested (Idle t) = False"
| "wake_requested (Maintenance c t w) = w"
| "wake_requested (Running c t s w) = w"

fun set_wake :: "bool \<Rightarrow> phase \<Rightarrow> phase" where
  "set_wake w (Idle t) = Idle t"
| "set_wake w (Maintenance c t _) = Maintenance c t w"
| "set_wake w (Running c t s _) = Running c t s w"

fun abort_phase :: "cancel_cause \<Rightarrow> phase \<Rightarrow> phase" where
  "abort_phase c (Idle t) = Idle t"
| "abort_phase c (Maintenance a t w) = Maintenance (case a of None \<Rightarrow> Some c | Some b \<Rightarrow> Some b) t w"
| "abort_phase c (Running a t s w) = Running (case a of None \<Rightarrow> Some c | Some b \<Rightarrow> Some b) t s w"

fun running_step :: "phase \<Rightarrow> int" where
  "running_step (Running c t s w) = s"
| "running_step _ = 0"

text \<open>What can be thrown: errors of the session, the inbox and the assembler, the cause of an
  abort, a failure of the model, and whatever a hook, a provider or a tool throws.\<close>

datatype fault =
    FSession session_error
  | FInbox inbox_error
  | FAssembly assembly_error
  | FAborted cancel_cause
  | FLlm llm_failure
  | FOther string

datatype step_outcome = StepThrew fault | StepEnded "turn_end_reason option"

datatype turn_outcome = TurnThrew fault | TurnStops | TurnCompletes

datatype agent_place =
    DNone
  | DTurn
  | DLoop
  | DAssemble
  | DPreStep
  | DMessages
  | DRequest
  | DConfig
  | DCall
  | DDispatch
  | DStream
  | DRetry llm_failure
  | DTools
  | DStepEnd step_outcome
  | DStopping
  | DTurnEnd turn_outcome
  | DConverge

datatype agent_note = StatusNote bool | ErrorNote int int fault

text \<open>What remains to run of a public call or of a converging activity once its listeners have run:
  a wake, the replay of a latched wake, or the abort of a cancelled activity.\<close>

datatype continuation = Wake bool | Replay bool | Abort cancel_cause

text \<open>The options of the agent, with the bound of the tool pool and the text of an error chain, which
  the driver takes from its surroundings.\<close>

record agent_options =
  ao_provider :: string
  ao_model :: string
  ao_max_tokens :: "int option"
  ao_max_parallel :: nat
  ao_error_chain :: "fault \<Rightarrow> string"

record llm_request =
  lr_header :: epoch_header
  lr_messages :: "message list"

record agent =
  ag_options :: agent_options
  ag_owner :: inbox_owner
  ag_phase :: phase
  ag_conts :: "continuation list"
  ag_header_logged :: bool
  ag_notes :: "agent_note list"
  ag_unclosed :: bool
  ag_place :: agent_place
  ag_ends :: "turn_end_reason option"
  ag_target :: inbox_target
  ag_messages :: "user_message list"
  ag_system :: string
  ag_tools :: "json list"
  ag_boundary :: "message list"
  ag_seed :: call_config
  ag_request :: "llm_request option"
  ag_asm :: assembler
  ag_chunks :: "int list"
  ag_sched :: sched

text \<open>
  \<open>ag_unclosed\<close> remembers that the append of a closing event failed: the code does not keep it.
\<close>

abbreviation ag_session :: "agent \<Rightarrow> session" where
  "ag_session st \<equiv> io_session (ag_owner st)"

abbreviation ag_inbox :: "agent \<Rightarrow> inbox" where
  "ag_inbox st \<equiv> io_inbox (ag_owner st)"

definition ag_log :: "agent \<Rightarrow> session_event list" where
  "ag_log st = se_log (ag_session st)"

definition no_config :: call_config where
  "no_config = \<lparr>cc_provider = [], cc_model = [], cc_effort = None, cc_temperature = None, cc_max_tokens = None, cc_stop = None\<rparr>"

text \<open>The constructor: the inbox is replayed, the last turn is that of the last \<open>turn/start\<close>.\<close>

fun last_turn :: "session_event list \<Rightarrow> int \<Rightarrow> int" where
  "last_turn [] t = t"
| "last_turn (e # es) t = last_turn es (case ev_data e of TurnStart n \<Rightarrow> n | _ \<Rightarrow> t)"

definition new_agent :: "agent_options \<Rightarrow> session \<Rightarrow> (inbox_error, agent) result" where
  "new_agent opts s =
     rbind (new_inbox s) (\<lambda>ow. Inr
       \<lparr>ag_options = opts, ag_owner = ow, ag_phase = Idle (last_turn (se_log s) 0), ag_conts = [],
        ag_header_logged = False, ag_notes = [], ag_unclosed = False, ag_place = DNone,
        ag_ends = None, ag_target = NextTurn, ag_messages = [], ag_system = [], ag_tools = [],
        ag_boundary = [], ag_seed = no_config, ag_request = None, ag_asm = new_assembler,
        ag_chunks = [], ag_sched = begin_calls [] 0 False\<rparr>)"

section \<open>Phases and public calls\<close>

text \<open>\<open>setPhase\<close>: a status is announced when it changes.\<close>

definition setPhase :: "phase \<Rightarrow> agent \<Rightarrow> agent" where
  "setPhase p st =
     st\<lparr>ag_phase := p,
        ag_notes := ag_notes st @ (if is_running p \<noteq> is_running (ag_phase st) then [StatusNote (is_running p)] else [])\<rparr>"

definition wakeDriver :: "bool \<Rightarrow> agent \<Rightarrow> agent" where
  "wakeDriver wakeAfterAbort st =
     (if \<not> is_idle (ag_phase st) then
        (if abort_of (ag_phase st) \<noteq> Some CauseDisposed \<and> (\<not> is_running (ag_phase st) \<or> wakeAfterAbort)
         then st\<lparr>ag_phase := set_wake True (ag_phase st)\<rparr> else st)
      else (setPhase (Running None (phase_turn (ag_phase st)) 0 False) st)\<lparr>ag_place := DTurn\<rparr>)"

text \<open>\<open>send\<close> up to its wake: the classification is taken before the insertion.\<close>

definition send :: "user_message \<Rightarrow> inbox_target \<Rightarrow> bool \<Rightarrow> moment \<Rightarrow> agent \<Rightarrow> (inbox_error, unit) result \<times> agent" where
  "send m target wakeup t st =
     (let wakingAfterAbort = (wakeup \<and> \<not> is_idle (ag_phase st) \<and> abort_of (ag_phase st) \<noteq> None);
          resolvedTarget = (if wakingAfterAbort then NextTurn else target)
      in case inbox_splice_op resolvedTarget JsPosInf (JsNum 0) [m] (fst t) (snd t) (ag_owner st) of
           (Inl x, ow) \<Rightarrow> (Inl x, st\<lparr>ag_owner := ow\<rparr>)
         | (Inr _, ow) \<Rightarrow>
             (Inr (), st\<lparr>ag_owner := ow, ag_conts := (if wakeup then Wake wakingAfterAbort # ag_conts st else ag_conts st)\<rparr>))"

definition followup :: "user_message \<Rightarrow> moment \<Rightarrow> agent \<Rightarrow> (inbox_error, unit) result \<times> agent" where
  "followup m t st = send m NextTurn True t st"

definition steer :: "user_message \<Rightarrow> moment \<Rightarrow> agent \<Rightarrow> (inbox_error, unit) result \<times> agent" where
  "steer m t st = send m NextStep True t st"

definition inject :: "user_message \<Rightarrow> moment \<Rightarrow> agent \<Rightarrow> (inbox_error, unit) result \<times> agent" where
  "inject m t st = send m NextStep False t st"

text \<open>The step's signal is the one the scheduler reads.\<close>

definition abort_agent :: "cancel_cause \<Rightarrow> agent \<Rightarrow> agent" where
  "abort_agent c st =
     (if is_idle (ag_phase st) then st
      else st\<lparr>ag_phase := abort_phase c (ag_phase st),
              ag_sched := (ag_sched st)\<lparr>sd_signal := True\<rparr>\<rparr>)"

definition cancel :: "cancel_cause \<Rightarrow> bool \<Rightarrow> moment \<Rightarrow> moment \<Rightarrow> agent \<Rightarrow> (inbox_error, unit) result \<times> agent" where
  "cancel cause keepInbox t u st =
     (if keepInbox then (Inr (), abort_agent cause st)
      else case inbox_clear t u (ag_owner st) of
             (Inl x, ow) \<Rightarrow> (Inl x, st\<lparr>ag_owner := ow\<rparr>)
           | (Inr _, ow) \<Rightarrow> (Inr (), st\<lparr>ag_owner := ow, ag_conts := Abort cause # ag_conts st\<rparr>))"

text \<open>\<open>runMaintenance\<close> and the end of its job.\<close>

definition begin_maintenance :: "agent \<Rightarrow> agent option" where
  "begin_maintenance st =
     (if is_idle (ag_phase st) then Some (setPhase (Maintenance None (phase_turn (ag_phase st)) False) st) else None)"

definition end_maintenance :: "agent \<Rightarrow> agent" where
  "end_maintenance st =
     (setPhase (Idle (phase_turn (ag_phase st))) st)\<lparr>ag_conts := Replay (wake_requested (ag_phase st)) # ag_conts st\<rparr>"

definition continue_call :: "agent \<Rightarrow> agent" where
  "continue_call st =
     (case ag_conts st of
        [] \<Rightarrow> st
      | Wake after # cs \<Rightarrow> wakeDriver after (st\<lparr>ag_conts := cs\<rparr>)
      | Replay w # cs \<Rightarrow>
          (if w \<and> has_pending (ag_inbox st) then wakeDriver False (st\<lparr>ag_conts := cs\<rparr>) else st\<lparr>ag_conts := cs\<rparr>)
      | Abort cause # cs \<Rightarrow> abort_agent cause (st\<lparr>ag_conts := cs, ag_phase := set_wake False (ag_phase st)\<rparr>))"

section \<open>The turn\<close>

definition ag_append :: "event_data \<Rightarrow> surface_intent \<Rightarrow> moment \<Rightarrow> agent \<Rightarrow> (fault, int) result \<times> agent" where
  "ag_append d intent t st =
     (case append_event (ag_session st) (fst t) d intent (snd t) of
        (Inl x, ses) \<Rightarrow> (Inl (FSession x), st\<lparr>ag_owner := (ag_owner st)\<lparr>io_session := ses\<rparr>\<rparr>)
      | (Inr e, ses) \<Rightarrow> (Inr (ev_seq e), st\<lparr>ag_owner := (ag_owner st)\<lparr>io_session := ses\<rparr>\<rparr>))"

definition surface_append :: surface_intent where
  "surface_append = \<lparr>si_op = Some append_op, si_sources = None\<rparr>"

text \<open>\<open>throwError\<close>: the failure is reported where it happened, then thrown.\<close>

definition report_error :: "fault \<Rightarrow> agent \<Rightarrow> agent" where
  "report_error f st =
     st\<lparr>ag_notes := ag_notes st @ [ErrorNote (phase_turn (ag_phase st)) (running_step (ag_phase st)) f]\<rparr>"

definition failure_of :: "agent_options \<Rightarrow> fault \<Rightarrow> llm_failure" where
  "failure_of opts f =
     (case f of FLlm x \<Rightarrow> x
      | _ \<Rightarrow> \<lparr>fl_message = ao_error_chain opts f, fl_code = ''UNKNOWN'', fl_status = None, fl_retry_after = None,
              fl_request_id = None\<rparr>)"

text \<open>The catch of \<open>turn()\<close>.\<close>

definition turn_catch :: "fault \<Rightarrow> agent \<Rightarrow> agent" where
  "turn_catch f st =
     (case abort_of (ag_phase st) of
        Some c \<Rightarrow> st\<lparr>ag_ends := Some (EndAborted (cause_json c)), ag_place := DTurnEnd (TurnThrew f)\<rparr>
      | None \<Rightarrow>
          report_error f (st\<lparr>ag_ends := Some (EndError (failure_of (ag_options st) f)), ag_place := DTurnEnd (TurnThrew f)\<rparr>))"

text \<open>\<open>signal.throwIfAborted()\<close> before what follows, inside a turn and inside a step.\<close>

definition turn_checked :: "agent \<Rightarrow> agent \<Rightarrow> agent" where
  "turn_checked st next = (case abort_of (ag_phase st) of Some c \<Rightarrow> turn_catch (FAborted c) st | None \<Rightarrow> next)"

definition step_throw :: "fault \<Rightarrow> agent \<Rightarrow> agent" where
  "step_throw f st = st\<lparr>ag_place := DStepEnd (StepThrew f)\<rparr>"

definition step_checked :: "agent \<Rightarrow> agent \<Rightarrow> agent" where
  "step_checked st next = (case abort_of (ag_phase st) of Some c \<Rightarrow> step_throw (FAborted c) st | None \<Rightarrow> next)"

text \<open>The head of \<open>turn()\<close>: a failure here reaches the driver boundary with no turn open.\<close>

fun set_turn :: "int \<Rightarrow> phase \<Rightarrow> phase" where
  "set_turn n (Running c t s w) = Running c n s w"
| "set_turn n p = p"

definition turn_begin :: "moment \<Rightarrow> agent \<Rightarrow> agent" where
  "turn_begin t st =
     (if abort_of (ag_phase st) \<noteq> None then st\<lparr>ag_place := DConverge\<rparr>
      else
        let turn = phase_turn (ag_phase st) + 1 in
        case ag_append (TurnStart turn) no_intent t st of
          (Inl f, st1) \<Rightarrow> (report_error f st1)\<lparr>ag_place := DConverge\<rparr>
        | (Inr _, st1) \<Rightarrow>
            st1\<lparr>ag_phase := set_turn turn (ag_phase st1), ag_ends := None, ag_target := NextTurn, ag_place := DLoop\<rparr>)"

text \<open>The head of the loop, into \<open>preStep\<close>: the claim is atomic with the check.\<close>

definition loop_begin :: "moment \<Rightarrow> moment \<Rightarrow> agent \<Rightarrow> agent" where
  "loop_begin t u st =
     turn_checked st
       (case inbox_claim (ag_target st) (phase_turn (ag_phase st)) t u (ag_owner st) of
          (Inl x, ow) \<Rightarrow> turn_catch (FInbox x) (st\<lparr>ag_owner := ow\<rparr>)
        | (Inr claimed, ow) \<Rightarrow> st\<lparr>ag_owner := ow, ag_messages := claimed, ag_place := DAssemble\<rparr>)"

text \<open>
  The prompt assembled: its system text, its tools, and the candidate snapshot of the runtime
  context, if one is due.
\<close>

record assembly =
  as_system :: string
  as_tools :: "json list"
  as_context :: "user_message option"

definition on_assembled :: "(fault, assembly) result \<Rightarrow> agent \<Rightarrow> agent" where
  "on_assembled answer st =
     (case answer of
        Inl f \<Rightarrow> turn_catch f st
      | Inr a \<Rightarrow>
          turn_checked st
            (st\<lparr>ag_system := as_system a, ag_tools := as_tools a,
                ag_messages := (case as_context a of None \<Rightarrow> ag_messages st | Some m \<Rightarrow> ag_messages st @ [m]),
                ag_place := DPreStep\<rparr>))"

datatype pre_step_decision = RejectStep | EnterStep "user_message list"

fun set_step :: "int \<Rightarrow> phase \<Rightarrow> phase" where
  "set_step n (Running c t s w) = Running c t n w"
| "set_step n p = p"

text \<open>The decision of the hooks, up to the opened step.\<close>

definition on_pre_step :: "(fault, pre_step_decision) result \<Rightarrow> moment \<Rightarrow> agent \<Rightarrow> agent" where
  "on_pre_step answer t st =
     (case answer of
        Inl f \<Rightarrow> turn_catch f st
      | Inr d \<Rightarrow>
          turn_checked st
            (case d of
               RejectStep \<Rightarrow> st\<lparr>ag_ends := Some EndBlocked, ag_place := DTurnEnd TurnStops\<rparr>
             | EnterStep ms \<Rightarrow>
                 if ag_ends st \<noteq> None \<and> ms = [] then st\<lparr>ag_place := DTurnEnd TurnCompletes\<rparr>
                 else if running_step (ag_phase st) = 0 \<and> ms = []
                 then st\<lparr>ag_ends := Some EndCompleted, ag_place := DTurnEnd TurnStops\<rparr>
                 else
                   let step = running_step (ag_phase st) + 1 in
                   case ag_append (StepStart (phase_turn (ag_phase st)) step) no_intent t st of
                     (Inl f, st1) \<Rightarrow> turn_catch f st1
                   | (Inr _, st1) \<Rightarrow>
                       st1\<lparr>ag_phase := set_step step (ag_phase st1), ag_messages := ms, ag_place := DMessages\<rparr>))"

text \<open>The step's input is appended one message at a time, then \<open>step()\<close> begins.\<close>

definition append_message :: "moment \<Rightarrow> agent \<Rightarrow> agent" where
  "append_message t st =
     (case ag_messages st of
        [] \<Rightarrow> step_checked st (st\<lparr>ag_place := DRequest\<rparr>)
      | m # ms \<Rightarrow>
          (case ag_append (UserMessage m) surface_append t st of
             (Inl f, st1) \<Rightarrow> step_throw f st1
           | (Inr _, st1) \<Rightarrow> st1\<lparr>ag_messages := ms\<rparr>))"

section \<open>The step\<close>

text \<open>\<open>requestProposal\<close> and the seed of the call configuration.\<close>

definition request_proposal :: "epoch_header \<Rightarrow> call_config" where
  "request_proposal h =
     (case eh_defaults h of
        None \<Rightarrow> eh_config h
      | Some d \<Rightarrow>
          let c1 = (if ad_effort d then (eh_config h)\<lparr>cc_effort := None\<rparr> else eh_config h)
          in if ad_max_tokens d then c1\<lparr>cc_max_tokens := None\<rparr> else c1)"

definition seed_config :: "agent_options \<Rightarrow> bool \<Rightarrow> epoch_header option \<Rightarrow> call_config option" where
  "seed_config opts logged persisted =
     (if logged then map_option request_proposal persisted
      else
        let effort = (case persisted of
              None \<Rightarrow> None
            | Some h \<Rightarrow>
                if cc_provider (eh_config h) = ao_provider opts \<and> cc_model (eh_config h) = ao_model opts
                   \<and> default_flag ad_effort h \<noteq> Some True
                then cc_effort (eh_config h) else None)
        in Some (no_config\<lparr>cc_provider := ao_provider opts, cc_model := ao_model opts, cc_effort := effort,
                   cc_max_tokens := ao_max_tokens opts\<rparr>))"

text \<open>The messages are derived before the request is built; the derivation may throw.\<close>

definition begin_request :: "agent \<Rightarrow> agent" where
  "begin_request st =
     (case deriveMessages (ag_session st) of
        (Inl x, ses) \<Rightarrow> step_throw (FSession x) (st\<lparr>ag_owner := (ag_owner st)\<lparr>io_session := ses\<rparr>\<rparr>)
      | (Inr ms, ses) \<Rightarrow>
          (case requestHeader ses of
             (persisted, ses1) \<Rightarrow>
               let st1 = st\<lparr>ag_owner := (ag_owner st)\<lparr>io_session := ses1\<rparr>, ag_boundary := ms\<rparr>
               in case seed_config (ag_options st) (ag_header_logged st) persisted of
                    None \<Rightarrow> step_throw (FOther ''TypeError'') st1
                  | Some c \<Rightarrow> st1\<lparr>ag_seed := c, ag_place := DConfig\<rparr>))"

definition on_config :: "(fault, call_config) result \<Rightarrow> agent \<Rightarrow> agent" where
  "on_config answer st =
     (case answer of
        Inl f \<Rightarrow> step_throw f st
      | Inr proposed \<Rightarrow>
          step_checked st
            (if cc_provider proposed = [] \<or> cc_model proposed = [] then step_throw (FOther ''no provider/model'') st
             else st\<lparr>ag_seed := proposed, ag_place := DCall\<rparr>))"

record prepared_call =
  pc_config :: call_config
  pc_defaults :: adapter_defaults
  pc_window :: "int option"

text \<open>The header of the request: \<open>None\<close> for a route without an adapter.\<close>

definition call_header :: "call_config \<Rightarrow> prepared_call option \<Rightarrow> string \<Rightarrow> json list \<Rightarrow> epoch_header" where
  "call_header proposed prepared system tools =
     canonicalHeader
       \<lparr>eh_config = (case prepared of None \<Rightarrow> proposed | Some p \<Rightarrow> pc_config p),
        eh_defaults = map_option pc_defaults prepared,
        eh_system = (if system = [] then None else Some system),
        eh_tools = (if tools = [] then None else Some tools)\<rparr>"

definition anchor_header :: "epoch_header \<Rightarrow> moment \<Rightarrow> agent \<Rightarrow> (fault, int) result \<times> agent" where
  "anchor_header h t st =
     (case requestHeader (ag_session st) of
        (baseline, ses) \<Rightarrow>
          let st1 = st\<lparr>ag_owner := (ag_owner st)\<lparr>io_session := ses\<rparr>\<rparr>
          in if \<not> ag_header_logged st1 then
               (case ag_append (RequestHeader h (if baseline = None then HdrInitial else HdrResume)) no_intent t st1 of
                  (Inl f, st2) \<Rightarrow> (Inl f, st2)
                | (Inr q, st2) \<Rightarrow> (Inr q, st2\<lparr>ag_header_logged := True\<rparr>))
             else if (case baseline of None \<Rightarrow> True | Some b \<Rightarrow> \<not> headerEquals b h)
             then ag_append (RequestHeader h HdrChange) no_intent t st1
             else (Inr 0, st1))"

definition anchor_context :: "request_context \<Rightarrow> moment \<Rightarrow> agent \<Rightarrow> (fault, int) result \<times> agent" where
  "anchor_context rc t st =
     (case requestContext (ag_session st) of
        (previous, ses) \<Rightarrow>
          let st1 = st\<lparr>ag_owner := (ag_owner st)\<lparr>io_session := ses\<rparr>\<rparr>
          in if previous \<noteq> Some rc then ag_append (RequestContext rc) no_intent t st1 else (Inr 0, st1))"

definition on_call :: "(fault, prepared_call option) result \<Rightarrow> moment \<Rightarrow> moment \<Rightarrow> agent \<Rightarrow> agent" where
  "on_call answer t u st =
     (case answer of
        Inl f \<Rightarrow> step_throw f st
      | Inr prepared \<Rightarrow>
          step_checked st
            (let h = call_header (ag_seed st) prepared (ag_system st) (ag_tools st);
                 rc = \<lparr>rc_provider = cc_provider (eh_config h), rc_model = cc_model (eh_config h),
                       rc_window = (case prepared of None \<Rightarrow> None | Some p \<Rightarrow> pc_window p)\<rparr>
             in case anchor_header h t st of
                  (Inl f, st1) \<Rightarrow> step_throw f st1
                | (Inr _, st1) \<Rightarrow>
                    (case anchor_context rc u st1 of
                       (Inl f, st2) \<Rightarrow> step_throw f st2
                     | (Inr _, st2) \<Rightarrow>
                         st2\<lparr>ag_request := Some \<lparr>lr_header = h, lr_messages = ag_boundary st2\<rparr>, ag_place := DDispatch\<rparr>)))"

text \<open>The stream is opened, which may throw.\<close>

definition dispatch :: "(fault, unit) result \<Rightarrow> agent \<Rightarrow> agent" where
  "dispatch answer st =
     step_checked st
       (case answer of
          Inl f \<Rightarrow> step_throw f st
        | Inr _ \<Rightarrow> step_checked st (st\<lparr>ag_asm := new_assembler, ag_chunks := [], ag_place := DStream\<rparr>))"

fun tool_calls_of :: "content_block list \<Rightarrow> tool_call list" where
  "tool_calls_of [] = []"
| "tool_calls_of (ToolCallBlock i n a # bs) = \<lparr>tc_id = i, tc_name = n, tc_args = a\<rparr> # tool_calls_of bs"
| "tool_calls_of (b # bs) = tool_calls_of bs"

text \<open>The assembled message, and what follows from it; the end of the stream.\<close>

definition accept_message :: "finish_reason \<Rightarrow> string \<Rightarrow> moment \<Rightarrow> agent \<Rightarrow> agent" where
  "accept_message finish newId t st =
     (let cfg = (case ag_request st of Some r \<Rightarrow> eh_config (lr_header r) | None \<Rightarrow> no_config) in
      case assistant_of newId (cc_provider cfg) (cc_model cfg) (ag_asm st) of
        Inl x \<Rightarrow> step_throw (FAssembly x) st
      | Inr m \<Rightarrow>
          (case ag_append (AssistantMessage (phase_turn (ag_phase st)) (running_step (ag_phase st)) m (as_usage (ag_asm st)))
                  \<lparr>si_op = Some append_op, si_sources = Some (seqs_json (ag_chunks st))\<rparr> t st of
             (Inl f, st1) \<Rightarrow> step_throw f st1
           | (Inr _, st1) \<Rightarrow>
               let plan = tool_calls_of (am_content m) in
               if finish = FinishMaxTokens then st1\<lparr>ag_place := DStepEnd (StepEnded (Some EndMaxTokens))\<rparr>
               else if plan = [] then st1\<lparr>ag_place := DStepEnd (StepEnded (Some EndCompleted))\<rparr>
               else st1\<lparr>ag_sched := begin_calls plan (ao_max_parallel (ag_options st1)) (abort_of (ag_phase st1) \<noteq> None),
                        ag_place := DTools\<rparr>))"

definition finish_stream :: "string \<Rightarrow> moment \<Rightarrow> agent \<Rightarrow> agent" where
  "finish_stream newId t st =
     (case finish_of (ag_asm st) of
        FinishError x \<Rightarrow> st\<lparr>ag_place := DRetry x\<rparr>
      | FinishAborted x \<Rightarrow> st\<lparr>ag_place := DRetry x\<rparr>
      | finish \<Rightarrow> accept_message finish newId t st)"

definition on_chunk :: "(fault, stream_chunk option) result \<Rightarrow> string \<Rightarrow> moment \<Rightarrow> agent \<Rightarrow> agent" where
  "on_chunk answer newId t st =
     (case answer of
        Inl f \<Rightarrow> step_throw f st
      | Inr None \<Rightarrow> step_checked st (finish_stream newId t st)
      | Inr (Some c) \<Rightarrow>
          step_checked st
            (case ag_append (AssistantChunk (phase_turn (ag_phase st)) (running_step (ag_phase st)) c) no_intent t st of
               (Inl f, st1) \<Rightarrow> step_throw f st1
             | (Inr q, st1) \<Rightarrow> st1\<lparr>ag_chunks := ag_chunks st1 @ [q], ag_asm := push c (ag_asm st1)\<rparr>))"

definition on_request_error :: "(fault, bool) result \<Rightarrow> llm_failure \<Rightarrow> agent \<Rightarrow> agent" where
  "on_request_error answer x st =
     (case answer of
        Inl f \<Rightarrow> step_throw f st
      | Inr retry \<Rightarrow> step_checked st (if retry then st\<lparr>ag_place := DRequest\<rparr> else step_throw (FLlm x) st))"

section \<open>The tools\<close>

text \<open>
  The entries the scheduler appends go to the session one by one, each as the event the session
  gave them; the contexts it accepts go to the next-step inbox.
\<close>

definition entry_intent :: "call_entry \<Rightarrow> surface_intent" where
  "entry_intent e =
     (case e of CallEntry i s \<Rightarrow> no_intent
      | ResultEntry i c r s \<Rightarrow> \<lparr>si_op = Some append_op, si_sources = Some (JArr [JInt c])\<rparr>)"

fun append_entries :: "tool_call list \<Rightarrow> call_entry list \<Rightarrow> moment list \<Rightarrow> agent \<Rightarrow> agent option" where
  "append_entries plan [] ts st = Some st"
| "append_entries plan (e # es) [] st = None"
| "append_entries plan (e # es) (t # ts) st =
     (let ev = entry_event (phase_turn (ag_phase st)) (running_step (ag_phase st)) plan e in
      if fst t \<noteq> ev_time ev then None
      else case ag_append (ev_data ev) (entry_intent e) t st of
             (Inl f, st1) \<Rightarrow> None
           | (Inr q, st1) \<Rightarrow> if q = ev_seq ev then append_entries plan es ts st1 else None)"

fun accept_contexts :: "user_message list \<Rightarrow> moment list \<Rightarrow> agent \<Rightarrow> agent option" where
  "accept_contexts [] ts st = Some st"
| "accept_contexts (m # ms) [] st = None"
| "accept_contexts (m # ms) (t # ts) st =
     (case inbox_append NextStep m (fst t) (snd t) (ag_owner st) of
        (Inl x, ow) \<Rightarrow> None
      | (Inr _, ow) \<Rightarrow> accept_contexts ms ts (st\<lparr>ag_owner := ow\<rparr>))"

definition tools_step :: "sched \<Rightarrow> moment list \<Rightarrow> moment list \<Rightarrow> agent \<Rightarrow> agent option" where
  "tools_step s ts us st =
     (case append_entries (sd_calls s) (drop (length (sd_log (ag_sched st))) (sd_log s)) ts st of
        None \<Rightarrow> None
      | Some st1 \<Rightarrow>
          map_option (\<lambda>st2. st2\<lparr>ag_sched := s\<rparr>)
            (accept_contexts (drop (length (sd_contexts (ag_sched st))) (sd_contexts s)) us st1))"

definition tools_end :: "agent \<Rightarrow> agent" where
  "tools_end st =
     (case sd_place (ag_sched st) of
        Returned \<Rightarrow> st\<lparr>ag_place := DStepEnd (StepEnded (if sd_concluded (ag_sched st) then Some EndCompleted else None))\<rparr>
      | Threw e \<Rightarrow> step_throw (FOther e) st
      | _ \<Rightarrow> st)"

section \<open>The end of steps and turns\<close>

text \<open>The outcome of a step: \<open>max-tokens\<close> is sticky.\<close>

definition merge_ending :: "turn_end_reason option \<Rightarrow> turn_end_reason option \<Rightarrow> turn_end_reason option" where
  "merge_ending old new = (if old = Some EndMaxTokens then old else new)"

definition go_on :: "agent \<Rightarrow> agent" where
  "go_on st = st\<lparr>ag_target := NextStep, ag_place := DLoop\<rparr>"

definition end_step :: "step_outcome \<Rightarrow> moment \<Rightarrow> agent \<Rightarrow> agent" where
  "end_step r t st =
     (let st0 = (case r of StepThrew f \<Rightarrow> st | StepEnded e \<Rightarrow> st\<lparr>ag_ends := merge_ending (ag_ends st) e\<rparr>) in
      case ag_append (StepEnd (phase_turn (ag_phase st0)) (running_step (ag_phase st0))) no_intent t st0 of
        (Inl f, st1) \<Rightarrow> turn_catch f (st1\<lparr>ag_unclosed := True\<rparr>)
      | (Inr _, st1) \<Rightarrow>
          (case r of
             StepThrew f \<Rightarrow> turn_catch f st1
           | StepEnded e \<Rightarrow>
               turn_checked st1
                 (if ag_ends st1 \<noteq> None \<and> ib_step (ag_inbox st1) = [] then st1\<lparr>ag_place := DStopping\<rparr> else go_on st1)))"

definition on_stopping :: "(fault, unit) result \<Rightarrow> agent \<Rightarrow> agent" where
  "on_stopping answer st =
     (case answer of
        Inl f \<Rightarrow> turn_catch f st
      | Inr _ \<Rightarrow>
          turn_checked st
            (if ag_ends st \<noteq> None \<and> ib_step (ag_inbox st) = [] then st\<lparr>ag_place := DTurnEnd TurnCompletes\<rparr> else go_on st))"

text \<open>The finally of \<open>turn()\<close>, and whether the driver goes on.\<close>

definition end_turn :: "turn_outcome \<Rightarrow> moment \<Rightarrow> agent \<Rightarrow> agent" where
  "end_turn r t st =
     (case ag_append (TurnEnd (phase_turn (ag_phase st)) (case ag_ends st of Some e \<Rightarrow> e | None \<Rightarrow> EndOther ''undefined'')) no_intent t st of
        (Inl f, st1) \<Rightarrow> (report_error f st1)\<lparr>ag_unclosed := True, ag_place := DConverge\<rparr>
      | (Inr _, st1) \<Rightarrow>
          (case r of
             TurnCompletes \<Rightarrow>
               if \<not> has_pending (ag_inbox st1) then st1\<lparr>ag_place := DConverge\<rparr>
               else st1\<lparr>ag_phase := Running None (phase_turn (ag_phase st1)) 0 False, ag_place := DTurn\<rparr>
           | _ \<Rightarrow> st1\<lparr>ag_place := DConverge\<rparr>))"

definition converge :: "agent \<Rightarrow> agent" where
  "converge st =
     (setPhase (Idle (phase_turn (ag_phase st))) st)\<lparr>ag_place := DNone, ag_conts := Replay (wake_requested (ag_phase st)) # ag_conts st\<rparr>"

section \<open>Steps\<close>

definition in_turn :: "agent_place \<Rightarrow> bool" where
  "in_turn p \<longleftrightarrow> p \<notin> {DNone, DTurn, DConverge}"

definition in_step :: "agent_place \<Rightarrow> bool" where
  "in_step p \<longleftrightarrow> (case p of DMessages \<Rightarrow> True | DRequest \<Rightarrow> True | DConfig \<Rightarrow> True | DCall \<Rightarrow> True | DDispatch \<Rightarrow> True
     | DStream \<Rightarrow> True | DRetry x \<Rightarrow> True | DTools \<Rightarrow> True | DStepEnd r \<Rightarrow> True | _ \<Rightarrow> False)"

text \<open>Events that neither open nor close anything and belong to no part of the loop.\<close>

fun neutral :: "event_data \<Rightarrow> bool" where
  "neutral (UserMessage m) = True"
| "neutral EndSeed = True"
| "neutral (InboxSpliced sp) = True"
| "neutral (GoalChange j) = True"
| "neutral (ScheduleChange j) = True"
| "neutral (LlmRetry r) = True"
| "neutral (LlmRetryStarted i t s n) = True"
| "neutral (CompactionStart i c n) = True"
| "neutral (CompactionEnd i c n m) = True"
| "neutral (CompactionSummary i c j sp) = True"
| "neutral (CompactionPrune sp) = True"
| "neutral (OtherEvent t j) = True"
| "neutral _ = False"

text \<open>
  What other plugins append beside the driver, at any moment and anywhere on the surface: not the
  events of the loop or of the inbox, and the todo list and rewrites of tool results only inside a
  turn.
\<close>

definition foreign :: "agent \<Rightarrow> event_data \<Rightarrow> surface_intent \<Rightarrow> bool" where
  "foreign st d intent \<longleftrightarrow>
     event_type_of d \<noteq> ''agent/inbox/spliced'' \<and>
     (neutral d \<or>
      in_turn (ag_place st) \<and> (case d of TodoWrite j \<Rightarrow> True | ToolResult r \<Rightarrow> si_op intent \<noteq> Some append_op | _ \<Rightarrow> False))"

text \<open>The edits of the pending messages any client may make; claiming is the driver's.\<close>

fun edits :: "inbox_request \<Rightarrow> bool" where
  "edits (DoClaim target turn) = False"
| "edits (DoOther d intent) = False"
| "edits _ = True"

inductive agent_step :: "agent \<Rightarrow> agent \<Rightarrow> bool" where
  drv_turn: "ag_place st = DTurn \<Longrightarrow> agent_step st (turn_begin t st)"
| drv_loop: "ag_place st = DLoop \<Longrightarrow> agent_step st (loop_begin t u st)"
| drv_assembled: "ag_place st = DAssemble \<Longrightarrow> agent_step st (on_assembled answer st)"
| drv_pre_step: "ag_place st = DPreStep \<Longrightarrow> agent_step st (on_pre_step decision t st)"
| drv_message: "ag_place st = DMessages \<Longrightarrow> agent_step st (append_message t st)"
| drv_request: "ag_place st = DRequest \<Longrightarrow> agent_step st (begin_request st)"
| drv_config: "ag_place st = DConfig \<Longrightarrow> agent_step st (on_config config st)"
| drv_call: "ag_place st = DCall \<Longrightarrow> agent_step st (on_call prepared t u st)"
| drv_dispatch: "ag_place st = DDispatch \<Longrightarrow> agent_step st (dispatch opened st)"
| drv_chunk: "ag_place st = DStream \<Longrightarrow> agent_step st (on_chunk chunk newId t st)"
| drv_request_error: "ag_place st = DRetry x \<Longrightarrow> agent_step st (on_request_error retry x st)"
| drv_tools:
    "ag_place st = DTools \<Longrightarrow> sched_step (ag_sched st) s \<Longrightarrow> sd_signal s = sd_signal (ag_sched st) \<Longrightarrow>
     tools_step s ts us st = Some st' \<Longrightarrow> agent_step st st'"
| drv_tools_end: "ag_place st = DTools \<Longrightarrow> agent_step st (tools_end st)"
| drv_step_end: "ag_place st = DStepEnd r \<Longrightarrow> agent_step st (end_step r t st)"
| drv_stopping: "ag_place st = DStopping \<Longrightarrow> agent_step st (on_stopping verdict' st)"
| drv_turn_end: "ag_place st = DTurnEnd o' \<Longrightarrow> agent_step st (end_turn o' t st)"
| drv_converge: "ag_place st = DConverge \<Longrightarrow> agent_step st (converge st)"
| call_send: "agent_step st (snd (send m target wakeup t st))"
| call_inbox: "edits q \<Longrightarrow> agent_step st (st\<lparr>ag_owner := snd (inbox_do q t u (ag_owner st))\<rparr>)"
| call_cancel: "agent_step st (snd (cancel cause keep t u st))"
| call_maintenance: "begin_maintenance st = Some st' \<Longrightarrow> agent_step st st'"
| maintenance_end: "ag_phase st = Maintenance c n w \<Longrightarrow> agent_step st (end_maintenance st)"
| call_continues: "ag_conts st \<noteq> [] \<Longrightarrow> agent_step st (continue_call st)"
| foreign_append: "foreign st d intent \<Longrightarrow> agent_step st (snd (ag_append d intent t st))"

inductive agent_reachable :: "agent_options \<Rightarrow> session \<Rightarrow> agent \<Rightarrow> bool" for opts :: agent_options and s :: session where
  agent_new: "new_agent opts s = Inr st \<Longrightarrow> agent_reachable opts s st"
| agent_next: "agent_reachable opts s st \<Longrightarrow> agent_step st st' \<Longrightarrow> agent_reachable opts s st'"

end
