(* ===== verification/Driver_Trace.thy ===== *)
theory Driver_Trace
  imports Agent_Driver
begin

text \<open>
  The invariant of the agent driver: in every state it reaches, under any interleaving of public
  calls and of appends by other plugins, the trace accepts the log and stands where the driver
  does; the tools run as the scheduler does, and a driver at rest is what a restart would build.
\<close>

section \<open>What is appended\<close>

text \<open>The owner's log has grown by events the trace passes over.\<close>

definition grown :: "inbox_owner \<Rightarrow> inbox_owner \<Rightarrow> bool" where
  "grown ow ow' \<longleftrightarrow> (\<exists>es. se_log (io_session ow') = se_log (io_session ow) @ es \<and> (\<forall>e \<in> set es. neutral (ev_data e) \<and> ev_surface_op e = None))"

lemma grown_same: "se_log (io_session ow') = se_log (io_session ow) \<Longrightarrow> grown ow ow'"
  by (simp add: grown_def)

lemma grown_trans: "grown a b \<Longrightarrow> grown b c \<Longrightarrow> grown a c"
  unfolding grown_def by (metis append.assoc UnE set_append)

lemma append_event_log:
  assumes "append_event s time d intent at' = (r, s')"
  shows "case r of Inl x \<Rightarrow> se_log s' = se_log s
    | Inr e \<Rightarrow> se_log s' = se_log s @ [e] \<and> e = new_event s time d intent"
  using assms by (auto simp: append_event_def Let_def split: if_splits prod.splits option.splits)

lemma grown_mutate: "inbox_mutate target start cnt ins discard time at' ow = (r, ow') \<Longrightarrow> grown ow ow'"
  using append_event_log
  by (fastforce simp: inbox_mutate_def Let_def grown_def new_event_def no_intent_def split: if_splits sum.splits prod.splits)

lemma grown_splice: "inbox_splice_op target start cnt ins time at' ow = (r, ow') \<Longrightarrow> grown ow ow'"
  unfolding inbox_splice_op_def by (rule grown_mutate)

lemma grown_clear: "inbox_clear t u ow = (r, ow') \<Longrightarrow> grown ow ow'"
  by (auto simp: inbox_clear_def split: sum.splits prod.splits dest!: grown_splice intro: grown_trans)

lemma grown_claim: "inbox_claim target turn t u ow = (r, ow') \<Longrightarrow> grown ow ow'"
  by (auto simp: inbox_claim_def grown_def split: sum.splits prod.splits if_splits dest!: grown_mutate)

lemma verdict_cases: "snd (verdict p) = snd p"
  by (cases p; cases "fst p") auto

lemma grown_splice_op: "grown ow (snd (inbox_splice_op target start cnt ins time at' ow))"
  using grown_splice by (metis prod.collapse)

lemma grown_edit: "edits q \<Longrightarrow> grown ow (snd (inbox_do q t u ow))"
proof (cases q)
  case (DoReplace i m)
  then show ?thesis
    by (auto simp: verdict_cases inbox_replace_def grown_same split: option.splits prod.splits sum.splits dest: grown_splice)
next
  case (DoRemove i)
  then show ?thesis
    by (auto simp: verdict_cases inbox_remove_def grown_same split: option.splits prod.splits sum.splits dest: grown_splice)
next
  case DoClear
  show ?thesis unfolding DoClear inbox_do.simps verdict_cases by (rule grown_clear [OF prod.collapse [symmetric]])
qed (simp_all add: verdict_cases inbox_append_def inbox_prepend_def grown_splice_op)

lemma neutral_step:
  assumes "neutral (ev_data e)" "tr_lastSeq tr < ev_seq e"
  shows "trace_step tr e = Inr (tr\<lparr>tr_lastSeq := ev_seq e\<rparr>)"
  using assms by (cases "ev_data e")
    (simp_all add: trace_step_def validateEvent_def keep_transition_def applyTransition_def Let_def)

lemma session_seqs:
  assumes "session_ok s" "se_log s = es @ [e]"
  shows "ev_seq e = int (length es)"
  using assms foldSurface_snoc_seq by (metis session_ok_def)

lemma session_prefix: "is_ok (foldSurface (es @ fs)) \<Longrightarrow> is_ok (foldSurface es)"
  by (rule foldSurface_prefix)

lemma seed_last:
  assumes ok: "is_ok (foldSurface (es @ [e]))" and tr: "seedSession es = Inr tr"
  shows "tr_lastSeq tr < ev_seq e"
proof -
  have e: "ev_seq e = int (length es)" using ok by (rule foldSurface_snoc_seq)
  show ?thesis
  proof (cases es rule: rev_cases)
    case Nil
    with tr e show ?thesis by (auto simp: seedSession_def freshTrace_def)
  next
    case (snoc ds d)
    with ok have "is_ok (foldSurface (ds @ [d]))" by (metis foldSurface_prefix)
    then have "ev_seq d = int (length ds)" by (rule foldSurface_snoc_seq)
    with snoc seedSession_last [OF tr] e show ?thesis by simp
  qed
qed

lemma traced_snoc:
  assumes "is_ok (foldSurface (es @ [e]))" "seedSession es = Inr tr"
  shows "seedSession (es @ [e]) = trace_step tr e \<and> tr_lastSeq tr < ev_seq e"
  using seed_last [OF assms] assms(2) by (simp add: seedSession_def replay_snoc)

lemma traced_neutral:
  "is_ok (foldSurface (es @ fs)) \<Longrightarrow> \<forall>e \<in> set fs. neutral (ev_data e) \<Longrightarrow> seedSession es = Inr tr \<Longrightarrow>
     \<exists>q. seedSession (es @ fs) = Inr (tr\<lparr>tr_lastSeq := q\<rparr>)"
proof (induction fs rule: rev_induct)
  case Nil
  then show ?case by (intro exI [of _ "tr_lastSeq tr"]) simp
next
  case (snoc e fs)
  then have "is_ok (foldSurface (es @ fs))" using foldSurface_prefix [of "es @ fs" "[e]"] by simp
  with snoc obtain q where q: "seedSession (es @ fs) = Inr (tr\<lparr>tr_lastSeq := q\<rparr>)" by auto
  from traced_snoc [OF _ q, of e] snoc.prems(1,2) show ?case
    by (auto simp: neutral_step)
qed

lemma traced_grown:
  assumes "inbox_ok ow'" "grown ow ow'" "seedSession (se_log (io_session ow)) = Inr tr"
  shows "\<exists>q. seedSession (se_log (io_session ow')) = Inr (tr\<lparr>tr_lastSeq := q\<rparr>)"
  using assms traced_neutral unfolding grown_def inbox_ok_def session_ok_def by metis

text \<open>An append of the driver.\<close>

lemma ag_append_cases:
  assumes ok: "inbox_ok (ag_owner st)" and d: "event_type_of d \<noteq> ''agent/inbox/spliced''"
    and ap: "ag_append d intent t st = (r, st1)"
  shows "\<exists>ow. st1 = st\<lparr>ag_owner := ow\<rparr> \<and> inbox_ok ow \<and> io_inbox ow = ag_inbox st
    \<and> (case r of Inl f \<Rightarrow> se_log (io_session ow) = ag_log st
       | Inr q \<Rightarrow> (\<exists>e. se_log (io_session ow) = ag_log st @ [e] \<and> ev_data e = d \<and> ev_surface_op e = si_op intent
            \<and> ev_sources e = si_sources intent \<and> \<not> ev_ignorable e \<and> ev_time e = fst t \<and> ev_seq e = q \<and> q = int (length (ag_log st))))"
proof -
  obtain v ses where a: "append_event (ag_session st) (fst t) d intent (snd t) = (v, ses)" by fastforce
  have "session_ok (ag_session st)" using ok by (simp add: inbox_ok_def)
  note k = append_event_ok [OF this a] and hd = append_event_header [OF a] and lg = append_event_log [OF a]
  show ?thesis
  proof (cases v)
    case (Inl x)
    with ap a k hd show ?thesis
      by (intro exI [of _ "(ag_owner st)\<lparr>io_session := ses\<rparr>"])
        (auto simp: ag_append_def ag_log_def intro!: inbox_ok_same [OF ok])
  next
    case (Inr e)
    with k hd other_not_spliced [OF d, of e]
    have "inbox_ok ((ag_owner st)\<lparr>io_session := ses, io_inbox := ag_inbox st, io_notes := io_notes (ag_owner st)\<rparr>)"
      by (intro inbox_ok_grow [OF ok]) auto
    with Inr ap a k lg show ?thesis
      by (intro exI [of _ "(ag_owner st)\<lparr>io_session := ses\<rparr>"]) (auto simp: ag_append_def ag_log_def new_event_def)
  qed
qed

section \<open>The invariant\<close>

definition calls_distinct :: "session_event list \<Rightarrow> bool" where
  "calls_distinct es \<longleftrightarrow> (\<forall>e \<in> set es. case ev_data e of
     AssistantMessage turn step m u \<Rightarrow> distinct (map tc_id (tool_calls_of (am_content m))) | _ \<Rightarrow> True)"

text \<open>Where the trace stands, read off the driver.\<close>

definition open_pending :: "agent \<Rightarrow> string list \<Rightarrow> bool" where
  "open_pending st ps \<longleftrightarrow>
     (case ag_place st of
        DTools \<Rightarrow> (\<exists>q m. fifo (sd_log (ag_sched st)) = Inr (q, m) \<and> ps = pending_ids (sd_calls (ag_sched st)) q)
      | DStepEnd r \<Rightarrow> True
      | _ \<Rightarrow> ps = [])"

definition stands :: "agent \<Rightarrow> session_trace \<Rightarrow> bool" where
  "stands st tr \<longleftrightarrow>
     tr_nextTurn tr = phase_turn (ag_phase st) + (if in_turn (ag_place st) then 0 else 1) \<and>
     tr_openTurn tr = (if in_turn (ag_place st) then Some (phase_turn (ag_phase st)) else None) \<and>
     tr_openStep tr = (if in_step (ag_place st) then Some (running_step (ag_phase st)) else None) \<and>
     (in_turn (ag_place st) \<longrightarrow> tr_nextStep tr = running_step (ag_phase st) + (if in_step (ag_place st) then 0 else 1)) \<and>
     open_pending st (tr_pending tr)"

definition follows :: "agent \<Rightarrow> bool" where
  "follows st \<longleftrightarrow> ag_unclosed st \<or> \<not> calls_distinct (ag_log st) \<or> (\<exists>tr. seedSession (ag_log st) = Inr tr \<and> stands st tr)"

definition plan_logged :: "agent \<Rightarrow> bool" where
  "plan_logged st \<longleftrightarrow> (\<exists>e \<in> set (ag_log st). \<exists>turn step m u. ev_data e = AssistantMessage turn step m u
     \<and> tool_calls_of (am_content m) = sd_calls (ag_sched st))"

definition agent_ok :: "agent \<Rightarrow> bool" where
  "agent_ok st \<longleftrightarrow>
     inbox_ok (ag_owner st) \<and> (is_running (ag_phase st) \<longleftrightarrow> ag_place st \<noteq> DNone) \<and>
     (ag_place st = DTurn \<longrightarrow> running_step (ag_phase st) = 0) \<and>
     (ag_place st = DTools \<longrightarrow> plan_logged st \<and> (\<exists>n. sched_reachable (sd_calls (ag_sched st)) n (ag_sched st)))"

lemma calls_distinct_grows: "calls_distinct (es @ fs) \<Longrightarrow> calls_distinct es"
  by (simp add: calls_distinct_def)

lemma in_places [simp]:
  "in_turn DLoop" "in_turn DAssemble" "in_turn DPreStep" "in_turn DMessages" "in_turn DRequest" "in_turn DConfig"
  "in_turn DCall" "in_turn DDispatch" "in_turn DStream" "in_turn (DRetry x)" "in_turn DTools" "in_turn (DStepEnd r)"
  "in_turn DStopping" "in_turn (DTurnEnd o')" "\<not> in_turn DNone" "\<not> in_turn DTurn" "\<not> in_turn DConverge"
  "in_step DMessages" "in_step DRequest" "in_step DConfig" "in_step DCall" "in_step DDispatch" "in_step DStream"
  "in_step (DRetry x)" "in_step DTools" "in_step (DStepEnd r)" "\<not> in_step DLoop" "\<not> in_step DAssemble" "\<not> in_step DPreStep"
  "\<not> in_step DStopping" "\<not> in_step (DTurnEnd o')" "\<not> in_step DNone" "\<not> in_step DTurn" "\<not> in_step DConverge"
  by (simp_all add: in_turn_def in_step_def)

text \<open>A transition that only moves the driver, or grows the log by neutral events.\<close>

lemma follows_moved:
  assumes f: "follows st" and ok: "inbox_ok (ag_owner st')" and g: "grown (ag_owner st) (ag_owner st')"
    and un: "ag_unclosed st \<Longrightarrow> ag_unclosed st'"
    and s: "\<And>tr q. stands st tr \<Longrightarrow> stands st' (tr\<lparr>tr_lastSeq := q\<rparr>)"
  shows "follows st'"
proof -
  from g have "calls_distinct (ag_log st') \<Longrightarrow> calls_distinct (ag_log st)"
    by (auto simp: grown_def ag_log_def calls_distinct_def)
  with f un s traced_grown [OF ok g] show ?thesis
    unfolding follows_def ag_log_def by metis
qed

lemma follows_same:
  assumes "follows st" "ag_log st' = ag_log st" "ag_unclosed st \<Longrightarrow> ag_unclosed st'" "\<And>tr. stands st tr \<Longrightarrow> stands st' tr"
  shows "follows st'"
  using assms unfolding follows_def by metis

text \<open>A transition that appends one event: the trace accepts it and stands where the driver does.\<close>

lemma follows_append:
  assumes f: "follows st" and ok: "inbox_ok (ag_owner st')" and l: "ag_log st' = ag_log st @ [e]"
    and un: "ag_unclosed st \<Longrightarrow> ag_unclosed st'"
    and s: "\<And>tr. stands st tr \<Longrightarrow> tr_lastSeq tr < ev_seq e \<Longrightarrow> trace_inv tr \<Longrightarrow>
      \<exists>tr'. trace_step tr e = Inr tr' \<and> stands st' tr'"
  shows "follows st'"
proof -
  have fold: "is_ok (foldSurface (ag_log st @ [e]))"
    using ok l by (simp add: inbox_ok_def session_ok_def ag_log_def)
  have cd: "calls_distinct (ag_log st') \<Longrightarrow> calls_distinct (ag_log st)"
    unfolding l by (rule calls_distinct_grows)
  have "\<exists>tr'. seedSession (ag_log st') = Inr tr' \<and> stands st' tr'"
    if "seedSession (ag_log st) = Inr tr" "stands st tr" for tr
    using traced_snoc [OF fold that(1)] s [OF that(2)] that(1) trace.inv_replay [of "ag_log st" tr]
    by (auto simp: l seedSession_def)
  with f un cd show ?thesis unfolding follows_def by blast
qed

definition good :: "agent \<Rightarrow> bool" where
  "good st \<longleftrightarrow> agent_ok st \<and> follows st"

text \<open>The invariant reads five fields of the agent.\<close>

lemma good_cong:
  assumes "good st" "ag_owner st' = ag_owner st" "ag_phase st' = ag_phase st" "ag_place st' = ag_place st"
    "ag_sched st' = ag_sched st" "ag_unclosed st' = ag_unclosed st"
  shows "good st'"
  using assms(1) unfolding good_def agent_ok_def follows_def stands_def open_pending_def plan_logged_def ag_log_def assms(2-) .

lemma stands_cong:
  assumes "ag_phase st' = ag_phase st" "ag_place st' = ag_place st" "ag_sched st' = ag_sched st"
  shows "stands st' = stands st"
  unfolding stands_def open_pending_def assms ..

lemma stands_seq: "stands st (tr\<lparr>tr_lastSeq := q\<rparr>) = stands st tr"
  by (simp add: stands_def)

lemma begin_calls_calls: "sd_calls (begin_calls plan n sig) = plan"
  by (simp add: begin_calls_def)

lemma distinct_plan:
  assumes "plan_logged st" "calls_distinct (ag_log st)"
  shows "distinct (map tc_id (sd_calls (ag_sched st)))"
proof -
  from assms(1) obtain e turn step m u where e: "e \<in> set (ag_log st)" "ev_data e = AssistantMessage turn step m u"
    "tool_calls_of (am_content m) = sd_calls (ag_sched st)" unfolding plan_logged_def by blast
  from bspec [OF assms(2) [unfolded calls_distinct_def] e(1)] e(2,3) show ?thesis by simp
qed

lemma plan_loggedI:
  "e \<in> set (ag_log st) \<Longrightarrow> ev_data e = AssistantMessage turn step m u \<Longrightarrow>
     tool_calls_of (am_content m) = sd_calls (ag_sched st) \<Longrightarrow> plan_logged st"
  unfolding plan_logged_def by blast

lemma plan_logged_mono:
  "set (ag_log st) \<subseteq> set (ag_log st') \<Longrightarrow> sd_calls (ag_sched st') = sd_calls (ag_sched st) \<Longrightarrow> plan_logged st \<Longrightarrow> plan_logged st'"
  unfolding plan_logged_def by (metis subset_iff)

lemma follows_owner:
  assumes "follows st" "inbox_ok ow" "grown (ag_owner st) ow"
    "\<And>tr q. stands st tr \<Longrightarrow> stands (st\<lparr>ag_owner := ow\<rparr>) (tr\<lparr>tr_lastSeq := q\<rparr>)"
  shows "follows (st\<lparr>ag_owner := ow\<rparr>)"
  by (rule follows_moved [OF assms(1)]) (simp_all add: assms(2-))

lemma good_owner:
  assumes g: "good st" and ok: "inbox_ok ow" and gr: "grown (ag_owner st) ow"
  shows "good (st\<lparr>ag_owner := ow\<rparr>)"
proof -
  have "set (ag_log st) \<subseteq> set (ag_log (st\<lparr>ag_owner := ow\<rparr>))"
    using gr by (auto simp: ag_log_def grown_def)
  then have "plan_logged st \<Longrightarrow> plan_logged (st\<lparr>ag_owner := ow\<rparr>)"
    by (rule plan_logged_mono) simp
  then have "agent_ok (st\<lparr>ag_owner := ow\<rparr>)"
    using g ok by (simp add: good_def agent_ok_def)
  moreover have "stands (st\<lparr>ag_owner := ow\<rparr>) = stands st" by (rule stands_cong) simp_all
  then have "stands (st\<lparr>ag_owner := ow\<rparr>) (tr\<lparr>tr_lastSeq := q\<rparr>)" if "stands st tr" for tr q
    using that by (simp only: stands_seq)
  then have "follows (st\<lparr>ag_owner := ow\<rparr>)"
    using follows_owner [OF _ ok gr] g good_def by blast
  ultimately show ?thesis by (simp add: good_def)
qed

lemma follows_place:
  assumes "follows st" "\<And>tr. stands st tr \<Longrightarrow> stands (st\<lparr>ag_place := p\<rparr>) tr"
  shows "follows (st\<lparr>ag_place := p\<rparr>)"
  by (rule follows_same [OF assms(1)]) (simp_all add: ag_log_def assms(2))

definition between :: "agent_place \<Rightarrow> bool" where
  "between p \<longleftrightarrow> in_turn p \<and> \<not> in_step p"

definition inside :: "agent_place \<Rightarrow> bool" where
  "inside p \<longleftrightarrow> in_step p \<and> p \<noteq> DTools \<and> (\<forall>r. p \<noteq> DStepEnd r)"

lemma between_places [simp]:
  "between DLoop" "between DAssemble" "between DPreStep" "between DStopping" "between (DTurnEnd o')"
  by (simp_all add: between_def)

lemma inside_places [simp]:
  "inside DMessages" "inside DRequest" "inside DConfig" "inside DCall" "inside DDispatch" "inside DStream" "inside (DRetry x)"
  by (simp_all add: inside_def)

lemma between_not: "between p \<Longrightarrow> in_turn p \<and> \<not> in_step p \<and> p \<noteq> DNone \<and> p \<noteq> DTurn \<and> p \<noteq> DTools"
  by (cases p) (simp_all add: between_def)

lemma inside_not: "inside p \<Longrightarrow> in_turn p \<and> in_step p \<and> p \<noteq> DNone \<and> p \<noteq> DTurn \<and> p \<noteq> DTools"
  by (cases p) (simp_all add: inside_def)

lemma pending_between: "between (ag_place st) \<Longrightarrow> open_pending st ps = (ps = [])"
  by (cases "ag_place st") (simp_all add: open_pending_def between_def)

lemma pending_inside: "inside (ag_place st) \<Longrightarrow> open_pending st ps = (ps = [])"
  by (cases "ag_place st") (simp_all add: open_pending_def inside_def)

lemma good_between:
  assumes g: "good st" and p: "between (ag_place st)" and p': "between p'"
  shows "good (st\<lparr>ag_place := p'\<rparr>)"
proof -
  have "agent_ok (st\<lparr>ag_place := p'\<rparr>)"
    using g between_not [OF p] between_not [OF p'] by (simp add: good_def agent_ok_def)
  moreover have "stands (st\<lparr>ag_place := p'\<rparr>) tr" if "stands st tr" for tr
    using that between_not [OF p] between_not [OF p'] pending_between [OF p] pending_between [of "st\<lparr>ag_place := p'\<rparr>"] p'
    by (simp add: stands_def)
  then have "follows (st\<lparr>ag_place := p'\<rparr>)"
    using follows_place g good_def by blast
  ultimately show ?thesis by (simp add: good_def)
qed

lemma good_inside:
  assumes g: "good st" and p: "inside (ag_place st)" and p': "inside p' \<or> (\<exists>r. p' = DStepEnd r)"
  shows "good (st\<lparr>ag_place := p'\<rparr>)"
proof -
  have i: "in_step p'" "in_turn p'" "in_step (ag_place st)" "in_turn (ag_place st)" "p' \<noteq> DTools" "p' \<noteq> DTurn"
    using inside_not [OF p] p' inside_not [of p'] by auto
  have "agent_ok (st\<lparr>ag_place := p'\<rparr>)"
    using g i inside_not [OF p] by (auto simp: good_def agent_ok_def)
  moreover have "open_pending (st\<lparr>ag_place := p'\<rparr>) []"
    using p' by (cases p') (simp_all add: open_pending_def inside_def)
  then have "stands (st\<lparr>ag_place := p'\<rparr>) tr" if "stands st tr" for tr
    using that i pending_inside [OF p] by (simp add: stands_def)
  then have "follows (st\<lparr>ag_place := p'\<rparr>)"
    using follows_place g good_def by blast
  ultimately show ?thesis by (simp add: good_def)
qed

lemma step_in_turn: "in_step p \<Longrightarrow> in_turn p"
  by (cases p) simp_all

lemma good_step_throw:
  assumes g: "good st" and p: "in_step (ag_place st)"
  shows "good (step_throw f st)"
proof -
  have t: "in_turn (ag_place st)" "ag_place st \<noteq> DNone" using step_in_turn [OF p] by auto
  have "stands (step_throw f st) tr" if "stands st tr" for tr
    using that t p by (simp add: stands_def step_throw_def open_pending_def)
  then have "follows (step_throw f st)"
    unfolding step_throw_def using follows_place g good_def by blast
  moreover have "agent_ok (step_throw f st)"
    using g t by (simp add: good_def agent_ok_def step_throw_def)
  ultimately show ?thesis by (simp add: good_def)
qed

lemma good_turn_catch: "good (st\<lparr>ag_place := DLoop\<rparr>) \<Longrightarrow> good (turn_catch f st)"
  using good_between [of "st\<lparr>ag_place := DLoop\<rparr>" "DTurnEnd (TurnThrew f)"]
  by (cases "abort_of (ag_phase st)")
    (auto simp: turn_catch_def report_error_def elim: good_cong)

lemma good_catch: "good st \<Longrightarrow> between (ag_place st) \<Longrightarrow> good (turn_catch f st)"
  by (rule good_turn_catch) (simp add: good_between)

lemma good_turn_checked:
  "good st \<Longrightarrow> between (ag_place st) \<Longrightarrow> (abort_of (ag_phase st) = None \<Longrightarrow> good next) \<Longrightarrow> good (turn_checked st next)"
  by (auto simp: turn_checked_def good_catch split: option.splits)

lemma good_step_checked:
  "good st \<Longrightarrow> in_step (ag_place st) \<Longrightarrow> (abort_of (ag_phase st) = None \<Longrightarrow> good next) \<Longrightarrow> good (step_checked st next)"
  by (auto simp: step_checked_def good_step_throw split: option.splits)

lemma good_inbox: "good st \<Longrightarrow> inbox_ok (ag_owner st)"
  by (simp add: good_def agent_ok_def)

lemma good_append_failed:
  assumes g: "good st" and d: "event_type_of d \<noteq> ''agent/inbox/spliced''" and ap: "ag_append d intent t st = (Inl f, st1)"
  shows "good st1 \<and> ag_place st1 = ag_place st \<and> ag_phase st1 = ag_phase st"
proof -
  from ag_append_cases [OF good_inbox [OF g] d ap] obtain ow where
    "st1 = st\<lparr>ag_owner := ow\<rparr>" "inbox_ok ow" "se_log (io_session ow) = ag_log st" by auto
  with good_owner [OF g, of ow] show ?thesis by (simp add: grown_same ag_log_def)
qed

lemma good_appended:
  assumes g: "good st" and d: "event_type_of d \<noteq> ''agent/inbox/spliced''" and ap: "ag_append d intent t st = (Inr q, st1)"
    and o': "ag_owner st' = ag_owner st1" "ag_unclosed st \<Longrightarrow> ag_unclosed st'"
    and run: "is_running (ag_phase st') \<longleftrightarrow> ag_place st' \<noteq> DNone" "ag_place st' = DTurn \<Longrightarrow> running_step (ag_phase st') = 0"
    and tools: "ag_place st' = DTools \<Longrightarrow> plan_logged st' \<and> (\<exists>n. sched_reachable (sd_calls (ag_sched st')) n (ag_sched st'))"
    and s: "\<And>tr e. stands st tr \<Longrightarrow> ev_data e = d \<Longrightarrow> ev_surface_op e = si_op intent \<Longrightarrow> tr_lastSeq tr < ev_seq e \<Longrightarrow>
      trace_inv tr \<Longrightarrow> \<exists>tr'. trace_step tr e = Inr tr' \<and> stands st' tr'"
  shows "good st'"
proof -
  from ag_append_cases [OF good_inbox [OF g] d ap] obtain ow e where st1: "st1 = st\<lparr>ag_owner := ow\<rparr>"
    and ok: "inbox_ok ow" and l: "se_log (io_session ow) = ag_log st @ [e]"
    and e: "ev_data e = d" "ev_surface_op e = si_op intent" by auto
  have "agent_ok st'"
    using ok o'(1) st1 run tools by (simp add: agent_ok_def)
  moreover have "follows st'"
    by (rule follows_append [of st _ e])
      (use g ok l o' st1 s e in \<open>simp_all add: good_def ag_log_def\<close>)
  ultimately show ?thesis by (simp add: good_def)
qed

lemmas trace_defs = trace_step_def validateEvent_def keep_transition_def applyTransition_def requireOpenStep_def Let_def

section \<open>The invariant along the driver\<close>

lemma good_run: "good st \<Longrightarrow> ag_place st \<noteq> DNone \<Longrightarrow> \<exists>c t s w. ag_phase st = Running c t s w"
  by (cases "ag_phase st") (simp_all add: good_def agent_ok_def)

lemma plain_types:
  "event_type_of (TurnStart t) \<noteq> ''agent/inbox/spliced''" "event_type_of (TurnEnd t r) \<noteq> ''agent/inbox/spliced''"
  "event_type_of (StepStart t s) \<noteq> ''agent/inbox/spliced''" "event_type_of (StepEnd t s) \<noteq> ''agent/inbox/spliced''"
  "event_type_of (UserMessage m) \<noteq> ''agent/inbox/spliced''" "event_type_of (AssistantChunk t s c) \<noteq> ''agent/inbox/spliced''"
  "event_type_of (AssistantMessage t s m' u) \<noteq> ''agent/inbox/spliced''" "event_type_of (RequestHeader h hr) \<noteq> ''agent/inbox/spliced''"
  "event_type_of (RequestContext rc) \<noteq> ''agent/inbox/spliced''" "event_type_of (ToolCall t s i n a) \<noteq> ''agent/inbox/spliced''"
  "event_type_of (ToolResult d) \<noteq> ''agent/inbox/spliced''"
  by (simp_all add: event_type_of_def)

lemma good_converge_place:
  "good st \<Longrightarrow> ag_place st = DTurn \<Longrightarrow> good (st\<lparr>ag_place := DConverge\<rparr>)"
  by (auto simp: good_def agent_ok_def stands_def open_pending_def intro!: follows_place)

lemma good_report: "good (report_error f st) = good st"
  by (auto simp: report_error_def elim: good_cong)

lemma good_turn_begin:
  assumes g: "good st" and p: "ag_place st = DTurn"
  shows "good (turn_begin t st)"
proof -
  obtain c n w where ph: "ag_phase st = Running c n 0 w"
    using good_run [OF g] g p by (auto simp: good_def agent_ok_def)
  obtain r st1 where ap: "ag_append (TurnStart (n + 1)) no_intent t st = (r, st1)" by fastforce
  show ?thesis
  proof (cases "c = None")
    case False
    with ph good_converge_place [OF g p] show ?thesis by (simp add: turn_begin_def)
  next
    case True
    show ?thesis
    proof (cases r)
      case (Inl f)
      from good_append_failed [OF g plain_types(1) ap [unfolded Inl]] p
      have "good (st1\<lparr>ag_place := DConverge\<rparr>)" by (intro good_converge_place) auto
      then have "good ((report_error f st1)\<lparr>ag_place := DConverge\<rparr>)"
        by (auto simp: report_error_def elim: good_cong)
      with True Inl ap ph show ?thesis by (simp add: turn_begin_def Let_def)
    next
      case (Inr q)
      have ph1: "ag_phase st1 = ag_phase st" "ag_unclosed st1 = ag_unclosed st"
        using ag_append_cases [OF good_inbox [OF g] plain_types(1) ap] by auto
      have "good (st1\<lparr>ag_phase := set_turn (n + 1) (ag_phase st1), ag_ends := None, ag_target := NextTurn, ag_place := DLoop\<rparr>)"
        by (rule good_appended [OF g plain_types(1) ap [unfolded Inr]])
          (use ph1 ph p True in \<open>auto simp: stands_def open_pending_def trace_defs trace_inv_def\<close>)
      with True Inr ap ph show ?thesis by (simp add: turn_begin_def Let_def)
    qed
  qed
qed

lemma good_loop_begin:
  assumes g: "good st" and p: "ag_place st = DLoop"
  shows "good (loop_begin t u st)"
proof -
  obtain r ow where c: "inbox_claim (ag_target st) (phase_turn (ag_phase st)) t u (ag_owner st) = (r, ow)" by fastforce
  have "inbox_ok ow"
    using inbox_do_ok [OF good_inbox [OF g], of "DoClaim (ag_target st) (phase_turn (ag_phase st))" t u] c by (cases r) auto
  then have o': "good (st\<lparr>ag_owner := ow\<rparr>)" using good_owner [OF g _ grown_claim [OF c]] by simp
  then have "good (turn_catch f (st\<lparr>ag_owner := ow\<rparr>))" for f
    using p by (intro good_catch) simp_all
  moreover have "good (st\<lparr>ag_owner := ow, ag_place := DAssemble\<rparr>)"
    using good_between [OF o'] p by simp
  then have "good (st\<lparr>ag_owner := ow, ag_messages := ms, ag_place := DAssemble\<rparr>)" for ms
    by (rule good_cong) simp_all
  ultimately show ?thesis
    unfolding loop_begin_def using g p c by (intro good_turn_checked) (auto split: sum.splits)
qed

lemma good_assembled: "good st \<Longrightarrow> ag_place st = DAssemble \<Longrightarrow> good (on_assembled answer st)"
  using good_between [of st DPreStep] good_catch [of st]
  by (auto simp: on_assembled_def split: sum.splits intro!: good_turn_checked elim: good_cong)

lemma good_pre_step:
  assumes g: "good st" and p: "ag_place st = DPreStep"
  shows "good (on_pre_step decision t st)"
proof -
  obtain c n k w where ph: "ag_phase st = Running c n k w" using good_run [OF g] p by auto
  obtain r st1 where ap: "ag_append (StepStart n (k + 1)) no_intent t st = (r, st1)" by fastforce
  have st1: "ag_phase st1 = ag_phase st" "ag_unclosed st1 = ag_unclosed st" "ag_place st1 = ag_place st"
    using ag_append_cases [OF good_inbox [OF g] plain_types(3) ap] by auto
  have ends: "good (st\<lparr>ag_ends := e, ag_place := DTurnEnd o'\<rparr>)" "good (st\<lparr>ag_place := DTurnEnd o'\<rparr>)" for e o'
    using good_between [OF g, of "DTurnEnd o'"] p by (auto elim: good_cong)
  have "good (turn_catch f st1)" if "r = Inl f" for f
    using good_append_failed [OF g plain_types(3) ap [unfolded that]] p by (intro good_catch) auto
  moreover have "good (st1\<lparr>ag_phase := set_step (k + 1) (ag_phase st1), ag_messages := ms, ag_place := DMessages\<rparr>)"
    if "r = Inr q" for q ms
    by (rule good_appended [OF g plain_types(3) ap [unfolded that]])
      (use st1 ph p in \<open>auto simp: stands_def open_pending_def trace_defs trace_inv_def\<close>)
  ultimately show ?thesis
    using g p ends ap ph unfolding on_pre_step_def
    by (auto simp: Let_def good_catch split: sum.splits pre_step_decision.splits intro!: good_turn_checked)
qed

lemma good_message:
  assumes g: "good st" and p: "ag_place st = DMessages"
  shows "good (append_message t st)"
proof (cases "ag_messages st")
  case Nil
  with g p show ?thesis by (simp add: append_message_def good_step_checked good_inside)
next
  case (Cons m ms)
  obtain r st1 where ap: "ag_append (UserMessage m) surface_append t st = (r, st1)" by fastforce
  have st1: "ag_phase st1 = ag_phase st" "ag_unclosed st1 = ag_unclosed st" "ag_place st1 = ag_place st" "ag_sched st1 = ag_sched st"
    using ag_append_cases [OF good_inbox [OF g] plain_types(5) ap] by auto
  show ?thesis
  proof (cases r)
    case (Inl f)
    from good_append_failed [OF g plain_types(5) ap [unfolded Inl]] p have "good (step_throw f st1)"
      by (intro good_step_throw) auto
    with Cons ap Inl show ?thesis by (simp add: append_message_def)
  next
    case (Inr q)
    have "good (st1\<lparr>ag_messages := ms\<rparr>)"
      by (rule good_appended [OF g plain_types(5) ap [unfolded Inr]])
        (use st1 g p in \<open>auto simp: stands_def open_pending_def neutral_step good_def agent_ok_def\<close>)
    with Cons ap Inr show ?thesis by (simp add: append_message_def)
  qed
qed

lemma good_session:
  assumes g: "good st" and ok: "session_ok ses" and l: "se_log ses = ag_log st" and h: "se_header ses = se_header (ag_session st)"
  shows "good (st\<lparr>ag_owner := (ag_owner st)\<lparr>io_session := ses\<rparr>\<rparr>)"
  by (rule good_owner [OF g]) (use good_inbox [OF g] ok l h in \<open>auto simp: ag_log_def grown_def intro: inbox_ok_same\<close>)

lemma header_of_read: "requestHeader s = (h, s') \<Longrightarrow> se_header s' = se_header s"
  by (auto simp: requestHeader_def Let_def)

lemma context_of_read: "requestContext s = (rc, s') \<Longrightarrow> se_header s' = se_header s"
  by (auto simp: requestContext_def Let_def)

lemma read_header:
  assumes "inbox_ok (ag_owner st)" "requestHeader (ag_session st) = (h, ses)"
  shows "session_ok ses \<and> se_log ses = ag_log st \<and> se_header ses = se_header (ag_session st) \<and> h = foldRequestHeader (ag_log st) None"
  using requestHeader_ok [OF _ assms(2)] header_of_read [OF assms(2)] assms(1) by (simp add: inbox_ok_def ag_log_def)

lemma read_context:
  assumes "inbox_ok (ag_owner st)" "requestContext (ag_session st) = (rc, ses)"
  shows "session_ok ses \<and> se_log ses = ag_log st \<and> se_header ses = se_header (ag_session st)"
  using requestContext_ok [OF _ assms(2)] context_of_read [OF assms(2)] assms(1) by (simp add: inbox_ok_def ag_log_def)

lemma derive_header: "deriveMessages s = (r, s') \<Longrightarrow> se_header s' = se_header s"
  by (auto simp: deriveMessages_def Let_def split: prod.splits option.splits if_splits)

lemma read_messages:
  assumes "inbox_ok (ag_owner st)" "deriveMessages (ag_session st) = (r, ses)"
  shows "session_ok ses \<and> se_log ses = ag_log st \<and> se_header ses = se_header (ag_session st)
    \<and> (\<exists>ms. r = Inr ms \<and> log_messages (ag_log st) = Some ms)"
  using deriveMessages_ok [OF _ assms(2)] assms derive_header [OF assms(2)]
  by (auto simp: inbox_ok_def ag_log_def)

lemma good_begin_request:
  assumes g: "good st" and p: "ag_place st = DRequest"
  shows "good (begin_request st)"
proof -
  obtain r ses where d: "deriveMessages (ag_session st) = (r, ses)" by fastforce
  from read_messages [OF good_inbox [OF g] d] obtain ms where r: "r = Inr ms"
    and ses: "session_ok ses" "se_log ses = ag_log st" "se_header ses = se_header (ag_session st)" by auto
  let ?st = "st\<lparr>ag_owner := (ag_owner st)\<lparr>io_session := ses\<rparr>\<rparr>"
  have g1: "good ?st" using good_session [OF g ses] .
  obtain h ses1 where h: "requestHeader (ag_session ?st) = (h, ses1)" by fastforce
  from read_header [OF good_inbox [OF g1] h] have ses1: "session_ok ses1" "se_log ses1 = ag_log ?st"
    "se_header ses1 = se_header (ag_session ?st)" by auto
  have "good (?st\<lparr>ag_owner := (ag_owner ?st)\<lparr>io_session := ses1\<rparr>\<rparr>)" using good_session [OF g1 ses1] .
  then have g2: "good (st\<lparr>ag_owner := (ag_owner st)\<lparr>io_session := ses1\<rparr>, ag_boundary := ms\<rparr>)" (is "good ?st2")
    by (rule good_cong) simp_all
  have "good (?st2\<lparr>ag_place := DConfig\<rparr>)" using good_inside [OF g2, of DConfig] p by simp
  then have "good (st\<lparr>ag_owner := (ag_owner st)\<lparr>io_session := ses1\<rparr>, ag_boundary := ms, ag_seed := c, ag_place := DConfig\<rparr>)" for c
    by (rule good_cong) simp_all
  moreover have "good (step_throw f ?st2)" for f using g2 p by (intro good_step_throw) simp_all
  ultimately show ?thesis
    using d r h by (simp add: begin_request_def Let_def split: option.splits)
qed

lemma good_config:
  assumes g: "good st" and p: "ag_place st = DConfig"
  shows "good (on_config answer st)"
proof -
  have "good (st\<lparr>ag_place := DCall\<rparr>)" using good_inside [OF g, of DCall] p by simp
  then have "good (st\<lparr>ag_seed := c, ag_place := DCall\<rparr>)" for c by (rule good_cong) simp_all
  moreover have "good (step_throw f st)" for f using g p by (intro good_step_throw) simp_all
  ultimately show ?thesis
    using g p by (auto simp: on_config_def split: sum.splits intro!: good_step_checked)
qed

text \<open>An append inside a step that leaves the place where it is.\<close>

lemma good_kept:
  assumes g: "good st" and p: "inside (ag_place st)" and d: "event_type_of d \<noteq> ''agent/inbox/spliced''"
    and ap: "ag_append d intent t st = (r, st1)"
    and s: "\<And>tr e. stands st tr \<Longrightarrow> ev_data e = d \<Longrightarrow> tr_lastSeq tr < ev_seq e \<Longrightarrow> trace_step tr e = Inr (tr\<lparr>tr_lastSeq := ev_seq e\<rparr>)"
  shows "good st1 \<and> ag_place st1 = ag_place st \<and> ag_phase st1 = ag_phase st \<and> (\<exists>ow. st1 = st\<lparr>ag_owner := ow\<rparr>)"
proof -
  obtain ow where st1: "st1 = st\<lparr>ag_owner := ow\<rparr>" using ag_append_cases [OF good_inbox [OF g] d ap] by auto
  have "good st1"
  proof (cases r)
    case (Inl f)
    then show ?thesis using good_append_failed [OF g d] ap by blast
  next
    case (Inr q)
    have st: "stands (st\<lparr>ag_owner := ow\<rparr>) = stands st" by (rule stands_cong) simp_all
    show ?thesis
      by (rule good_appended [OF g d ap [unfolded Inr]])
        (use st1 g p inside_not [OF p] s in \<open>auto simp: good_def agent_ok_def st stands_seq\<close>)
  qed
  then show ?thesis unfolding st1 by (intro conjI exI) simp_all
qed

lemma stands_inside:
  "stands st tr \<Longrightarrow> inside (ag_place st) \<Longrightarrow> tr_openTurn tr = Some (phase_turn (ag_phase st)) \<and> tr_openStep tr = Some (running_step (ag_phase st))"
  using inside_not [of "ag_place st"] by (simp add: stands_def)

lemma header_passes: "ev_data e = RequestHeader h hr \<Longrightarrow> tr_openTurn tr = Some n \<Longrightarrow> tr_lastSeq tr < ev_seq e \<Longrightarrow>
    trace_step tr e = Inr (tr\<lparr>tr_lastSeq := ev_seq e\<rparr>)"
  by (simp add: trace_defs)

lemma context_passes: "ev_data e = RequestContext rc \<Longrightarrow> tr_openTurn tr = Some n \<Longrightarrow> tr_lastSeq tr < ev_seq e \<Longrightarrow>
    trace_step tr e = Inr (tr\<lparr>tr_lastSeq := ev_seq e\<rparr>)"
  by (simp add: trace_defs)

lemma chunk_passes: "ev_data e = AssistantChunk n k c \<Longrightarrow> tr_openTurn tr = Some n \<Longrightarrow> tr_openStep tr = Some k \<Longrightarrow>
    tr_lastSeq tr < ev_seq e \<Longrightarrow> trace_step tr e = Inr (tr\<lparr>tr_lastSeq := ev_seq e\<rparr>)"
  by (simp add: trace_defs)

lemma message_passes: "ev_data e = AssistantMessage n k m u \<Longrightarrow> tr_openTurn tr = Some n \<Longrightarrow> tr_openStep tr = Some k \<Longrightarrow>
    tr_lastSeq tr < ev_seq e \<Longrightarrow> trace_step tr e = Inr (tr\<lparr>tr_lastSeq := ev_seq e\<rparr>)"
  by (simp add: trace_defs)

text \<open>What an anchor leaves: the same driver over a session that may have one event more.\<close>

definition same_driver :: "agent \<Rightarrow> agent \<Rightarrow> bool" where
  "same_driver st st1 \<longleftrightarrow> ag_place st1 = ag_place st \<and> ag_phase st1 = ag_phase st \<and> ag_sched st1 = ag_sched st
     \<and> ag_boundary st1 = ag_boundary st \<and> ag_unclosed st1 = ag_unclosed st \<and> io_inbox (ag_owner st1) = ag_inbox st"

lemma good_anchor_header:
  assumes g: "good st" and p: "inside (ag_place st)" and a: "anchor_header h t st = (r, st1)"
  shows "good st1 \<and> same_driver st st1"
proof -
  obtain b ses where h: "requestHeader (ag_session st) = (b, ses)" by fastforce
  let ?st = "st\<lparr>ag_owner := (ag_owner st)\<lparr>io_session := ses\<rparr>\<rparr>"
  have g1: "good ?st" using read_header [OF good_inbox [OF g] h] good_session [OF g] by blast
  have pass: "stands ?st tr \<Longrightarrow> ev_data e = RequestHeader h hr \<Longrightarrow> tr_lastSeq tr < ev_seq e \<Longrightarrow>
      trace_step tr e = Inr (tr\<lparr>tr_lastSeq := ev_seq e\<rparr>)" for tr e hr
    using header_passes stands_inside [of ?st tr] p by simp
  have *: "good st2 \<and> same_driver st st2" if ap: "ag_append (RequestHeader h hr) no_intent t ?st = (v, st2)" for hr v st2
  proof -
    obtain ow where "st2 = ?st\<lparr>ag_owner := ow\<rparr>" "io_inbox ow = ag_inbox st"
      using ag_append_cases [OF good_inbox [OF g1] plain_types(8) ap] by auto
    moreover have "good st2" using good_kept [OF g1 _ plain_types(8) ap pass] p by simp
    ultimately show ?thesis by (simp add: same_driver_def)
  qed
  have logged: "good (st2\<lparr>ag_header_logged := True\<rparr>) \<and> same_driver st (st2\<lparr>ag_header_logged := True\<rparr>)"
    if "good st2 \<and> same_driver st st2" for st2
    using that by (auto simp: same_driver_def elim: good_cong)
  show ?thesis
    using a h g1 * logged
    by (auto simp: anchor_header_def Let_def same_driver_def split: prod.splits sum.splits if_splits)
qed

lemma good_anchor_context:
  assumes g: "good st" and p: "inside (ag_place st)" and a: "anchor_context rc t st = (r, st1)"
  shows "good st1 \<and> same_driver st st1"
proof -
  obtain b ses where h: "requestContext (ag_session st) = (b, ses)" by fastforce
  let ?st = "st\<lparr>ag_owner := (ag_owner st)\<lparr>io_session := ses\<rparr>\<rparr>"
  have g1: "good ?st" using read_context [OF good_inbox [OF g] h] good_session [OF g] by blast
  have pass: "stands ?st tr \<Longrightarrow> ev_data e = RequestContext rc \<Longrightarrow> tr_lastSeq tr < ev_seq e \<Longrightarrow>
      trace_step tr e = Inr (tr\<lparr>tr_lastSeq := ev_seq e\<rparr>)" for tr e
    using context_passes stands_inside [of ?st tr] p by simp
  have *: "good st2 \<and> same_driver st st2" if ap: "ag_append (RequestContext rc) no_intent t ?st = (v, st2)" for v st2
  proof -
    obtain ow where "st2 = ?st\<lparr>ag_owner := ow\<rparr>" "io_inbox ow = ag_inbox st"
      using ag_append_cases [OF good_inbox [OF g1] plain_types(9) ap] by auto
    moreover have "good st2" using good_kept [OF g1 _ plain_types(9) ap pass] p by simp
    ultimately show ?thesis by (simp add: same_driver_def)
  qed
  show ?thesis
    using a h g1 *
    by (auto simp: anchor_context_def Let_def same_driver_def split: prod.splits sum.splits if_splits)
qed

lemma good_call:
  assumes g: "good st" and p: "ag_place st = DCall"
  shows "good (on_call answer t u st)"
proof -
  have thrown: "good (step_throw f st')" if "good st' \<and> same_driver st st'" for f st'
    using that p by (intro good_step_throw) (simp_all add: same_driver_def)
  have sent: "good (st'\<lparr>ag_request := rq, ag_place := DDispatch\<rparr>)" if "good st' \<and> same_driver st st'" for rq st'
  proof -
    have "good (st'\<lparr>ag_place := DDispatch\<rparr>)" using that p by (intro good_inside) (simp_all add: same_driver_def)
    then show ?thesis by (rule good_cong) simp_all
  qed
  have body: "good (case anchor_header h t st of
        (Inl f, st1) \<Rightarrow> step_throw f st1
      | (Inr _, st1) \<Rightarrow> (case anchor_context rc u st1 of
            (Inl f, st2) \<Rightarrow> step_throw f st2
          | (Inr _, st2) \<Rightarrow> st2\<lparr>ag_request := Some \<lparr>lr_header = h, lr_messages = ag_boundary st2\<rparr>, ag_place := DDispatch\<rparr>))" for h rc
  proof -
    obtain r st1 where a: "anchor_header h t st = (r, st1)" by fastforce
    have g1: "good st1 \<and> same_driver st st1" using good_anchor_header [OF g _ a] p by simp
    obtain r2 st2 where b: "anchor_context rc u st1 = (r2, st2)" by fastforce
    have "inside (ag_place st1)" using g1 p by (simp add: same_driver_def)
    then have "good st2 \<and> same_driver st1 st2" using good_anchor_context [OF _ _ b] g1 by blast
    then have "good st2 \<and> same_driver st st2" using g1 by (simp add: same_driver_def)
    with a b thrown sent g1 show ?thesis by (auto split: sum.splits)
  qed
  have "good (step_throw f st)" for f using g p by (intro good_step_throw) simp_all
  with g p body show ?thesis
    by (auto simp: on_call_def Let_def split: sum.splits intro!: good_step_checked)
qed

lemma good_dispatch:
  assumes g: "good st" and p: "ag_place st = DDispatch"
  shows "good (dispatch answer st)"
proof -
  have "good (st\<lparr>ag_place := DStream\<rparr>)" using good_inside [OF g, of DStream] p by simp
  then have "good (st\<lparr>ag_asm := a, ag_chunks := cs, ag_place := DStream\<rparr>)" for a cs by (rule good_cong) simp_all
  moreover have "good (step_throw f st)" for f using g p by (intro good_step_throw) simp_all
  ultimately show ?thesis
    using g p by (auto simp: dispatch_def split: sum.splits intro!: good_step_checked)
qed

lemma good_accept_message:
  assumes g: "good st" and p: "ag_place st = DStream"
  shows "good (accept_message finish newId t st)"
proof -
  define cfg where "cfg = (case ag_request st of Some r \<Rightarrow> eh_config (lr_header r) | None \<Rightarrow> no_config)"
  show ?thesis
  proof (cases "assistant_of newId (cc_provider cfg) (cc_model cfg) (ag_asm st)")
    case (Inl x)
    with g p good_step_throw show ?thesis by (simp add: accept_message_def cfg_def [symmetric])
  next
    case (Inr m)
    let ?d = "AssistantMessage (phase_turn (ag_phase st)) (running_step (ag_phase st)) m (as_usage (ag_asm st))"
    let ?i = "\<lparr>si_op = Some append_op, si_sources = Some (seqs_json (ag_chunks st))\<rparr>"
    obtain v st1 where ap: "ag_append ?d ?i t st = (v, st1)" by fastforce
    have pass: "stands st tr \<Longrightarrow> ev_data e = ?d \<Longrightarrow> tr_lastSeq tr < ev_seq e \<Longrightarrow>
        trace_step tr e = Inr (tr\<lparr>tr_lastSeq := ev_seq e\<rparr>)" for tr e
      using message_passes stands_inside [of st tr] p by simp
    from good_kept [OF g _ plain_types(7) ap pass] p have g1: "good st1" "ag_place st1 = DStream" by simp_all
    have ended: "good (st1\<lparr>ag_place := DStepEnd o'\<rparr>)" for o' using good_inside [OF g1(1)] g1(2) by simp
    have thrown: "good (step_throw f st1)" for f using g1 by (intro good_step_throw) simp_all
    have tools: "good (st1\<lparr>ag_sched := begin_calls (tool_calls_of (am_content m)) n sig, ag_place := DTools\<rparr>)"
      if "v = Inr q" for q n sig
    proof -
      let ?st = "st1\<lparr>ag_sched := begin_calls (tool_calls_of (am_content m)) n sig, ag_place := DTools\<rparr>"
      let ?plan = "tool_calls_of (am_content m)"
      from ag_append_cases [OF good_inbox [OF g] plain_types(7) ap] \<open>v = Inr q\<close>
      obtain ow e where "st1 = st\<lparr>ag_owner := ow\<rparr>" "se_log (io_session ow) = ag_log st @ [e]" "ev_data e = ?d" by auto
      then have "e \<in> set (ag_log ?st)" "ev_data e = ?d" by (simp_all add: ag_log_def)
      then have "plan_logged ?st"
        by (rule plan_loggedI) (simp add: begin_calls_def)
      moreover have "inbox_ok (ag_owner st1)" "is_running (ag_phase st1)"
        using g1 by (simp_all add: good_def agent_ok_def)
      moreover have "sched_reachable ?plan n (begin_calls ?plan n sig)" by (rule sched_begin)
      then have "\<exists>n. sched_reachable (sd_calls (ag_sched ?st)) n (ag_sched ?st)"
        by (intro exI [of _ n]) (simp add: begin_calls_calls)
      ultimately have "agent_ok ?st"
        unfolding agent_ok_def by simp
      moreover have "stands ?st tr" if "stands st1 tr" for tr
        using that g1(2) by (simp add: stands_def open_pending_def begin_calls_def fifo_Nil pending_ids_def)
      moreover have "follows st1" using g1(1) by (simp add: good_def)
      ultimately have "follows ?st"
        by (intro follows_same [of st1 ?st]) (simp_all add: ag_log_def)
      with \<open>agent_ok ?st\<close> show ?thesis by (simp add: good_def)
    qed
    show ?thesis
      using Inr ap ended thrown tools by (cases v) (simp_all add: accept_message_def cfg_def [symmetric] Let_def)
  qed
qed

lemma good_finish_stream:
  assumes g: "good st" and p: "ag_place st = DStream"
  shows "good (finish_stream newId t st)"
  using good_accept_message [OF g p] good_inside [OF g] p
  by (cases "finish_of (ag_asm st)") (simp_all add: finish_stream_def)

lemma good_chunk:
  assumes g: "good st" and p: "ag_place st = DStream"
  shows "good (on_chunk answer newId t st)"
proof -
  have thrown: "good (step_throw f st)" for f using g p by (intro good_step_throw) simp_all
  have chunk: "good (case ag_append (AssistantChunk (phase_turn (ag_phase st)) (running_step (ag_phase st)) c) no_intent t st of
               (Inl f, st1) \<Rightarrow> step_throw f st1
             | (Inr q, st1) \<Rightarrow> st1\<lparr>ag_chunks := ag_chunks st1 @ [q], ag_asm := push c (ag_asm st1)\<rparr>)" for c
  proof -
    obtain v st1 where ap: "ag_append (AssistantChunk (phase_turn (ag_phase st)) (running_step (ag_phase st)) c) no_intent t st = (v, st1)"
      by fastforce
    have pass: "stands st tr \<Longrightarrow> ev_data e = AssistantChunk (phase_turn (ag_phase st)) (running_step (ag_phase st)) c \<Longrightarrow>
        tr_lastSeq tr < ev_seq e \<Longrightarrow> trace_step tr e = Inr (tr\<lparr>tr_lastSeq := ev_seq e\<rparr>)" for tr e
      using chunk_passes stands_inside [of st tr] p by simp
    from good_kept [OF g _ plain_types(6) ap pass] p have g1: "good st1" "ag_place st1 = DStream" by simp_all
    then have "good (step_throw f st1)" for f by (intro good_step_throw) simp_all
    moreover have "good (st1\<lparr>ag_chunks := qs, ag_asm := a\<rparr>)" for qs a using g1(1) by (rule good_cong) simp_all
    ultimately show ?thesis using ap by (simp split: sum.splits)
  qed
  have "good (step_checked st (finish_stream newId t st))"
    using g p good_finish_stream by (intro good_step_checked) simp_all
  moreover have "good (step_checked st (case ag_append (AssistantChunk (phase_turn (ag_phase st)) (running_step (ag_phase st)) c) no_intent t st of
               (Inl f, st1) \<Rightarrow> step_throw f st1
             | (Inr q, st1) \<Rightarrow> st1\<lparr>ag_chunks := ag_chunks st1 @ [q], ag_asm := push c (ag_asm st1)\<rparr>))" for c
    using g p chunk by (intro good_step_checked) simp_all
  ultimately show ?thesis
    using thrown by (simp add: on_chunk_def split: sum.splits option.splits)
qed

lemma good_request_error:
  assumes g: "good st" and p: "ag_place st = DRetry x"
  shows "good (on_request_error answer x st)"
proof -
  have "good (st\<lparr>ag_place := DRequest\<rparr>)" using good_inside [OF g, of DRequest] p by simp
  moreover have "good (step_throw f st)" for f using g p by (intro good_step_throw) simp_all
  ultimately show ?thesis
    using g p by (auto simp: on_request_error_def split: sum.splits intro!: good_step_checked)
qed

text \<open>The tools.\<close>

lemma sched_log_grows: "sched_step s s' \<Longrightarrow> \<exists>new. sd_log s' = sd_log s @ new"
  by (induction rule: sched_step.induct)
    (auto simp: classify_next_def Let_def on_started_def fill_one_def group_throw_def on_prepared_def
      commit_one_def commit_result_def on_committed_def race_won_def end_group_def skip_one_def drained_def settle_keeps
      split: sum.splits option.splits prepared.splits)

lemma entry_event_parts:
  "ev_surface_op (entry_event n k plan e) = si_op (entry_intent e)"
  "ev_sources (entry_event n k plan e) = si_sources (entry_intent e)"
  "\<not> ev_ignorable (entry_event n k plan e)"
  "ev_seq (entry_event n k plan e) = entry_seq e"
  "event_type_of (ev_data (entry_event n k plan e)) \<noteq> ''agent/inbox/spliced''"
  by (cases e; simp add: entry_intent_def no_intent_def Let_def event_type_of_def)+

lemma entries_appended:
  "append_entries plan es ts st = Some st1 \<Longrightarrow> inbox_ok (ag_owner st) \<Longrightarrow>
     \<exists>ow. st1 = st\<lparr>ag_owner := ow\<rparr> \<and> inbox_ok ow \<and> io_inbox ow = ag_inbox st
       \<and> se_log (io_session ow) = ag_log st @ map (entry_event (phase_turn (ag_phase st)) (running_step (ag_phase st)) plan) es"
proof (induction plan es ts st rule: append_entries.induct)
  case (1 plan ts st)
  then show ?case by (intro exI [of _ "ag_owner st"]) (simp add: ag_log_def)
next
  case (2 plan e es st)
  then show ?case by simp
next
  case (3 plan e es t ts st)
  let ?ev = "entry_event (phase_turn (ag_phase st)) (running_step (ag_phase st)) plan e"
  from 3(2) obtain st2 where time: "fst t = ev_time ?ev"
    and ap: "ag_append (ev_data ?ev) (entry_intent e) t st = (Inr (ev_seq ?ev), st2)"
    and rest: "append_entries plan es ts st2 = Some st1"
    by (auto simp: Let_def split: if_splits prod.splits sum.splits)
  from ag_append_cases [OF 3(3) entry_event_parts(5) ap] obtain ow e' where
    st2: "st2 = st\<lparr>ag_owner := ow\<rparr>" "inbox_ok ow" "io_inbox ow = ag_inbox st" "se_log (io_session ow) = ag_log st @ [e']"
    and e': "ev_data e' = ev_data ?ev" "ev_surface_op e' = si_op (entry_intent e)" "ev_sources e' = si_sources (entry_intent e)"
      "\<not> ev_ignorable e'" "ev_time e' = fst t" "ev_seq e' = ev_seq ?ev"
    by auto
  have "e' = ?ev"
    using e' time entry_event_parts by (intro session_event.equality) auto
  moreover have "\<exists>ow2. st1 = st2\<lparr>ag_owner := ow2\<rparr> \<and> inbox_ok ow2 \<and> io_inbox ow2 = ag_inbox st2
       \<and> se_log (io_session ow2) = ag_log st2 @ map (entry_event (phase_turn (ag_phase st2)) (running_step (ag_phase st2)) plan) es"
    using 3(1) [OF refl _ ap [symmetric] refl _ rest] time st2 by simp
  ultimately show ?case using st2 by (auto simp: ag_log_def)
qed

lemma contexts_accepted:
  "accept_contexts ms ts st = Some st1 \<Longrightarrow> inbox_ok (ag_owner st) \<Longrightarrow>
     \<exists>ow. st1 = st\<lparr>ag_owner := ow\<rparr> \<and> inbox_ok ow \<and> grown (ag_owner st) ow"
proof (induction ms ts st rule: accept_contexts.induct)
  case (1 ts st)
  then show ?case by (intro exI [of _ "ag_owner st"]) (simp add: grown_def)
next
  case (2 m ms st)
  then show ?case by simp
next
  case (3 m ms t ts st)
  from 3(2) obtain r ow where ap: "inbox_append NextStep m (fst t) (snd t) (ag_owner st) = (Inr r, ow)"
    and rest: "accept_contexts ms ts (st\<lparr>ag_owner := ow\<rparr>) = Some st1"
    by (auto split: prod.splits sum.splits)
  have ok: "inbox_ok ow"
    using inbox_do_ok [OF 3(3), of "DoAppend NextStep m" t t] ap by simp
  have "grown (ag_owner st) ow" using ap grown_splice by (auto simp: inbox_append_def)
  moreover have "\<exists>ow2. st1 = (st\<lparr>ag_owner := ow\<rparr>)\<lparr>ag_owner := ow2\<rparr> \<and> inbox_ok ow2 \<and> grown (ag_owner (st\<lparr>ag_owner := ow\<rparr>)) ow2"
    using 3(1) [OF ap [symmetric] refl rest] ok by simp
  ultimately show ?case using grown_trans by auto
qed

text \<open>The entries of a scheduler run carry the trace along its queue.\<close>

lemma entries_traced:
  assumes tr: "seedSession es0 = Inr tr" "tr_openTurn tr = Some n" "tr_openStep tr = Some k"
    and q: "tr_pending tr = pending_ids plan q0" "fifo lg = Inr (q0, m0)" and dist: "distinct (map tc_id plan)"
  shows "fifo (lg @ es) = Inr (q, m) \<Longrightarrow> m \<le> length plan \<Longrightarrow> is_ok (foldSurface (es0 @ map (entry_event n k plan) es)) \<Longrightarrow>
    \<exists>s. seedSession (es0 @ map (entry_event n k plan) es) = Inr (tr\<lparr>tr_lastSeq := s, tr_pending := pending_ids plan q\<rparr>)"
proof (induction es arbitrary: q m rule: rev_induct)
  case Nil
  then show ?case using tr q by (intro exI [of _ "tr_lastSeq tr"]) simp
next
  case (snoc e es)
  have "fifo ((lg @ es) @ [e]) = Inr (q, m)" using snoc.prems(1) by simp
  then obtain q1 m1 where f: "fifo (lg @ es) = Inr (q1, m1)" and st: "fifo_step (q1, m1) e = Inr (q, m)"
    unfolding fifo_snoc by (cases "fifo (lg @ es)") auto
  have m1: "m1 \<le> m" using st by (cases e) (auto split: list.splits if_splits)
  have ok: "is_ok (foldSurface ((es0 @ map (entry_event n k plan) es) @ [entry_event n k plan e]))"
    using snoc.prems(3) by simp
  from snoc.IH [OF f] m1 snoc.prems(2) foldSurface_prefix [OF ok] obtain s where
    s: "seedSession (es0 @ map (entry_event n k plan) es) = Inr (tr\<lparr>tr_lastSeq := s, tr_pending := pending_ids plan q1\<rparr>)" (is "_ = Inr ?tr1")
    by auto
  from traced_snoc [OF ok s] have step: "seedSession ((es0 @ map (entry_event n k plan) es) @ [entry_event n k plan e])
      = trace_step ?tr1 (entry_event n k plan e)" "tr_lastSeq ?tr1 < entry_seq e"
    by (simp_all add: entry_event_parts)
  have "trace_step ?tr1 (entry_event n k plan e) = Inr (?tr1\<lparr>tr_lastSeq := entry_seq e, tr_pending := [] @ pending_ids plan q\<rparr>)"
    by (rule entry_trace [OF _ _ step(2) dist _ _ f st snoc.prems(2)]) (use tr in simp_all)
  then show ?case using step(1) by (intro exI [of _ "entry_seq e"]) simp
qed

lemma follows_tools:
  assumes g: "good st" and p: "ag_place st = DTools" and step: "sched_step (ag_sched st) s"
    and ow: "inbox_ok ow" "se_log (io_session ow) = ag_log st
      @ map (entry_event (phase_turn (ag_phase st)) (running_step (ag_phase st)) (sd_calls s)) (drop (length (sd_log (ag_sched st))) (sd_log s))"
  shows "good (st\<lparr>ag_owner := ow, ag_sched := s\<rparr>)"
proof -
  let ?old = "ag_sched st" and ?st = "st\<lparr>ag_owner := ow, ag_sched := s\<rparr>"
  from g p obtain b where reach: "sched_reachable (sd_calls ?old) b ?old" and logged: "plan_logged st"
    by (auto simp: good_def agent_ok_def)
  have same: "sd_calls s = sd_calls ?old" using step_constants [OF step] by simp
  have reach': "sched_reachable (sd_calls s) b s" using sched_next [OF reach step] same by simp
  obtain new where new: "sd_log s = sd_log ?old @ new" using sched_log_grows [OF step] by blast
  then have dr: "drop (length (sd_log ?old)) (sd_log s) = new" by simp
  obtain q m where q: "fifo (sd_log ?old @ new) = Inr (q, m)" "m \<le> length (sd_calls s)"
    using fifo_reachable [OF reach'] new by auto
  have lg: "ag_log ?st = ag_log st @ map (entry_event (phase_turn (ag_phase st)) (running_step (ag_phase st)) (sd_calls s)) new"
    using ow(2) dr by (simp add: ag_log_def)
  have pl: "plan_logged ?st"
    using logged by (rule plan_logged_mono [rotated 2]) (simp_all add: lg same)
  have ok: "agent_ok ?st"
    using g p ow(1) pl reach' by (auto simp: good_def agent_ok_def)
  have "follows ?st"
  proof (cases "ag_unclosed st \<or> \<not> calls_distinct (ag_log ?st)")
    case True
    then show ?thesis by (auto simp: follows_def)
  next
    case False
    then have cd: "calls_distinct (ag_log st)" "\<not> ag_unclosed st"
      using calls_distinct_grows lg by auto
    from logged cd(1) have dist: "distinct (map tc_id (sd_calls s))"
      unfolding same by (rule distinct_plan)
    from g cd obtain tr where tr: "seedSession (ag_log st) = Inr tr" "stands st tr"
      by (auto simp: good_def follows_def)
    from tr(2) p obtain q0 m0 where q0: "fifo (sd_log ?old) = Inr (q0, m0)" "tr_pending tr = pending_ids (sd_calls s) q0"
      by (auto simp: stands_def open_pending_def same)
    have "is_ok (foldSurface (ag_log ?st))" using ow(1) by (simp add: inbox_ok_def session_ok_def ag_log_def)
    with entries_traced [OF tr(1) _ _ q0(2,1) dist q] tr(2) p lg obtain sq where
      "seedSession (ag_log ?st) = Inr (tr\<lparr>tr_lastSeq := sq, tr_pending := pending_ids (sd_calls s) q\<rparr>)"
      by (auto simp: stands_def)
    moreover have "stands ?st (tr\<lparr>tr_lastSeq := sq, tr_pending := pending_ids (sd_calls s) q\<rparr>)"
      using tr(2) p q new by (simp add: stands_def open_pending_def)
    ultimately show ?thesis unfolding follows_def by blast
  qed
  with ok show ?thesis by (simp add: good_def)
qed

lemma good_tools:
  assumes g: "good st" and p: "ag_place st = DTools" and step: "sched_step (ag_sched st) s" and t: "tools_step s ts us st = Some st'"
  shows "good st'"
proof -
  from t obtain st1 st2 where e: "append_entries (sd_calls s) (drop (length (sd_log (ag_sched st))) (sd_log s)) ts st = Some st1"
    and a: "accept_contexts (drop (length (sd_contexts (ag_sched st))) (sd_contexts s)) us st1 = Some st2"
    and st': "st' = st2\<lparr>ag_sched := s\<rparr>"
    by (auto simp: tools_step_def split: option.splits)
  from entries_appended [OF e good_inbox [OF g]] obtain ow where ow: "st1 = st\<lparr>ag_owner := ow\<rparr>" "inbox_ok ow"
    "se_log (io_session ow) = ag_log st @ map (entry_event (phase_turn (ag_phase st)) (running_step (ag_phase st)) (sd_calls s))
       (drop (length (sd_log (ag_sched st))) (sd_log s))" by auto
  from contexts_accepted [OF a] ow obtain ow2 where ow2: "st2 = st1\<lparr>ag_owner := ow2\<rparr>" "inbox_ok ow2" "grown ow ow2" by auto
  have "good (st\<lparr>ag_owner := ow, ag_sched := s\<rparr>)" by (rule follows_tools [OF g p step ow(2,3)])
  from good_owner [OF this ow2(2)] ow2 have "good ((st\<lparr>ag_owner := ow, ag_sched := s\<rparr>)\<lparr>ag_owner := ow2\<rparr>)" by simp
  then show ?thesis by (rule good_cong) (simp_all add: st' ow(1) ow2(1))
qed

lemma good_tools_end:
  assumes g: "good st" and p: "ag_place st = DTools"
  shows "good (tools_end st)"
proof -
  have "good (step_throw f st)" for f using g p by (intro good_step_throw) simp_all
  moreover have "good (st\<lparr>ag_place := DStepEnd (StepEnded e)\<rparr>)" for e
  proof -
    have "stands (st\<lparr>ag_place := DStepEnd (StepEnded e)\<rparr>) tr" if "stands st tr" for tr
      using that p by (simp add: stands_def open_pending_def)
    then have "follows (st\<lparr>ag_place := DStepEnd (StepEnded e)\<rparr>)"
      using follows_place g good_def by blast
    with g p show ?thesis by (auto simp: good_def agent_ok_def)
  qed
  ultimately show ?thesis using g by (simp add: tools_end_def split: place.splits)
qed

text \<open>A closing event that could not be appended: nothing is claimed of the trace from then on.\<close>

lemma good_unclosed:
  assumes g: "good st" and run: "is_running (ag_phase st)" and p: "p' \<noteq> DNone" "p' \<noteq> DTurn" "p' \<noteq> DTools"
  shows "good (st\<lparr>ag_unclosed := True, ag_place := p'\<rparr>)"
  using assms by (simp add: good_def agent_ok_def follows_def)

lemma good_running: "good st \<Longrightarrow> is_running (ag_phase st) \<longleftrightarrow> ag_place st \<noteq> DNone"
  by (simp add: good_def agent_ok_def)

lemma good_end_step:
  assumes g: "good st" and p: "ag_place st = DStepEnd r"
  shows "good (end_step r t st)"
proof -
  define st0 where "st0 = (case r of StepThrew f \<Rightarrow> st | StepEnded e \<Rightarrow> st\<lparr>ag_ends := merge_ending (ag_ends st) e\<rparr>)"
  have g0: "good st0" using g by (cases r) (auto simp: st0_def elim: good_cong)
  have p0: "ag_place st0 = DStepEnd r" using p by (simp add: st0_def split: step_outcome.splits)
  obtain v st1 where ap: "ag_append (StepEnd (phase_turn (ag_phase st0)) (running_step (ag_phase st0))) no_intent t st0 = (v, st1)"
    by fastforce
  have st1: "ag_phase st1 = ag_phase st0" "ag_unclosed st1 = ag_unclosed st0" "ag_place st1 = ag_place st0"
    using ag_append_cases [OF good_inbox [OF g0] plain_types(4) ap] by auto
  have run: "is_running (ag_phase st0)" using good_running [OF g0] p0 by simp
  show ?thesis
  proof (cases v)
    case (Inl f)
    have "good st1" "is_running (ag_phase st1)"
      using good_append_failed [OF g0 plain_types(4) ap [unfolded Inl]] run by auto
    then have "good ((st1\<lparr>ag_unclosed := True\<rparr>)\<lparr>ag_place := DLoop\<rparr>)"
      using good_unclosed [of st1 DLoop] by simp
    then have "good (turn_catch f (st1\<lparr>ag_unclosed := True\<rparr>))" by (rule good_turn_catch)
    with ap Inl show ?thesis by (simp add: end_step_def st0_def [symmetric] Let_def)
  next
    case (Inr q)
    have loop: "good (st1\<lparr>ag_place := DLoop\<rparr>)"
      by (rule good_appended [OF g0 plain_types(4) ap [unfolded Inr]])
        (use st1 p0 run in \<open>auto simp: stands_def open_pending_def trace_defs trace_inv_def\<close>)
    then have "good (turn_catch f st1)" for f by (rule good_turn_catch)
    moreover have "good (go_on st1)" using loop by (auto simp: go_on_def elim: good_cong)
    moreover have "good (st1\<lparr>ag_place := DStopping\<rparr>)" using good_between [OF loop, of DStopping] by simp
    ultimately show ?thesis
      using ap Inr unfolding end_step_def st0_def [symmetric] Let_def turn_checked_def
      by (cases r) (auto split: option.splits)
  qed
qed

lemma good_stopping:
  assumes g: "good st" and p: "ag_place st = DStopping"
  shows "good (on_stopping answer st)"
proof -
  have b: "between (ag_place st)" using p by simp
  have "good (st\<lparr>ag_place := DLoop\<rparr>)" using good_between [OF g b] by simp
  then have "good (go_on st)" by (auto simp: go_on_def elim: good_cong)
  moreover have "good (st\<lparr>ag_place := DTurnEnd TurnCompletes\<rparr>)" using good_between [OF g b] by simp
  ultimately show ?thesis
    using good_catch [OF g b] by (auto simp: on_stopping_def split: sum.splits intro!: good_turn_checked g b)
qed

lemma good_end_turn:
  assumes g: "good st" and p: "ag_place st = DTurnEnd r"
  shows "good (end_turn r t st)"
proof -
  let ?d = "TurnEnd (phase_turn (ag_phase st)) (case ag_ends st of Some e \<Rightarrow> e | None \<Rightarrow> EndOther ''undefined'')"
  obtain v st1 where ap: "ag_append ?d no_intent t st = (v, st1)" by fastforce
  have st1: "ag_phase st1 = ag_phase st" "ag_unclosed st1 = ag_unclosed st" "ag_place st1 = ag_place st"
    using ag_append_cases [OF good_inbox [OF g] plain_types(2) ap] by auto
  have run: "is_running (ag_phase st)" using good_running [OF g] p by simp
  then obtain c n k w where ph: "ag_phase st = Running c n k w" by (cases "ag_phase st") auto
  show ?thesis
  proof (cases v)
    case (Inl f)
    have "good (st1\<lparr>ag_unclosed := True, ag_place := DConverge\<rparr>)"
      using good_append_failed [OF g plain_types(2) ap [unfolded Inl]] run by (intro good_unclosed) auto
    then have "good ((report_error f st1)\<lparr>ag_unclosed := True, ag_place := DConverge\<rparr>)"
      by (auto simp: report_error_def elim: good_cong)
    with ap Inl show ?thesis by (simp add: end_turn_def)
  next
    case (Inr q)
    have "good (st1\<lparr>ag_place := DConverge\<rparr>)"
      by (rule good_appended [OF g plain_types(2) ap [unfolded Inr]])
        (use st1 p ph in \<open>auto simp: stands_def open_pending_def trace_defs trace_inv_def\<close>)
    moreover have "good (st1\<lparr>ag_phase := Running None (phase_turn (ag_phase st1)) 0 False, ag_place := DTurn\<rparr>)"
      by (rule good_appended [OF g plain_types(2) ap [unfolded Inr]])
        (use st1 p ph in \<open>auto simp: stands_def open_pending_def trace_defs trace_inv_def\<close>)
    then have "good (st1\<lparr>ag_phase := Running None (phase_turn (ag_phase st1)) 0 False, ag_place := DTurn\<rparr>)"
      by (rule good_cong) simp_all
    ultimately show ?thesis
      using ap Inr by (cases r) (simp_all add: end_turn_def)
  qed
qed

lemma good_converge:
  assumes g: "good st" and p: "ag_place st = DConverge"
  shows "good (converge st)"
proof -
  let ?st = "st\<lparr>ag_phase := Idle (phase_turn (ag_phase st)), ag_place := DNone\<rparr>"
  have "follows ?st"
    by (rule follows_same [of st]) (use g p in \<open>simp_all add: good_def ag_log_def stands_def open_pending_def\<close>)
  then have "good ?st" using g p by (simp add: good_def agent_ok_def)
  then show ?thesis by (rule good_cong) (simp_all add: converge_def setPhase_def)
qed

section \<open>The invariant along the public calls\<close>

lemma pending_cong:
  assumes "ag_place st' = ag_place st" "ag_sched st' = ag_sched st"
  shows "open_pending st' ps = open_pending st ps"
  unfolding open_pending_def assms ..

lemma good_follows: "good st \<Longrightarrow> follows st"
  by (simp add: good_def)

lemma good_phase:
  assumes g: "good st" and p: "is_running p = is_running (ag_phase st)" "phase_turn p = phase_turn (ag_phase st)"
    "running_step p = running_step (ag_phase st)"
  shows "good (st\<lparr>ag_phase := p\<rparr>)"
proof -
  have "open_pending (st\<lparr>ag_phase := p\<rparr>) ps = open_pending st ps" for ps by (rule pending_cong) simp_all
  then have "follows (st\<lparr>ag_phase := p\<rparr>)"
    by (intro follows_same [OF good_follows [OF g]]) (use p in \<open>simp_all add: ag_log_def stands_def\<close>)
  moreover have "plan_logged (st\<lparr>ag_phase := p\<rparr>) = plan_logged st" by (simp add: plan_logged_def ag_log_def)
  ultimately show ?thesis using g p by (simp add: good_def agent_ok_def)
qed

lemma phase_fields [simp]:
  "is_running (set_wake w p) = is_running p" "phase_turn (set_wake w p) = phase_turn p" "running_step (set_wake w p) = running_step p"
  "is_running (abort_phase c p) = is_running p" "phase_turn (abort_phase c p) = phase_turn p"
  "running_step (abort_phase c p) = running_step p"
  by (cases p; simp)+

lemma good_wake: "good st \<Longrightarrow> good (wakeDriver after st)"
proof (cases "is_idle (ag_phase st)")
  case True
  assume g: "good st"
  then obtain n where ph: "ag_phase st = Idle n" using True by (cases "ag_phase st") auto
  have p: "ag_place st = DNone" using good_running [OF g] ph by simp
  let ?st = "st\<lparr>ag_phase := Running None n 0 False, ag_place := DTurn\<rparr>"
  have "follows ?st"
    by (rule follows_same [of st]) (use g p ph in \<open>simp_all add: good_def ag_log_def stands_def open_pending_def\<close>)
  then have "good ?st" using g by (simp add: good_def agent_ok_def)
  then show ?thesis using ph by (auto simp: wakeDriver_def setPhase_def elim: good_cong)
next
  case False
  assume "good st"
  with False show ?thesis by (simp add: wakeDriver_def good_phase)
qed

lemma good_send: "good st \<Longrightarrow> good (snd (send m target wakeup t st))"
proof -
  assume g: "good st"
  define target' where "target' = (if wakeup \<and> \<not> is_idle (ag_phase st) \<and> abort_of (ag_phase st) \<noteq> None then NextTurn else target)"
  obtain r ow where r: "inbox_splice_op target' JsPosInf (JsNum 0) [m] (fst t) (snd t) (ag_owner st) = (r, ow)" by fastforce
  have "inbox_ok ow" using inbox_splice_op_ok [OF good_inbox [OF g] r] by simp
  then have "good (st\<lparr>ag_owner := ow\<rparr>)" using good_owner [OF g _ grown_splice [OF r]] by simp
  then have "good (st\<lparr>ag_owner := ow, ag_conts := cs\<rparr>)" for cs by (auto elim: good_cong)
  with \<open>good (st\<lparr>ag_owner := ow\<rparr>)\<close> show ?thesis
    unfolding send_def Let_def target'_def [symmetric] r by (cases r) simp_all
qed

lemma good_edit: "good st \<Longrightarrow> edits q \<Longrightarrow> good (st\<lparr>ag_owner := snd (inbox_do q t u (ag_owner st))\<rparr>)"
proof (rule good_owner)
  assume "good st"
  then show "inbox_ok (snd (inbox_do q t u (ag_owner st)))"
    using inbox_do_ok [OF good_inbox] by (metis prod.collapse)
qed (auto intro: grown_edit)

lemma good_signal: "good st \<Longrightarrow> good (st\<lparr>ag_sched := (ag_sched st)\<lparr>sd_signal := True\<rparr>\<rparr>)"
proof -
  assume g: "good st"
  let ?s = "(ag_sched st)\<lparr>sd_signal := True\<rparr>" and ?st = "st\<lparr>ag_sched := (ag_sched st)\<lparr>sd_signal := True\<rparr>\<rparr>"
  have reach: "sched_reachable plan n ?s" if "sched_reachable plan n (ag_sched st)" for plan n
  proof (cases "sd_signal (ag_sched st)")
    case True
    then have "?s = ag_sched st" by simp
    with that show ?thesis by (simp only:)
  next
    case False
    then show ?thesis by (rule sched_next [OF that step_abort])
  qed
  have "open_pending ?st ps = open_pending st ps" for ps
    by (cases "ag_place st") (simp_all add: open_pending_def)
  then have "follows ?st"
    by (intro follows_same [OF good_follows [OF g]]) (simp_all add: ag_log_def stands_def)
  moreover have "plan_logged ?st = plan_logged st" by (simp add: plan_logged_def ag_log_def)
  ultimately show ?thesis using g reach by (auto simp: good_def agent_ok_def)
qed

lemma good_abort: "good st \<Longrightarrow> good (abort_agent c st)"
  using good_phase [OF good_signal, of st "abort_phase c (ag_phase st)"]
  by (auto simp: abort_agent_def elim: good_cong)

lemma good_cancel: "good st \<Longrightarrow> good (snd (cancel cause keep t u st))"
proof -
  assume g: "good st"
  obtain r ow where r: "inbox_clear t u (ag_owner st) = (r, ow)" by fastforce
  have ok: "inbox_ok ow" using inbox_do_ok [OF good_inbox [OF g], of DoClear t u] r by (cases r) auto
  have "good (st\<lparr>ag_owner := ow\<rparr>)" by (rule good_owner [OF g ok grown_clear [OF r]])
  then have "good (st\<lparr>ag_owner := ow, ag_conts := cs\<rparr>)" for cs by (auto elim: good_cong)
  with \<open>good (st\<lparr>ag_owner := ow\<rparr>)\<close> r g show ?thesis
    by (cases r) (simp_all add: cancel_def good_abort)
qed

lemma good_maintenance: "good st \<Longrightarrow> begin_maintenance st = Some st' \<Longrightarrow> good st'"
proof -
  assume g: "good st" and b: "begin_maintenance st = Some st'"
  then obtain n where ph: "ag_phase st = Idle n" by (cases "ag_phase st") (auto simp: begin_maintenance_def)
  have "good (st\<lparr>ag_phase := Maintenance None n False\<rparr>)" by (rule good_phase [OF g]) (simp_all add: ph)
  then show ?thesis using b ph by (auto simp: begin_maintenance_def setPhase_def elim: good_cong)
qed

lemma good_maintained: "good st \<Longrightarrow> ag_phase st = Maintenance c n w \<Longrightarrow> good (end_maintenance st)"
proof -
  assume g: "good st" and ph: "ag_phase st = Maintenance c n w"
  have "good (st\<lparr>ag_phase := Idle n\<rparr>)" by (rule good_phase [OF g]) (simp_all add: ph)
  then show ?thesis using ph by (auto simp: end_maintenance_def setPhase_def elim: good_cong)
qed

lemma good_continue: "good st \<Longrightarrow> good (continue_call st)"
proof -
  assume g: "good st"
  have c: "good (st\<lparr>ag_conts := cs\<rparr>)" for cs using g by (auto elim: good_cong)
  have "good (st\<lparr>ag_conts := cs, ag_phase := set_wake w (ag_phase st)\<rparr>)" for cs w
    using good_phase [OF c [of cs], of "set_wake w (ag_phase st)"] by simp
  with g c show ?thesis
    by (auto simp: continue_call_def good_wake good_abort split: list.splits continuation.splits)
qed

lemma foreign_passes:
  assumes "foreign st d intent" "ev_data e = d" "ev_surface_op e = si_op intent" "stands st tr" "tr_lastSeq tr < ev_seq e"
  shows "trace_step tr e = Inr (tr\<lparr>tr_lastSeq := ev_seq e\<rparr>)"
proof (cases "neutral d")
  case True
  with assms show ?thesis by (simp add: neutral_step)
next
  case False
  with assms have "in_turn (ag_place st)" "case d of TodoWrite j \<Rightarrow> True | ToolResult r \<Rightarrow> si_op intent \<noteq> Some append_op | _ \<Rightarrow> False"
    by (simp_all add: foreign_def)
  with assms show ?thesis by (cases d) (simp_all add: trace_defs stands_def)
qed

lemma good_foreign: "good st \<Longrightarrow> foreign st d intent \<Longrightarrow> good (snd (ag_append d intent t st))"
proof -
  assume g: "good st" and f: "foreign st d intent"
  obtain v st1 where ap: "ag_append d intent t st = (v, st1)" by fastforce
  have d: "event_type_of d \<noteq> ''agent/inbox/spliced''" using f by (simp add: foreign_def)
  obtain ow where st1: "st1 = st\<lparr>ag_owner := ow\<rparr>" using ag_append_cases [OF good_inbox [OF g] d ap] by auto
  show ?thesis
  proof (cases v)
    case (Inl x)
    with good_append_failed [OF g d] ap show ?thesis by simp
  next
    case (Inr q)
    have lg: "set (ag_log st) \<subseteq> set (ag_log st1)"
      using ag_append_cases [OF good_inbox [OF g] d ap] Inr by (auto simp: ag_log_def)
    have pl: "plan_logged st \<Longrightarrow> plan_logged st1"
      by (rule plan_logged_mono [OF lg]) (simp add: st1)
    have st: "stands (st\<lparr>ag_owner := ow\<rparr>) = stands st" by (rule stands_cong) simp_all
    have "good st1"
      by (rule good_appended [OF g d ap [unfolded Inr]])
        (use st1 g pl foreign_passes [OF f] in \<open>auto simp: good_def agent_ok_def st stands_seq\<close>)
    with ap show ?thesis by simp
  qed
qed

lemma good_next: "agent_step st st' \<Longrightarrow> good st \<Longrightarrow> good st'"
proof (induction rule: agent_step.induct)
  case (drv_tools st s ts us st')
  then show ?case using good_tools by blast
qed (simp_all add: good_turn_begin good_loop_begin good_assembled good_pre_step good_message good_begin_request good_config
    good_call good_dispatch good_chunk good_request_error good_tools_end good_end_step good_stopping good_end_turn
    good_converge good_send good_edit good_cancel good_maintenance good_maintained good_continue good_foreign)

section \<open>Reachable drivers\<close>

text \<open>A session may host a driver when its log is one the trace accepts with no turn open.\<close>

definition settled_session :: "session \<Rightarrow> bool" where
  "settled_session s \<longleftrightarrow> session_ok s \<and> seed_length s \<le> length (se_log s) \<and>
     (case seedSession (se_log s) of Inl x \<Rightarrow> False | Inr tr \<Rightarrow> tr_openTurn tr = None)"

lemma last_turn_starts: "last_turn es t = (if turn_starts es = [] then t else last (turn_starts es))"
  by (induction es arbitrary: t) (simp_all add: turn_starts_def split: event_data.splits)

lemma last_turn_traced:
  assumes "seedSession es = Inr tr" "tr_openTurn tr = None"
  shows "last_turn es 0 = tr_nextTurn tr - 1"
proof -
  have inv: "trace_inv tr" using assms(1) by (simp add: seedSession_def trace.inv_replay)
  from seedSession_turns [OF assms(1)] assms(2) have t: "turn_starts es = [1..tr_nextTurn tr - 1]" by simp
  show ?thesis
  proof (cases "tr_nextTurn tr = 1")
    case True
    with t show ?thesis by (simp add: last_turn_starts)
  next
    case False
    with inv have n: "1 \<le> tr_nextTurn tr - 1" by (simp add: trace_inv_def)
    then have "[1..tr_nextTurn tr - 1] = [1..tr_nextTurn tr - 2] @ [tr_nextTurn tr - 1]"
      using upto_rec2 [of 1 "tr_nextTurn tr - 1"] by simp
    with t show ?thesis by (simp add: last_turn_starts)
  qed
qed

lemma good_new:
  assumes s: "settled_session s" and a: "new_agent opts s = Inr st"
  shows "good st"
proof -
  from a obtain ow where ow: "new_inbox s = Inr ow" and st: "ag_owner st = ow" "ag_phase st = Idle (last_turn (se_log s) 0)"
      "ag_place st = DNone"
    by (auto simp: new_agent_def rbind_Inr_iff)
  have ok: "inbox_ok ow" using new_inbox_ok [OF _ _ ow] s by (simp add: settled_session_def)
  have "io_session ow = s" using ow by (auto simp: new_inbox_def rbind_Inr_iff)
  then have lg: "ag_log st = se_log s" by (simp add: ag_log_def st(1))
  from s obtain tr where tr: "seedSession (se_log s) = Inr tr" "tr_openTurn tr = None"
    by (auto simp: settled_session_def split: sum.splits)
  have inv: "trace_inv tr" using tr(1) by (simp add: seedSession_def trace.inv_replay)
  have "stands st tr"
    using st tr(2) inv last_turn_traced [OF tr]
    by (auto simp: stands_def open_pending_def trace_inv_def split: option.splits)
  then have "follows st" using tr(1) lg by (auto simp: follows_def)
  then show ?thesis using ok st by (simp add: good_def agent_ok_def)
qed

lemma reachable_good: "agent_reachable opts s st \<Longrightarrow> settled_session s \<Longrightarrow> good st"
proof (induction rule: agent_reachable.induct)
  case (agent_new st)
  then show ?case by (rule good_new [rotated])
next
  case (agent_next st st')
  then show ?case using good_next by blast
qed

section \<open>A run\<close>

text \<open>One turn of one step, from the message sent to the driver at rest.\<close>

definition sample_options :: agent_options where
  "sample_options = \<lparr>ao_provider = ''p'', ao_model = ''m'', ao_max_tokens = None, ao_max_parallel = 2,
     ao_error_chain = (\<lambda>f. ''failed'')\<rparr>"

definition sample_idle :: agent where
  "sample_idle = (case new_agent sample_options (empty_session sample_header) of Inr st \<Rightarrow> st)"

definition sample_prepared :: prepared_call where
  "sample_prepared = \<lparr>pc_config = no_config\<lparr>cc_provider := ''p'', cc_model := ''m'', cc_max_tokens := Some 64\<rparr>,
     pc_defaults = \<lparr>ad_effort = False, ad_max_tokens = True\<rparr>, pc_window = Some 1000\<rparr>"

definition sample_waking :: agent where
  "sample_waking = continue_call (snd (followup (sample_prompt ''a'') sample_moment sample_idle))"

definition sample_entered :: agent where
  "sample_entered =
     append_message sample_moment (append_message sample_moment
       (on_pre_step (Inr (EnterStep [sample_prompt ''a''])) sample_moment
         (on_assembled (Inr \<lparr>as_system = ''S'', as_tools = [], as_context = None\<rparr>)
           (loop_begin sample_moment sample_moment (turn_begin sample_moment sample_waking)))))"

definition sample_request :: agent where
  "sample_request =
     on_call (Inr (Some sample_prepared)) sample_moment sample_moment
       (on_config (Inr (no_config\<lparr>cc_provider := ''p'', cc_model := ''m''\<rparr>)) (begin_request sample_entered))"

definition sample_answered :: agent where
  "sample_answered =
     on_chunk (Inr None) ''reply'' sample_moment
       (on_chunk (Inr (Some (FinishChunk FinishMaxTokens None))) ''reply'' sample_moment
         (on_chunk (Inr (Some (TextDelta 0 ''hi''))) ''reply'' sample_moment (dispatch (Inr ()) sample_request)))"

definition sample_stopped :: agent where
  "sample_stopped = on_stopping (Inr ()) (end_step (StepEnded (Some EndMaxTokens)) sample_moment sample_answered)"

definition sample_rest :: agent where
  "sample_rest = continue_call (converge (end_turn TurnCompletes sample_moment sample_stopped))"

lemma sample_settled: "settled_session (empty_session sample_header)"
proof -
  have "seed_length (empty_session sample_header) \<le> length (se_log (empty_session sample_header))"
    by (simp add: seed_length_def empty_session_def sample_header_def)
  moreover have "seedSession (se_log (empty_session sample_header)) = Inr freshTrace"
    by (simp add: empty_session_def seedSession_def)
  ultimately show ?thesis
    using session_ok_empty [of sample_header] by (simp add: settled_session_def freshTrace_def)
qed

lemma sample_idle_new: "new_agent sample_options (empty_session sample_header) = Inr sample_idle"
  by (simp add: sample_idle_def new_agent_def new_inbox_def empty_session_def)

abbreviation sample_reachable :: "agent \<Rightarrow> bool" where
  "sample_reachable \<equiv> agent_reachable sample_options (empty_session sample_header)"

lemma sample_waking_reached: "sample_reachable sample_waking"
  unfolding sample_waking_def followup_def
  by (rule agent_next [OF agent_next [OF agent_new [OF sample_idle_new] call_send] call_continues]) code_simp

lemma sample_entered_reached: "sample_reachable sample_entered"
  unfolding sample_entered_def
  by (rule agent_next [OF agent_next [OF agent_next [OF agent_next [OF agent_next [OF agent_next
        [OF sample_waking_reached drv_turn] drv_loop] drv_assembled] drv_pre_step] drv_message] drv_message]; code_simp)

lemma sample_request_reached: "sample_reachable sample_request"
  unfolding sample_request_def
  by (rule agent_next [OF agent_next [OF agent_next [OF sample_entered_reached drv_request] drv_config] drv_call]; code_simp)

lemma sample_answered_reached: "sample_reachable sample_answered"
  unfolding sample_answered_def
  by (rule agent_next [OF agent_next [OF agent_next [OF agent_next
        [OF sample_request_reached drv_dispatch] drv_chunk] drv_chunk] drv_chunk]; code_simp)

lemma sample_stopped_reached: "sample_reachable sample_stopped"
  unfolding sample_stopped_def
  by (rule agent_next [OF agent_next [OF sample_answered_reached drv_step_end] drv_stopping]; code_simp)

lemma sample_rest_reached: "sample_reachable sample_rest"
  unfolding sample_rest_def
  by (rule agent_next [OF agent_next [OF agent_next [OF sample_stopped_reached drv_turn_end] drv_converge] call_continues]; code_simp)

lemma sample_rest_shape: "ag_place sample_rest = DNone" "\<not> ag_unclosed sample_rest" "calls_distinct (ag_log sample_rest)"
  "length (ag_log sample_rest) = 12"
  by code_simp+

section \<open>Properties\<close>

text \<open>C1. Whatever the interleaving of public calls and of appends by other plugins, the trace
  invariants accept the log of a driver and stand where the driver stands: the turn and the step
  open in the log are exactly those it is in, with nothing pending outside the tools; and a process
  that dies there leaves a log that crash repair closes. This holds as long as the session refused
  no append of a closing event and no message of the log repeats a call id; the other plugins append
  events that belong neither to the loop nor to the inbox, and the todo list and rewrites of
  results only inside a turn (\<open>foreign\<close>).\<close>

theorem driver_log_accepted:
  assumes "settled_session s" and "agent_reachable opts s st"
    and "\<not> ag_unclosed st" and "calls_distinct (ag_log st)"
  shows "(\<exists>tr. seedSession (ag_log st) = Inr tr
      \<and> tr_openTurn tr = (if in_turn (ag_place st) then Some (phase_turn (ag_phase st)) else None)
      \<and> tr_openStep tr = (if in_step (ag_place st) then Some (running_step (ag_phase st)) else None)
      \<and> (ag_place st \<noteq> DTools \<and> (\<forall>r. ag_place st \<noteq> DStepEnd r) \<longrightarrow> tr_pending tr = []))
    \<and> (\<exists>tr. seedSession (ag_log st @ interruptedTurnClosers (ag_log st)) = Inr tr \<and> tr_openTurn tr = None)"
proof -
  from reachable_good [OF assms(2,1)] assms(3,4) obtain tr where tr: "seedSession (ag_log st) = Inr tr" "stands st tr"
    by (auto simp: good_def follows_def)
  have "tr_pending tr = []" if "ag_place st \<noteq> DTools \<and> (\<forall>r. ag_place st \<noteq> DStepEnd r)"
    using tr(2) that by (cases "ag_place st") (simp_all add: stands_def open_pending_def)
  with tr closers_trace [OF tr(1)] show ?thesis by (auto simp: stands_def)
qed

lemma driver_log_accepted_witness: "\<exists>tr. seedSession (ag_log sample_rest) = Inr tr \<and> tr_openTurn tr = None"
proof -
  have "\<not> in_turn (ag_place sample_rest)" by (simp add: sample_rest_shape)
  with driver_log_accepted [OF sample_settled sample_rest_reached sample_rest_shape(2,3)] show ?thesis by auto
qed

text \<open>C5. A driver at rest is what a restart builds: constructing a driver on its session succeeds,
  with the same pending messages and the same last turn, and its session again may host one. This
  holds as long as the session refused no append of a closing event, no message of the log repeats
  a call id, and the other plugins appended only what \<open>foreign\<close> allows.\<close>

theorem driver_restarts:
  assumes "settled_session s" and "agent_reachable opts s st" and "ag_place st = DNone"
    and "\<not> ag_unclosed st" and "calls_distinct (ag_log st)"
  shows "settled_session (ag_session st) \<and>
    (\<exists>st2. new_agent opts2 (ag_session st) = Inr st2 \<and> ag_inbox st2 = ag_inbox st \<and> phase_turn (ag_phase st2) = phase_turn (ag_phase st))"
proof -
  have g: "good st" using assms(2,1) by (rule reachable_good)
  from g assms(4,5) obtain tr where tr: "seedSession (ag_log st) = Inr tr" "stands st tr"
    by (auto simp: good_def follows_def)
  have o': "tr_openTurn tr = None" "tr_nextTurn tr = phase_turn (ag_phase st) + 1"
    using tr(2) assms(3) by (simp_all add: stands_def)
  have "last_turn (ag_log st) 0 = phase_turn (ag_phase st)" using last_turn_traced [OF tr(1) o'(1)] o'(2) by simp
  with good_inbox [OF g] tr(1) o'(1) show ?thesis
    by (simp add: settled_session_def inbox_ok_def new_agent_def new_inbox_def ag_log_def)
qed

lemma driver_restarts_witness:
  "settled_session (ag_session sample_rest) \<and> is_ok (new_agent sample_options (ag_session sample_rest))"
  using driver_restarts [OF sample_settled sample_rest_reached sample_rest_shape(1-3), of sample_options]
  by (auto simp: is_ok_iff)

end
