(* ===== verification/Driver_Outcomes.thy ===== *)
theory Driver_Outcomes
  imports Driver_Trace
begin

text \<open>
  What the agent driver promises of its work: a request carries the messages of the log it was begun
  on and the header of the log it is sent from, a turn ends with an ending that fits the way it
  ended, and the wake of a message sent to an activity that cannot take it opens another turn.
\<close>

section \<open>Where a transition leads\<close>

text \<open>An append leaves the driver's own fields alone.\<close>

lemma append_fields:
  "ag_append d intent t st = (r, st1) \<Longrightarrow>
     ag_place st1 = ag_place st \<and> ag_phase st1 = ag_phase st \<and> ag_ends st1 = ag_ends st \<and> ag_conts st1 = ag_conts st \<and>
     ag_boundary st1 = ag_boundary st \<and> ag_request st1 = ag_request st \<and>
     ag_options st1 = ag_options st \<and> ag_inbox st1 = ag_inbox st"
  by (auto simp: ag_append_def split: prod.splits sum.splits)

lemma append_shape: "ag_append d intent t st = (r, st1) \<Longrightarrow> \<exists>ow. st1 = st\<lparr>ag_owner := ow\<rparr>"
  by (auto simp: ag_append_def split: prod.splits sum.splits)

lemma entries_shape: "append_entries plan es ts st = Some st1 \<Longrightarrow> \<exists>ow. st1 = st\<lparr>ag_owner := ow\<rparr>"
proof (induction plan es ts st rule: append_entries.induct)
  case (1 plan ts st)
  then show ?case by (intro exI [of _ "ag_owner st"]) simp
next
  case (2 plan e es st)
  then show ?case by simp
next
  case (3 plan e es t ts st)
  let ?ev = "entry_event (phase_turn (ag_phase st)) (running_step (ag_phase st)) plan e"
  from 3(2) obtain st2 where time: "fst t = ev_time ?ev"
    and ap: "ag_append (ev_data ?ev) (entry_intent e) t st = (Inr (ev_seq ?ev), st2)"
    and rest: "append_entries plan es ts st2 = Some st1"
    by (auto simp: Let_def split: if_splits prod.splits sum.splits)
  obtain ow where "st2 = st\<lparr>ag_owner := ow\<rparr>" using append_shape [OF ap] by blast
  moreover have "\<exists>ow. st1 = st2\<lparr>ag_owner := ow\<rparr>"
    using 3(1) [OF refl _ ap [symmetric] refl _ rest] time by simp
  ultimately show ?case by auto
qed

lemma contexts_shape: "accept_contexts ms ts st = Some st1 \<Longrightarrow> \<exists>ow. st1 = st\<lparr>ag_owner := ow\<rparr>"
proof (induction ms ts st rule: accept_contexts.induct)
  case (1 ts st)
  then show ?case by (intro exI [of _ "ag_owner st"]) simp
next
  case (2 m ms st)
  then show ?case by simp
next
  case (3 m ms t ts st)
  from 3(2) obtain r ow where ap: "inbox_append NextStep m (fst t) (snd t) (ag_owner st) = (Inr r, ow)"
    and rest: "accept_contexts ms ts (st\<lparr>ag_owner := ow\<rparr>) = Some st1"
    by (auto split: prod.splits sum.splits)
  from 3(1) [OF ap [symmetric] refl rest] show ?case by auto
qed

lemma tools_shape: "tools_step s ts us st = Some st' \<Longrightarrow> \<exists>ow. st' = st\<lparr>ag_owner := ow, ag_sched := s\<rparr>"
proof -
  assume "tools_step s ts us st = Some st'"
  then obtain st1 st2 where "append_entries (sd_calls s) (drop (length (sd_log (ag_sched st))) (sd_log s)) ts st = Some st1"
    "accept_contexts (drop (length (sd_contexts (ag_sched st))) (sd_contexts s)) us st1 = Some st2" "st' = st2\<lparr>ag_sched := s\<rparr>"
    by (auto simp: tools_step_def split: option.splits)
  with entries_shape contexts_shape show ?thesis by fastforce
qed

lemma catch_place: "ag_place (turn_catch f st) = DTurnEnd (TurnThrew f)"
  by (simp add: turn_catch_def report_error_def split: option.splits)

lemma throw_place: "ag_place (step_throw f st) = DStepEnd (StepThrew f)"
  by (simp add: step_throw_def)

lemmas driver_defs = turn_begin_def loop_begin_def on_assembled_def on_pre_step_def append_message_def begin_request_def
  on_config_def on_call_def dispatch_def on_chunk_def finish_stream_def accept_message_def on_request_error_def tools_end_def
  end_step_def on_stopping_def end_turn_def converge_def turn_checked_def step_checked_def go_on_def setPhase_def Let_def

section \<open>Requests\<close>

lemma plain_messages:
  assumes ok: "is_ok (foldSurface (es @ [e]))" and op: "ev_surface_op e = None"
  shows "log_messages (es @ [e]) = log_messages es"
proof -
  obtain nodes reps where f: "foldSurface es = Inr (nodes, reps)"
    using foldSurface_prefix [OF ok] is_ok_foldE by blast
  obtain st where r: "replay surface_step surface_start es = Inr (es, st, reps)" and n: "nodes = ss_nodes st"
    using foldSurface_Inr [OF f] by blast
  from ok have "is_ok (surface_step (es, st, reps) e)"
    by (auto simp: foldSurface_replay replay_snoc r is_ok_iff split: sum.splits)
  then have "surface_step (es, st, reps) e = Inr (es @ [e], st, reps)"
    using op by (auto simp: surface_step_def applySurfaceEvent_def planSurfaceEvent_def surfaceOpOf_def is_ok_iff
        rbind_Inr_iff split: sum.splits if_splits)
  then have "foldSurface (es @ [e]) = Inr (nodes, reps)"
    by (simp add: foldSurface_replay replay_snoc r n)
  with f project_nodes_extend [OF foldSurface_bounds [OF f], of "[e]"] show ?thesis
    by (simp add: log_messages_def)
qed

lemma fold_header_snoc: "foldRequestHeader (es @ [e]) None
    = (case ev_data e of RequestHeader h r \<Rightarrow> Some (canonicalHeader h) | _ \<Rightarrow> foldRequestHeader es None)"
  by (simp add: foldRequestHeader_append split: event_data.splits)

lemma fold_context_snoc: "fold_context (es @ [e]) None
    = (case ev_data e of RequestContext rc \<Rightarrow> Some rc | _ \<Rightarrow> fold_context es None)"
  by (simp add: fold_context_append split: event_data.splits)

text \<open>While a request is being built, until it is dispatched.\<close>

definition requesting :: "agent_place \<Rightarrow> bool" where
  "requesting p \<longleftrightarrow> p = DConfig \<or> p = DCall \<or> p = DDispatch"

text \<open>The states that follow the begin of one request, while it is being built.\<close>

inductive preparing :: "agent \<Rightarrow> agent \<Rightarrow> bool" for st0 :: agent where
  prep_begin: "ag_place st0 = DRequest \<Longrightarrow> preparing st0 (begin_request st0)"
| prep_next: "preparing st0 st \<Longrightarrow> requesting (ag_place st) \<Longrightarrow> agent_step st st' \<Longrightarrow> preparing st0 st'"

text \<open>The header of a request is the one a reader folds from the log, whose context names its model.\<close>

definition headed_by :: "session_event list \<Rightarrow> llm_request \<Rightarrow> bool" where
  "headed_by es r \<longleftrightarrow>
     foldRequestHeader es None = Some (lr_header r) \<and>
     (case fold_context es None of None \<Rightarrow> False
      | Some rc \<Rightarrow> rc_provider rc = cc_provider (eh_config (lr_header r)) \<and> rc_model rc = cc_model (eh_config (lr_header r)))"

definition requests_ok :: "agent \<Rightarrow> agent \<Rightarrow> bool" where
  "requests_ok st0 st \<longleftrightarrow>
     (requesting (ag_place st) \<longrightarrow> log_messages (ag_log st0) = Some (ag_boundary st) \<and> (\<exists>es. ag_log st = ag_log st0 @ es)) \<and>
     (ag_place st = DDispatch \<longrightarrow> (\<exists>r. ag_request st = Some r \<and> lr_messages r = ag_boundary st \<and> headed_by (ag_log st) r))"

lemma requests_elsewhere: "\<not> requesting (ag_place st) \<Longrightarrow> requests_ok st0 st"
  by (auto simp: requests_ok_def requesting_def)

text \<open>Appends that neither set the header nor record a context leave the request well headed.\<close>

definition unheading :: "session_event \<Rightarrow> bool" where
  "unheading e \<longleftrightarrow> (case ev_data e of RequestHeader h r \<Rightarrow> False | RequestContext rc \<Rightarrow> False | _ \<Rightarrow> True)"

lemma headed_kept: "headed_by es r \<Longrightarrow> \<forall>e \<in> set fs. unheading e \<Longrightarrow> headed_by (es @ fs) r"
proof (induction fs rule: rev_induct)
  case (snoc e fs)
  then have "headed_by ((es @ fs) @ [e]) r"
    unfolding headed_by_def fold_header_snoc fold_context_snoc by (cases "ev_data e") (auto simp: unheading_def)
  then show ?case by simp
qed simp

lemma plain_kept:
  "is_ok (foldSurface (es @ fs)) \<Longrightarrow> \<forall>e \<in> set fs. ev_surface_op e = None \<Longrightarrow> log_messages (es @ fs) = log_messages es"
proof (induction fs rule: rev_induct)
  case (snoc e fs)
  have ok: "is_ok (foldSurface ((es @ fs) @ [e]))" using snoc.prems(1) by simp
  then have "is_ok (foldSurface (es @ fs))" by (rule foldSurface_prefix)
  with snoc have "log_messages (es @ fs) = log_messages es" by simp
  moreover have "log_messages ((es @ fs) @ [e]) = log_messages (es @ fs)"
    using plain_messages [OF ok] snoc.prems(2) by simp
  ultimately show ?case by simp
qed simp

lemma requests_kept:
  assumes q: "requests_ok st0 st" and f: "ag_place st' = ag_place st" "ag_boundary st' = ag_boundary st" "ag_request st' = ag_request st"
    and l: "ag_log st' = ag_log st @ fs" "requesting (ag_place st) \<Longrightarrow> \<forall>e \<in> set fs. unheading e"
  shows "requests_ok st0 st'"
  using q f l headed_kept [of "ag_log st" _ fs]
  by (auto simp: requests_ok_def requesting_def)

lemma places_elsewhere:
  "\<not> requesting (ag_place (turn_begin t st))"
  "\<not> requesting (ag_place (loop_begin t u st))"
  "\<not> requesting (ag_place (on_assembled a st))"
  "\<not> requesting (ag_place (on_pre_step d t st))"
  "ag_place st = DMessages \<Longrightarrow> \<not> requesting (ag_place (append_message t st))"
  "\<not> requesting (ag_place (dispatch x st))"
  "ag_place st = DStream \<Longrightarrow> \<not> requesting (ag_place (on_chunk c i t st))"
  "\<not> requesting (ag_place (on_request_error y f st))"
  "ag_place st = DTools \<Longrightarrow> \<not> requesting (ag_place (tools_end st))"
  "\<not> requesting (ag_place (end_step r t st))"
  "\<not> requesting (ag_place (on_stopping x st))"
  "\<not> requesting (ag_place (end_turn o' t st))"
  "\<not> requesting (ag_place (converge st))"
  by (auto simp: driver_defs catch_place throw_place requesting_def dest!: append_fields
      split: option.splits sum.splits prod.splits pre_step_decision.splits finish_reason.splits list.splits place.splits
        step_outcome.splits turn_outcome.splits)

lemma requests_begin:
  assumes g: "good st" and p: "ag_place st = DRequest"
  shows "requests_ok st (begin_request st)"
proof -
  obtain r ses where d: "deriveMessages (ag_session st) = (r, ses)" by fastforce
  from read_messages [OF good_inbox [OF g] d] obtain ms where r: "r = Inr ms" "log_messages (ag_log st) = Some ms"
    and ses: "session_ok ses" "se_log ses = ag_log st" "se_header ses = se_header (ag_session st)" by auto
  have g1: "good (st\<lparr>ag_owner := (ag_owner st)\<lparr>io_session := ses\<rparr>\<rparr>)" using good_session [OF g ses] .
  obtain h ses1 where h: "requestHeader ses = (h, ses1)" by fastforce
  with read_header [OF good_inbox [OF g1]] ses(2) have "se_log ses1 = ag_log st" by (simp add: ag_log_def)
  with d r h show ?thesis
    by (auto simp: begin_request_def Let_def throw_place requests_ok_def requesting_def ag_log_def split: option.splits)
qed

lemma requests_config:
  assumes "requests_ok st0 st" "ag_place st = DConfig"
  shows "requests_ok st0 (on_config answer st)"
  using assms
  by (auto simp: on_config_def step_checked_def throw_place requests_ok_def requesting_def ag_log_def split: sum.splits option.splits)

lemma anchored_header:
  assumes g: "good st" and h: "header_canonical h" and a: "anchor_header h t st = (Inr q, st1)"
  shows "foldRequestHeader (ag_log st1) None = Some h \<and> (\<exists>es. ag_log st1 = ag_log st @ es) \<and> ag_boundary st1 = ag_boundary st"
proof -
  obtain b ses where r: "requestHeader (ag_session st) = (b, ses)" by fastforce
  let ?st = "st\<lparr>ag_owner := (ag_owner st)\<lparr>io_session := ses\<rparr>\<rparr>"
  have b: "b = foldRequestHeader (ag_log st) None" and lg: "se_log ses = ag_log st" and g1: "good ?st"
    using read_header [OF good_inbox [OF g] r] good_session [OF g] by blast+
  have *: "foldRequestHeader (ag_log st2) None = Some h \<and> (\<exists>es. ag_log st2 = ag_log st @ es) \<and> ag_boundary st2 = ag_boundary st"
    if ap: "ag_append (RequestHeader h hr) no_intent t ?st = (Inr q2, st2)" for hr q2 st2
  proof -
    from ag_append_cases [OF good_inbox [OF g1] plain_types(8) ap] obtain ow e where
      st2: "st2 = ?st\<lparr>ag_owner := ow\<rparr>" "inbox_ok ow" "se_log (io_session ow) = ag_log st @ [e]"
      and e: "ev_data e = RequestHeader h hr" "ev_surface_op e = None"
      using lg by (auto simp: ag_log_def no_intent_def)
    with h show ?thesis
      by (simp add: ag_log_def fold_header_snoc header_canonical_def)
  qed
  show ?thesis
  proof (cases "ag_header_logged st")
    case False
    with a r * show ?thesis
      by (auto simp: anchor_header_def Let_def ag_log_def split: prod.splits sum.splits)
  next
    case True
    show ?thesis
    proof (cases "\<exists>b'. b = Some b' \<and> headerEquals b' h")
      case eq: True
      then obtain b' where b': "b = Some b'" "headerEquals b' h" by blast
      then have "foldRequestHeader (ag_log st) None = Some b'" using b by simp
      then have "header_canonical b'" by (auto simp: foldRequestHeader_last split: option.splits event_data.splits)
      with b'(2) h have "b' = h"
        using headerEquals_canonical [of b' h] by (simp add: header_canonical_def)
      with a r True b' b lg show ?thesis
        by (auto simp: anchor_header_def Let_def ag_log_def)
    next
      case False
      with a r True * show ?thesis
        by (cases b) (auto simp: anchor_header_def Let_def)
    qed
  qed
qed

lemma anchored_context:
  assumes g: "good st" and a: "anchor_context rc t st = (Inr q, st1)"
  shows "fold_context (ag_log st1) None = Some rc \<and> (\<exists>es. ag_log st1 = ag_log st @ es) \<and>
    foldRequestHeader (ag_log st1) None = foldRequestHeader (ag_log st) None \<and> ag_boundary st1 = ag_boundary st"
proof -
  obtain b ses where r: "requestContext (ag_session st) = (b, ses)" by fastforce
  let ?st = "st\<lparr>ag_owner := (ag_owner st)\<lparr>io_session := ses\<rparr>\<rparr>"
  have lg: "se_log ses = ag_log st" and g1: "good ?st"
    using read_context [OF good_inbox [OF g] r] good_session [OF g] by blast+
  have b: "b = fold_context (ag_log st) None"
    using requestContext_ok [OF _ r] good_inbox [OF g] by (simp add: inbox_ok_def ag_log_def)
  have *: "fold_context (ag_log st2) None = Some rc \<and> (\<exists>es. ag_log st2 = ag_log st @ es) \<and>
      foldRequestHeader (ag_log st2) None = foldRequestHeader (ag_log st) None \<and> ag_boundary st2 = ag_boundary st"
    if ap: "ag_append (RequestContext rc) no_intent t ?st = (Inr q2, st2)" for q2 st2
  proof -
    from ag_append_cases [OF good_inbox [OF g1] plain_types(9) ap] obtain ow e where
      st2: "st2 = ?st\<lparr>ag_owner := ow\<rparr>" "inbox_ok ow" "se_log (io_session ow) = ag_log st @ [e]"
      and e: "ev_data e = RequestContext rc" "ev_surface_op e = None"
      using lg by (auto simp: ag_log_def no_intent_def)
    then show ?thesis
      by (simp add: ag_log_def fold_header_snoc fold_context_snoc)
  qed
  show ?thesis
  proof (cases "b = Some rc")
    case True
    with a r b lg show ?thesis by (auto simp: anchor_context_def Let_def ag_log_def)
  next
    case False
    with a r * show ?thesis by (auto simp: anchor_context_def Let_def)
  qed
qed

lemma requests_call:
  assumes g: "good st" and p: "ag_place st = DCall" and q: "requests_ok st0 st"
  shows "requests_ok st0 (on_call answer t u st)"
proof -
  obtain fs where lm: "log_messages (ag_log st0) = Some (ag_boundary st)" "ag_log st = ag_log st0 @ fs"
    using p q by (auto simp: requests_ok_def requesting_def)
  have thrown: "requests_ok st0 (step_throw f st')" for f st' by (rule requests_elsewhere) (simp add: throw_place requesting_def)
  have sent: "requests_ok st0 (case anchor_header h t st of
        (Inl f, st1) \<Rightarrow> step_throw f st1
      | (Inr _, st1) \<Rightarrow> (case anchor_context rc u st1 of
            (Inl f, st2) \<Rightarrow> step_throw f st2
          | (Inr _, st2) \<Rightarrow> st2\<lparr>ag_request := Some \<lparr>lr_header = h, lr_messages = ag_boundary st2\<rparr>, ag_place := DDispatch\<rparr>))"
    if h: "header_canonical h" and rc: "rc_provider rc = cc_provider (eh_config h)" "rc_model rc = cc_model (eh_config h)" for h rc
  proof -
    obtain r st1 where a: "anchor_header h t st = (r, st1)" by fastforce
    obtain r2 st2 where b: "anchor_context rc u st1 = (r2, st2)" by fastforce
    have g1: "good st1" using good_anchor_header [OF g _ a] p by simp
    show ?thesis
    proof (cases "\<exists>n m. r = Inr n \<and> r2 = Inr m")
      case True
      then obtain n m where rs: "r = Inr n" "r2 = Inr m" by blast
      note ah = anchored_header [OF g h a [unfolded rs]] and ac = anchored_context [OF g1 b [unfolded rs]]
      have "headed_by (ag_log st2) \<lparr>lr_header = h, lr_messages = ag_boundary st2\<rparr>"
        using ah ac rc by (simp add: headed_by_def)
      moreover have "log_messages (ag_log st0) = Some (ag_boundary st2) \<and> (\<exists>es. ag_log st2 = ag_log st0 @ es)"
        using ah ac lm by auto
      ultimately show ?thesis using a b rs by (simp add: requests_ok_def ag_log_def)
    next
      case False
      with a b thrown show ?thesis by (cases r; cases r2) auto
    qed
  qed
  have h: "header_canonical (call_header (ag_seed st) prep sy tl)" for prep sy tl by (simp add: call_header_def)
  show ?thesis
    unfolding on_call_def step_checked_def Let_def
    by (cases answer; cases "abort_of (ag_phase st)") (simp_all add: thrown sent h)
qed

text \<open>The public calls: what they leave alone, and what they append.\<close>

lemma send_fields:
  "st' = snd (send m target wakeup t st) \<Longrightarrow>
     ag_place st' = ag_place st \<and> ag_phase st' = ag_phase st \<and> ag_ends st' = ag_ends st \<and>
     ag_boundary st' = ag_boundary st \<and> ag_request st' = ag_request st \<and> grown (ag_owner st) (ag_owner st')"
  by (auto simp: send_def Let_def dest: grown_splice split: prod.splits sum.splits)

lemma cancel_fields:
  "st' = snd (cancel cause keep t u st) \<Longrightarrow>
     ag_place st' = ag_place st \<and> ag_ends st' = ag_ends st \<and>
     ag_boundary st' = ag_boundary st \<and> ag_request st' = ag_request st \<and> grown (ag_owner st) (ag_owner st')"
  by (auto simp: cancel_def abort_agent_def grown_same dest: grown_clear split: prod.splits sum.splits)

lemma maintenance_fields:
  "begin_maintenance st = Some st' \<Longrightarrow>
     ag_place st' = ag_place st \<and> ag_ends st' = ag_ends st \<and> ag_owner st' = ag_owner st"
  "ag_place (end_maintenance st) = ag_place st" "ag_ends (end_maintenance st) = ag_ends st"
  "ag_owner (end_maintenance st) = ag_owner st"
  by (auto simp: begin_maintenance_def end_maintenance_def setPhase_def split: if_splits)

lemma wake_fields:
  "ag_owner (wakeDriver after st) = ag_owner st"
  "\<not> is_idle (ag_phase st) \<Longrightarrow> ag_place (wakeDriver after st) = ag_place st"
  "is_idle (ag_phase st) \<Longrightarrow> ag_place (wakeDriver after st) = DTurn"
  "ag_ends (wakeDriver after st) = ag_ends st" "ag_boundary (wakeDriver after st) = ag_boundary st"
  "ag_request (wakeDriver after st) = ag_request st"
  by (simp_all add: wakeDriver_def setPhase_def)

lemma continue_fields:
  "ag_owner (continue_call st) = ag_owner st" "ag_ends (continue_call st) = ag_ends st"
  "ag_boundary (continue_call st) = ag_boundary st" "ag_request (continue_call st) = ag_request st"
  "ag_place (continue_call st) = ag_place st \<or> is_idle (ag_phase st) \<and> ag_place (continue_call st) = DTurn"
proof -
  have "ag_place (wakeDriver after (st\<lparr>ag_conts := cs\<rparr>)) = ag_place st \<or>
      is_idle (ag_phase st) \<and> ag_place (wakeDriver after (st\<lparr>ag_conts := cs\<rparr>)) = DTurn" for after cs
    by (cases "is_idle (ag_phase st)") (simp_all add: wake_fields)
  then show "ag_place (continue_call st) = ag_place st \<or> is_idle (ag_phase st) \<and> ag_place (continue_call st) = DTurn"
    by (auto simp: continue_call_def abort_agent_def split: list.splits continuation.splits)
qed (auto simp: continue_call_def wake_fields abort_agent_def split: list.splits continuation.splits)

lemma grown_unheading: "neutral (ev_data e) \<Longrightarrow> unheading e"
  by (cases "ev_data e") (simp_all add: unheading_def)

lemma requests_grown:
  assumes q: "requests_ok st0 st" and g: "grown (ag_owner st) (ag_owner st')"
    and p: "ag_place st' = ag_place st \<or> \<not> requesting (ag_place st')"
    and f: "ag_boundary st' = ag_boundary st" "ag_request st' = ag_request st"
  shows "requests_ok st0 st'"
proof (cases "requesting (ag_place st')")
  case True
  from g obtain es where "ag_log st' = ag_log st @ es" "\<forall>e \<in> set es. unheading e"
    using grown_unheading unfolding grown_def ag_log_def by blast
  with True p show ?thesis by (intro requests_kept [OF q _ f]) auto
qed (rule requests_elsewhere)

lemma requests_foreign:
  assumes g: "good st" and q: "requests_ok st0 st" and f: "foreign st d intent"
  shows "requests_ok st0 (snd (ag_append d intent t st))"
proof -
  obtain v st1 where ap: "ag_append d intent t st = (v, st1)" by fastforce
  have d: "event_type_of d \<noteq> ''agent/inbox/spliced''" using f by (simp add: foreign_def)
  have "unheading e" if "ev_data e = d" for e
    using f that by (cases d) (auto simp: unheading_def foreign_def)
  then obtain es where "ag_log st1 = ag_log st @ es" "\<forall>e \<in> set es. unheading e"
    using ag_append_cases [OF good_inbox [OF g] d ap] by (cases v) (auto simp: ag_log_def)
  then have "requests_ok st0 st1"
    using append_fields [OF ap] by (intro requests_kept [OF q]) auto
  with ap show ?thesis by simp
qed

lemma requests_next:
  "agent_step st st' \<Longrightarrow> good st \<Longrightarrow> ag_place st \<noteq> DRequest \<Longrightarrow> requests_ok st0 st \<Longrightarrow> requests_ok st0 st'"
proof (induction rule: agent_step.induct)
  case (drv_tools st s ts us st')
  then have "ag_place st' = DTools" using tools_shape [OF drv_tools(4)] by auto
  then show ?case by (intro requests_elsewhere) (simp add: requesting_def)
next
  case (call_send st m target wakeup t)
  note f = send_fields [OF refl, of m target wakeup t st]
  show ?case by (rule requests_grown [OF call_send(3)]) (simp_all only: f simp_thms)
next
  case (call_inbox q st t u)
  then show ?case by (intro requests_grown [OF call_inbox(4)]) (simp_all add: grown_edit)
next
  case (call_cancel st cause keep t u)
  note f = cancel_fields [OF refl, of cause keep t u st]
  show ?case by (rule requests_grown [OF call_cancel(3)]) (simp_all only: f simp_thms)
next
  case (call_maintenance st st')
  then have "ag_place st' = DNone"
    using maintenance_fields(1) [of st st'] good_running [of st] by (cases "ag_phase st") (auto simp: begin_maintenance_def)
  then show ?case by (intro requests_elsewhere) (simp add: requesting_def)
next
  case (maintenance_end st c n w)
  then have "ag_place (end_maintenance st) = DNone" using good_running [of st] by (simp add: maintenance_fields)
  then show ?case by (intro requests_elsewhere) (simp add: requesting_def)
next
  case (call_continues st)
  have "ag_place (continue_call st) = ag_place st \<or> \<not> requesting (ag_place (continue_call st))"
    using continue_fields(5) [of st] by (auto simp: requesting_def)
  then show ?case
    by (intro requests_grown [OF call_continues(4)]) (simp_all add: continue_fields grown_same)
next
  case (foreign_append st d intent t)
  then show ?case by (intro requests_foreign)
qed (simp_all add: requests_config requests_call requests_elsewhere places_elsewhere)

lemma preparing_ok:
  "preparing st0 st \<Longrightarrow> agent_reachable opts s st0 \<Longrightarrow> settled_session s \<Longrightarrow> requests_ok st0 st \<and> agent_reachable opts s st"
proof (induction rule: preparing.induct)
  case prep_begin
  then show ?case
    using requests_begin [OF reachable_good] agent_next [OF prep_begin(2) drv_request [OF prep_begin(1)]] by blast
next
  case (prep_next st st')
  have p: "ag_place st \<noteq> DRequest" using prep_next(2) by (auto simp: requesting_def)
  have r: "agent_reachable opts s st" "requests_ok st0 st" using prep_next(4-6) by simp_all
  from requests_next [OF prep_next(3) reachable_good [OF r(1) prep_next(6)] p r(2)] agent_next [OF r(1) prep_next(3)]
  show ?case ..
qed

text \<open>Every driver that is building a request has begun it.\<close>

lemma requesting_began:
  "agent_step st st' \<Longrightarrow> good st \<Longrightarrow> requesting (ag_place st') \<Longrightarrow>
     requesting (ag_place st) \<or> ag_place st = DRequest \<and> st' = begin_request st"
proof (induction rule: agent_step.induct)
  case (drv_tools st s ts us st')
  then have "ag_place st' = DTools" using tools_shape [OF drv_tools(4)] by auto
  with drv_tools show ?case by (simp add: requesting_def)
next
  case (call_send st m target wakeup t)
  then show ?case by (simp add: send_fields [OF refl])
next
  case (call_cancel st cause keep t u)
  then show ?case by (simp add: cancel_fields [OF refl])
next
  case (call_maintenance st st')
  then show ?case by (simp add: maintenance_fields(1) [OF call_maintenance(1)])
next
  case (call_continues st)
  then show ?case using continue_fields(5) [of st] by (auto simp: requesting_def)
next
  case (foreign_append st d intent t)
  obtain v st1 where ap: "ag_append d intent t st = (v, st1)" by fastforce
  with foreign_append append_fields [OF ap] show ?case by simp
qed (simp_all add: places_elsewhere maintenance_fields requesting_def [of DConfig] requesting_def [of DCall] requesting_def [of DDispatch])

lemma requesting_prepared:
  "agent_reachable opts s st \<Longrightarrow> settled_session s \<Longrightarrow> requesting (ag_place st) \<Longrightarrow>
     \<exists>st0. agent_reachable opts s st0 \<and> ag_place st0 = DRequest \<and> preparing st0 st"
proof (induction rule: agent_reachable.induct)
  case (agent_new st)
  then have "ag_place st = DNone" by (auto simp: new_agent_def rbind_Inr_iff)
  with agent_new show ?case by (simp add: requesting_def)
next
  case (agent_next st st')
  from requesting_began [OF agent_next(2) reachable_good [OF agent_next(1,4)] agent_next(5)] show ?case
  proof
    assume r: "requesting (ag_place st)"
    with agent_next(3,4) obtain st0 where "agent_reachable opts s st0" "ag_place st0 = DRequest" "preparing st0 st" by blast
    with prep_next [OF _ r agent_next(2)] show ?thesis by blast
  next
    assume "ag_place st = DRequest \<and> st' = begin_request st"
    with agent_next(1) prep_begin show ?thesis by blast
  qed
qed

section \<open>Endings\<close>

definition regular :: "turn_end_reason option \<Rightarrow> bool" where
  "regular e \<longleftrightarrow> e = None \<or> e = Some EndCompleted \<or> e = Some EndMaxTokens"

lemma regular_simps [simp]: "regular None" "regular (Some EndCompleted)" "regular (Some EndMaxTokens)"
  by (simp_all add: regular_def)

definition endings_ok :: "agent \<Rightarrow> bool" where
  "endings_ok st \<longleftrightarrow>
     (case ag_place st of
        DTurnEnd (TurnThrew f) \<Rightarrow>
          (\<exists>x. ag_ends st = Some (EndError x)) \<or> (\<exists>c. abort_of (ag_phase st) = Some c \<and> ag_ends st = Some (EndAborted (cause_json c)))
      | DTurnEnd TurnStops \<Rightarrow> ag_ends st = Some EndBlocked \<or> ag_ends st = Some EndCompleted
      | DTurnEnd TurnCompletes \<Rightarrow> ag_ends st = Some EndCompleted \<or> ag_ends st = Some EndMaxTokens
      | DStopping \<Rightarrow> ag_ends st = Some EndCompleted \<or> ag_ends st = Some EndMaxTokens
      | DStepEnd (StepEnded e) \<Rightarrow> regular e \<and> regular (ag_ends st)
      | DNone \<Rightarrow> True | DTurn \<Rightarrow> True | DConverge \<Rightarrow> True
      | _ \<Rightarrow> regular (ag_ends st))"

lemma endings_kept:
  assumes "endings_ok st" "ag_place st' = ag_place st" "ag_ends st' = ag_ends st"
    "\<And>c. abort_of (ag_phase st) = Some c \<Longrightarrow> abort_of (ag_phase st') = Some c"
  shows "endings_ok st'"
proof (cases "ag_place st")
  case (DTurnEnd o')
  with assms show ?thesis by (cases o') (auto simp: endings_ok_def)
next
  case (DStepEnd r)
  with assms show ?thesis by (cases r) (auto simp: endings_ok_def)
qed (use assms in \<open>simp_all add: endings_ok_def\<close>)

lemma endings_catch: "endings_ok (turn_catch f st)"
  by (auto simp: endings_ok_def turn_catch_def report_error_def split: option.splits)

lemma endings_throw: "regular (ag_ends st) \<Longrightarrow> endings_ok (step_throw f st)"
  by (simp add: endings_ok_def step_throw_def)

lemma endings_regular:
  "endings_ok st \<Longrightarrow> in_turn (ag_place st) \<Longrightarrow> \<forall>o'. ag_place st \<noteq> DTurnEnd o' \<Longrightarrow> regular (ag_ends st)"
  by (cases "ag_place st") (auto simp: endings_ok_def regular_def split: step_outcome.splits)

lemma endings_place: "regular (ag_ends st) \<Longrightarrow> \<forall>r. ag_place st \<noteq> DStepEnd r \<Longrightarrow> \<forall>o'. ag_place st \<noteq> DTurnEnd o' \<Longrightarrow>
    ag_place st \<noteq> DStopping \<Longrightarrow> endings_ok st"
  by (cases "ag_place st") (auto simp: endings_ok_def)

lemma merge_regular: "regular a \<Longrightarrow> regular b \<Longrightarrow> regular (merge_ending a b)"
  by (auto simp: regular_def merge_ending_def)

lemma endings_turn:
  "endings_ok (turn_begin t st)"
  "regular (ag_ends st) \<Longrightarrow> endings_ok (loop_begin t u st)"
  "regular (ag_ends st) \<Longrightarrow> endings_ok (on_assembled a st)"
  "regular (ag_ends st) \<Longrightarrow> endings_ok (on_pre_step d t st)"
  "regular (ag_ends st) \<Longrightarrow> endings_ok (on_stopping x st)"
  "endings_ok (end_turn o' t st)" "endings_ok (converge st)"
  by (auto simp: driver_defs endings_catch endings_place report_error_def dest!: append_fields
      split: option.splits sum.splits prod.splits pre_step_decision.splits turn_outcome.splits)
    (auto simp: endings_ok_def regular_def)

lemma endings_step:
  "regular (ag_ends st) \<Longrightarrow> ag_place st = DMessages \<Longrightarrow> endings_ok (append_message t st)"
  "regular (ag_ends st) \<Longrightarrow> endings_ok (begin_request st)"
  "regular (ag_ends st) \<Longrightarrow> endings_ok (on_config a st)"
  "regular (ag_ends st) \<Longrightarrow> endings_ok (dispatch x st)"
  "regular (ag_ends st) \<Longrightarrow> endings_ok (on_request_error y f st)"
  "regular (ag_ends st) \<Longrightarrow> ag_place st = DTools \<Longrightarrow> endings_ok (tools_end st)"
  by (auto simp: driver_defs endings_throw endings_place dest!: append_fields
      split: option.splits sum.splits prod.splits list.splits place.splits)
    (auto simp: endings_ok_def regular_def step_throw_def)

lemma anchor_ends:
  "anchor_header h t st = (r, st1) \<Longrightarrow> ag_ends st1 = ag_ends st" "anchor_context rc t st = (r, st1) \<Longrightarrow> ag_ends st1 = ag_ends st"
  by (auto simp: anchor_header_def anchor_context_def Let_def dest!: append_fields
      split: prod.splits sum.splits if_splits option.splits)

lemma endings_call: "regular (ag_ends st) \<Longrightarrow> endings_ok (on_call answer t u st)"
  by (auto simp: on_call_def step_checked_def Let_def endings_throw endings_place dest!: anchor_ends
      split: sum.splits option.splits prod.splits)

lemma endings_chunk:
  assumes r: "regular (ag_ends st)" and p: "ag_place st = DStream"
  shows "endings_ok (on_chunk c i t st)"
proof -
  have ended: "endings_ok (st1\<lparr>ag_place := DStepEnd (StepEnded e)\<rparr>)" if "regular (ag_ends st1)" "regular e" for st1 e
    using that by (simp add: endings_ok_def)
  have tools: "endings_ok (st1\<lparr>ag_sched := x, ag_place := DTools\<rparr>)" if "regular (ag_ends st1)" for st1 x
    using that by (simp add: endings_ok_def)
  have "endings_ok (accept_message fin i t st)" for fin
    using r by (auto simp: accept_message_def Let_def endings_throw ended tools dest!: append_fields
        split: sum.splits prod.splits)
  then have "endings_ok (finish_stream i t st)"
    using r by (auto simp: finish_stream_def endings_place split: finish_reason.splits)
  then show ?thesis
    using r p by (auto simp: on_chunk_def step_checked_def endings_throw endings_place dest!: append_fields
        split: sum.splits prod.splits option.splits)
qed

lemma endings_end_step:
  assumes e: "endings_ok st" and p: "ag_place st = DStepEnd r"
  shows "endings_ok (end_step r t st)"
proof -
  define st0 where "st0 = (case r of StepThrew f \<Rightarrow> st | StepEnded e \<Rightarrow> st\<lparr>ag_ends := merge_ending (ag_ends st) e\<rparr>)"
  have r0: "regular (ag_ends st0)"
    using e p merge_regular by (auto simp: endings_ok_def st0_def split: step_outcome.splits)
  obtain v st1 where ap: "ag_append (StepEnd (phase_turn (ag_phase st0)) (running_step (ag_phase st0))) no_intent t st0 = (v, st1)"
    by fastforce
  have r1: "regular (ag_ends st1)" using r0 append_fields [OF ap] by simp
  have "endings_ok (go_on st1)" using r1 by (simp add: go_on_def endings_place)
  moreover have "endings_ok (st1\<lparr>ag_place := DStopping\<rparr>)" if "ag_ends st1 \<noteq> None"
    using r1 that by (auto simp: endings_ok_def regular_def)
  ultimately show ?thesis
    unfolding end_step_def st0_def [symmetric] Let_def ap
    by (cases v; cases r; cases "abort_of (ag_phase st1)") (auto simp: endings_catch turn_checked_def)
qed

lemma continue_abort: "abort_of (ag_phase st) = Some c \<Longrightarrow> abort_of (ag_phase (continue_call st)) = Some c"
proof -
  assume a: "abort_of (ag_phase st) = Some c"
  have "abort_of (ag_phase (wakeDriver after (st\<lparr>ag_conts := cs\<rparr>))) = Some c" for after cs
    using a by (cases "ag_phase st") (simp_all add: wakeDriver_def)
  moreover have "abort_of (ag_phase (abort_agent x (st\<lparr>ag_conts := cs, ag_phase := set_wake False (ag_phase st)\<rparr>))) = Some c" for x cs
    using a by (cases "ag_phase st") (simp_all add: abort_agent_def)
  ultimately show ?thesis using a by (auto simp: continue_call_def split: list.splits continuation.splits)
qed

lemma endings_next: "agent_step st st' \<Longrightarrow> endings_ok st \<Longrightarrow> good st \<Longrightarrow> endings_ok st'"
proof (induction rule: agent_step.induct)
  case (drv_tools st s ts us st')
  then show ?case using tools_shape [OF drv_tools(4)] by (auto intro: endings_kept)
next
  case (drv_chunk st chunk newId t)
  then show ?case using endings_regular [of st] by (simp add: endings_chunk)
next
  case (call_send st m target wakeup t)
  note f = send_fields [OF refl, of m target wakeup t st]
  show ?case by (rule endings_kept [OF call_send(1)]) (simp_all only: f)
next
  case (call_inbox q st t u)
  then show ?case by (auto intro: endings_kept)
next
  case (call_cancel st cause keep t u)
  have "abort_of (ag_phase st) = Some c \<Longrightarrow> abort_of (ag_phase (snd (cancel cause keep t u st))) = Some c" for c
    by (cases "ag_phase st") (auto simp: cancel_def abort_agent_def split: prod.splits sum.splits)
  note f = cancel_fields [OF refl, of cause keep t u st] this
  show ?case by (rule endings_kept [OF call_cancel(1)]) (simp_all only: f)
next
  case (foreign_append st d intent t)
  obtain v st1 where "ag_append d intent t st = (v, st1)" by fastforce
  note ap = this
  show ?case unfolding ap snd_conv
    by (rule endings_kept [OF foreign_append(2)]) (simp_all only: append_fields [OF ap])
next
  case (call_continues st)
  from continue_fields(5) [of st] show ?case
  proof
    assume "ag_place (continue_call st) = ag_place st"
    then show ?thesis by (intro endings_kept [OF call_continues(2)] continue_abort) (simp_all add: continue_fields)
  qed (simp add: endings_ok_def)
next
  case (call_maintenance st st')
  have idle: "abort_of (ag_phase st) = None"
    using call_maintenance(1) by (cases "ag_phase st") (simp_all add: begin_maintenance_def)
  show ?case
    by (rule endings_kept [OF call_maintenance(2)]) (simp_all only: maintenance_fields(1) [OF call_maintenance(1)] idle option.distinct)
next
  case (maintenance_end st c n w)
  then have "ag_place (end_maintenance st) = DNone" using good_running [of st] by (simp add: maintenance_fields)
  then show ?case by (simp add: endings_ok_def)
qed (use endings_regular endings_turn endings_step endings_call endings_end_step in \<open>simp_all\<close>)

lemma endings_reachable: "agent_reachable opts s st \<Longrightarrow> settled_session s \<Longrightarrow> endings_ok st"
proof (induction rule: agent_reachable.induct)
  case (agent_new st)
  then have "ag_place st = DNone" by (auto simp: new_agent_def rbind_Inr_iff)
  then show ?case by (simp add: endings_ok_def)
next
  case (agent_next st st')
  then show ?case using endings_next reachable_good by blast
qed

section \<open>Wakes\<close>

text \<open>
  A wake is owed while it is latched on the activity, while the replay of a latched wake or the
  wake of a message sent remains to run beside no running driver, or while the wake of a message
  sent to an aborted activity remains to run.
\<close>

definition owed :: "agent \<Rightarrow> bool" where
  "owed st \<longleftrightarrow> wake_requested (ag_phase st) \<or> Wake True \<in> set (ag_conts st) \<or>
     (\<not> is_running (ag_phase st) \<and> (Replay True \<in> set (ag_conts st) \<or> Wake False \<in> set (ag_conts st)))"

text \<open>
  Runs in which, until another turn is opened in the log, messages stay pending, no clearing cancel
  takes effect, the agent is not disposed, and the driver that is about to open a turn is neither
  cancelled first nor refused the append of \<open>turn/start\<close>.
\<close>

definition turn_opened :: "agent \<Rightarrow> agent \<Rightarrow> bool" where
  "turn_opened st0 st \<longleftrightarrow>
     (\<exists>e \<in> set (drop (length (ag_log st0)) (ag_log st)). case ev_data e of TurnStart n \<Rightarrow> True | _ \<Rightarrow> False)"

definition undisturbed :: "agent \<Rightarrow> bool" where
  "undisturbed st \<longleftrightarrow> has_pending (ag_inbox st) \<and> abort_of (ag_phase st) \<noteq> Some CauseDisposed \<and>
     (case ag_conts st of Abort cause # cs \<Rightarrow> False | _ \<Rightarrow> True)"

inductive awaiting :: "agent \<Rightarrow> agent \<Rightarrow> bool" for st :: agent where
  awaiting_now: "awaiting st st"
| awaiting_next:
    "awaiting st st1 \<Longrightarrow>
     (\<not> turn_opened st st1 \<longrightarrow> undisturbed st1 \<and> (ag_place st1 = DTurn \<longrightarrow> ag_place st2 \<noteq> DConverge)) \<Longrightarrow>
     agent_step st1 st2 \<Longrightarrow> awaiting st st2"

text \<open>A driver step that leaves the phase's wake and the continuations.\<close>

lemma owed_kept:
  assumes "owed st" "wake_requested (ag_phase st') = wake_requested (ag_phase st)" "is_running (ag_phase st') = is_running (ag_phase st)"
    "set (ag_conts st) \<subseteq> set (ag_conts st')"
  shows "owed st'"
  using assms by (auto simp: owed_def)

lemma owed_continue:
  assumes o': "owed st" and p: "has_pending (ag_inbox st)" and d: "abort_of (ag_phase st) \<noteq> Some CauseDisposed"
    and a: "\<forall>cause cs. ag_conts st \<noteq> Abort cause # cs"
  shows "ag_place (continue_call st) = DTurn \<or> owed (continue_call st)"
proof (cases "ag_conts st")
  case Nil
  with o' show ?thesis by (simp add: continue_call_def)
next
  case (Cons k cs)
  show ?thesis
  proof (cases k)
    case (Wake after)
    with Cons o' d show ?thesis
      by (cases "ag_phase st"; cases after) (auto simp: continue_call_def wakeDriver_def setPhase_def owed_def)
  next
    case (Replay w)
    with Cons o' d p show ?thesis
      by (cases "ag_phase st"; cases w) (auto simp: continue_call_def wakeDriver_def setPhase_def owed_def)
  next
    case (Abort cause)
    with Cons a show ?thesis by simp
  qed
qed

lemma phase_wakes [simp]:
  "wake_requested (set_turn n p) = wake_requested p" "wake_requested (set_step n p) = wake_requested p"
  "wake_requested (abort_phase c p) = wake_requested p" "is_running (set_turn n p) = is_running p"
  "is_running (set_step n p) = is_running p"
  by (cases p; simp)+

lemma driver_phase:
  "wake_requested (ag_phase (turn_begin t st)) = wake_requested (ag_phase st) \<and> is_running (ag_phase (turn_begin t st)) = is_running (ag_phase st)
     \<and> ag_conts (turn_begin t st) = ag_conts st"
  "ag_phase (loop_begin t u st) = ag_phase st \<and> ag_conts (loop_begin t u st) = ag_conts st"
  "ag_phase (on_assembled a st) = ag_phase st \<and> ag_conts (on_assembled a st) = ag_conts st"
  "wake_requested (ag_phase (on_pre_step e t st)) = wake_requested (ag_phase st) \<and> is_running (ag_phase (on_pre_step e t st)) = is_running (ag_phase st)
     \<and> ag_conts (on_pre_step e t st) = ag_conts st"
  "ag_phase (append_message t st) = ag_phase st \<and> ag_conts (append_message t st) = ag_conts st"
  "ag_phase (begin_request st) = ag_phase st \<and> ag_conts (begin_request st) = ag_conts st"
  "ag_phase (on_config g st) = ag_phase st \<and> ag_conts (on_config g st) = ag_conts st"
  "ag_phase (dispatch x st) = ag_phase st \<and> ag_conts (dispatch x st) = ag_conts st"
  "ag_phase (on_request_error y f st) = ag_phase st \<and> ag_conts (on_request_error y f st) = ag_conts st"
  "ag_phase (tools_end st) = ag_phase st \<and> ag_conts (tools_end st) = ag_conts st"
  "ag_phase (on_stopping x st) = ag_phase st \<and> ag_conts (on_stopping x st) = ag_conts st"
  by (auto simp: driver_defs turn_catch_def step_throw_def report_error_def dest!: append_fields
      split: option.splits sum.splits prod.splits list.splits place.splits pre_step_decision.splits)

lemma catch_fields:
  "ag_phase (turn_catch f st) = ag_phase st" "ag_conts (turn_catch f st) = ag_conts st"
  "ag_phase (step_throw f st) = ag_phase st" "ag_conts (step_throw f st) = ag_conts st"
  by (simp_all add: turn_catch_def step_throw_def report_error_def split: option.splits)

lemma anchor_phase:
  "anchor_header h t st = (r, st1) \<Longrightarrow> ag_phase st1 = ag_phase st \<and> ag_conts st1 = ag_conts st"
  "anchor_context rc t st = (r, st1) \<Longrightarrow> ag_phase st1 = ag_phase st \<and> ag_conts st1 = ag_conts st"
  by (auto simp: anchor_header_def anchor_context_def Let_def dest!: append_fields
      split: prod.splits sum.splits if_splits option.splits)

lemma call_phase: "ag_phase (on_call answer t u st) = ag_phase st \<and> ag_conts (on_call answer t u st) = ag_conts st"
  by (auto simp: on_call_def step_checked_def Let_def catch_fields dest!: anchor_phase split: sum.splits option.splits prod.splits)

lemma accept_phase: "ag_phase (accept_message fin i t st) = ag_phase st \<and> ag_conts (accept_message fin i t st) = ag_conts st"
  by (auto simp: accept_message_def Let_def catch_fields dest!: append_fields split: sum.splits prod.splits)

lemma finish_phase: "ag_phase (finish_stream i t st) = ag_phase st \<and> ag_conts (finish_stream i t st) = ag_conts st"
  by (cases "finish_of (ag_asm st)") (simp_all add: finish_stream_def accept_phase)

lemma chunk_phase: "ag_phase (on_chunk c i t st) = ag_phase st \<and> ag_conts (on_chunk c i t st) = ag_conts st"
  by (auto simp: on_chunk_def step_checked_def catch_fields finish_phase dest!: append_fields
      split: sum.splits prod.splits option.splits)

lemma end_step_phase: "ag_phase (end_step r t st) = ag_phase st \<and> ag_conts (end_step r t st) = ag_conts st"
proof -
  define st0 where "st0 = (case r of StepThrew f \<Rightarrow> st | StepEnded e \<Rightarrow> st\<lparr>ag_ends := merge_ending (ag_ends st) e\<rparr>)"
  obtain v st1 where ap: "ag_append (StepEnd (phase_turn (ag_phase st0)) (running_step (ag_phase st0))) no_intent t st0 = (v, st1)"
    by fastforce
  have "ag_phase st0 = ag_phase st \<and> ag_conts st0 = ag_conts st" by (simp add: st0_def split: step_outcome.splits)
  then have "ag_phase st1 = ag_phase st \<and> ag_conts st1 = ag_conts st" using append_fields [OF ap] by simp
  then show ?thesis
    unfolding end_step_def st0_def [symmetric] Let_def ap
    by (cases v; cases r; cases "abort_of (ag_phase st1)") (auto simp: catch_fields turn_checked_def go_on_def)
qed

lemma owed_end_turn:
  assumes o': "owed st" and run: "is_running (ag_phase st)"
  shows "ag_place (end_turn r t st) = DTurn \<or> owed (end_turn r t st)"
proof -
  obtain v st1 where ap: "ag_append (TurnEnd (phase_turn (ag_phase st)) (case ag_ends st of Some e \<Rightarrow> e | None \<Rightarrow> EndOther ''undefined''))
      no_intent t st = (v, st1)" by fastforce
  have f: "ag_phase st1 = ag_phase st" "ag_conts st1 = ag_conts st"
    using append_fields [OF ap] by simp_all
  have "owed (st1\<lparr>ag_place := p\<rparr>)" "owed ((report_error x st1)\<lparr>ag_unclosed := True, ag_place := p\<rparr>)" for p x
    by (rule owed_kept [OF o']; simp add: f report_error_def)+
  then show ?thesis
    using f unfolding end_turn_def ap by (cases v; cases r) auto
qed

lemma owed_next:
  "agent_step st st' \<Longrightarrow> good st \<Longrightarrow> owed st \<Longrightarrow> has_pending (ag_inbox st) \<Longrightarrow> abort_of (ag_phase st) \<noteq> Some CauseDisposed \<Longrightarrow>
     \<forall>cause cs. ag_conts st \<noteq> Abort cause # cs \<Longrightarrow> ag_place st' = DTurn \<or> owed st'"
proof (induction rule: agent_step.induct)
  case (drv_tools st s ts us st')
  from tools_shape [OF drv_tools(4)] obtain ow where "st' = st\<lparr>ag_owner := ow, ag_sched := s\<rparr>" ..
  then show ?case using owed_kept [OF drv_tools(6), of st'] by simp
next
  case (drv_turn_end st o' t)
  then show ?case using good_running [of st] owed_end_turn by simp
next
  case (drv_converge st)
  then show ?case by (auto simp: owed_def converge_def setPhase_def good_running)
next
  case (call_send st m target wakeup t)
  have "set (ag_conts st) \<subseteq> set (ag_conts (snd (send m target wakeup t st)))"
    by (auto simp: send_def Let_def split: prod.splits sum.splits)
  then have "owed (snd (send m target wakeup t st))"
    by (intro owed_kept [OF call_send(2)]) (simp_all only: send_fields [OF refl])
  then show ?case ..
next
  case (call_inbox q st t u)
  have "owed (st\<lparr>ag_owner := snd (inbox_do q t u (ag_owner st))\<rparr>)" by (rule owed_kept [OF call_inbox(3)]) simp_all
  then show ?case ..
next
  case (call_cancel st cause keep t u)
  have "set (ag_conts st) \<subseteq> set (ag_conts (snd (cancel cause keep t u st)))"
    "wake_requested (ag_phase (snd (cancel cause keep t u st))) = wake_requested (ag_phase st)"
    "is_running (ag_phase (snd (cancel cause keep t u st))) = is_running (ag_phase st)"
    by (auto simp: cancel_def abort_agent_def split: prod.splits sum.splits)
  then have "owed (snd (cancel cause keep t u st))" by (intro owed_kept [OF call_cancel(2)]) simp_all
  then show ?case ..
next
  case (call_maintenance st st')
  then show ?case by (cases "ag_phase st") (auto simp: owed_def begin_maintenance_def setPhase_def)
next
  case (maintenance_end st c n w)
  then show ?case by (auto simp: owed_def end_maintenance_def setPhase_def)
next
  case (call_continues st)
  then show ?case by (intro owed_continue)
next
  case (foreign_append st d intent t)
  obtain v st1 where ap: "ag_append d intent t st = (v, st1)" by fastforce
  have "owed st1" using append_fields [OF ap] by (intro owed_kept [OF foreign_append(3)]) simp_all
  with ap show ?case by simp
qed (intro disjI2, erule owed_kept; simp add: driver_phase call_phase chunk_phase end_step_phase)+

lemma awaiting_reachable: "awaiting st st' \<Longrightarrow> agent_reachable opts s st \<Longrightarrow> agent_reachable opts s st'"
  by (induction rule: awaiting.induct) (auto intro: agent_next)

text \<open>The log of a driver only grows.\<close>

definition grows :: "agent \<Rightarrow> agent \<Rightarrow> bool" where
  "grows st st' \<longleftrightarrow> (\<exists>es. ag_log st' = ag_log st @ es)"

lemma grows_same: "ag_log st' = ag_log st \<Longrightarrow> grows st st'"
  by (simp add: grows_def)

lemma grows_idle: "ag_owner st' = ag_owner st \<Longrightarrow> grows st st'"
  by (simp add: grows_def ag_log_def)

lemma grows_trans: "grows st st1 \<Longrightarrow> grows st1 st2 \<Longrightarrow> grows st st2"
  by (auto simp: grows_def)

lemma grows_owner: "grown (ag_owner st) (ag_owner st') \<Longrightarrow> grows st st'"
  by (auto simp: grows_def grown_def ag_log_def)

lemma grows_set: "grown (ag_owner st) ow \<Longrightarrow> grows st (st\<lparr>ag_owner := ow\<rparr>)"
  by (simp add: grows_owner)

lemma grows_cong: "ag_owner st2 = ag_owner st1 \<Longrightarrow> grows st st1 \<Longrightarrow> grows st st2"
  by (simp add: grows_def ag_log_def)

lemma append_grows: "ag_append d intent t st = (r, st1) \<Longrightarrow> grows st st1"
  by (auto simp: ag_append_def grows_def ag_log_def dest!: append_event_log split: prod.splits sum.splits)

lemma entries_grow: "append_entries plan es ts st = Some st1 \<Longrightarrow> grows st st1"
proof (induction plan es ts st rule: append_entries.induct)
  case (3 plan e es t ts st)
  let ?ev = "entry_event (phase_turn (ag_phase st)) (running_step (ag_phase st)) plan e"
  from 3(2) obtain st2 where time: "fst t = ev_time ?ev"
    and ap: "ag_append (ev_data ?ev) (entry_intent e) t st = (Inr (ev_seq ?ev), st2)"
    and rest: "append_entries plan es ts st2 = Some st1"
    by (auto simp: Let_def split: if_splits prod.splits sum.splits)
  show ?case
    using 3(1) [OF refl _ ap [symmetric] refl _ rest] time append_grows [OF ap] by (blast intro: grows_trans)
qed (simp_all add: grows_same)

lemma contexts_grow: "accept_contexts ms ts st = Some st1 \<Longrightarrow> grows st st1"
proof (induction ms ts st rule: accept_contexts.induct)
  case (3 m ms t ts st)
  from 3(2) obtain r ow where ap: "inbox_append NextStep m (fst t) (snd t) (ag_owner st) = (Inr r, ow)"
    and rest: "accept_contexts ms ts (st\<lparr>ag_owner := ow\<rparr>) = Some st1"
    by (auto split: prod.splits sum.splits)
  have "grown (ag_owner st) ow" using ap unfolding inbox_append_def by (rule grown_splice)
  then have "grows st (st\<lparr>ag_owner := ow\<rparr>)" by (intro grows_owner) simp
  with 3(1) [OF ap [symmetric] refl rest] show ?case by (rule grows_trans [rotated])
qed (simp_all add: grows_same)

lemma tools_grow: "tools_step s ts us st = Some st' \<Longrightarrow> grows st st'"
proof -
  assume "tools_step s ts us st = Some st'"
  then obtain st1 st2 where "append_entries (sd_calls s) (drop (length (sd_log (ag_sched st))) (sd_log s)) ts st = Some st1"
    "accept_contexts (drop (length (sd_contexts (ag_sched st))) (sd_contexts s)) us st1 = Some st2" "st' = st2\<lparr>ag_sched := s\<rparr>"
    by (auto simp: tools_step_def split: option.splits)
  then have "grows st st2" "ag_owner st' = ag_owner st2" by (auto dest: entries_grow contexts_grow intro: grows_trans)
  then show ?thesis by (rule grows_cong [rotated])
qed

lemma throws_grow: "grows st st1 \<Longrightarrow> grows st (turn_catch f st1)" "grows st st1 \<Longrightarrow> grows st (step_throw f st1)"
  "grows st st1 \<Longrightarrow> grows st (report_error f st1)"
  by (auto simp: turn_catch_def step_throw_def report_error_def elim!: grows_cong [rotated] split: option.splits)

lemma driver_grows:
  "grows st (turn_begin t st)" "grows st (loop_begin t u st)" "grows st (on_assembled a st)" "grows st (on_pre_step d t st)"
  "grows st (append_message t st)" "grows st (on_config c st)" "grows st (dispatch x st)"
  "grows st (on_request_error y f st)" "grows st (tools_end st)" "grows st (on_stopping z st)"
  subgoal
    by (auto simp: turn_begin_def Let_def grows_idle dest!: append_grows intro: grows_cong [rotated] throws_grow(3)
        split: sum.splits prod.splits)
  subgoal
    by (auto simp: grows_idle loop_begin_def turn_checked_def dest!: grown_claim intro: throws_grow grows_set grows_owner grows_idle grows_owner
        split: option.splits sum.splits prod.splits)
  subgoal
    by (auto simp: grows_idle on_assembled_def turn_checked_def intro: throws_grow 
        split: option.splits sum.splits)
  subgoal
    by (auto simp: grows_idle on_pre_step_def turn_checked_def Let_def dest!: append_grows intro: throws_grow 
        grows_cong [rotated] split: option.splits sum.splits prod.splits pre_step_decision.splits)
  subgoal
    by (auto simp: grows_idle append_message_def step_checked_def dest!: append_grows intro: throws_grow 
        grows_cong [rotated] split: option.splits sum.splits prod.splits list.splits)
  subgoal
    by (auto simp: grows_idle on_config_def step_checked_def intro: throws_grow  split: option.splits sum.splits)
  subgoal
    by (auto simp: grows_idle dispatch_def step_checked_def intro: throws_grow  split: option.splits sum.splits)
  subgoal
    by (auto simp: grows_idle on_request_error_def step_checked_def intro: throws_grow 
        split: option.splits sum.splits)
  subgoal
    by (auto simp: grows_idle tools_end_def intro: throws_grow  split: place.splits)
  subgoal
    by (auto simp: grows_idle on_stopping_def turn_checked_def go_on_def intro: throws_grow 
        split: option.splits sum.splits)
  done

lemma request_grows: "good st \<Longrightarrow> grows st (begin_request st)"
proof -
  assume g: "good st"
  obtain r ses where d: "deriveMessages (ag_session st) = (r, ses)" by fastforce
  from read_messages [OF good_inbox [OF g] d] have ses: "session_ok ses" "se_log ses = ag_log st" "se_header ses = se_header (ag_session st)"
    by simp_all
  have g1: "good (st\<lparr>ag_owner := (ag_owner st)\<lparr>io_session := ses\<rparr>\<rparr>)" using good_session [OF g ses] .
  obtain h ses1 where h: "requestHeader ses = (h, ses1)" by fastforce
  with read_header [OF good_inbox [OF g1]] ses(2) have "se_log ses1 = ag_log st" by (simp add: ag_log_def)
  with d h ses(2) show ?thesis
    by (auto simp: begin_request_def Let_def step_throw_def grows_def ag_log_def split: option.splits sum.splits)
qed

lemma anchors_grow:
  assumes g: "good st"
  shows "anchor_header h t st = (r, st1) \<Longrightarrow> grows st st1" "anchor_context rc t st = (r, st1) \<Longrightarrow> grows st st1"
proof -
  have read: "grows st st2" if "ag_append d intent t (st\<lparr>ag_owner := (ag_owner st)\<lparr>io_session := ses\<rparr>\<rparr>) = (r2, st2)" "se_log ses = ag_log st"
    for d intent ses r2 st2
  proof -
    have "grows st (st\<lparr>ag_owner := (ag_owner st)\<lparr>io_session := ses\<rparr>\<rparr>)"
      using that(2) by (intro grows_same) (simp add: ag_log_def)
    with append_grows [OF that(1)] show ?thesis by (rule grows_trans [rotated])
  qed
  have still: "grows st (st\<lparr>ag_owner := (ag_owner st)\<lparr>io_session := ses\<rparr>\<rparr>)" if "se_log ses = ag_log st" for ses
    using that by (intro grows_same) (simp add: ag_log_def)
  have marked: "grows st (st2\<lparr>ag_header_logged := True\<rparr>)" if "grows st st2" for st2
    by (rule grows_cong [OF _ that]) simp
  obtain b ses where h: "requestHeader (ag_session st) = (b, ses)" by fastforce
  have lh: "se_log ses = ag_log st" using read_header [OF good_inbox [OF g] h] by simp
  show "grows st st1" if "anchor_header h t st = (r, st1)"
    using that read [OF _ lh] still [OF lh] marked unfolding anchor_header_def h
    by (auto simp: Let_def split: prod.splits sum.splits if_splits option.splits)
  obtain c ses' where c: "requestContext (ag_session st) = (c, ses')" by fastforce
  have lc: "se_log ses' = ag_log st" using read_context [OF good_inbox [OF g] c] by simp
  show "grows st st1" if "anchor_context rc t st = (r, st1)"
    using that read [OF _ lc] still [OF lc] unfolding anchor_context_def c
    by (auto simp: Let_def split: prod.splits sum.splits if_splits option.splits)
qed

lemma call_grows:
  assumes g: "good st" and p: "ag_place st = DCall"
  shows "grows st (on_call answer t u st)"
proof -
  have same: "grows st st" by (simp add: grows_same)
  have sent: "grows st (case anchor_header h t st of
        (Inl f, st1) \<Rightarrow> step_throw f st1
      | (Inr _, st1) \<Rightarrow> (case anchor_context rc u st1 of
            (Inl f, st2) \<Rightarrow> step_throw f st2
          | (Inr _, st2) \<Rightarrow> st2\<lparr>ag_request := Some \<lparr>lr_header = h, lr_messages = ag_boundary st2\<rparr>, ag_place := DDispatch\<rparr>))"
    if h: "header_canonical h" for h rc
  proof -
    obtain r st1 where a: "anchor_header h t st = (r, st1)" by fastforce
    obtain r2 st2 where b: "anchor_context rc u st1 = (r2, st2)" by fastforce
    have g1: "good st1" using good_anchor_header [OF g _ a] p by simp
    have "grows st st1" "grows st st2"
      using anchors_grow(1) [OF g a] anchors_grow(2) [OF g1 b] by (blast intro: grows_trans)+
    then show ?thesis
      by (cases r; cases r2) (auto simp: a b intro: throws_grow grows_cong [rotated])
  qed
  have "header_canonical (call_header (ag_seed st) prep sy tl)" for prep sy tl by (simp add: call_header_def)
  then show ?thesis
    unfolding on_call_def step_checked_def Let_def
    by (cases answer; cases "abort_of (ag_phase st)") (simp_all add: throws_grow same sent)
qed

lemma stream_grows: "grows st (on_chunk c i t st)"
proof -
  have "grows st (accept_message fin i t st)" for fin
    by (auto simp: grows_idle accept_message_def Let_def dest!: append_grows intro: throws_grow grows_cong [rotated]
        split: sum.splits prod.splits)
  then have "grows st (finish_stream i t st)"
    by (auto simp: grows_idle finish_stream_def split: finish_reason.splits)
  then show ?thesis
    by (auto simp: grows_idle on_chunk_def step_checked_def dest!: append_grows intro: throws_grow grows_cong [rotated]
        split: sum.splits prod.splits option.splits)
qed

lemma ends_grow: "grows st (end_step r t st)" "grows st (end_turn o' t st)" "grows st (converge st)"
proof -
  define st0 where "st0 = (case r of StepThrew f \<Rightarrow> st | StepEnded e \<Rightarrow> st\<lparr>ag_ends := merge_ending (ag_ends st) e\<rparr>)"
  obtain v st1 where ap: "ag_append (StepEnd (phase_turn (ag_phase st0)) (running_step (ag_phase st0))) no_intent t st0 = (v, st1)"
    by fastforce
  have "grows st st0" by (intro grows_owner grown_same) (simp add: st0_def split: step_outcome.splits)
  with append_grows [OF ap] have g: "grows st st1" by (rule grows_trans [rotated])
  then have "grows st (go_on st1)" "grows st (st1\<lparr>ag_unclosed := True\<rparr>)" "grows st (st1\<lparr>ag_place := DStopping\<rparr>)"
    by (auto simp: go_on_def intro: grows_cong [rotated])
  with g show "grows st (end_step r t st)"
    unfolding end_step_def st0_def [symmetric] Let_def ap
    by (cases v; cases r; cases "abort_of (ag_phase st1)") (auto simp: turn_checked_def intro: throws_grow)
  obtain w st2 where ae: "ag_append (TurnEnd (phase_turn (ag_phase st)) (case ag_ends st of Some e \<Rightarrow> e | None \<Rightarrow> EndOther ''undefined''))
      no_intent t st = (w, st2)" by fastforce
  show "grows st (end_turn o' t st)"
    using append_grows [OF ae] unfolding end_turn_def ae
    by (cases w; cases o') (auto simp: report_error_def intro: grows_cong [rotated])
  show "grows st (converge st)" by (intro grows_owner grown_same) (simp add: converge_def setPhase_def)
qed

lemma step_grows: "agent_step st st' \<Longrightarrow> good st \<Longrightarrow> grows st st'"
proof (induction rule: agent_step.induct)
  case (drv_tools st s ts us st')
  then show ?case by (intro tools_grow)
next
  case (call_send st m target wakeup t)
  show ?case by (rule grows_owner) (simp only: send_fields [OF refl])
next
  case (call_inbox q st t u)
  then show ?case by (intro grows_owner) (simp add: grown_edit)
next
  case (call_cancel st cause keep t u)
  show ?case by (rule grows_owner) (simp only: cancel_fields [OF refl])
next
  case (call_maintenance st st')
  then show ?case by (intro grows_owner grown_same) (simp add: maintenance_fields(1))
next
  case (foreign_append st d intent t)
  show ?case by (rule append_grows [OF prod.collapse [symmetric]])
qed (simp_all add: driver_grows request_grows call_grows stream_grows ends_grow grows_owner grown_same maintenance_fields continue_fields)

text \<open>A driver about to open a turn stays so, or opens it in the log.\<close>

definition opens :: "session_event list \<Rightarrow> bool" where
  "opens es \<longleftrightarrow> (\<exists>e \<in> set es. case ev_data e of TurnStart n \<Rightarrow> True | _ \<Rightarrow> False)"

lemma turn_opened_iff: "ag_log st = ag_log st0 @ es \<Longrightarrow> turn_opened st0 st \<longleftrightarrow> opens es"
  by (simp add: turn_opened_def opens_def)

lemma opening_begun:
  assumes g: "good st" and p: "ag_place (turn_begin t st) \<noteq> DConverge"
  shows "\<exists>es. ag_log (turn_begin t st) = ag_log st @ es \<and> opens es"
proof -
  obtain v st1 where ap: "ag_append (TurnStart (phase_turn (ag_phase st) + 1)) no_intent t st = (v, st1)" by fastforce
  from p ap obtain q where v: "v = Inr q" "abort_of (ag_phase st) = None"
    by (cases v) (auto simp: turn_begin_def Let_def split: if_splits)
  from ag_append_cases [OF good_inbox [OF g] plain_types(1) ap [unfolded v(1)]] obtain ow e where
    "st1 = st\<lparr>ag_owner := ow\<rparr>" "se_log (io_session ow) = ag_log st @ [e]" "ev_data e = TurnStart (phase_turn (ag_phase st) + 1)"
    by auto
  then have "ag_log (turn_begin t st) = ag_log st @ [e] \<and> opens [e]"
    using ap v by (simp add: turn_begin_def Let_def ag_log_def opens_def)
  then show ?thesis by blast
qed

lemma opening_next:
  "agent_step st st' \<Longrightarrow> good st \<Longrightarrow> ag_place st = DTurn \<Longrightarrow> ag_place st' \<noteq> DConverge \<Longrightarrow>
     ag_place st' = DTurn \<or> (\<exists>es. ag_log st' = ag_log st @ es \<and> opens es)"
proof (induction rule: agent_step.induct)
  case (drv_turn st t)
  then show ?case using opening_begun by blast
next
  case (call_send st m target wakeup t)
  then show ?case by (simp add: send_fields [OF refl])
next
  case (call_cancel st cause keep t u)
  then show ?case by (simp add: cancel_fields [OF refl])
next
  case (call_maintenance st st')
  then show ?case by (simp add: maintenance_fields(1) [OF call_maintenance(1)])
next
  case (call_continues st)
  then show ?case using continue_fields(5) [of st] by auto
next
  case (foreign_append st d intent t)
  obtain v st1 where ap: "ag_append d intent t st = (v, st1)" by fastforce
  with foreign_append append_fields [OF ap] show ?case by simp
qed (simp_all add: maintenance_fields)

lemma owed_undisturbed:
  assumes "agent_step st st'" "good st" "owed st" "undisturbed st"
  shows "ag_place st' = DTurn \<or> owed st'"
  by (rule owed_next [OF assms(1-3)])
    (use assms(4) in \<open>auto simp: undisturbed_def split: list.splits continuation.splits\<close>)

lemma awaiting_opens:
  assumes "awaiting st st'" "agent_reachable opts s st" "settled_session s" "owed st"
  shows "\<exists>es. ag_log st' = ag_log st @ es \<and> (opens es \<or> owed st' \<or> ag_place st' = DTurn)"
  using assms
proof (induction rule: awaiting.induct)
  case awaiting_now
  then show ?case by simp
next
  case (awaiting_next st1 st2)
  from awaiting_next(4-7) obtain es where es: "ag_log st1 = ag_log st @ es" "opens es \<or> owed st1 \<or> ag_place st1 = DTurn"
    by blast
  have g: "good st1" using awaiting_reachable [OF awaiting_next(1,5)] awaiting_next(6) by (rule reachable_good)
  from step_grows [OF awaiting_next(3) g] obtain fs where fs: "ag_log st2 = ag_log st1 @ fs" by (auto simp: grows_def)
  have opens_mono: "opens es \<Longrightarrow> opens (es @ fs)" "opens fs \<Longrightarrow> opens (es @ fs)" by (auto simp: opens_def)
  show ?case
  proof (cases "opens es")
    case True
    with es fs opens_mono show ?thesis by simp
  next
    case False
    then have u: "undisturbed st1" "ag_place st1 = DTurn \<Longrightarrow> ag_place st2 \<noteq> DConverge"
      using awaiting_next(2) turn_opened_iff [OF es(1)] by simp_all
    have "opens fs \<or> owed st2 \<or> ag_place st2 = DTurn"
      using es(2) False owed_undisturbed [OF awaiting_next(3) g _ u(1)] opening_next [OF awaiting_next(3) g _ u(2)] fs by auto
    with es fs opens_mono show ?thesis by auto
  qed
qed

lemma send_owes:
  assumes "send m target True t st = (Inr (), st')" "is_running (ag_phase st) \<longrightarrow> abort_of (ag_phase st) \<noteq> None"
  shows "owed st'"
  using assms by (cases "ag_phase st") (auto simp: send_def Let_def owed_def split: prod.splits sum.splits)

section \<open>Properties\<close>

text \<open>C2. Every request is derived from the session log. When it is dispatched its header is the one a
  reader folds from the log, and the context last recorded names its provider and model; its
  messages are those of the surface of the log the request was begun on, at the head of the step's
  request loop, and so those of the log it is sent from unless a plugin moved the surface while the
  configuration and the call were being prepared.\<close>

theorem request_from_log:
  assumes "settled_session s" and "agent_reachable opts s st" and "ag_place st = DDispatch"
  shows "\<exists>r rc st0 es. ag_request st = Some r
    \<and> foldRequestHeader (ag_log st) None = Some (lr_header r) \<and> fold_context (ag_log st) None = Some rc
    \<and> rc_provider rc = cc_provider (eh_config (lr_header r)) \<and> rc_model rc = cc_model (eh_config (lr_header r))
    \<and> agent_reachable opts s st0 \<and> ag_place st0 = DRequest \<and> preparing st0 st
    \<and> log_messages (ag_log st0) = Some (lr_messages r) \<and> ag_log st = ag_log st0 @ es
    \<and> ((\<forall>e \<in> set es. ev_surface_op e = None) \<longrightarrow> log_messages (ag_log st) = Some (lr_messages r))"
proof -
  have q: "requesting (ag_place st)" using assms(3) by (simp add: requesting_def)
  obtain st0 where st0: "agent_reachable opts s st0" "ag_place st0 = DRequest" "preparing st0 st"
    using requesting_prepared [OF assms(2,1) q] by blast
  have ok: "requests_ok st0 st" using preparing_ok [OF st0(3,1) assms(1)] ..
  then obtain r where r: "ag_request st = Some r" "lr_messages r = ag_boundary st" "headed_by (ag_log st) r"
    using assms(3) by (auto simp: requests_ok_def)
  from ok q r(2) obtain es where es: "log_messages (ag_log st0) = Some (lr_messages r)" "ag_log st = ag_log st0 @ es"
    by (auto simp: requests_ok_def)
  from r(3) obtain rc where rc: "foldRequestHeader (ag_log st) None = Some (lr_header r)" "fold_context (ag_log st) None = Some rc"
    "rc_provider rc = cc_provider (eh_config (lr_header r))" "rc_model rc = cc_model (eh_config (lr_header r))"
    by (auto simp: headed_by_def split: option.splits)
  have "is_ok (foldSurface (ag_log st0 @ es))"
    using good_inbox [OF reachable_good [OF assms(2,1)]] es(2) by (simp add: inbox_ok_def session_ok_def ag_log_def)
  from plain_kept [OF this] es rc r(1) st0 show ?thesis by auto
qed

lemma request_from_log_witness:
  "\<exists>r st0. ag_request sample_request = Some r \<and> preparing st0 sample_request \<and> log_messages (ag_log st0) = Some (lr_messages r)"
proof -
  have "ag_place sample_request = DDispatch" by code_simp
  from request_from_log [OF sample_settled sample_request_reached this] show ?thesis by blast
qed

text \<open>C4. Every exit of a turn has assigned its ending when the closing event is appended: a turn
  that threw is aborted exactly with the cause of its abort, or failed; one that stopped before a step
  is blocked or had nothing to do; one that ran out is completed or hit the token limit.\<close>

theorem turn_endings:
  assumes "settled_session s" and "agent_reachable opts s st" and "ag_place st = DTurnEnd r"
  shows "case r of
      TurnThrew f \<Rightarrow> (\<exists>x. ag_ends st = Some (EndError x))
        \<or> (\<exists>c. abort_of (ag_phase st) = Some c \<and> ag_ends st = Some (EndAborted (cause_json c)))
    | TurnStops \<Rightarrow> ag_ends st = Some EndBlocked \<or> ag_ends st = Some EndCompleted
    | TurnCompletes \<Rightarrow> ag_ends st = Some EndCompleted \<or> ag_ends st = Some EndMaxTokens"
  using endings_reachable [OF assms(2,1)] assms(3) by (cases r) (simp_all add: endings_ok_def)

lemma turn_endings_witness: "ag_ends sample_stopped = Some EndCompleted \<or> ag_ends sample_stopped = Some EndMaxTokens"
proof -
  have "ag_place sample_stopped = DTurnEnd TurnCompletes" by code_simp
  from turn_endings [OF sample_settled sample_stopped_reached this] show ?thesis by simp
qed

text \<open>C3. A waking message is not lost behind an activity that cannot take it: when it was sent to an
  agent that is idle, in maintenance or aborted, the log holds a \<open>turn/start\<close> appended after it by
  the time the agent rests with no call left to run. This holds for runs in which, until then,
  messages stay pending, no clearing cancel takes effect, the agent is not disposed, and the driver
  that is about to open a turn is neither cancelled first nor refused the append (\<open>awaiting\<close>).\<close>

theorem wake_starts_turn:
  assumes "settled_session s" and "agent_reachable opts s st0"
    and "send m target True t st0 = (Inr (), st)" and "is_running (ag_phase st0) \<longrightarrow> abort_of (ag_phase st0) \<noteq> None"
    and "awaiting st st'" and "is_idle (ag_phase st')" and "ag_conts st' = []"
  shows "\<exists>es e n. ag_log st' = ag_log st @ es \<and> e \<in> set es \<and> ev_data e = TurnStart n"
proof -
  have r: "agent_reachable opts s st" using agent_next [OF assms(2) call_send, of m target True t] assms(3) by simp
  from awaiting_opens [OF assms(5) r assms(1) send_owes [OF assms(3,4)]] obtain es where
    es: "ag_log st' = ag_log st @ es" "opens es \<or> owed st' \<or> ag_place st' = DTurn" by blast
  have "good st'" using awaiting_reachable [OF assms(5) r] assms(1) by (rule reachable_good)
  then have "ag_place st' \<noteq> DTurn" "\<not> owed st'"
    using assms(6,7) good_running [of st'] by (cases "ag_phase st'"; auto simp: owed_def)+
  with es obtain e where "e \<in> set es" "case ev_data e of TurnStart n \<Rightarrow> True | _ \<Rightarrow> False" by (auto simp: opens_def)
  with es(1) show ?thesis by (cases "ev_data e") auto
qed

text \<open>A turn is aborted with its message kept, a second message is sent to it, the driver converges
  and opens the turn of both.\<close>

definition sample_aborted :: agent where
  "sample_aborted = snd (cancel CauseUser True sample_moment sample_moment (turn_begin sample_moment sample_waking))"

definition sample_late :: agent where
  "sample_late = snd (followup (sample_prompt ''b'') sample_moment sample_aborted)"

definition sample_ending :: agent where
  "sample_ending = end_turn (TurnThrew (FAborted CauseUser)) sample_moment (loop_begin sample_moment sample_moment (continue_call sample_late))"

definition sample_reopened :: agent where
  "sample_reopened = turn_begin sample_moment (continue_call (converge sample_ending))"

definition sample_quiet :: agent where
  "sample_quiet = continue_call (converge (end_turn (TurnThrew (FAborted CauseUser)) sample_moment
     (loop_begin sample_moment sample_moment (snd (cancel CauseUser True sample_moment sample_moment sample_reopened)))))"

lemma awaiting_undisturbed:
  "awaiting st st1 \<Longrightarrow> undisturbed st1 \<Longrightarrow> ag_place st1 \<noteq> DTurn \<or> ag_place st2 \<noteq> DConverge \<Longrightarrow> agent_step st1 st2 \<Longrightarrow> awaiting st st2"
  by (rule awaiting_next) auto

lemma awaiting_opened: "awaiting st st1 \<Longrightarrow> turn_opened st st1 \<Longrightarrow> agent_step st1 st2 \<Longrightarrow> awaiting st st2"
  by (rule awaiting_next) auto

lemma sample_reopened_awaiting: "awaiting sample_late sample_reopened"
  unfolding sample_reopened_def sample_ending_def
  by (rule awaiting_undisturbed [OF awaiting_undisturbed [OF awaiting_undisturbed [OF awaiting_undisturbed [OF awaiting_undisturbed
        [OF awaiting_undisturbed [OF awaiting_now _ _ call_continues] _ _ drv_loop] _ _ drv_turn_end] _ _ drv_converge]
        _ _ call_continues] _ _ drv_turn]; code_simp)

lemma sample_quiet_awaiting: "awaiting sample_late sample_quiet"
  unfolding sample_quiet_def
  by (rule awaiting_opened [OF awaiting_opened [OF awaiting_opened [OF awaiting_opened [OF awaiting_opened
        [OF sample_reopened_awaiting _ call_cancel] _ drv_loop] _ drv_turn_end] _ drv_converge] _ call_continues]; code_simp)

lemma wake_starts_turn_witness: "\<exists>es e n. ag_log sample_quiet = ag_log sample_late @ es \<and> e \<in> set es \<and> ev_data e = TurnStart n"
proof -
  have "fst (send (sample_prompt ''b'') NextTurn True sample_moment sample_aborted) = Inr ()" by code_simp
  then have s: "send (sample_prompt ''b'') NextTurn True sample_moment sample_aborted = (Inr (), sample_late)"
    by (simp add: sample_late_def followup_def prod_eq_iff)
  have a: "abort_of (ag_phase sample_aborted) \<noteq> None" "is_idle (ag_phase sample_quiet)" "ag_conts sample_quiet = []"
    by code_simp+
  have "sample_reachable sample_aborted"
    unfolding sample_aborted_def
    by (rule agent_next [OF agent_next [OF sample_waking_reached drv_turn] call_cancel]) code_simp
  from wake_starts_turn [OF sample_settled this s _ sample_quiet_awaiting a(2,3)] a(1) show ?thesis by blast
qed

end
