(* ===== verification/Tool_Pairing.thy ===== *)
theory Tool_Pairing
  imports Session_Log
begin

text \<open>
  The balance of tool calls and results over the session surface
  (\<open>src/packages/compaction/compaction/src/tool-pairing.ts\<close>): the cuts of the surface that no
  unanswered call crosses, and the cache that follows one surface generation. The lemmas show
  that the cached answers are those of the whole surface.
\<close>

section \<open>Balance\<close>

datatype pairing_error =
    SurfaceRead session_error
  | CorruptNode int
  | ResultWithoutOpenCall int
  | SeqNotFound int

fun tool_call_count :: "content_block list \<Rightarrow> int" where
  "tool_call_count [] = 0"
| "tool_call_count (b # bs) = (case b of ToolCallBlock i n a \<Rightarrow> 1 | _ \<Rightarrow> 0) + tool_call_count bs"

definition eventDelta :: "session_event \<Rightarrow> int" where
  "eventDelta e = (case ev_data e of
       AssistantMessage turn step m u \<Rightarrow> tool_call_count (am_content m)
     | ToolResult d \<Rightarrow> -1
     | _ \<Rightarrow> 0)"

definition eventForSeq :: "session_event list \<Rightarrow> int \<Rightarrow> (pairing_error, session_event) result" where
  "eventForSeq evs q = (case event_at evs q of
       None \<Rightarrow> Inl (CorruptNode q)
     | Some e \<Rightarrow> if ev_seq e \<noteq> q then Inl (CorruptNode q) else Inr e)"

text \<open>The loop over the unseen tail: the pending cuts and the calls in progress after it.\<close>

fun pending_cuts :: "session_event list \<Rightarrow> int list \<Rightarrow> int \<Rightarrow> (pairing_error, bool list \<times> int) result" where
  "pending_cuts evs [] n = Inr ([], n)"
| "pending_cuts evs (q # qs) n =
     rbind (eventForSeq evs q) (\<lambda>e.
       let n' = n + eventDelta e in
       if n' < 0 then Inl (ResultWithoutOpenCall q)
       else rbind (pending_cuts evs qs n') (\<lambda>(cuts, k). Inr ((n' = 0) # cuts, k)))"

record balance_cache =
  bc_generation :: nat
  bc_cuts :: "bool list"
  bc_index :: "(int, nat) js_map"
  bc_open :: int

fun index_seqs :: "int list \<Rightarrow> nat \<Rightarrow> (int, nat) js_map \<Rightarrow> (int, nat) js_map" where
  "index_seqs [] i m = m"
| "index_seqs (q # qs) i m = index_seqs qs (Suc i) (map_set q i m)"

definition extendCache :: "session_event list \<Rightarrow> balance_cache \<Rightarrow> int list \<Rightarrow> (pairing_error, balance_cache) result" where
  "extendCache evs c seqs =
     (let processed = length (bc_cuts c) - 1; tail = drop processed seqs in
      rbind (pending_cuts evs tail (bc_open c)) (\<lambda>(cuts, n).
        Inr (c\<lparr>bc_index := index_seqs tail processed (bc_index c), bc_cuts := bc_cuts c @ cuts, bc_open := n\<rparr>)))"

definition empty_balance :: "nat \<Rightarrow> balance_cache" where
  "empty_balance gen = \<lparr>bc_generation = gen, bc_cuts = [True], bc_index = [], bc_open = 0\<rparr>"

text \<open>The surface and its generation, as the session reports them.\<close>

definition read_surface :: "session \<Rightarrow> (session_error, int list \<times> nat) result \<times> session" where
  "read_surface s =
     (case manager_nodes (se_log s) (se_manager s) of
        ((Some x, m), _) \<Rightarrow> (Inl (BadSurface x), s\<lparr>se_manager := m\<rparr>)
      | ((None, m), nodes) \<Rightarrow>
          (case manager_generation (se_log s) m of
             ((Some x, m'), _) \<Rightarrow> (Inl (BadSurface x), s\<lparr>se_manager := m'\<rparr>)
           | ((None, m'), gen) \<Rightarrow> (Inr (nodes, gen), s\<lparr>se_manager := m'\<rparr>)))"

text \<open>\<open>balanceCache\<close>: a cache of another generation, or longer than the surface, is rebuilt.\<close>

definition synced_cache :: "session_event list \<Rightarrow> int list \<Rightarrow> nat \<Rightarrow> balance_cache option \<Rightarrow> (pairing_error, balance_cache) result" where
  "synced_cache evs seqs gen cached =
     (case cached of
        None \<Rightarrow> extendCache evs (empty_balance gen) seqs
      | Some c \<Rightarrow>
          if bc_generation c \<noteq> gen \<or> length seqs < length (bc_cuts c) - 1 then extendCache evs (empty_balance gen) seqs
          else if length (bc_cuts c) - 1 < length seqs then extendCache evs c seqs
          else Inr c)"

definition balanceCache ::
    "session \<Rightarrow> balance_cache option \<Rightarrow> (pairing_error, balance_cache) result \<times> session \<times> balance_cache option" where
  "balanceCache s cached =
     (case read_surface s of
        (Inl x, s') \<Rightarrow> (Inl (SurfaceRead x), s', cached)
      | (Inr (seqs, gen), s') \<Rightarrow>
          (case synced_cache (se_log s') seqs gen cached of
             Inl x \<Rightarrow> (Inl x, s', cached)
           | Inr c \<Rightarrow> (Inr c, s', Some c)))"

definition cutBalance :: "balance_cache \<Rightarrow> int \<Rightarrow> nat \<Rightarrow> (pairing_error, bool) result" where
  "cutBalance c q offset =
     (case map_get (bc_index c) q of
        None \<Rightarrow> Inl (SeqNotFound q)
      | Some i \<Rightarrow> if i + offset < length (bc_cuts c) then Inr (bc_cuts c ! (i + offset)) else Inl (SeqNotFound q))"

definition toolPairingBalanced ::
    "nat \<Rightarrow> session \<Rightarrow> balance_cache option \<Rightarrow> int \<Rightarrow> (pairing_error, bool) result \<times> session \<times> balance_cache option" where
  "toolPairingBalanced offset s cached q =
     (case balanceCache s cached of
        (Inl x, s', c') \<Rightarrow> (Inl x, s', c')
      | (Inr c, s', c') \<Rightarrow> (cutBalance c q offset, s', c'))"

definition toolPairingBalancedBefore ::
    "session \<Rightarrow> balance_cache option \<Rightarrow> int \<Rightarrow> (pairing_error, bool) result \<times> session \<times> balance_cache option" where
  "toolPairingBalancedBefore s cached q = toolPairingBalanced 0 s cached q"

definition toolPairingBalancedAfter ::
    "session \<Rightarrow> balance_cache option \<Rightarrow> int \<Rightarrow> (pairing_error, bool) result \<times> session \<times> balance_cache option" where
  "toolPairingBalancedAfter s cached q = toolPairingBalanced 1 s cached q"

section \<open>The reference\<close>

text \<open>The calls in progress after nodes of a log, and the answer read off the whole surface.\<close>

definition node_delta :: "session_event list \<Rightarrow> int \<Rightarrow> int" where
  "node_delta evs q = (case event_at evs q of None \<Rightarrow> 0 | Some e \<Rightarrow> eventDelta e)"

definition open_calls :: "session_event list \<Rightarrow> int list \<Rightarrow> int" where
  "open_calls evs nodes = sum_list (map (node_delta evs) nodes)"

definition paired :: "session_event list \<Rightarrow> int list \<Rightarrow> bool" where
  "paired evs nodes \<longleftrightarrow> (\<forall>k \<in> set [0..<Suc (length nodes)]. 0 \<le> open_calls evs (take k nodes))"

definition balanced_cut :: "session_event list \<Rightarrow> int list \<Rightarrow> nat \<Rightarrow> int \<Rightarrow> bool option" where
  "balanced_cut evs nodes offset q =
     (if \<not> paired evs nodes then None
      else map_option (\<lambda>i. open_calls evs (take (i + offset) nodes) = 0) (index_of q nodes))"

section \<open>The loop and the reference\<close>

lemma open_calls_simps [simp]:
  "open_calls evs [] = 0" "open_calls evs (q # qs) = node_delta evs q + open_calls evs qs"
  "open_calls evs (qs @ rs) = open_calls evs qs + open_calls evs rs"
  by (simp_all add: open_calls_def)

lemma paired_iff: "paired evs nodes \<longleftrightarrow> (\<forall>k < Suc (length nodes). 0 \<le> open_calls evs (take k nodes))"
  unfolding paired_def by (simp add: Ball_def del: upt_Suc)

text \<open>Nodes of a surface name events of the log by their sequence.\<close>

definition nodes_logged :: "session_event list \<Rightarrow> int list \<Rightarrow> bool" where
  "nodes_logged evs nodes \<longleftrightarrow> (\<forall>q \<in> set nodes. \<exists>e. event_at evs q = Some e \<and> ev_seq e = q)"

lemma eventForSeq_logged: "nodes_logged evs (q # qs) \<Longrightarrow> \<exists>e. eventForSeq evs q = Inr e \<and> eventDelta e = node_delta evs q"
  by (auto simp: nodes_logged_def eventForSeq_def node_delta_def)

text \<open>The loop from \<open>n\<close> calls in progress: it accepts exactly what never goes below zero.\<close>

fun climbs :: "session_event list \<Rightarrow> int \<Rightarrow> int list \<Rightarrow> bool" where
  "climbs evs n [] = True"
| "climbs evs n (q # qs) = (0 \<le> n + node_delta evs q \<and> climbs evs (n + node_delta evs q) qs)"

lemma climbs_iff: "0 \<le> n \<Longrightarrow> climbs evs n qs \<longleftrightarrow> (\<forall>k < Suc (length qs). 0 \<le> n + open_calls evs (take k qs))"
proof (induction qs arbitrary: n)
  case Nil
  then show ?case by simp
next
  case (Cons q qs)
  have "(\<forall>k < Suc (length (q # qs)). 0 \<le> n + open_calls evs (take k (q # qs))) \<longleftrightarrow>
      (\<forall>k < Suc (length qs). 0 \<le> n + node_delta evs q + open_calls evs (take k qs))"
    using Cons.prems unfolding length_Cons by (subst All_less_Suc2) (simp add: add.assoc)
  moreover have "0 \<le> n + node_delta evs q" if "\<forall>k < Suc (length qs). 0 \<le> n + node_delta evs q + open_calls evs (take k qs)"
    using spec [OF that, of 0] by simp
  ultimately show ?case using Cons.IH [of "n + node_delta evs q"] by auto
qed

lemma paired_climbs: "paired evs nodes \<longleftrightarrow> climbs evs 0 nodes"
  by (simp add: paired_iff climbs_iff)

lemma climbs_append: "climbs evs n (qs @ rs) \<longleftrightarrow> climbs evs n qs \<and> climbs evs (n + open_calls evs qs) rs"
  by (induction qs arbitrary: n) (auto simp: add.assoc)

definition cut_flags :: "session_event list \<Rightarrow> int \<Rightarrow> int list \<Rightarrow> bool list" where
  "cut_flags evs n qs = map (\<lambda>k. n + open_calls evs (take (Suc k) qs) = 0) [0..<length qs]"

lemma cut_flags_simps [simp]:
  "cut_flags evs n [] = []"
  "cut_flags evs n (q # qs) = (n + node_delta evs q = 0) # cut_flags evs (n + node_delta evs q) qs"
  by (simp_all add: cut_flags_def upt_conv_Cons map_Suc_upt [symmetric] o_def add.assoc del: upt_Suc)

lemma length_cut_flags [simp]: "length (cut_flags evs n qs) = length qs"
  by (simp add: cut_flags_def)

lemma pending_cuts_ok:
  "nodes_logged evs qs \<Longrightarrow> climbs evs n qs \<Longrightarrow> pending_cuts evs qs n = Inr (cut_flags evs n qs, n + open_calls evs qs)"
proof (induction qs arbitrary: n)
  case (Cons q qs)
  obtain e where "eventForSeq evs q = Inr e" "eventDelta e = node_delta evs q"
    using eventForSeq_logged [OF Cons.prems(1)] by blast
  moreover have "nodes_logged evs qs" using Cons.prems(1) by (simp add: nodes_logged_def)
  ultimately show ?case using Cons by (simp add: Let_def add.assoc)
qed simp

lemma pending_cuts_fails:
  "nodes_logged evs qs \<Longrightarrow> \<not> climbs evs n qs \<Longrightarrow> \<exists>q \<in> set qs. pending_cuts evs qs n = Inl (ResultWithoutOpenCall q)"
proof (induction qs arbitrary: n)
  case (Cons q qs)
  obtain e where e: "eventForSeq evs q = Inr e" "eventDelta e = node_delta evs q"
    using eventForSeq_logged [OF Cons.prems(1)] by blast
  have "nodes_logged evs qs" using Cons.prems(1) by (simp add: nodes_logged_def)
  then have "\<exists>r \<in> set qs. pending_cuts evs qs (n + node_delta evs q) = Inl (ResultWithoutOpenCall r)"
    if "0 \<le> n + node_delta evs q" using Cons.IH [of "n + node_delta evs q"] Cons.prems(2) that by simp
  with e show ?case by (cases "n + node_delta evs q < 0") (auto simp: Let_def)
qed simp

section \<open>The cache\<close>

lemma index_seqs_get:
  "distinct qs \<Longrightarrow> set qs \<inter> set (map fst m) = {} \<Longrightarrow>
     map_get (index_seqs qs i m) q = (case index_of q qs of Some k \<Rightarrow> Some (i + k) | None \<Rightarrow> map_get m q)"
proof (induction qs arbitrary: i m)
  case Nil
  then show ?case by simp
next
  case (Cons r qs)
  have "set qs \<inter> set (map fst (map_set r i m)) = {}" unfolding set_map_set using Cons.prems by auto
  with Cons.IH [of "map_set r i m" "Suc i"] Cons.prems
  have ih: "map_get (index_seqs (r # qs) i m) q =
      (case index_of q qs of Some k \<Rightarrow> Some (Suc i + k) | None \<Rightarrow> map_get (map_set r i m) q)" by simp
  show ?case
  proof (cases "q = r")
    case True
    then have "index_of q qs = None" using Cons.prems(1) by (simp add: index_of_None)
    with ih True show ?thesis by (simp add: map_get_set)
  next
    case False
    with ih show ?thesis by (cases "index_of q qs") (simp_all add: map_get_set)
  qed
qed

text \<open>A cache in order describes the nodes of one of its generation's surfaces.\<close>

definition describes :: "session_event list \<Rightarrow> int list \<Rightarrow> balance_cache \<Rightarrow> bool" where
  "describes evs nodes c \<longleftrightarrow>
     climbs evs 0 nodes \<and> bc_cuts c = True # cut_flags evs 0 nodes \<and> bc_open c = open_calls evs nodes \<and>
     (\<forall>q. map_get (bc_index c) q = index_of q nodes)"

lemma index_of_append: "index_of q (xs @ ys) = (case index_of q xs of Some i \<Rightarrow> Some i | None \<Rightarrow> map_option (\<lambda>k. length xs + k) (index_of q ys))"
proof (induction xs)
  case Nil
  show ?case by (cases "index_of q ys") simp_all
next
  case (Cons x xs)
  then show ?case by (cases "index_of q xs"; cases "index_of q ys") simp_all
qed

lemma cut_flags_append: "cut_flags evs n (qs @ rs) = cut_flags evs n qs @ cut_flags evs (n + open_calls evs qs) rs"
  by (induction qs arbitrary: n) (auto simp: add.assoc)

lemma describes_empty: "describes evs [] (empty_balance gen)"
  by (simp add: describes_def empty_balance_def map_get_Nil)

lemma extend_describes:
  assumes d: "describes evs nodes c" and l: "nodes_logged evs (nodes @ tail)" and dist: "distinct (nodes @ tail)"
  shows "(climbs evs 0 (nodes @ tail) \<longrightarrow>
      (\<exists>c'. extendCache evs c (nodes @ tail) = Inr c' \<and> describes evs (nodes @ tail) c' \<and> bc_generation c' = bc_generation c))
    \<and> (\<not> climbs evs 0 (nodes @ tail) \<longrightarrow> (\<exists>q \<in> set tail. extendCache evs c (nodes @ tail) = Inl (ResultWithoutOpenCall q)))"
proof -
  have len: "length (bc_cuts c) - 1 = length nodes" and open_eq: "bc_open c = open_calls evs nodes"
    using d by (simp_all add: describes_def)
  have lt: "nodes_logged evs tail" using l by (simp add: nodes_logged_def)
  have keys: "q \<in> set (map fst (bc_index c)) \<longleftrightarrow> q \<in> set nodes" for q
  proof -
    have "map_get (bc_index c) q = index_of q nodes" using d by (simp add: describes_def)
    then have "(map_get (bc_index c) q = None) = (index_of q nodes = None)" by simp
    then show ?thesis unfolding map_get_None index_of_None by blast
  qed
  have got: "map_get (bc_index c) q = index_of q nodes" for q using d by (simp add: describes_def)
  have "set tail \<inter> set (map fst (bc_index c)) = {}" using dist keys by auto
  moreover have "distinct tail" using dist by simp
  ultimately have get: "map_get (index_seqs tail (length nodes) (bc_index c)) q =
      (case index_of q tail of Some k \<Rightarrow> Some (length nodes + k) | None \<Rightarrow> index_of q nodes)" for q
    using index_seqs_get [of tail "bc_index c" "length nodes" q] by (simp only: got)
  have idx: "map_get (index_seqs tail (length nodes) (bc_index c)) q = index_of q (nodes @ tail)" for q
  proof (cases "q \<in> set nodes")
    case True
    then have "index_of q tail = None" using dist by (auto simp: index_of_None)
    moreover obtain i where "index_of q nodes = Some i" using True index_of_None [of q nodes] by (cases "index_of q nodes") auto
    ultimately show ?thesis by (simp add: get index_of_append)
  next
    case False
    then have "index_of q nodes = None" by (simp add: index_of_None)
    with get show ?thesis by (cases "index_of q tail") (simp_all add: index_of_append)
  qed
  have cl: "climbs evs 0 (nodes @ tail) \<longleftrightarrow> climbs evs (open_calls evs nodes) tail"
    using d by (simp add: climbs_append describes_def)
  show ?thesis
  proof (cases "climbs evs (open_calls evs nodes) tail")
    case True
    with d idx cl len open_eq pending_cuts_ok [OF lt True] show ?thesis
      by (simp add: extendCache_def Let_def describes_def cut_flags_append)
  next
    case False
    with cl len open_eq pending_cuts_fails [OF lt False] show ?thesis
      by (auto simp: extendCache_def Let_def)
  qed
qed

text \<open>Along the log: appends leave what is known of earlier nodes.\<close>

lemma surface_nodes_facts:
  assumes "foldSurface evs = Inr (nodes, reps)"
  shows "distinct nodes" "nodes_logged evs nodes" "\<forall>q \<in> set nodes. 0 \<le> q \<and> q < int (length evs)"
proof -
  obtain st where inv: "surface_inv (evs, st, reps)" and n: "nodes = ss_nodes st"
    using foldSurface_Inr [OF assms] by blast
  show d: "distinct nodes" using surface_inv_distinct [OF inv] n by simp
  show b: "\<forall>q \<in> set nodes. 0 \<le> q \<and> q < int (length evs)" using surface_inv_bounds [OF inv] n by simp
  have "ev_seq (evs ! nat q) = q" if "q \<in> set nodes" for q
  proof -
    have "nat q < length evs" using b that by auto
    moreover have "map ev_seq evs = map int [0..<length evs]" using inv by (simp add: surface_inv_def)
    ultimately have "ev_seq (evs ! nat q) = int (nat q)"
      by (metis length_map nth_map nth_upt add.left_neutral)
    then show ?thesis using b that by simp
  qed
  then show "nodes_logged evs nodes" using b by (auto simp: nodes_logged_def event_at_def)
qed

lemma climbs_cong: "\<forall>q \<in> set qs. node_delta evs q = node_delta evs' q \<Longrightarrow> climbs evs n qs = climbs evs' n qs"
  by (induction qs arbitrary: n) auto

lemma flags_cong: "\<forall>q \<in> set qs. node_delta evs q = node_delta evs' q \<Longrightarrow> cut_flags evs n qs = cut_flags evs' n qs"
  by (induction qs arbitrary: n) auto

lemma open_cong: "\<forall>q \<in> set qs. node_delta evs q = node_delta evs' q \<Longrightarrow> open_calls evs qs = open_calls evs' qs"
  by (induction qs) auto

lemma node_delta_append: "0 \<le> q \<Longrightarrow> q < int (length evs) \<Longrightarrow> node_delta (evs @ fs) q = node_delta evs q"
  by (simp add: node_delta_def event_at_append)

definition cache_ok :: "session_event list \<Rightarrow> balance_cache option \<Rightarrow> bool" where
  "cache_ok evs cached \<longleftrightarrow>
     (case cached of None \<Rightarrow> True
      | Some c \<Rightarrow> \<exists>k nodes reps. k \<le> length evs \<and> foldSurface (take k evs) = Inr (nodes, reps) \<and>
          bc_generation c = length reps \<and> describes evs nodes c)"

lemma cache_ok_grow:
  assumes "cache_ok evs cached"
  shows "cache_ok (evs @ fs) cached"
proof (cases cached)
  case None
  then show ?thesis by (simp add: cache_ok_def)
next
  case (Some c)
  with assms obtain k nodes reps where k: "k \<le> length evs" "foldSurface (take k evs) = Inr (nodes, reps)"
    "bc_generation c = length reps" "describes evs nodes c" by (auto simp: cache_ok_def)
  have "node_delta (evs @ fs) q = node_delta evs q" if "q \<in> set nodes" for q
    using surface_nodes_facts(3) [OF k(2)] that k(1) by (intro node_delta_append) auto
  then have "describes (evs @ fs) nodes c"
    using k(4) climbs_cong [of nodes "evs @ fs" evs] flags_cong [of nodes "evs @ fs" evs] open_cong [of nodes "evs @ fs" evs]
    by (simp add: describes_def)
  with Some k show ?thesis
    by (auto simp: cache_ok_def intro!: exI [of _ k])
qed

lemma synced_describes:
  assumes f: "foldSurface evs = Inr (nodes, reps)" and c: "cache_ok evs cached"
  shows "(paired evs nodes \<longrightarrow> (\<exists>b. synced_cache evs nodes (length reps) cached = Inr b \<and> describes evs nodes b \<and> bc_generation b = length reps))
    \<and> (\<not> paired evs nodes \<longrightarrow> (\<exists>q. synced_cache evs nodes (length reps) cached = Inl (ResultWithoutOpenCall q)))"
proof -
  note facts = surface_nodes_facts [OF f]
  have fresh: "(paired evs nodes \<longrightarrow> (\<exists>b. extendCache evs (empty_balance (length reps)) nodes = Inr b \<and> describes evs nodes b \<and> bc_generation b = length reps))
    \<and> (\<not> paired evs nodes \<longrightarrow> (\<exists>q. extendCache evs (empty_balance (length reps)) nodes = Inl (ResultWithoutOpenCall q)))"
    using extend_describes [OF describes_empty, of evs nodes "length reps"] facts(1,2)
    by (auto simp: paired_climbs empty_balance_def)
  show ?thesis
  proof (cases cached)
    case None
    with fresh show ?thesis by (simp add: synced_cache_def)
  next
    case (Some b)
    show ?thesis
    proof (cases "bc_generation b = length reps")
      case False
      with Some fresh show ?thesis by (simp add: synced_cache_def)
    next
      case True
      from c Some obtain k nodes0 reps0 where k: "k \<le> length evs" "foldSurface (take k evs) = Inr (nodes0, reps0)"
        "bc_generation b = length reps0" "describes evs nodes0 b" by (auto simp: cache_ok_def)
      with True derive_extends [OF k(1,2) f] obtain ns where ns: "nodes = nodes0 @ ns" by auto
      have len: "length (bc_cuts b) - 1 = length nodes0" using k(4) by (simp add: describes_def)
      show ?thesis
      proof (cases "ns = []")
        case empty: True
        moreover from this have "paired evs nodes" using k(4) ns by (simp add: describes_def paired_climbs)
        ultimately show ?thesis using Some True k ns len by (simp add: synced_cache_def)
      next
        case False
        with Some True len ns have "synced_cache evs nodes (length reps) cached = extendCache evs b (nodes0 @ ns)"
          by (simp add: synced_cache_def)
        with extend_describes [OF k(4), of ns] facts ns True show ?thesis
          by (auto simp: paired_climbs)
      qed
    qed
  qed
qed

lemma read_surface_ok:
  assumes ok: "session_ok s" and f: "foldSurface (se_log s) = Inr (nodes, reps)"
  shows "\<exists>s'. read_surface s = (Inr (nodes, length reps), s') \<and> session_ok s' \<and> se_log s' = se_log s \<and> se_header s' = se_header s"
proof -
  have m: "manager_ok (se_log s) (se_manager s)" using ok by (simp add: session_ok_def)
  obtain m1 where m1: "manager_nodes (se_log s) (se_manager s) = ((None, m1), nodes)" "manager_ok (se_log s) m1"
    using manager_reads [OF m f] by blast
  obtain m2 where m2: "manager_generation (se_log s) m1 = ((None, m2), length reps)" "manager_ok (se_log s) m2"
    using manager_reads [OF m1(2) f] by blast
  from m1 m2 session_ok_manager [OF ok m2(2)] show ?thesis by (simp add: read_surface_def)
qed

definition answer_of :: "('e, 'a) result \<Rightarrow> 'a option" where
  "answer_of r = (case r of Inl x \<Rightarrow> None | Inr a \<Rightarrow> Some a)"

lemma described_cut:
  assumes d: "describes evs nodes c" and o': "offset \<le> 1"
  shows "answer_of (cutBalance c q offset) = balanced_cut evs nodes offset q"
proof (cases "index_of q nodes")
  case None
  with d show ?thesis by (simp add: cutBalance_def balanced_cut_def answer_of_def describes_def)
next
  case (Some i)
  have i: "i < length nodes" using index_of_Some [OF Some] by simp
  have "bc_cuts c ! (i + offset) = (open_calls evs (take (i + offset) nodes) = 0)"
    using d o' i by (cases "i + offset") (auto simp: describes_def cut_flags_def)
  moreover have "i + offset < length (bc_cuts c)" using d i o' by (simp add: describes_def)
  ultimately show ?thesis using Some d
    by (simp add: cutBalance_def balanced_cut_def answer_of_def describes_def paired_climbs)
qed

lemma balanced_ok:
  assumes ok: "session_ok s" and c: "cache_ok (se_log s) cached" and f: "foldSurface (se_log s) = Inr (nodes, reps)"
    and o': "offset \<le> 1" and r: "toolPairingBalanced offset s cached q = (r, s', cached')"
  shows "session_ok s' \<and> se_log s' = se_log s \<and> se_header s' = se_header s \<and> cache_ok (se_log s') cached' \<and>
    answer_of r = balanced_cut (se_log s) nodes offset q"
proof -
  obtain s1 where s1: "read_surface s = (Inr (nodes, length reps), s1)" "session_ok s1" "se_log s1 = se_log s" "se_header s1 = se_header s"
    using read_surface_ok [OF ok f] by blast
  note sync = synced_describes [OF f c]
  show ?thesis
  proof (cases "paired (se_log s) nodes")
    case True
    with sync obtain b where b: "synced_cache (se_log s) nodes (length reps) cached = Inr b" "describes (se_log s) nodes b"
      "bc_generation b = length reps" by blast
    have "cache_ok (se_log s) (Some b)"
      using b f by (auto simp: cache_ok_def intro!: exI [of _ "length (se_log s)"])
    with s1 b r described_cut [OF b(2) o'] show ?thesis
      by (auto simp: toolPairingBalanced_def balanceCache_def)
  next
    case False
    with sync obtain x where "synced_cache (se_log s) nodes (length reps) cached = Inl (ResultWithoutOpenCall x)" by blast
    with s1 r c False show ?thesis
      by (auto simp: toolPairingBalanced_def balanceCache_def balanced_cut_def answer_of_def)
  qed
qed

section \<open>Properties\<close>

text \<open>Calls of a session and of the balance in any order; the balance keeps one cache per session.\<close>

datatype pairing_call = AskBalance bool int | OtherCall session_call

fun pairing_do :: "session \<times> balance_cache option \<Rightarrow> pairing_call \<Rightarrow> session \<times> balance_cache option" where
  "pairing_do (s, c) (AskBalance after q) =
     snd (if after then toolPairingBalancedAfter s c q else toolPairingBalancedBefore s c q)"
| "pairing_do (s, c) (OtherCall k) = (call_session s k, c)"

lemma pairing_do_ok:
  assumes "session_ok s" "cache_ok (se_log s) c" "pairing_do (s, c) k = (s', c')"
  shows "session_ok s' \<and> cache_ok (se_log s') c'"
proof (cases k)
  case (AskBalance after q)
  obtain nodes reps where f: "foldSurface (se_log s) = Inr (nodes, reps)"
    using assms(1) is_ok_foldE by (auto simp: session_ok_def)
  from AskBalance assms(3) have "snd (toolPairingBalanced (if after then 1 else 0) s c q) = (s', c')"
    by (cases after) (simp_all add: toolPairingBalancedAfter_def toolPairingBalancedBefore_def)
  then obtain r where "toolPairingBalanced (if after then 1 else 0) s c q = (r, s', c')" by (metis prod.collapse)
  moreover have "(if after then 1 else 0) \<le> (1::nat)" by simp
  ultimately show ?thesis using balanced_ok [OF assms(1,2) f] by blast
next
  case (OtherCall d)
  with call_session_ok [OF assms(1), of d] assms(2,3) cache_ok_grow show ?thesis by auto
qed

lemma pairing_run_ok:
  "session_ok s \<Longrightarrow> cache_ok (se_log s) c \<Longrightarrow> foldl pairing_do (s, c) ks = (s', c') \<Longrightarrow> session_ok s' \<and> cache_ok (se_log s') c'"
proof (induction ks arbitrary: s c)
  case Nil
  then show ?case by simp
next
  case (Cons k ks)
  obtain s1 c1 where "pairing_do (s, c) k = (s1, c1)" by fastforce
  moreover from pairing_do_ok [OF Cons.prems(1,2) this] have "session_ok s1" "cache_ok (se_log s1) c1" by simp_all
  ultimately show ?case using Cons.IH [of s1 c1] Cons.prems(3) by simp
qed

text \<open>C13. The cached balance is exact: after any calls on a session and on the balance, the cut
  before or after a node of the surface is reported balanced exactly when the calls of the nodes up
  to it are answered, and refused exactly when the node is not on the surface or some result of the
  surface has no open call before it.\<close>

theorem cached_balance_is_exact:
  assumes "construct h seed now = Inr s0" and "foldl pairing_do (s0, None) ks = (s, c)"
    and "foldSurface (se_log s) = Inr (nodes, reps)"
  shows "answer_of (fst (toolPairingBalancedBefore s c q)) = balanced_cut (se_log s) nodes 0 q
    \<and> answer_of (fst (toolPairingBalancedAfter s c q)) = balanced_cut (se_log s) nodes 1 q"
proof -
  have "session_ok s \<and> cache_ok (se_log s) c"
    using pairing_run_ok [OF constructed_ok [OF assms(1)] _ assms(2)] by (simp add: cache_ok_def)
  then have ok: "session_ok s" "cache_ok (se_log s) c" by simp_all
  obtain r1 s1 c1 where "toolPairingBalanced 0 s c q = (r1, s1, c1)" by (metis prod.collapse)
  moreover obtain r2 s2 c2 where "toolPairingBalanced 1 s c q = (r2, s2, c2)" by (metis prod.collapse)
  ultimately show ?thesis
    using balanced_ok [OF ok assms(3), of 0] balanced_ok [OF ok assms(3), of 1]
    by (simp add: toolPairingBalancedBefore_def toolPairingBalancedAfter_def)
qed

definition call_message :: assistant_message where
  "call_message = \<lparr>am_id = ''r'', am_provider = ''p'', am_model = ''m'', am_replay = None,
     am_content = [ToolCallBlock ''c'' ''read'' ''{}'']\<rparr>"

definition call_result :: tool_result_data where
  "call_result = \<lparr>tr_turn = 1, tr_step = 1,
     tr_message = \<lparr>tm_id = ''t'', tm_source_call = ''c'', tm_call = ''c'', tm_is_error = None, tm_content = [TextBlock ''ok'']\<rparr>,
     tr_error = None, tr_meta = None\<rparr>"

definition plain_append :: surface_intent where
  "plain_append = \<lparr>si_op = Some append_op, si_sources = None\<rparr>"

definition paired_run :: "session \<times> balance_cache option" where
  "paired_run = foldl pairing_do (empty_session sample_header, None)
     [OtherCall (CallAppend 1 (UserMessage \<lparr>um_id = ''u'', um_source = SrcUser, um_content = []\<rparr>) plain_append Detached),
      AskBalance True 0,
      OtherCall (CallAppend 2 (AssistantMessage 1 1 call_message None) plain_append Detached),
      AskBalance True 1,
      OtherCall (CallAppend 3 (ToolResult call_result) plain_append Detached)]"

lemma paired_run_surface: "foldSurface (se_log (fst paired_run)) = Inr ([0, 1, 2], [])"
  by code_simp

lemma cached_balance_is_exact_witness:
  "answer_of (fst (toolPairingBalancedAfter (fst paired_run) (snd paired_run) 1)) = Some False
   \<and> answer_of (fst (toolPairingBalancedAfter (fst paired_run) (snd paired_run) 2)) = Some True"
proof -
  have c: "construct sample_header None 0 = Inr (empty_session sample_header)" by (simp add: construct_def)
  obtain s b where r: "paired_run = (s, b)" by fastforce
  have cut: "balanced_cut (se_log (fst paired_run)) [0, 1, 2] 1 1 = Some False"
    "balanced_cut (se_log (fst paired_run)) [0, 1, 2] 1 2 = Some True" by code_simp+
  from cached_balance_is_exact [OF c r [unfolded paired_run_def] paired_run_surface [unfolded r fst_conv]] cut
  show ?thesis by (simp add: r)
qed

end
