(* ===== verification/Compaction_Region.thy ===== *)
theory Compaction_Region
  imports Tool_Pairing
begin

text \<open>
  Compaction of a span of the session surface
  (\<open>src/packages/compaction/compaction-basic/src/region.ts\<close>): the selection of a range that splits
  no tool call from its result, and the transaction that records its opening marker, waits for a
  summary, and replaces the span by it if the span still stands. The token meter and the summarizer
  answer from outside: their answers are arguments. The summarizer may fail; the meter is taken to
  answer every reading.
\<close>

section \<open>Data\<close>

datatype manual_code = MBusy | MCancelled | MChanged | MSummary | MCommit | MPersistence

datatype compaction_error =
    PairingError pairing_error
  | SurfaceError session_error
  | MeterMismatch
  | StartMissing int
  | EndMissing int
  | StartAfter int int
  | StartUnbalanced int
  | EndUnbalanced int
  | NoOpenTurn
  | Manual manual_code
  | SurfaceChanged
  | NotSmaller int int
  | AppendFailed session_error
  | SummaryFailed string
  | Cancelled

record priced_node =
  pn_seq :: int
  pn_tokens :: int

type_synonym host = "session \<times> balance_cache option"

definition balanced_before :: "int \<Rightarrow> host \<Rightarrow> (pairing_error, bool) result \<times> host" where
  "balanced_before q h = toolPairingBalancedBefore (fst h) (snd h) q"

definition balanced_after :: "int \<Rightarrow> host \<Rightarrow> (pairing_error, bool) result \<times> host" where
  "balanced_after q h = toolPairingBalancedAfter (fst h) (snd h) q"

definition host_surface :: "host \<Rightarrow> (session_error, int list) result \<times> host" where
  "host_surface h = (case read_surface (fst h) of
      (Inl x, s) \<Rightarrow> (Inl x, (s, snd h)) | (Inr (nodes, gen), s) \<Rightarrow> (Inr nodes, (s, snd h)))"

abbreviation host_log :: "host \<Rightarrow> session_event list" where
  "host_log h \<equiv> se_log (fst h)"

section \<open>Selecting a range\<close>

text \<open>The retained tail: the tokens of the nodes from the last one back, and the index before them.\<close>

fun keep_from :: "int list \<Rightarrow> nat \<Rightarrow> int \<Rightarrow> int \<Rightarrow> nat" where
  "keep_from [] index acc retain = index"
| "keep_from (t # ts) index acc retain =
     (if retain \<le> acc + t then index - 1 else keep_from ts (index - 1) (acc + t) retain)"

fun back_to_cut :: "nat \<Rightarrow> int list \<Rightarrow> host \<Rightarrow> (pairing_error, nat) result \<times> host" where
  "back_to_cut 0 nodes h = (Inr 0, h)"
| "back_to_cut (Suc k) nodes h =
     (case balanced_before (nodes ! Suc k) h of
        (Inl x, h') \<Rightarrow> (Inl x, h')
      | (Inr b, h') \<Rightarrow> if b then (Inr (Suc k), h') else back_to_cut k nodes h')"

definition selectCompactableRange ::
    "priced_node list \<Rightarrow> int \<Rightarrow> host \<Rightarrow> (compaction_error, (int \<times> int) option) result \<times> host" where
  "selectCompactableRange priced retain h =
     (if priced = [] then (Inr None, h)
      else case host_surface h of
        (Inl x, h1) \<Rightarrow> (Inl (SurfaceError x), h1)
      | (Inr nodes, h1) \<Rightarrow>
          if nodes \<noteq> map pn_seq priced then (Inl MeterMismatch, h1)
          else
            let keep = keep_from (rev (map pn_tokens priced)) (length priced) 0 retain in
            if keep = 0 then (Inr None, h1)
            else case back_to_cut keep nodes h1 of
                   (Inl x, h2) \<Rightarrow> (Inl (PairingError x), h2)
                 | (Inr k, h2) \<Rightarrow> if k = 0 then (Inr None, h2) else (Inr (Some (nodes ! 0, nodes ! (k - 1))), h2))"

section \<open>Validating a span\<close>

record selection =
  sl_start :: int
  sl_end :: int
  sl_start_idx :: nat
  sl_end_idx :: nat
  sl_seqs :: "int list"

definition validateSurfaceRegion :: "int \<Rightarrow> int \<Rightarrow> host \<Rightarrow> (compaction_error, selection) result \<times> host" where
  "validateSurfaceRegion start fin h =
     (case host_surface h of
        (Inl x, h1) \<Rightarrow> (Inl (SurfaceError x), h1)
      | (Inr nodes, h1) \<Rightarrow>
          (case index_of start nodes of
             None \<Rightarrow> (Inl (StartMissing start), h1)
           | Some i \<Rightarrow>
               (case index_of fin nodes of
                  None \<Rightarrow> (Inl (EndMissing fin), h1)
                | Some j \<Rightarrow>
                    if j < i then (Inl (StartAfter start fin), h1)
                    else case balanced_before (nodes ! i) h1 of
                      (Inl x, h2) \<Rightarrow> (Inl (PairingError x), h2)
                    | (Inr b, h2) \<Rightarrow>
                        if \<not> b then (Inl (StartUnbalanced start), h2)
                        else case balanced_after (nodes ! j) h2 of
                          (Inl x, h3) \<Rightarrow> (Inl (PairingError x), h3)
                        | (Inr b', h3) \<Rightarrow>
                            if \<not> b' then (Inl (EndUnbalanced fin), h3)
                            else (Inr \<lparr>sl_start = start, sl_end = fin, sl_start_idx = i, sl_end_idx = j,
                                       sl_seqs = slice i (j + 1) nodes\<rparr>, h3))))"

section \<open>The durable lock\<close>

text \<open>What the scan of the log from its end finds: open turn, unmatched opening marker, seed boundary.\<close>

record entry_state =
  en_turn :: "int option"
  en_turn_known :: bool
  en_start :: "int option"
  en_start_known :: bool
  en_seed :: "int option"

definition entry_start :: entry_state where
  "entry_start = \<lparr>en_turn = None, en_turn_known = False, en_start = None, en_start_known = False, en_seed = None\<rparr>"

definition inspect_event :: "session_event \<Rightarrow> entry_state \<Rightarrow> entry_state" where
  "inspect_event e st =
     (let s1 = (if en_seed st = None \<and> ev_data e = EndSeed then st\<lparr>en_seed := Some (ev_seq e)\<rparr> else st);
          s2 = (if en_start_known s1 then s1
                else case ev_data e of
                       CompactionStart i c n \<Rightarrow> s1\<lparr>en_start := Some (ev_seq e), en_start_known := True\<rparr>
                     | CompactionEnd i c n x \<Rightarrow> s1\<lparr>en_start_known := True\<rparr>
                     | _ \<Rightarrow> s1)
      in if en_turn_known s2 then s2
         else case ev_data e of
                TurnStart t \<Rightarrow> s2\<lparr>en_turn := Some t, en_turn_known := True\<rparr>
              | TurnEnd t r \<Rightarrow> s2\<lparr>en_turn_known := True\<rparr>
              | _ \<Rightarrow> s2)"

fun inspect_loop :: "session_event list \<Rightarrow> entry_state \<Rightarrow> entry_state" where
  "inspect_loop [] st = st"
| "inspect_loop (e # es) st =
     (let st' = inspect_event e st in
      if en_turn_known st' \<and> en_start_known st' \<and> en_seed st' \<noteq> None then st' else inspect_loop es st')"

definition inspectCompactionEntryState :: "session_event list \<Rightarrow> entry_state" where
  "inspectCompactionEntryState evs = inspect_loop (rev evs) entry_start"

definition assertCompactionInactive :: "entry_state \<Rightarrow> bool" where
  "assertCompactionInactive st \<longleftrightarrow>
     (case en_start st of None \<Rightarrow> True
      | Some q \<Rightarrow> (case en_seed st of None \<Rightarrow> False | Some z \<Rightarrow> q < z))"

definition assertNoActiveCompaction :: "session_event list \<Rightarrow> bool" where
  "assertNoActiveCompaction evs \<longleftrightarrow> assertCompactionInactive (inspectCompactionEntryState evs)"

section \<open>The transaction\<close>

text \<open>\<open>cp_standalone\<close>: the owner is \<open>null\<close>, a manual compaction between turns; \<open>cp_whole\<close>: the whole surface
  must be unchanged; \<open>cp_flush\<close>: there is a durability checkpoint; \<open>cp_command\<close>: the command
  a manual compaction was started by.\<close>

record compaction_options =
  cp_standalone :: bool
  cp_whole :: bool
  cp_flush :: bool
  cp_command :: "string option"

record summarization_input =
  in_system :: "string option"
  in_tools :: "json list option"
  in_messages :: "message list"

definition buildSummarizationInput :: "int list \<Rightarrow> host \<Rightarrow> summarization_input \<times> host" where
  "buildSummarizationInput seqs h =
     (case requestHeader (fst h) of
        (hdr, s) \<Rightarrow> (\<lparr>in_system = Option.bind hdr eh_system, in_tools = Option.bind hdr eh_tools,
                     in_messages = project_nodes (se_log s) seqs\<rparr>, (s, snd h)))"

record prepared_compaction =
  pr_selection :: selection
  pr_nodes :: "priced_node list"
  pr_selected :: "priced_node list"
  pr_tokens :: int
  pr_id :: string
  pr_owner :: "int option"
  pr_start_seq :: int
  pr_options :: compaction_options
  pr_input :: summarization_input

record compaction_result =
  cr_id :: string
  cr_command :: "string option"
  cr_start_seq :: int
  cr_summary_seq :: int
  cr_end_seq :: int
  cr_start :: int
  cr_end :: int
  cr_seqs :: "int list"
  cr_tokens :: int

type_synonym clock = "int \<times> attachment"

definition host_append ::
    "event_data \<Rightarrow> surface_intent \<Rightarrow> clock \<Rightarrow> host \<Rightarrow> (compaction_error, int) result \<times> host" where
  "host_append d intent t h =
     (case append_event (fst h) (fst t) d intent (snd t) of
        (Inl x, s) \<Rightarrow> (Inl (AppendFailed x), (s, snd h))
      | (Inr e, s) \<Rightarrow> (Inr (ev_seq e), (s, snd h)))"

text \<open>Closing a failed attempt: one marker with the error, or the failure to append it.\<close>

definition close_failed ::
    "string \<Rightarrow> string option \<Rightarrow> int option \<Rightarrow> string \<Rightarrow> clock \<Rightarrow> host \<Rightarrow> (compaction_error option \<times> bool) \<times> host" where
  "close_failed i command owner text t h =
     (case host_append (CompactionEnd i command owner (Some text)) no_intent t h of
        (Inl x, h1) \<Rightarrow> ((Some x, False), h1)
      | (Inr q, h1) \<Rightarrow> ((None, True), h1))"

text \<open>The stage a failure belongs to, and its classification for a manual caller.\<close>

datatype tx_stage = StageSummary | StageCommit

definition manual_failure :: "tx_stage \<Rightarrow> compaction_error \<Rightarrow> compaction_error" where
  "manual_failure stage x =
     (if stage = StageCommit then Manual MCommit
      else if x = SurfaceChanged then Manual MChanged else Manual MSummary)"

text \<open>
  \<open>compactSurfaceRegion\<close> up to its await: \<open>Inl\<close> with no marker appended, or the opened transaction.
  Its preparation may already have failed.
\<close>

definition open_compaction ::
    "compaction_options \<Rightarrow> bool \<Rightarrow> int \<Rightarrow> int \<Rightarrow> string \<Rightarrow> clock \<Rightarrow> host \<Rightarrow>
       (compaction_error, selection \<times> int option \<times> int) result \<times> host" where
  "open_compaction opts aborted start fin i t h =
     (if cp_standalone opts \<and> aborted then (Inl Cancelled, h)
      else case validateSurfaceRegion start fin h of
        (Inl x, h1) \<Rightarrow> (Inl x, h1)
      | (Inr sel, h1) \<Rightarrow>
          let st = inspectCompactionEntryState (host_log h1) in
          if \<not> assertCompactionInactive st then (Inl (Manual MBusy), h1)
          else if cp_standalone opts \<and> en_turn st \<noteq> None then (Inl (Manual MBusy), h1)
          else if \<not> cp_standalone opts \<and> en_turn st = None then (Inl NoOpenTurn, h1)
          else
            let owner = (if cp_standalone opts then None else en_turn st) in
            case host_append (CompactionStart i (cp_command opts) owner) no_intent t h1 of
              (Inl x, h2) \<Rightarrow> (Inl x, h2)
            | (Inr q, h2) \<Rightarrow> (Inr (sel, owner, q), h2))"

definition prepareCompaction ::
    "compaction_options \<Rightarrow> string \<Rightarrow> selection \<Rightarrow> int option \<Rightarrow> int \<Rightarrow> priced_node list \<Rightarrow> host \<Rightarrow>
       (compaction_error, prepared_compaction) result \<times> host" where
  "prepareCompaction opts i sel owner q measured h =
     (let selected = slice (sl_start_idx sel) (sl_end_idx sel + 1) measured in
      if map pn_seq selected \<noteq> sl_seqs sel then (Inl SurfaceChanged, h)
      else case buildSummarizationInput (sl_seqs sel) h of
        (input, h1) \<Rightarrow>
          (Inr \<lparr>pr_selection = sel, pr_nodes = measured, pr_selected = selected,
                pr_tokens = sum_list (map pn_tokens selected), pr_id = i, pr_owner = owner, pr_start_seq = q,
                pr_options = opts, pr_input = input\<rparr>, h1))"

text \<open>The checkpoint that replaces the span.\<close>

definition CHECKPOINT_PREAMBLE :: string where
  "CHECKPOINT_PREAMBLE = ''This is an automatically generated checkpoint condensing an earlier span of the conversation to free up context. Treat the captured context as established background and build on it without restating it. Continue the task directly from the messages that follow, without acknowledging this checkpoint.''"

definition frameSummary :: "content_block list \<Rightarrow> content_block list" where
  "frameSummary summary =
     [TextBlock (CHECKPOINT_PREAMBLE @ [CHR 0x0A, CHR 0x0A] @ ''<compacted-summary>'')] @ summary
       @ [TextBlock ''</compacted-summary>'']"

definition compactCheckpointSource :: "string \<Rightarrow> string option \<Rightarrow> message_source" where
  "compactCheckpointSource i command = SrcPlugin ''compact''
     (JObj ((''compactionId'', JStr i) # opt_field ''sourceCommandId'' (map_option JStr command)))"

definition isCompactCheckpointSource :: "message_source \<Rightarrow> bool" where
  "isCompactCheckpointSource s = (case s of SrcPlugin name j \<Rightarrow> name = ''compact'' | _ \<Rightarrow> False)"

definition checkpoint_message :: "string \<Rightarrow> prepared_compaction \<Rightarrow> content_block list \<Rightarrow> user_message" where
  "checkpoint_message newId p summary =
     \<lparr>um_id = newId, um_source = compactCheckpointSource (pr_id p) (cp_command (pr_options p)),
      um_content = frameSummary summary\<rparr>"

definition assertStable :: "priced_node list \<Rightarrow> prepared_compaction \<Rightarrow> host \<Rightarrow> (compaction_error, unit) result \<times> host" where
  "assertStable measured p h =
     (if cp_whole (pr_options p) then (if measured = pr_nodes p then (Inr (), h) else (Inl SurfaceChanged, h))
      else case validateSurfaceRegion (sl_start (pr_selection p)) (sl_end (pr_selection p)) h of
             (Inl x, h1) \<Rightarrow> (Inl SurfaceChanged, h1)
           | (Inr cur, h1) \<Rightarrow>
               if sl_seqs cur \<noteq> sl_seqs (pr_selection p) then (Inl SurfaceChanged, h1)
               else if slice (sl_start_idx cur) (sl_end_idx cur + 1) measured \<noteq> pr_selected p then (Inl SurfaceChanged, h1)
               else (Inr (), h1))"

record summary_answer =
  sa_blocks :: "content_block list"
  sa_facts :: json

definition commitCompactionBody ::
    "prepared_compaction \<Rightarrow> summary_answer \<Rightarrow> user_message \<Rightarrow> clock \<Rightarrow> clock \<Rightarrow> host \<Rightarrow> (compaction_error, int) result \<times> host" where
  "commitCompactionBody p a m t u h =
     (let sel = pr_selection p;
          price = \<lparr>sp_start = sl_start sel, sp_end = sl_end sel, sp_seqs = sl_seqs sel, sp_tokens = pr_tokens p\<rparr>
      in case host_append (CompactionSummary (pr_id p) (cp_command (pr_options p)) (sa_facts a) price) no_intent t h of
           (Inl x, h1) \<Rightarrow> (Inl x, h1)
         | (Inr q, h1) \<Rightarrow>
             (case host_append (UserMessage m)
                     \<lparr>si_op = Some (replace_op (sl_start sel) (sl_end sel)),
                      si_sources = Some (seqs_json (pr_start_seq p # q # sl_seqs sel))\<rparr> u h1 of
                (Inl x, h2) \<Rightarrow> (Inl x, h2)
              | (Inr q', h2) \<Rightarrow> (Inr q, h2)))"

text \<open>
  \<open>compactSurfaceRegion\<close> from the answer of the summarizer: the failure and its stage with whether the
  closing marker was attempted, or the seq of the summary and of the closing marker.
\<close>

definition tx_body ::
    "prepared_compaction \<Rightarrow> string + summary_answer \<Rightarrow> int \<Rightarrow> bool \<Rightarrow> priced_node list \<Rightarrow> string \<Rightarrow> clock \<Rightarrow> clock \<Rightarrow> clock \<Rightarrow> host \<Rightarrow>
       (compaction_error \<times> tx_stage \<times> bool, int \<times> int) result \<times> host" where
  "tx_body p answer estimate aborted measured newId t u v h =
     (case answer of
        Inl text \<Rightarrow> (Inl (SummaryFailed text, StageSummary, False), h)
      | Inr a \<Rightarrow>
          if pr_tokens p \<le> estimate then (Inl (NotSmaller estimate (pr_tokens p), StageSummary, False), h)
          else if cp_standalone (pr_options p) \<and> aborted then (Inl (Cancelled, StageSummary, False), h)
          else case assertStable measured p h of
            (Inl x, h1) \<Rightarrow> (Inl (x, StageSummary, False), h1)
          | (Inr _, h1) \<Rightarrow>
              (case commitCompactionBody p a (checkpoint_message newId p (sa_blocks a)) t u h1 of
                 (Inl x, h2) \<Rightarrow> (Inl (x, StageCommit, False), h2)
               | (Inr q, h2) \<Rightarrow>
                   (case host_append (CompactionEnd (pr_id p) (cp_command (pr_options p)) (pr_owner p) None) no_intent v h2 of
                      (Inl x, h3) \<Rightarrow> (Inl (x, StageCommit, True), h3)
                    | (Inr z, h3) \<Rightarrow> (Inr (q, z), h3))))"

definition result_of :: "prepared_compaction \<Rightarrow> int \<Rightarrow> int \<Rightarrow> compaction_result" where
  "result_of p q z = \<lparr>cr_id = pr_id p, cr_command = cp_command (pr_options p), cr_start_seq = pr_start_seq p, cr_summary_seq = q, cr_end_seq = z,
     cr_start = sl_start (pr_selection p), cr_end = sl_end (pr_selection p), cr_seqs = sl_seqs (pr_selection p),
     cr_tokens = pr_tokens p\<rparr>"

text \<open>
  The catch and what follows: the closing attempt of a failed body, the durability checkpoint of a
  closed bracket (\<open>flushed\<close>: whether it succeeds), and the error the caller sees.
\<close>

definition tx_catch ::
    "string \<Rightarrow> int option \<Rightarrow> compaction_options \<Rightarrow> (compaction_error \<times> tx_stage \<times> bool, compaction_result) result \<Rightarrow>
       (compaction_error \<Rightarrow> string) \<Rightarrow> bool \<Rightarrow> bool \<Rightarrow> clock \<Rightarrow> host \<Rightarrow> (compaction_error, compaction_result) result \<times> host" where
  "tx_catch i owner opts outcome text aborted flushed t h =
     (let (failure, closed, h1) =
            (case outcome of
               Inr r \<Rightarrow> (None, True, h)
             | Inl (x, stage, closing) \<Rightarrow>
                 if closing then (Some (x, StageCommit), False, h)
                 else (case close_failed i (cp_command opts) owner (text x) t h of
                         ((Some y, c), h') \<Rightarrow> (Some (y, StageCommit), c, h')
                       | ((None, c), h') \<Rightarrow> (Some (x, stage), c, h')))
      in if cp_standalone opts \<and> aborted then (Inl Cancelled, h1)
         else case failure of
           Some (x, stage) \<Rightarrow> (Inl (if cp_standalone opts then manual_failure stage x else x), h1)
         | None \<Rightarrow>
             if closed \<and> cp_flush opts \<and> \<not> flushed then (Inl (Manual MPersistence), h1)
             else (case outcome of Inr r \<Rightarrow> (Inr r, h1) | Inl (x, stage, closing) \<Rightarrow> (Inl x, h1)))"

definition start_compaction ::
    "compaction_options \<Rightarrow> bool \<Rightarrow> int \<Rightarrow> int \<Rightarrow> string \<Rightarrow> priced_node list \<Rightarrow> (compaction_error \<Rightarrow> string) \<Rightarrow> bool \<Rightarrow> bool \<Rightarrow>
       clock \<Rightarrow> clock \<Rightarrow> host \<Rightarrow> (compaction_error, prepared_compaction) result \<times> host" where
  "start_compaction opts aborted start fin i measured text aborted' flushed t u h =
     (case open_compaction opts aborted start fin i t h of
        (Inl x, h1) \<Rightarrow> (Inl x, h1)
      | (Inr (sel, owner, q), h1) \<Rightarrow>
          (case prepareCompaction opts i sel owner q measured h1 of
             (Inr p, h2) \<Rightarrow> (Inr p, h2)
           | (Inl x, h2) \<Rightarrow>
               (case tx_catch i owner opts (Inl (x, StageSummary, False)) text aborted' flushed u h2 of
                  (Inl y, h3) \<Rightarrow> (Inl y, h3) | (Inr r, h3) \<Rightarrow> (Inl x, h3))))"

definition finish_compaction ::
    "prepared_compaction \<Rightarrow> string + summary_answer \<Rightarrow> int \<Rightarrow> bool \<Rightarrow> priced_node list \<Rightarrow> string \<Rightarrow> (compaction_error \<Rightarrow> string) \<Rightarrow> bool \<Rightarrow> bool \<Rightarrow>
       clock \<Rightarrow> clock \<Rightarrow> clock \<Rightarrow> clock \<Rightarrow> host \<Rightarrow> (compaction_error, compaction_result) result \<times> host" where
  "finish_compaction p answer estimate aborted measured newId text aborted' flushed t u v w h =
     (case tx_body p answer estimate aborted measured newId t u v h of
        (outcome, h1) \<Rightarrow>
          tx_catch (pr_id p) (pr_owner p) (pr_options p)
            (case outcome of Inl f \<Rightarrow> Inl f | Inr (q, z) \<Rightarrow> Inr (result_of p q z)) text aborted' flushed w h1)"

section \<open>Hosts\<close>

definition surface_nodes :: "session_event list \<Rightarrow> int list" where
  "surface_nodes evs = (case foldSurface evs of Inl x \<Rightarrow> [] | Inr (nodes, reps) \<Rightarrow> nodes)"

definition host_ok :: "host \<Rightarrow> bool" where
  "host_ok h \<longleftrightarrow> session_ok (fst h) \<and> cache_ok (host_log h) (snd h)"

lemma host_fold: "host_ok h \<Longrightarrow> \<exists>reps. foldSurface (host_log h) = Inr (surface_nodes (host_log h), reps)"
  using is_ok_foldE by (fastforce simp: host_ok_def session_ok_def surface_nodes_def)

lemma host_surface_ok:
  assumes "host_ok h"
  shows "\<exists>h'. host_surface h = (Inr (surface_nodes (host_log h)), h') \<and> host_ok h' \<and> host_log h' = host_log h"
proof -
  obtain reps where f: "foldSurface (host_log h) = Inr (surface_nodes (host_log h), reps)" using host_fold [OF assms] ..
  with read_surface_ok [of "fst h"] assms obtain s' where
    "read_surface (fst h) = (Inr (surface_nodes (host_log h), length reps), s')" "session_ok s'" "se_log s' = host_log h"
    by (auto simp: host_ok_def)
  with assms show ?thesis by (simp add: host_surface_def host_ok_def)
qed

lemma host_balanced:
  assumes h: "host_ok h" and r: "toolPairingBalanced offset (fst h) (snd h) q = (r, h')" and o': "offset \<le> 1"
  shows "host_ok h' \<and> host_log h' = host_log h \<and> answer_of r = balanced_cut (host_log h) (surface_nodes (host_log h)) offset q"
proof -
  obtain reps where f: "foldSurface (host_log h) = Inr (surface_nodes (host_log h), reps)" using host_fold [OF h] ..
  obtain s' c' where h': "h' = (s', c')" by fastforce
  have "session_ok (fst h)" "cache_ok (host_log h) (snd h)" using h by (simp_all add: host_ok_def)
  from balanced_ok [OF this f o' r [unfolded h']] show ?thesis by (auto simp: host_ok_def h')
qed

lemma host_before:
  assumes "host_ok h" "balanced_before q h = (r, h')"
  shows "host_ok h' \<and> host_log h' = host_log h \<and> answer_of r = balanced_cut (host_log h) (surface_nodes (host_log h)) 0 q"
  using host_balanced [OF assms(1), of 0 q r h'] assms(2) by (simp add: balanced_before_def toolPairingBalancedBefore_def)

lemma host_after:
  assumes "host_ok h" "balanced_after q h = (r, h')"
  shows "host_ok h' \<and> host_log h' = host_log h \<and> answer_of r = balanced_cut (host_log h) (surface_nodes (host_log h)) 1 q"
  using host_balanced [OF assms(1), of 1 q r h'] assms(2) by (simp add: balanced_after_def toolPairingBalancedAfter_def)

lemma answer_Inr: "answer_of r = Some b \<longleftrightarrow> r = Inr b"
  by (cases r) (simp_all add: answer_of_def)

text \<open>A span whose two cuts no call crosses.\<close>

definition span_ok :: "session_event list \<Rightarrow> selection \<Rightarrow> bool" where
  "span_ok evs sel \<longleftrightarrow>
     (let nodes = surface_nodes evs in
      index_of (sl_start sel) nodes = Some (sl_start_idx sel) \<and> index_of (sl_end sel) nodes = Some (sl_end_idx sel) \<and>
      sl_start_idx sel \<le> sl_end_idx sel \<and> sl_seqs sel = slice (sl_start_idx sel) (sl_end_idx sel + 1) nodes \<and>
      paired evs nodes \<and> open_calls evs (take (sl_start_idx sel) nodes) = 0 \<and>
      open_calls evs (take (sl_end_idx sel + 1) nodes) = 0)"

lemma distinct_nodes: "host_ok h \<Longrightarrow> distinct (surface_nodes (host_log h))"
  using host_fold surface_nodes_facts(1) by blast

lemma cut_at:
  "distinct nodes \<Longrightarrow> i < length nodes \<Longrightarrow>
     balanced_cut evs nodes offset (nodes ! i) = (if paired evs nodes then Some (open_calls evs (take (i + offset) nodes) = 0) else None)"
  by (simp add: balanced_cut_def index_of_nth)

lemma validate_ok:
  assumes h: "host_ok h" and v: "validateSurfaceRegion start fin h = (r, h')"
  shows "host_ok h' \<and> host_log h' = host_log h \<and>
    (\<forall>sel. r = Inr sel \<longrightarrow> span_ok (host_log h) sel \<and> sl_start sel = start \<and> sl_end sel = fin)"
proof -
  let ?nodes = "surface_nodes (host_log h)"
  obtain h1 where h1: "host_surface h = (Inr ?nodes, h1)" "host_ok h1" "host_log h1 = host_log h"
    using host_surface_ok [OF h] by blast
  show ?thesis
  proof (cases "\<exists>i j. index_of start ?nodes = Some i \<and> index_of fin ?nodes = Some j \<and> i \<le> j")
    case False
    with v h1 show ?thesis by (auto simp: validateSurfaceRegion_def split: option.splits if_splits)
  next
    case True
    then obtain i j where ij: "index_of start ?nodes = Some i" "index_of fin ?nodes = Some j" "i \<le> j" by blast
    then have j: "j < length ?nodes" "i < length ?nodes" using index_of_Some by fastforce+
    obtain b h2 where b: "balanced_before (?nodes ! i) h1 = (b, h2)" by (rule prod.exhaust)
    with host_before [OF h1(2) b] h1(3) have h2: "host_ok h2" "host_log h2 = host_log h"
      "answer_of b = balanced_cut (host_log h) ?nodes 0 (?nodes ! i)" by simp_all
    obtain a h3 where a: "balanced_after (?nodes ! j) h2 = (a, h3)" by (rule prod.exhaust)
    with host_after [OF h2(1) a] h2(2) have h3: "host_ok h3" "host_log h3 = host_log h"
      "answer_of a = balanced_cut (host_log h) ?nodes 1 (?nodes ! j)" by simp_all
    note cuts = cut_at [OF distinct_nodes [OF h] j(2), of "host_log h" 0] cut_at [OF distinct_nodes [OF h] j(1), of "host_log h" 1]
    have span: "span_ok (host_log h) \<lparr>sl_start = start, sl_end = fin, sl_start_idx = i, sl_end_idx = j, sl_seqs = slice i (j + 1) ?nodes\<rparr>"
      if "b = Inr True" "a = Inr True"
      using that ij cuts h2(3) h3(3) by (auto simp: span_ok_def Let_def answer_of_def split: if_splits)
    show ?thesis
      using v h1 h2(1,2) h3(1,2) ij b a span
      by (auto simp: validateSurfaceRegion_def split: sum.splits if_splits)
  qed
qed

section \<open>Appending\<close>

text \<open>What an accepted event does to the surface: nothing without an operation, a splice for a replacement.\<close>

lemma fold_step:
  assumes ok: "is_ok (foldSurface (es @ [e]))" and f: "foldSurface es = Inr (nodes, reps)"
  obtains st plan where "ss_nodes st = nodes" "planSurfaceEvent st e (int (length es)) es 0 = Inr plan"
    "surface_nodes (es @ [e]) = ss_nodes (fst (applySurfacePlan st plan))"
proof -
  obtain st where r: "replay surface_step surface_start es = Inr (es, st, reps)" and n: "nodes = ss_nodes st"
    using foldSurface_Inr [OF f] by blast
  from ok replay_plan [OF r, of e] obtain plan where p: "planSurfaceEvent st e (int (length es)) es 0 = Inr plan"
    by (auto simp: foldSurface_replay is_ok_iff split: sum.splits)
  obtain st' r' where a: "applySurfacePlan st plan = (st', r')" by (rule prod.exhaust)
  have "surface_nodes (es @ [e]) = ss_nodes st'"
    using replay_plan [OF r, of e] p a by (simp add: surface_nodes_def foldSurface_replay)
  with n p a that [of st plan] show thesis by simp
qed

lemma quiet_nodes:
  assumes ok: "is_ok (foldSurface (es @ [e]))" and op: "ev_surface_op e = None"
  shows "surface_nodes (es @ [e]) = surface_nodes es"
proof -
  obtain nodes reps where f: "foldSurface es = Inr (nodes, reps)"
    using foldSurface_prefix [OF ok] is_ok_foldE by blast
  from fold_step [OF ok f] obtain st plan where "ss_nodes st = nodes"
    "planSurfaceEvent st e (int (length es)) es 0 = Inr plan"
    "surface_nodes (es @ [e]) = ss_nodes (fst (applySurfacePlan st plan))" by blast
  with op f show ?thesis
    by (auto simp: planSurfaceEvent_def surfaceOpOf_def surface_nodes_def rbind_Inr_iff split: if_splits)
qed

lemma replace_nodes:
  assumes ok: "is_ok (foldSurface (es @ [e]))" and op: "ev_surface_op e = Some (replace_op s t)"
  shows "\<exists>i j. index_of s (surface_nodes es) = Some i \<and> index_of t (surface_nodes es) = Some j \<and> i \<le> j \<and>
     surface_nodes (es @ [e]) = splice i (j - i + 1) [int (length es)] (surface_nodes es)"
proof -
  obtain nodes reps where f: "foldSurface es = Inr (nodes, reps)"
    using foldSurface_prefix [OF ok] is_ok_foldE by blast
  from fold_step [OF ok f] obtain st plan where st: "ss_nodes st = nodes"
    and p: "planSurfaceEvent st e (int (length es)) es 0 = Inr plan"
    and n: "surface_nodes (es @ [e]) = ss_nodes (fst (applySurfacePlan st plan))" by blast
  from p obtain op' where o': "surfaceOpOf e = Inr op'" and seq: "ev_seq e = int (length es)"
    by (auto simp: planSurfaceEvent_def rbind_Inr_iff split: if_splits)
  have "op' = Some (OpReplace s t)"
    using o' op by (auto simp: surfaceOpOf_def replace_op_def append_op_def replace_op_of_def has_own_def jget_def
        event_seq_of_def as_safe_def split: if_splits option.splits)
  with p o' seq obtain i j sh where r: "replacementRange st s t = Inr (i, j, sh)"
    and plan: "plan = Some (PlanReplace \<lparr>rp_seq = ev_seq e, rp_start = s, rp_end = t, rp_shadowed = sh\<rparr> i j)"
    by (auto simp: planSurfaceEvent_def rbind_Inr_iff)
  have "index_of s nodes = Some i \<and> index_of t nodes = Some j \<and> i \<le> j"
    using r st by (auto simp: replacementRange_def split: option.splits if_splits)
  with n plan seq st f show ?thesis by (auto simp: surface_nodes_def)
qed

lemma host_append_ok:
  assumes h: "host_ok h" and a: "host_append d intent t h = (r, h')"
  shows "host_ok h' \<and> (case r of Inl x \<Rightarrow> host_log h' = host_log h
     | Inr q \<Rightarrow> q = int (length (host_log h)) \<and> host_log h' = host_log h @ [new_event (fst h) (fst t) d intent])"
proof -
  obtain r' s' where r': "append_event (fst h) (fst t) d intent (snd t) = (r', s')" by (rule prod.exhaust)
  have ok: "session_ok (fst h)" "cache_ok (host_log h) (snd h)" using h by (simp_all add: host_ok_def)
  note ae = append_event_ok [OF ok(1) r']
  have new: "e = new_event (fst h) (fst t) d intent" if "r' = Inr e" for e
    using r' that by (auto simp: append_event_def Let_def split: if_splits attachment.splits prod.splits option.splits)
  show ?thesis
  proof (cases r')
    case (Inl x)
    with a r' ae ok(2) show ?thesis by (auto simp: host_append_def host_ok_def)
  next
    case (Inr e)
    with a r' ae cache_ok_grow [OF ok(2), of "[e]"] new [OF Inr] show ?thesis
      by (auto simp: host_append_def host_ok_def)
  qed
qed

lemma host_append_quiet:
  assumes h: "host_ok h" and a: "host_append d no_intent t h = (r, h')"
  shows "surface_nodes (host_log h') = surface_nodes (host_log h)"
proof (cases r)
  case (Inl x)
  with host_append_ok [OF h a] show ?thesis by simp
next
  case (Inr q)
  with host_append_ok [OF h a] have ok: "host_ok h'"
    and l: "host_log h' = host_log h @ [new_event (fst h) (fst t) d no_intent]" by simp_all
  have "is_ok (foldSurface (host_log h'))" using ok by (simp add: host_ok_def session_ok_def)
  with l quiet_nodes show ?thesis by (simp add: new_event_def no_intent_def)
qed

text \<open>An attachment that vetoes nothing: the markers of a transaction are then always accepted.\<close>

definition permits :: "attachment \<Rightarrow> bool" where
  "permits at' \<longleftrightarrow> (case at' of Detached \<Rightarrow> True | Attached appending veto \<Rightarrow> \<not> appending \<and> \<not> veto)"

definition markers :: "string list" where
  "markers = [''compaction/start'', ''compaction/end'', ''compaction/summary'', ''compaction/prune'']"

lemma host_append_accepts:
  assumes h: "host_ok h" and p: "permits (snd t)" and f: "is_ok (foldSurface (host_log h @ [new_event (fst h) (fst t) d intent]))"
    and d: "assertSupportedRequestHeader d"
  shows "\<exists>h'. host_append d intent t h = (Inr (int (length (host_log h))), h')"
proof -
  obtain nodes reps where "foldSurface (host_log h) = Inr (nodes, reps)" using host_fold [OF h] by blast
  moreover have "manager_ok (host_log h) (se_manager (fst h))" using h by (simp add: host_ok_def session_ok_def)
  ultimately obtain m' where "validateNext (host_log h) (se_manager (fst h)) (new_event (fst h) (fst t) d intent) = (None, m')"
    using manager_validates [of "host_log h" "se_manager (fst h)" nodes reps "new_event (fst h) (fst t) d intent"] f
    by (auto simp: is_ok_iff)
  with p d show ?thesis
    by (cases "snd t") (simp_all add: host_append_def append_event_def permits_def new_event_def Let_def)
qed

lemma quiet_fold_ok:
  assumes f: "foldSurface es = Inr (nodes, reps)" and q: "ev_seq e = int (length es)"
    and e: "\<not> isSurfaceEligibleType (ev_type e)" "ev_surface_op e = None" "ev_sources e = None"
  shows "is_ok (foldSurface (es @ [e]))"
proof -
  obtain st where r: "replay surface_step surface_start es = Inr (es, st, reps)"
    using foldSurface_Inr [OF f] by blast
  have "planSurfaceEvent st e (int (length es)) es 0 = Inr None"
    using q e by (simp add: planSurfaceEvent_def surfaceOpOf_def)
  with replay_plan [OF r, of e] show ?thesis by (simp add: foldSurface_replay)
qed

lemma marker_accepted:
  assumes h: "host_ok h" and p: "permits (snd t)" and d: "event_type_of d \<in> set markers"
  shows "\<exists>h'. host_append d no_intent t h = (Inr (int (length (host_log h))), h')"
proof (rule host_append_accepts [OF h p])
  obtain reps where f: "foldSurface (host_log h) = Inr (surface_nodes (host_log h), reps)" using host_fold [OF h] ..
  show "is_ok (foldSurface (host_log h @ [new_event (fst h) (fst t) d no_intent]))"
    using d by (intro quiet_fold_ok [OF f])
      (auto simp: new_event_def no_intent_def ev_type_def markers_def isSurfaceEligibleType_def SURFACE_EVENT_TYPES_def)
  show "assertSupportedRequestHeader d" using d by (auto simp: assertSupportedRequestHeader_def markers_def)
qed

text \<open>A replacement that names a span of the surface and cites it, with other earlier events, is accepted.\<close>

lemma source_seqs_json: "list_all (\<lambda>q. 0 \<le> q \<and> safe_int q) qs \<Longrightarrow> source_seqs (map JInt qs) = Some qs"
  by (induction qs) (simp_all add: event_seq_of_def as_safe_def)

lemma replace_op_read: "0 \<le> s \<Longrightarrow> safe_int s \<Longrightarrow> 0 \<le> t \<Longrightarrow> safe_int t \<Longrightarrow>
    replace_op_of [(''op'', JStr ''replace''), (''start'', JInt s), (''end'', JInt t)] = Some (s, t)"
  by (simp add: replace_op_of_def has_own_def jget_def event_seq_of_def as_safe_def)

lemma replace_fold_ok:
  assumes f: "foldSurface es = Inr (nodes, reps)" and seq: "ev_seq e = int (length es)" and el: "isSurfaceEligibleType (ev_type e)"
    and op: "ev_surface_op e = Some (replace_op s t)" and src: "ev_sources e = Some (seqs_json qs)"
    and i: "index_of s nodes = Some i" and j: "index_of t nodes = Some j" and ij: "i \<le> j"
    and sub: "set (slice i (j + 1) nodes) \<subseteq> set qs" and dist: "distinct qs" and b: "list_all (\<lambda>q. 0 \<le> q \<and> q < int (length es)) qs"
    and safe: "safe_int (int (length es))" and rewrite: "assertToolResultRewrite e (slice i (j + 1) nodes) es 0 = Inr ()"
  shows "is_ok (foldSurface (es @ [e]))"
proof -
  obtain st where r: "replay surface_step surface_start es = Inr (es, st, reps)" and n: "nodes = ss_nodes st"
    using foldSurface_Inr [OF f] by blast
  have node: "0 \<le> q \<and> safe_int q" if "q \<in> set nodes" for q
    using foldSurface_bounds [OF f] that by (fastforce intro: safe_int_mono [OF safe])
  have "s \<in> set nodes" "t \<in> set nodes" using index_of_Some [OF i] index_of_Some [OF j] by auto
  then have o': "surfaceOpOf e = Inr (Some (OpReplace s t))"
    using op el node by (simp add: surfaceOpOf_def replace_op_def append_op_def replace_op_read)
  have range: "replacementRange st s t = Inr (i, j, slice i (j + 1) nodes)"
    using i j ij n by (simp add: replacementRange_def)
  have "list_all (\<lambda>q. 0 \<le> q \<and> safe_int q) qs"
    using b by (fastforce simp: list_all_iff intro: safe_int_mono [OF safe])
  note src' = source_seqs_json [OF this]
  have "slice i (j + 1) nodes \<noteq> []" using index_of_Some [OF i] ij by (simp add: slice_def)
  then have ne: "qs \<noteq> []" using sub by auto
  have "find (\<lambda>q. ev_seq e \<le> q) qs = None" using b seq by (auto simp: find_None_iff list_all_iff)
  moreover have "filter (\<lambda>q. q \<notin> set qs) (slice i (j + 1) nodes) = []" using sub by (auto simp: filter_empty_conv)
  ultimately have prov: "assertProvenance e (slice i (j + 1) nodes) = Inr ()"
    using src src' ne dist by (simp add: assertProvenance_def seqs_json_def Let_def)
  have "is_ok (planSurfaceEvent st e (int (length es)) es 0)"
    using seq o' range prov rewrite by (simp add: planSurfaceEvent_def)
  with replay_plan [OF r, of e] show ?thesis by (auto simp: foldSurface_replay is_ok_iff split: prod.splits)
qed

section \<open>The scan and the log\<close>

text \<open>Whether a compaction is in progress and which turn is open, read forward along the log.\<close>

definition lock_step :: "session_event \<Rightarrow> bool \<Rightarrow> bool" where
  "lock_step e held = (case ev_data e of
       CompactionStart i c n \<Rightarrow> True | CompactionEnd i c n x \<Rightarrow> False | EndSeed \<Rightarrow> False | _ \<Rightarrow> held)"

definition turn_step :: "session_event \<Rightarrow> int option \<Rightarrow> int option" where
  "turn_step e turn = (case ev_data e of TurnStart t \<Rightarrow> Some t | TurnEnd t r \<Rightarrow> None | _ \<Rightarrow> turn)"

definition lock_held :: "session_event list \<Rightarrow> bool" where
  "lock_held evs = fold lock_step evs False"

definition open_turn :: "session_event list \<Rightarrow> int option" where
  "open_turn evs = fold turn_step evs None"

lemma inspect_event_known:
  "en_turn_known st \<Longrightarrow> en_start_known st \<Longrightarrow> en_seed st \<noteq> None \<Longrightarrow> inspect_event e st = st"
  by (simp add: inspect_event_def Let_def)

lemma inspect_fold_known:
  "en_turn_known st \<Longrightarrow> en_start_known st \<Longrightarrow> en_seed st \<noteq> None \<Longrightarrow> fold inspect_event es st = st"
  by (induction es) (simp_all add: inspect_event_known)

text \<open>The early exit is only a saving.\<close>

lemma inspect_loop_fold: "inspect_loop es st = fold inspect_event es st"
  by (induction es arbitrary: st) (simp_all add: Let_def inspect_fold_known)

lemma inspect_Cons: "inspectCompactionEntryState (e # es) = inspect_event e (inspectCompactionEntryState es)"
  by (simp add: inspectCompactionEntryState_def inspect_loop_fold)

lemma inspect_Nil: "inspectCompactionEntryState [] = entry_start"
  by (simp add: inspectCompactionEntryState_def)

lemma inspect_turn:
  "fold turn_step es b = (let st = inspectCompactionEntryState es in if en_turn_known st then en_turn st else b) \<and>
   (\<not> en_turn_known (inspectCompactionEntryState es) \<longrightarrow> en_turn (inspectCompactionEntryState es) = None)"
proof (induction es arbitrary: b)
  case Nil
  then show ?case by (simp add: inspect_Nil entry_start_def)
next
  case (Cons e es)
  from Cons [of "turn_step e b"] show ?case
    by (cases "ev_data e") (simp_all add: inspect_Cons inspect_event_def Let_def turn_step_def)
qed

definition marks_of :: "entry_state \<Rightarrow> bool \<Rightarrow> bool" where
  "marks_of st b =
     (if en_start_known st
      then (case en_start st of None \<Rightarrow> False | Some q \<Rightarrow> (case en_seed st of None \<Rightarrow> True | Some z \<Rightarrow> z \<le> q))
      else b \<and> en_seed st = None)"

definition marks_after :: "int \<Rightarrow> entry_state \<Rightarrow> bool" where
  "marks_after n st \<longleftrightarrow>
     (case en_start st of None \<Rightarrow> True | Some q \<Rightarrow> en_start_known st \<and> n < q) \<and> (case en_seed st of None \<Rightarrow> True | Some z \<Rightarrow> n < z)"

lemma inspect_event_fields:
  "en_seed (inspect_event e st) = (if en_seed st = None \<and> ev_data e = EndSeed then Some (ev_seq e) else en_seed st)"
  "en_start (inspect_event e st) =
     (case ev_data e of CompactionStart i c n \<Rightarrow> if en_start_known st then en_start st else Some (ev_seq e) | _ \<Rightarrow> en_start st)"
  "en_start_known (inspect_event e st) =
     (en_start_known st \<or> (case ev_data e of CompactionStart i c n \<Rightarrow> True | CompactionEnd i c n x \<Rightarrow> True | _ \<Rightarrow> False))"
  by (cases "ev_data e"; simp add: inspect_event_def Let_def)+

lemma marks_after_mono: "marks_after m st \<Longrightarrow> n \<le> m \<Longrightarrow> marks_after n st"
  by (auto simp: marks_after_def split: option.splits)

lemma inspect_event_marks:
  assumes a: "marks_after (ev_seq e) st" and n: "n < ev_seq e"
  shows "marks_of (inspect_event e st) b = marks_of st (lock_step e b) \<and> marks_after n (inspect_event e st)"
proof (cases "lock_step e True = lock_step e False")
  case True
  then consider i c m where "ev_data e = CompactionStart i c m" | i c m x where "ev_data e = CompactionEnd i c m x" | "ev_data e = EndSeed"
    by (cases "ev_data e") (simp_all add: lock_step_def)
  then show ?thesis
    by cases (use a n in \<open>auto simp: marks_of_def marks_after_def lock_step_def inspect_event_fields split: option.splits\<close>)
next
  case False
  then have "lock_step e b = b \<and> en_seed (inspect_event e st) = en_seed st \<and> en_start (inspect_event e st) = en_start st \<and>
     en_start_known (inspect_event e st) = en_start_known st"
    by (cases "ev_data e") (simp_all add: lock_step_def inspect_event_fields)
  with marks_after_mono [OF a, of n] n show ?thesis
    by (cases "en_start st"; cases "en_seed st") (simp_all add: marks_of_def marks_after_def)
qed

lemma inspect_marks:
  "sorted_wrt (<) (map ev_seq es) \<Longrightarrow> \<forall>e \<in> set es. n < ev_seq e \<Longrightarrow>
     fold lock_step es b = marks_of (inspectCompactionEntryState es) b \<and> marks_after n (inspectCompactionEntryState es)"
proof (induction es arbitrary: n b)
  case Nil
  then show ?case by (simp add: inspect_Nil entry_start_def marks_of_def marks_after_def)
next
  case (Cons e es)
  let ?st = "inspectCompactionEntryState es"
  have "fold lock_step es (lock_step e b) = marks_of ?st (lock_step e b)" and a: "marks_after (ev_seq e) ?st"
    using Cons.IH [of "ev_seq e" "lock_step e b"] Cons.prems(1) by simp_all
  moreover have "n < ev_seq e" using Cons.prems(2) by simp
  ultimately show ?case using inspect_event_marks [OF a] by (simp add: inspect_Cons)
qed

lemma numbered_log:
  assumes "is_ok (foldSurface evs)"
  shows "sorted_wrt (<) (map ev_seq evs) \<and> (\<forall>e \<in> set evs. -1 < ev_seq e)"
proof -
  obtain nodes reps where f: "foldSurface evs = Inr (nodes, reps)" using assms is_ok_foldE by blast
  then obtain st where "surface_inv (evs, st, reps)" using foldSurface_Inr by blast
  then have m: "map ev_seq evs = map int [0..<length evs]" by (simp add: surface_inv_def)
  have "sorted_wrt (<) (map int [0..<length evs])" by (simp add: sorted_wrt_map)
  moreover have "ev_seq e \<in> set (map int [0..<length evs])" if "e \<in> set evs" for e
    using that unfolding m [symmetric] by simp
  ultimately show ?thesis using m by fastforce
qed

lemma scan_exact:
  assumes "is_ok (foldSurface evs)"
  shows "assertCompactionInactive (inspectCompactionEntryState evs) = (\<not> lock_held evs)"
    "en_turn (inspectCompactionEntryState evs) = open_turn evs"
proof -
  let ?st = "inspectCompactionEntryState evs"
  have "lock_held evs = marks_of ?st False" "marks_after (-1) ?st"
    using inspect_marks [of evs "-1" False] numbered_log [OF assms] by (auto simp: lock_held_def)
  then show "assertCompactionInactive ?st = (\<not> lock_held evs)"
    by (auto simp: assertCompactionInactive_def marks_of_def marks_after_def split: option.splits if_splits)
  show "en_turn ?st = open_turn evs" using inspect_turn [of evs None] by (auto simp: open_turn_def Let_def)
qed

section \<open>The lock\<close>

lemma host_do_ok:
  assumes "host_ok h"
  shows "host_ok (pairing_do h k) \<and> (\<exists>es. host_log (pairing_do h k) = host_log h @ es)"
proof (cases h)
  case (Pair s c)
  obtain s' c' where k: "pairing_do (s, c) k = (s', c')" by fastforce
  have ok: "session_ok s" "cache_ok (se_log s) c" using assms Pair by (simp_all add: host_ok_def)
  show ?thesis
  proof (cases k)
    case (OtherCall d)
    with pairing_do_ok [OF ok k] k call_session_ok [OF ok(1), of d] Pair show ?thesis by (auto simp: host_ok_def)
  next
    case (AskBalance after q)
    obtain r h' where r: "toolPairingBalanced (if after then 1 else 0) s c q = (r, h')" by (rule prod.exhaust)
    have "h' = (s', c')"
      using r k AskBalance by (cases after) (simp_all add: toolPairingBalancedAfter_def toolPairingBalancedBefore_def)
    with host_balanced [of h _ q r h'] assms Pair r pairing_do_ok [OF ok k] k show ?thesis
      by (auto simp: host_ok_def)
  qed
qed

lemma host_run_ok: "host_ok h \<Longrightarrow> host_ok (foldl pairing_do h ks) \<and> (\<exists>es. host_log (foldl pairing_do h ks) = host_log h @ es)"
proof (induction ks arbitrary: h)
  case Nil
  then show ?case by simp
next
  case (Cons k ks)
  obtain es where es: "host_ok (pairing_do h k)" "host_log (pairing_do h k) = host_log h @ es"
    using host_do_ok [OF Cons.prems, of k] by blast
  from Cons.IH [OF es(1)] obtain fs where "host_ok (foldl pairing_do (pairing_do h k) ks)"
    "host_log (foldl pairing_do (pairing_do h k) ks) = host_log (pairing_do h k) @ fs" by blast
  with es(2) show ?case by simp
qed

lemma host_start: "construct h seed now = Inr s0 \<Longrightarrow> host_ok (s0, None)"
  using constructed_ok by (simp add: host_ok_def cache_ok_def)

lemma open_ok:
  assumes h: "host_ok h" and r: "open_compaction opts aborted start fin i t h = (Inr (sel, owner, q), h')"
  shows "host_ok h' \<and> span_ok (host_log h) sel \<and> sl_start sel = start \<and> sl_end sel = fin \<and> q = int (length (host_log h))
    \<and> (\<exists>e. host_log h' = host_log h @ [e] \<and> ev_data e = CompactionStart i (cp_command opts) owner)
    \<and> surface_nodes (host_log h') = surface_nodes (host_log h) \<and> \<not> lock_held (host_log h)
    \<and> owner = (if cp_standalone opts then None else open_turn (host_log h))
    \<and> (cp_standalone opts \<longleftrightarrow> open_turn (host_log h) = None)"
proof -
  obtain v h1 where v: "validateSurfaceRegion start fin h = (v, h1)" by (rule prod.exhaust)
  have h1: "host_ok h1" "host_log h1 = host_log h" using validate_ok [OF h v] by simp_all
  have f: "is_ok (foldSurface (host_log h))" using h by (simp add: host_ok_def session_ok_def)
  let ?owner = "if cp_standalone opts then None else open_turn (host_log h)"
  obtain a h2 where a: "host_append (CompactionStart i (cp_command opts) ?owner) no_intent t h1 = (a, h2)" by (rule prod.exhaust)
  note scan = scan_exact [OF f]
  from r v h1(2) scan a have sel: "v = Inr sel" "a = Inr q" "h' = h2" "owner = ?owner"
    "\<not> lock_held (host_log h)" "cp_standalone opts \<longleftrightarrow> open_turn (host_log h) = None"
    by (auto simp: open_compaction_def Let_def split: if_splits sum.splits)
  with host_append_ok [OF h1(1) a] host_append_quiet [OF h1(1) a] validate_ok [OF h v] h1(2) show ?thesis
    by (simp add: new_event_def)
qed

definition releases :: "session_event \<Rightarrow> bool" where
  "releases e \<longleftrightarrow> (case ev_data e of CompactionEnd i c n x \<Rightarrow> True | EndSeed \<Rightarrow> True | _ \<Rightarrow> False)"

lemma lock_stays: "\<forall>e \<in> set es. \<not> releases e \<Longrightarrow> fold lock_step es True"
proof (induction es)
  case (Cons e es)
  moreover have "lock_step e True" using Cons.prems by (cases "ev_data e") (simp_all add: releases_def lock_step_def)
  ultimately show ?case by simp
qed simp

text \<open>C10. The opening marker is a lock: between two compactions that open on one session, whatever
  else happens on it, a closing marker or a seed boundary is logged.\<close>

theorem one_compaction_at_a_time:
  assumes "construct hd0 seed now = Inr s0" and "foldl pairing_do (s0, None) ks = h"
    and o1: "open_compaction opts aborted start fin i t h = (Inr (sel, owner, q), h1)"
    and run: "foldl pairing_do h1 ks' = h2"
    and o2: "open_compaction opts' aborted' start' fin' i' t' h2 = (Inr (sel', owner', q'), h3)"
  shows "list_ex releases (drop (nat q + 1) (host_log h2))"
proof (rule ccontr)
  have h: "host_ok h" using host_run_ok [OF host_start [OF assms(1)], of ks] assms(2) by simp
  note o1 = open_ok [OF h o1]
  then have h1: "host_ok h1" by simp
  obtain e where e: "host_log h1 = host_log h @ [e]" "ev_data e = CompactionStart i (cp_command opts) owner" using o1 by blast
  obtain es where es: "host_ok h2" "host_log h2 = host_log h1 @ es" using host_run_ok [OF h1, of ks'] run by auto
  assume "\<not> list_ex releases (drop (nat q + 1) (host_log h2))"
  moreover have "drop (nat q + 1) (host_log h2) = es" using o1 e es by simp
  ultimately have "fold lock_step es True" using lock_stays by (simp add: list_ex_iff)
  with e es have "lock_held (host_log h2)" by (simp add: lock_held_def lock_step_def)
  with open_ok [OF es(1) o2] show False by simp
qed

section \<open>The selection\<close>

lemma keep_from_spec:
  assumes "m \<le> length xs" and "\<forall>x \<in> set xs. 0 \<le> x" and "keep_from (rev (take m xs)) m (sum_list (drop m xs)) retain = k"
  shows "k \<le> m \<and> (0 < m \<longrightarrow> k < m) \<and> (0 < k \<longrightarrow> retain \<le> sum_list (drop k xs)) \<and>
    (\<forall>k'. k < k' \<and> k' < m \<longrightarrow> sum_list (drop k' xs) < retain)"
  using assms
proof (induction m)
  case 0
  then show ?case by simp
next
  case (Suc m)
  then have m: "m < length xs" by simp
  then have t: "take (Suc m) xs = take m xs @ [xs ! m]" by (simp add: take_Suc_conv_app_nth)
  have d: "sum_list (drop m xs) = sum_list (drop (Suc m) xs) + xs ! m"
    using m by (simp add: Cons_nth_drop_Suc [symmetric] add.commute)
  show ?case
  proof (cases "retain \<le> sum_list (drop m xs)")
    case True
    with Suc.prems t d have "k = m" by simp
    with True show ?thesis by auto
  next
    case False
    with Suc.prems t d have "keep_from (rev (take m xs)) m (sum_list (drop m xs)) retain = k" by simp
    with Suc.IH m Suc.prems(2) have ih: "k \<le> m" "0 < k \<longrightarrow> retain \<le> sum_list (drop k xs)"
      "\<forall>k'. k < k' \<and> k' < m \<longrightarrow> sum_list (drop k' xs) < retain" by simp_all
    have "sum_list (drop k' xs) < retain" if "k < k'" "k' < Suc m" for k'
      using that ih(3) False by (cases "k' = m") auto
    with ih show ?thesis by simp
  qed
qed

lemma sum_drop_mono:
  assumes "\<forall>x \<in> set xs. 0 \<le> (x::int)" and "j \<le> k"
  shows "sum_list (drop k xs) \<le> sum_list (drop j xs)"
proof -
  have "drop j xs = take (k - j) (drop j xs) @ drop k xs"
    using assms(2) by (metis append_take_drop_id drop_drop le_add_diff_inverse2)
  then have "sum_list (drop j xs) = sum_list (take (k - j) (drop j xs)) + sum_list (drop k xs)"
    by (metis sum_list_append)
  moreover have "0 \<le> sum_list (take (k - j) (drop j xs))"
    using assms(1) by (intro sum_list_nonneg) (meson in_set_dropD in_set_takeD)
  ultimately show ?thesis by simp
qed

lemma back_to_cut_spec:
  assumes "host_ok h" and "k < length (surface_nodes (host_log h))"
    and "back_to_cut k (surface_nodes (host_log h)) h = (r, h')"
  shows "host_ok h' \<and> host_log h' = host_log h \<and> (\<forall>k0. r = Inr k0 \<longrightarrow> k0 \<le> k
     \<and> (0 < k0 \<longrightarrow> paired (host_log h) (surface_nodes (host_log h)) \<and> open_calls (host_log h) (take k0 (surface_nodes (host_log h))) = 0)
     \<and> (\<forall>k'. k0 < k' \<and> k' \<le> k \<longrightarrow> open_calls (host_log h) (take k' (surface_nodes (host_log h))) \<noteq> 0))"
  using assms
proof (induction k arbitrary: h r h')
  case 0
  then show ?case by auto
next
  case (Suc k)
  let ?nodes = "surface_nodes (host_log h)"
  obtain b h1 where b: "balanced_before (?nodes ! Suc k) h = (b, h1)" by (rule prod.exhaust)
  note hb = host_before [OF Suc.prems(1) b]
  note cut = cut_at [OF distinct_nodes [OF Suc.prems(1)] Suc.prems(2), of "host_log h" 0]
  show ?case
  proof (cases b)
    case (Inl x)
    with b hb Suc.prems(3) show ?thesis by auto
  next
    case (Inr v)
    with hb cut have v: "v = (open_calls (host_log h) (take (Suc k) ?nodes) = 0)" "paired (host_log h) ?nodes"
      by (auto simp: answer_of_def split: if_splits)
    show ?thesis
    proof (cases v)
      case True
      with b Inr hb v Suc.prems(3) show ?thesis by auto
    next
      case False
      with b Inr hb Suc.prems have "back_to_cut k (surface_nodes (host_log h1)) h1 = (r, h')" "host_ok h1"
        "k < length (surface_nodes (host_log h1))" by auto
      note ih = Suc.IH [OF this(2,3,1)]
      have nz: "open_calls (host_log h) (take (Suc k) ?nodes) \<noteq> 0" using False v by simp
      have "open_calls (host_log h) (take k' ?nodes) \<noteq> 0"
        if "k' \<le> Suc k" "k' \<le> k \<longrightarrow> open_calls (host_log h) (take k' ?nodes) \<noteq> 0" for k'
        using that nz by (cases "k' = Suc k") auto
      with ih hb show ?thesis by (metis le_SucI)
    qed
  qed
qed

text \<open>The ranges that may be compacted: up to a cut no call crosses, with enough left after it.\<close>

definition compactable :: "session_event list \<Rightarrow> priced_node list \<Rightarrow> int \<Rightarrow> nat \<Rightarrow> bool" where
  "compactable evs priced retain k \<longleftrightarrow>
     0 < k \<and> k < length priced \<and> open_calls evs (take k (map pn_seq priced)) = 0 \<and>
     retain \<le> sum_list (map pn_tokens (drop k priced))"

lemma select_spec:
  assumes h: "host_ok h" and tok: "\<forall>n \<in> set priced. 0 \<le> pn_tokens n"
    and r: "selectCompactableRange priced retain h = (Inr res, h')"
  shows "host_ok h' \<and> host_log h' = host_log h \<and>
    (case res of
       None \<Rightarrow> \<forall>k. \<not> compactable (host_log h) priced retain k
     | Some (s, f) \<Rightarrow> surface_nodes (host_log h) = map pn_seq priced \<and> paired (host_log h) (map pn_seq priced) \<and>
         (\<exists>k. compactable (host_log h) priced retain k \<and> (\<forall>k'. k < k' \<longrightarrow> \<not> compactable (host_log h) priced retain k') \<and>
              s = map pn_seq priced ! 0 \<and> f = map pn_seq priced ! (k - 1)))"
proof (cases "priced = []")
  case True
  with r h show ?thesis by (auto simp: selectCompactableRange_def compactable_def)
next
  case False
  let ?nodes = "surface_nodes (host_log h)" and ?tok = "map pn_tokens priced"
  obtain h1 where h1: "host_surface h = (Inr ?nodes, h1)" "host_ok h1" "host_log h1 = host_log h"
    using host_surface_ok [OF h] by blast
  define keep where "keep = keep_from (rev ?tok) (length priced) 0 retain"
  have nodes: "?nodes = map pn_seq priced"
    using r False h1 by (auto simp: selectCompactableRange_def split: if_splits)
  have k: "keep < length priced" "0 < keep \<longrightarrow> retain \<le> sum_list (drop keep ?tok)"
    "\<And>k'. keep < k' \<Longrightarrow> k' < length priced \<Longrightarrow> sum_list (drop k' ?tok) < retain"
    using keep_from_spec [of "length ?tok" ?tok retain keep] False tok by (auto simp: keep_def)
  have late: "\<not> compactable (host_log h) priced retain k'" if "keep < k'" for k'
    using k(3) [OF that] by (auto simp: compactable_def drop_map)
  show ?thesis
  proof (cases "keep = 0")
    case True
    then have "res = None" "h' = h1" using r False h1 nodes by (simp_all add: selectCompactableRange_def keep_def)
    moreover have "\<not> compactable (host_log h) priced retain k'" for k'
      using late [of k'] True by (cases "k' = 0") (simp_all add: compactable_def)
    ultimately show ?thesis using h1 by simp
  next
    case pos: False
    obtain c h2 where c: "back_to_cut keep ?nodes h1 = (c, h2)" by (rule prod.exhaust)
    have spec: "host_ok h2 \<and> host_log h2 = host_log h \<and> (\<forall>k0. c = Inr k0 \<longrightarrow> k0 \<le> keep
     \<and> (0 < k0 \<longrightarrow> paired (host_log h) ?nodes \<and> open_calls (host_log h) (take k0 ?nodes) = 0)
     \<and> (\<forall>k'. k0 < k' \<and> k' \<le> keep \<longrightarrow> open_calls (host_log h) (take k' ?nodes) \<noteq> 0))"
      using back_to_cut_spec [of h1 keep c h2] h1 c k(1) nodes by simp
    from r False h1(1) nodes c pos obtain k0 where k0: "c = Inr k0" "h' = h2"
      "res = (if k0 = 0 then None else Some (?nodes ! 0, ?nodes ! (k0 - 1)))"
      by (auto simp: selectCompactableRange_def keep_def Let_def split: sum.splits if_splits)
    have none: "\<not> compactable (host_log h) priced retain k'" if "k0 < k'" for k'
      using late [of k'] spec k0(1) that nodes by (cases "k' \<le> keep") (auto simp: compactable_def)
    show ?thesis
    proof (cases "k0 = 0")
      case True
      have "\<not> compactable (host_log h) priced retain k'" for k'
        using none [of k'] True by (cases "k' = 0") (simp_all add: compactable_def)
      with True k0 spec show ?thesis by simp
    next
      case False
      have "sum_list (drop keep ?tok) \<le> sum_list (drop k0 ?tok)"
        using sum_drop_mono [of ?tok k0 keep] tok spec k0(1) by auto
      then have "compactable (host_log h) priced retain k0"
        using False spec k0(1) k(1,2) pos nodes by (auto simp: compactable_def drop_map)
      with False k0 spec nodes none show ?thesis by auto
    qed
  qed
qed

lemma validate_complete:
  assumes h: "host_ok h" and ij: "i \<le> j" "j < length (surface_nodes (host_log h))"
    and p: "paired (host_log h) (surface_nodes (host_log h))"
    and o1: "open_calls (host_log h) (take i (surface_nodes (host_log h))) = 0"
    and o2: "open_calls (host_log h) (take (j + 1) (surface_nodes (host_log h))) = 0"
  shows "\<exists>h'. validateSurfaceRegion (surface_nodes (host_log h) ! i) (surface_nodes (host_log h) ! j) h =
    (Inr \<lparr>sl_start = surface_nodes (host_log h) ! i, sl_end = surface_nodes (host_log h) ! j, sl_start_idx = i, sl_end_idx = j,
          sl_seqs = slice i (j + 1) (surface_nodes (host_log h))\<rparr>, h')"
proof -
  let ?nodes = "surface_nodes (host_log h)"
  obtain h1 where h1: "host_surface h = (Inr ?nodes, h1)" "host_ok h1" "host_log h1 = host_log h"
    using host_surface_ok [OF h] by blast
  have d: "distinct ?nodes" using distinct_nodes [OF h] .
  have i: "i < length ?nodes" using ij by simp
  have idx: "index_of (?nodes ! i) ?nodes = Some i" "index_of (?nodes ! j) ?nodes = Some j"
    using index_of_nth [OF d] i ij(2) by simp_all
  obtain b h2 where b: "balanced_before (?nodes ! i) h1 = (b, h2)" by (rule prod.exhaust)
  have h2: "host_ok h2" "host_log h2 = host_log h" "b = Inr True"
    using host_before [OF h1(2) b] h1(3) cut_at [OF d i, of "host_log h" 0] p o1 by (auto simp: answer_Inr)
  obtain a h3 where a: "balanced_after (?nodes ! j) h2 = (a, h3)" by (rule prod.exhaust)
  have "a = Inr True"
    using host_after [OF h2(1) a] h2(2) cut_at [OF d ij(2), of "host_log h" 1] p o2 by (auto simp: answer_Inr)
  with h1 idx ij(1) b a h2 show ?thesis by (simp add: validateSurfaceRegion_def)
qed

text \<open>C11. The selected range is the longest head of the surface that splits no call from its result and
  leaves at least the retained budget after it; it passes the validation of the transaction, and there
  is none exactly when there is no such head.\<close>

theorem selection_is_longest:
  assumes "construct hd0 seed now = Inr s0" and "foldl pairing_do (s0, None) ks = h"
    and "list_all (\<lambda>n. 0 \<le> pn_tokens n) priced" and "selectCompactableRange priced retain h = (Inr res, h')"
  shows "case res of
      None \<Rightarrow> \<forall>k. \<not> compactable (host_log h) priced retain k
    | Some (s, f) \<Rightarrow> \<exists>k sel. compactable (host_log h) priced retain k \<and> (\<forall>k'. k < k' \<longrightarrow> \<not> compactable (host_log h) priced retain k') \<and>
        fst (validateSurfaceRegion s f h') = Inr sel \<and> sl_seqs sel = take k (map pn_seq priced)"
proof -
  have h: "host_ok h" using host_run_ok [OF host_start [OF assms(1)], of ks] assms(2) by simp
  note spec = select_spec [OF h _ assms(4)]
  show ?thesis
  proof (cases res)
    case None
    with spec assms(3) show ?thesis by (simp add: list_all_iff)
  next
    case (Some sf)
    obtain s f where sf: "sf = (s, f)" by (rule prod.exhaust)
    let ?nodes = "surface_nodes (host_log h')"
    from spec assms(3) Some sf obtain k where h': "host_ok h'" "host_log h' = host_log h" and n: "?nodes = map pn_seq priced"
      and p: "paired (host_log h) (map pn_seq priced)"
      and k: "compactable (host_log h) priced retain k" "\<forall>k'. k < k' \<longrightarrow> \<not> compactable (host_log h) priced retain k'"
      and e: "s = ?nodes ! 0" "f = ?nodes ! (k - 1)"
      by (auto simp: list_all_iff)
    have "0 < k" "k - 1 < length priced" "open_calls (host_log h) (take k (map pn_seq priced)) = 0"
      using k(1) by (auto simp: compactable_def)
    with validate_complete [OF h'(1), of 0 "k - 1"] h'(2) n p e
    have "\<exists>sel. fst (validateSurfaceRegion s f h') = Inr sel \<and> sl_seqs sel = take k (map pn_seq priced)"
      by (auto simp: slice_def)
    with k Some sf show ?thesis by auto
  qed
qed

section \<open>Samples\<close>

definition idle_host :: host where
  "idle_host = foldl pairing_do (empty_session sample_header, None)
     [OtherCall (CallAppend 1 (UserMessage \<lparr>um_id = ''u'', um_source = SrcUser, um_content = []\<rparr>) plain_append Detached),
      OtherCall (CallAppend 2 (AssistantMessage 1 1 call_message None) plain_append Detached),
      OtherCall (CallAppend 3 (ToolResult call_result) plain_append Detached)]"

definition manual_options :: compaction_options where
  "manual_options = \<lparr>cp_standalone = True, cp_whole = False, cp_flush = True, cp_command = None\<rparr>"

definition priced_sample :: "priced_node list" where
  "priced_sample = [\<lparr>pn_seq = 0, pn_tokens = 5\<rparr>, \<lparr>pn_seq = 1, pn_tokens = 9\<rparr>, \<lparr>pn_seq = 2, pn_tokens = 9\<rparr>]"

lemma sample_session: "construct sample_header None 0 = Inr (empty_session sample_header)"
  by (simp add: construct_def)

lemma selection_is_longest_witness:
  "\<exists>k sel. compactable (host_log idle_host) priced_sample 4 k \<and>
     fst (validateSurfaceRegion 0 0 (snd (selectCompactableRange priced_sample 4 idle_host))) = Inr sel \<and>
     sl_seqs sel = take k [0, 1, 2]"
proof -
  have "fst (selectCompactableRange priced_sample 4 idle_host) = Inr (Some (0, 0))" by code_simp
  then obtain h' where h': "selectCompactableRange priced_sample 4 idle_host = (Inr (Some (0, 0)), h')"
    by (metis prod.collapse)
  have "list_all (\<lambda>n. 0 \<le> pn_tokens n) priced_sample" by code_simp
  from selection_is_longest [OF sample_session idle_host_def [symmetric] this h'] h' show ?thesis
    by (auto simp: priced_sample_def)
qed

definition opened_host :: "(compaction_error, selection \<times> int option \<times> int) result \<times> host" where
  "opened_host = open_compaction manual_options False 0 2 ''k'' (4, Detached) idle_host"

definition closed_host :: host where
  "closed_host = foldl pairing_do (snd opened_host) [OtherCall (CallAppend 5 (CompactionEnd ''k'' None None None) no_intent Detached)]"

definition reopened_host :: "(compaction_error, selection \<times> int option \<times> int) result \<times> host" where
  "reopened_host = open_compaction manual_options False 0 2 ''l'' (6, Detached) closed_host"

lemma one_compaction_at_a_time_witness: "list_ex releases (drop 4 (host_log closed_host))"
proof -
  have "map_sum (\<lambda>x. ()) (\<lambda>(s, w, q). q) (fst opened_host) = Inr 3 \<and> is_ok (fst reopened_host)" by code_simp
  then obtain s w s' w' q' where "fst opened_host = Inr (s, w, 3)" "fst reopened_host = Inr (s', w', q')"
    by (auto simp: is_ok_iff map_sum_def split: sum.splits)
  then obtain h1 h3 where o1: "opened_host = (Inr (s, w, 3), h1)" and o2: "reopened_host = (Inr (s', w', q'), h3)"
    by (metis prod.collapse)
  have "foldl pairing_do h1 [OtherCall (CallAppend 5 (CompactionEnd ''k'' None None None) no_intent Detached)] = closed_host"
    by (simp only: closed_host_def o1 snd_conv)
  from one_compaction_at_a_time [OF sample_session idle_host_def [symmetric] o1 [unfolded opened_host_def] this
      o2 [unfolded reopened_host_def]]
  show ?thesis by simp
qed

end
