(* ===== verification/Compaction_Commit.thy ===== *)
theory Compaction_Commit
  imports Compaction_Region
begin

text \<open>
  What the compaction transaction (\<open>Compaction_Region\<close>) does to a session: a compaction that succeeds
  replaces its span by one checkpoint and splits no tool call from its result, every opened attempt is
  closed by exactly one marker and a failed one leaves the surface, and a span that still stands commits.
\<close>

section \<open>Steps\<close>

text \<open>An opened and prepared transaction.\<close>

lemma prepare_region_ok:
  assumes h: "host_ok h" and r: "prepareCompaction opts i sel owner q measured h = (Inr p, h')"
  shows "host_ok h' \<and> host_log h' = host_log h \<and> pr_selection p = sel \<and> pr_nodes p = measured \<and> pr_id p = i \<and>
    pr_owner p = owner \<and> pr_start_seq p = q \<and> pr_options p = opts \<and> map pn_seq (pr_selected p) = sl_seqs sel \<and>
    pr_selected p = slice (sl_start_idx sel) (sl_end_idx sel + 1) measured \<and>
    pr_tokens p = sum_list (map pn_tokens (pr_selected p))"
proof -
  obtain hdr s where rh: "requestHeader (fst h) = (hdr, s)" by (rule prod.exhaust)
  have "session_ok (fst h)" "cache_ok (host_log h) (snd h)" using h by (simp_all add: host_ok_def)
  with requestHeader_ok [OF _ rh] have "host_ok (s, snd h)" "se_log s = host_log h" by (simp_all add: host_ok_def)
  with r rh show ?thesis
    by (auto simp: prepareCompaction_def buildSummarizationInput_def Let_def split: if_splits)
qed

lemma start_ok:
  assumes h: "host_ok h"
    and r: "start_compaction opts aborted start fin i measured text aborted' flushed t u h = (Inr p, h')"
  shows "host_ok h' \<and> span_ok (host_log h) (pr_selection p) \<and> sl_start (pr_selection p) = start \<and> sl_end (pr_selection p) = fin \<and>
    (\<exists>e. host_log h' = host_log h @ [e] \<and> ev_data e = CompactionStart i (cp_command opts) (pr_owner p)) \<and>
    surface_nodes (host_log h') = surface_nodes (host_log h) \<and> pr_start_seq p = int (length (host_log h)) \<and>
    pr_nodes p = measured \<and> pr_id p = i \<and> pr_options p = opts \<and> map pn_seq (pr_selected p) = sl_seqs (pr_selection p) \<and>
    \<not> lock_held (host_log h) \<and> pr_owner p = open_turn (host_log h)"
proof -
  obtain x h1 where x: "open_compaction opts aborted start fin i t h = (x, h1)" by (rule prod.exhaust)
  from r x obtain sel owner q where o1: "x = Inr (sel, owner, q)"
    by (cases x) (auto simp: start_compaction_def)
  obtain y h2 where y: "prepareCompaction opts i sel owner q measured h1 = (y, h2)" by (rule prod.exhaust)
  from r x o1 y have "y = Inr p" "h' = h2"
    by (auto simp: start_compaction_def split: sum.splits prod.splits)
  with open_ok [OF h x [unfolded o1]] prepare_region_ok [of h1 opts i sel owner q measured p h2] y show ?thesis by auto
qed

lemma stable_ok:
  assumes h: "host_ok h" and r: "assertStable measured p h = (x, h')"
  shows "host_ok h' \<and> host_log h' = host_log h \<and> (x = Inr () \<longrightarrow>
    (if cp_whole (pr_options p) then measured = pr_nodes p
     else \<exists>cur. span_ok (host_log h) cur \<and> sl_start cur = sl_start (pr_selection p) \<and> sl_end cur = sl_end (pr_selection p) \<and>
       sl_seqs cur = sl_seqs (pr_selection p)))"
proof (cases "cp_whole (pr_options p)")
  case True
  with r h show ?thesis by (auto simp: assertStable_def split: if_splits)
next
  case False
  obtain v h1 where v: "validateSurfaceRegion (sl_start (pr_selection p)) (sl_end (pr_selection p)) h = (v, h1)"
    by (rule prod.exhaust)
  note vk = validate_ok [OF h v]
  show ?thesis
  proof (cases v)
    case (Inl y)
    with False r v vk show ?thesis by (auto simp: assertStable_def)
  next
    case (Inr cur)
    then have "h' = h1" and "x = Inr () \<longrightarrow> sl_seqs cur = sl_seqs (pr_selection p)"
      using False r v by (auto simp: assertStable_def split: if_splits)
    moreover have "host_ok h1" "host_log h1 = host_log h" "span_ok (host_log h) cur"
      "sl_start cur = sl_start (pr_selection p)" "sl_end cur = sl_end (pr_selection p)" using vk Inr by simp_all
    ultimately show ?thesis using False by auto
  qed
qed

definition price_of :: "prepared_compaction \<Rightarrow> shadow_price" where
  "price_of p = \<lparr>sp_start = sl_start (pr_selection p), sp_end = sl_end (pr_selection p), sp_seqs = sl_seqs (pr_selection p),
     sp_tokens = pr_tokens p\<rparr>"

definition summary_of :: "prepared_compaction \<Rightarrow> session_event \<Rightarrow> bool" where
  "summary_of p e \<longleftrightarrow> (\<exists>facts. ev_data e = CompactionSummary (pr_id p) (cp_command (pr_options p)) facts (price_of p))"

definition checkpoint_of :: "prepared_compaction \<Rightarrow> user_message \<Rightarrow> session_event \<Rightarrow> bool" where
  "checkpoint_of p m e \<longleftrightarrow> ev_data e = UserMessage m \<and>
     ev_surface_op e = Some (replace_op (sl_start (pr_selection p)) (sl_end (pr_selection p)))"

lemma commit_log:
  assumes h: "host_ok h" and r: "commitCompactionBody p a m t u h = (x, h')"
  shows "host_ok h' \<and> (case x of
      Inl y \<Rightarrow> surface_nodes (host_log h') = surface_nodes (host_log h) \<and>
        (host_log h' = host_log h \<or> (\<exists>e1. host_log h' = host_log h @ [e1] \<and> summary_of p e1))
    | Inr q \<Rightarrow> q = int (length (host_log h)) \<and>
        (\<exists>e1 e2. host_log h' = host_log h @ [e1, e2] \<and> summary_of p e1 \<and> checkpoint_of p m e2 \<and>
           surface_nodes (host_log h @ [e1]) = surface_nodes (host_log h)))"
proof -
  let ?d = "CompactionSummary (pr_id p) (cp_command (pr_options p)) (sa_facts a) (price_of p)"
  obtain b h1 where b: "host_append ?d no_intent t h = (b, h1)" by (rule prod.exhaust)
  note hb = host_append_ok [OF h b] and quiet = host_append_quiet [OF h b]
  show ?thesis
  proof (cases b)
    case (Inl y)
    with r b hb show ?thesis by (auto simp: commitCompactionBody_def Let_def price_of_def)
  next
    case (Inr q)
    let ?i = "\<lparr>si_op = Some (replace_op (sl_start (pr_selection p)) (sl_end (pr_selection p))),
      si_sources = Some (seqs_json (pr_start_seq p # q # sl_seqs (pr_selection p)))\<rparr>"
    have h1: "host_ok h1" "q = int (length (host_log h))" "host_log h1 = host_log h @ [new_event (fst h) (fst t) ?d no_intent]"
      using hb Inr by simp_all
    obtain c h2 where c: "host_append (UserMessage m) ?i u h1 = (c, h2)" by (rule prod.exhaust)
    note hc = host_append_ok [OF h1(1) c]
    from r b Inr c have x: "x = (case c of Inl y \<Rightarrow> Inl y | Inr q' \<Rightarrow> Inr q)" "h' = h2"
      by (auto simp: commitCompactionBody_def Let_def price_of_def split: sum.splits)
    show ?thesis
    proof (cases c)
      case (Inl y)
      with x hc h1 quiet show ?thesis by (auto simp: new_event_def summary_of_def)
    next
      case (Inr q')
      with x hc h1 quiet show ?thesis by (auto simp: new_event_def summary_of_def checkpoint_of_def)
    qed
  qed
qed

lemma commit_nodes:
  assumes h: "host_ok h" and r: "commitCompactionBody p a m t u h = (Inr q, h')"
  shows "\<exists>i j. index_of (sl_start (pr_selection p)) (surface_nodes (host_log h)) = Some i \<and>
     index_of (sl_end (pr_selection p)) (surface_nodes (host_log h)) = Some j \<and> i \<le> j \<and>
     surface_nodes (host_log h') = splice i (j - i + 1) [q + 1] (surface_nodes (host_log h))"
proof -
  from commit_log [OF h r] obtain e1 e2 where ok: "host_ok h'" and q: "q = int (length (host_log h))"
    and l: "host_log h' = (host_log h @ [e1]) @ [e2]"
    and op: "ev_surface_op e2 = Some (replace_op (sl_start (pr_selection p)) (sl_end (pr_selection p)))"
    and quiet: "surface_nodes (host_log h @ [e1]) = surface_nodes (host_log h)" by (auto simp: checkpoint_of_def)
  have f: "is_ok (foldSurface ((host_log h @ [e1]) @ [e2]))" using ok by (simp add: host_ok_def session_ok_def l)
  have "int (length (host_log h @ [e1])) = q + 1" using q by simp
  with replace_nodes [OF f op] quiet l show ?thesis by (simp add: add.commute)
qed

text \<open>A transaction that succeeds, taken apart.\<close>

lemma finish_Inr:
  assumes "finish_compaction p answer estimate aborted measured newId text aborted' flushed t u v w h = (Inr r, h')"
  obtains a h1 h2 q z where "answer = Inr a" "estimate < pr_tokens p" "assertStable measured p h = (Inr (), h1)"
    "commitCompactionBody p a (checkpoint_message newId p (sa_blocks a)) t u h1 = (Inr q, h2)"
    "host_append (CompactionEnd (pr_id p) (cp_command (pr_options p)) (pr_owner p) None) no_intent v h2 = (Inr z, h')" "r = result_of p q z"
proof -
  obtain out h3 where out: "tx_body p answer estimate aborted measured newId t u v h = (out, h3)" by (rule prod.exhaust)
  have "\<exists>q z. out = Inr (q, z) \<and> r = result_of p q z \<and> h' = h3"
  proof (cases out)
    case (Inl f)
    obtain x stage closing where "f = (x, stage, closing)" by (rule prod_cases3)
    with assms out Inl show ?thesis
      by (auto simp: finish_compaction_def tx_catch_def Let_def split: if_splits prod.splits option.splits)
  next
    case (Inr qz)
    with assms out show ?thesis
      by (cases qz) (auto simp: finish_compaction_def tx_catch_def Let_def split: if_splits)
  qed
  then obtain q z where qz: "out = Inr (q, z)" "r = result_of p q z" "h' = h3" by blast
  from out qz(1) obtain a where a: "answer = Inr a" by (cases answer) (auto simp: tx_body_def)
  obtain s1 h1 where s1: "assertStable measured p h = (s1, h1)" by (rule prod.exhaust)
  obtain c h2 where c: "commitCompactionBody p a (checkpoint_message newId p (sa_blocks a)) t u h1 = (c, h2)"
    by (rule prod.exhaust)
  obtain z' h4 where z: "host_append (CompactionEnd (pr_id p) (cp_command (pr_options p)) (pr_owner p) None) no_intent v h2 = (z', h4)" by (rule prod.exhaust)
  from out qz(1) a s1 c z have "estimate < pr_tokens p" "s1 = Inr ()" "c = Inr q" "z' = Inr z" "h3 = h4"
    by (auto simp: tx_body_def split: if_splits sum.splits)
  with a s1 c z qz(2,3) that show thesis by simp
qed

section \<open>The replaced span\<close>

lemma span_parts:
  assumes "span_ok evs sel"
  shows "surface_nodes evs = take (sl_start_idx sel) (surface_nodes evs) @ sl_seqs sel @ drop (sl_end_idx sel + 1) (surface_nodes evs)"
    and "open_calls evs (take (sl_start_idx sel) (surface_nodes evs)) = 0" and "open_calls evs (sl_seqs sel) = 0"
proof -
  let ?nodes = "surface_nodes evs" and ?i = "sl_start_idx sel" and ?j = "sl_end_idx sel"
  have s: "sl_seqs sel = slice ?i (?j + 1) ?nodes" "?i \<le> ?j" "open_calls evs (take ?i ?nodes) = 0"
    "open_calls evs (take (?j + 1) ?nodes) = 0"
    using assms by (simp_all add: span_ok_def Let_def)
  then show n: "?nodes = take ?i ?nodes @ sl_seqs sel @ drop (?j + 1) ?nodes"
    using take_slice_drop [of ?i "?j + 1" ?nodes] by simp
  show "open_calls evs (take ?i ?nodes) = 0" by (rule s(3))
  have "take (?j + 1) ?nodes = take ?i ?nodes @ sl_seqs sel"
    unfolding s(1) slice_def using s(2) by (metis add.commute le_add_diff_inverse take_add trans_le_add1)
  with s(3,4) show "open_calls evs (sl_seqs sel) = 0" by simp
qed

lemma span_ok_grow:
  assumes h: "host_ok h" and g: "surface_nodes (host_log h @ es) = surface_nodes (host_log h)" and s: "span_ok (host_log h) sel"
  shows "span_ok (host_log h @ es) sel"
proof -
  obtain reps where "foldSurface (host_log h) = Inr (surface_nodes (host_log h), reps)" using host_fold [OF h] ..
  from surface_nodes_facts(3) [OF this]
  have same: "\<forall>q \<in> set qs. node_delta (host_log h @ es) q = node_delta (host_log h) q" if "set qs \<subseteq> set (surface_nodes (host_log h))" for qs
    using that node_delta_append by blast
  have sub: "open_calls (host_log h @ es) (take k (surface_nodes (host_log h))) = open_calls (host_log h) (take k (surface_nodes (host_log h)))" for k
    by (intro open_cong same) (rule set_take_subset)
  have "climbs (host_log h @ es) 0 (surface_nodes (host_log h)) = climbs (host_log h) 0 (surface_nodes (host_log h))"
    by (intro climbs_cong same) simp
  with s sub show ?thesis by (simp add: span_ok_def Let_def g paired_climbs)
qed

text \<open>Replacing a span without open calls by a node that opens none keeps the pairing.\<close>

lemma replaced_pairing:
  assumes s: "span_ok evs sel" and b: "\<forall>q \<in> set (surface_nodes evs). 0 \<le> q \<and> q < int (length evs)"
    and d: "node_delta (evs @ fs) c = 0"
    and pre: "pre = take (sl_start_idx sel) (surface_nodes evs)" and post: "post = drop (sl_end_idx sel + 1) (surface_nodes evs)"
  shows "paired (evs @ fs) (pre @ [c] @ post) \<and> open_calls (evs @ fs) (pre @ [c] @ post) = open_calls evs (surface_nodes evs)"
proof -
  have sub: "set pre \<subseteq> set (surface_nodes evs)" "set post \<subseteq> set (surface_nodes evs)"
    unfolding pre post by (rule set_take_subset, rule set_drop_subset)
  then have same: "\<forall>q \<in> set pre. node_delta (evs @ fs) q = node_delta evs q" "\<forall>q \<in> set post. node_delta (evs @ fs) q = node_delta evs q"
    using b node_delta_append by blast+
  note parts = span_parts [OF s, folded pre post]
  have "climbs evs 0 (pre @ sl_seqs sel @ post)"
    using s parts(1) by (simp add: span_ok_def Let_def paired_climbs)
  then have "climbs evs 0 pre" "climbs evs 0 post" using parts(2,3) by (simp_all add: climbs_append)
  moreover have "open_calls evs (surface_nodes evs) = open_calls evs pre + (open_calls evs (sl_seqs sel) + open_calls evs post)"
    by (subst parts(1)) simp
  ultimately show ?thesis
    using parts(2,3) d climbs_cong [OF same(1)] climbs_cong [OF same(2)] open_cong [OF same(1)] open_cong [OF same(2)]
    by (simp add: paired_climbs climbs_append)
qed

text \<open>The span a stable transaction commits, in the log it commits to.\<close>

lemma stable_span:
  assumes h: "host_ok h" and run: "foldl pairing_do h1 ks = h2"
    and m: "cp_whole opts \<longrightarrow> map pn_seq measured = surface_nodes (host_log h)"
    and s: "start_compaction opts aborted start fin i measured text aborted' flushed t u h = (Inr p, h1)"
    and m': "cp_whole opts \<longrightarrow> map pn_seq measured' = surface_nodes (host_log h2)"
    and st: "assertStable measured' p h2 = (Inr (), h3)"
  shows "\<exists>cur. span_ok (host_log h2) cur \<and> sl_start cur = sl_start (pr_selection p) \<and> sl_end cur = sl_end (pr_selection p) \<and>
    sl_seqs cur = sl_seqs (pr_selection p)"
proof -
  note so = start_ok [OF h s]
  then have h1: "host_ok h1" and opts: "pr_options p = opts" by simp_all
  obtain es where h2: "host_ok h2" and es: "host_log h2 = host_log h1 @ es" using host_run_ok [OF h1, of ks] run by auto
  note sk = stable_ok [OF h2 st]
  show ?thesis
  proof (cases "cp_whole opts")
    case True
    then have n: "surface_nodes (host_log h2) = surface_nodes (host_log h)" using sk so m m' by simp
    obtain e where e: "host_log h1 = host_log h @ [e]" using so by blast
    have "span_ok (host_log h @ (e # es)) (pr_selection p)"
      using so n e es by (intro span_ok_grow [OF h]) simp_all
    with e es show ?thesis by (intro exI [of _ "pr_selection p"]) simp
  next
    case False
    with sk opts show ?thesis by simp
  qed
qed

lemma commit_replaces:
  assumes h: "host_ok h" and span: "span_ok (host_log h) cur" "sl_start cur = sl_start (pr_selection p)"
      "sl_end cur = sl_end (pr_selection p)" "sl_seqs cur = sl_seqs (pr_selection p)"
    and c: "commitCompactionBody p a m t u h = (Inr q, h1)"
    and z: "host_append (CompactionEnd i c0 w0 x0) no_intent v h1 = (Inr z, h')"
  shows "\<exists>pre post. surface_nodes (host_log h) = pre @ sl_seqs (pr_selection p) @ post \<and>
    surface_nodes (host_log h') = pre @ [q + 1] @ post \<and> paired (host_log h') (surface_nodes (host_log h')) \<and>
    open_calls (host_log h') (surface_nodes (host_log h')) = open_calls (host_log h) (surface_nodes (host_log h)) \<and>
    open_calls (host_log h) (sl_seqs (pr_selection p)) = 0 \<and>
    project_nodes (host_log h') (surface_nodes (host_log h')) =
      project_nodes (host_log h) pre @ [MUser m] @ project_nodes (host_log h) post"
proof -
  let ?nodes = "surface_nodes (host_log h)"
  define pre post where "pre = take (sl_start_idx cur) ?nodes" and "post = drop (sl_end_idx cur + 1) ?nodes"
  from commit_log [OF h c] obtain e1 e2 where h1: "host_ok h1" "host_log h1 = host_log h @ [e1, e2]"
    and q: "q = int (length (host_log h))" and e2: "ev_data e2 = UserMessage m" by (auto simp: checkpoint_of_def)
  obtain e3 where h': "host_log h' = host_log h @ [e1, e2, e3]" using host_append_ok [OF h1(1) z] h1(2) by auto
  from commit_nodes [OF h c] obtain i j where ij: "index_of (sl_start cur) ?nodes = Some i" "index_of (sl_end cur) ?nodes = Some j"
    "i \<le> j" "surface_nodes (host_log h1) = splice i (j - i + 1) [q + 1] ?nodes"
    using span(2,3) by auto
  then have "i = sl_start_idx cur" "j = sl_end_idx cur" using span(1) by (simp_all add: span_ok_def Let_def)
  then have nodes: "surface_nodes (host_log h') = pre @ [q + 1] @ post"
    using host_append_quiet [OF h1(1) z] ij(3,4) by (simp add: splice_def pre_def post_def)
  have at: "event_at (host_log h') (q + 1) = Some e2" using q h' by (simp add: event_at_def nth_append nat_add_distrib)
  then have delta: "node_delta (host_log h') (q + 1) = 0" using e2 by (simp add: node_delta_def eventDelta_def)
  obtain reps where f: "foldSurface (host_log h) = Inr (?nodes, reps)" using host_fold [OF h] ..
  note bounds = foldSurface_bounds [OF f]
  note pairing = replaced_pairing [OF span(1) bounds, of "[e1, e2, e3]" "q + 1", folded h', OF delta pre_def post_def]
  have "set pre \<subseteq> set ?nodes" "set post \<subseteq> set ?nodes"
    unfolding pre_def post_def by (rule set_take_subset, rule set_drop_subset)
  then have proj: "project_nodes (host_log h') pre = project_nodes (host_log h) pre"
    "project_nodes (host_log h') post = project_nodes (host_log h) post"
    unfolding h' using bounds by (blast intro: project_nodes_extend)+
  have "project_nodes (host_log h') [q + 1] = [MUser m]" using at e2 by (simp add: deriveEventMessage_def)
  with proj have "project_nodes (host_log h') (pre @ [q + 1] @ post) =
      project_nodes (host_log h) pre @ [MUser m] @ project_nodes (host_log h) post"
    by (simp add: project_nodes_append del: append_Cons project_nodes.simps)
  with nodes pairing span_parts [OF span(1)] span(4) show ?thesis
    by (intro exI [of _ pre] exI [of _ post]) (simp add: pre_def post_def)
qed

section \<open>Closing\<close>

lemma marker_logged:
  assumes h: "host_ok h" and p: "permits (snd t)"
  obtains h' e where "host_append (CompactionEnd i c w x) no_intent t h = (Inr (int (length (host_log h))), h')" "host_ok h'"
    "host_log h' = host_log h @ [e]" "ev_data e = CompactionEnd i c w x" "surface_nodes (host_log h') = surface_nodes (host_log h)"
proof -
  have "event_type_of (CompactionEnd i c w x) \<in> set markers" by (simp add: markers_def event_type_of_def)
  from marker_accepted [OF h p this] obtain h' where h': "host_append (CompactionEnd i c w x) no_intent t h = (Inr (int (length (host_log h))), h')" ..
  from host_append_ok [OF h h'] host_append_quiet [OF h h'] h' that show thesis by (simp add: new_event_def)
qed

text \<open>Events of a transaction before its closing marker.\<close>

definition body_event :: "session_event \<Rightarrow> bool" where
  "body_event e \<longleftrightarrow> event_type_of (ev_data e) \<noteq> ''compaction/end''"

lemma summary_body: "summary_of p e \<Longrightarrow> body_event e"
  by (auto simp: summary_of_def body_event_def event_type_of_def)

lemma checkpoint_body: "checkpoint_of p m e \<Longrightarrow> body_event e"
  by (simp add: checkpoint_of_def body_event_def event_type_of_def)

lemma body_ok:
  assumes h: "host_ok h" and v: "permits (snd v)" and r: "tx_body p answer estimate aborted measured newId t u v h = (out, h')"
  shows "host_ok h' \<and> (case out of
      Inl (x, stage, closing) \<Rightarrow> \<not> closing \<and> surface_nodes (host_log h') = surface_nodes (host_log h) \<and>
        (host_log h' = host_log h \<or> (\<exists>e1. host_log h' = host_log h @ [e1] \<and> summary_of p e1))
    | Inr (q, z) \<Rightarrow> \<exists>e1 e2 e m. host_log h' = host_log h @ [e1, e2, e] \<and> summary_of p e1 \<and> checkpoint_of p m e2 \<and>
        um_source m = compactCheckpointSource (pr_id p) (cp_command (pr_options p)) \<and>
        ev_data e = CompactionEnd (pr_id p) (cp_command (pr_options p)) (pr_owner p) None)"
proof (cases answer)
  case (Inl x)
  with r h show ?thesis by (auto simp: tx_body_def)
next
  case (Inr a)
  let ?m = "checkpoint_message newId p (sa_blocks a)"
  obtain s1 h1 where s1: "assertStable measured p h = (s1, h1)" by (rule prod.exhaust)
  then have h1: "host_ok h1" "host_log h1 = host_log h" using stable_ok [OF h s1] by simp_all
  obtain c h2 where c: "commitCompactionBody p a ?m t u h1 = (c, h2)" by (rule prod.exhaust)
  note ck = commit_log [OF h1(1) c]
  show ?thesis
  proof (cases "estimate < pr_tokens p \<and> \<not> (cp_standalone (pr_options p) \<and> aborted) \<and> s1 = Inr ()")
    case False
    with Inr r s1 h h1 show ?thesis by (auto simp: tx_body_def split: if_splits sum.splits)
  next
    case True
    show ?thesis
    proof (cases c)
      case (Inl x)
      with True \<open>answer = Inr a\<close> r s1 c have out: "out = Inl (x, StageCommit, False)" "h' = h2"
        by (auto simp: tx_body_def split: if_splits)
      with ck Inl h1(2) show ?thesis by simp
    next
      case (Inr q)
      with ck obtain e1 e2 where es: "host_ok h2" "host_log h2 = host_log h1 @ [e1, e2]" "summary_of p e1" "checkpoint_of p ?m e2"
        by auto
      obtain h3 e where e: "host_append (CompactionEnd (pr_id p) (cp_command (pr_options p)) (pr_owner p) None) no_intent v h2 = (Inr (int (length (host_log h2))), h3)"
        "host_ok h3" "host_log h3 = host_log h2 @ [e]" "ev_data e = CompactionEnd (pr_id p) (cp_command (pr_options p)) (pr_owner p) None"
        using marker_logged [OF es(1) v] by metis
      with True Inr \<open>answer = Inr a\<close> r s1 c have "out = Inr (q, int (length (host_log h2)))" "h' = h3"
        by (auto simp: tx_body_def split: if_splits)
      moreover have "um_source ?m = compactCheckpointSource (pr_id p) (cp_command (pr_options p))"
        by (simp add: checkpoint_message_def)
      ultimately show ?thesis using e es h1(2) by auto
    qed
  qed
qed

lemma catch_done:
  "tx_catch i owner opts (Inr r0) text aborted flushed w h =
     (if cp_standalone opts \<and> aborted then Inl Cancelled
      else if cp_flush opts \<and> \<not> flushed then Inl (Manual MPersistence) else Inr r0, h)"
  by (simp add: tx_catch_def)

lemma catch_ok:
  assumes h: "host_ok h" and w: "permits (snd w)"
    and r: "tx_catch i owner opts (Inl (x, stage, False)) text aborted flushed w h = (r, h')"
  shows "r = Inl (if cp_standalone opts then if aborted then Cancelled else manual_failure stage x else x) \<and>
    surface_nodes (host_log h') = surface_nodes (host_log h) \<and>
    (\<exists>e. host_log h' = host_log h @ [e] \<and> ev_data e = CompactionEnd i (cp_command opts) owner (Some (text x)))"
proof -
  obtain h1 e where e: "host_append (CompactionEnd i (cp_command opts) owner (Some (text x))) no_intent w h = (Inr (int (length (host_log h))), h1)"
    "host_log h1 = host_log h @ [e]" "ev_data e = CompactionEnd i (cp_command opts) owner (Some (text x))"
    "surface_nodes (host_log h1) = surface_nodes (host_log h)"
    using marker_logged [OF h w] by metis
  then have "close_failed i (cp_command opts) owner (text x) w h = ((None, True), h1)" by (simp add: close_failed_def)
  with r have "r = Inl (if cp_standalone opts then if aborted then Cancelled else manual_failure stage x else x) \<and> h' = h1"
    by (auto simp: tx_catch_def split: if_splits)
  with e show ?thesis by simp
qed

lemma closed_unlocked: "ev_data e = CompactionEnd i c w x \<Longrightarrow> \<not> lock_held (evs @ [e])"
  by (simp add: lock_held_def lock_step_def)


text \<open>C6. A compaction that succeeds replaced its span by one checkpoint message, whatever else was appended
  while it waited: the surface around the span stands, no tool call is left without its result or
  the reverse, as many calls are open as before, and the conversation is the old one with the
  messages of the span replaced by the checkpoint.\<close>

theorem compaction_replaces_span:
  assumes "construct hd0 seed now = Inr s0" and "foldl pairing_do (s0, None) ks = h"
    and m: "cp_whole opts \<longrightarrow> map pn_seq measured = surface_nodes (host_log h)"
    and s: "start_compaction opts aborted start fin i measured text aborted' flushed t u h = (Inr p, h1)"
    and run: "foldl pairing_do h1 ks' = h2"
    and m': "cp_whole opts \<longrightarrow> map pn_seq measured' = surface_nodes (host_log h2)"
    and f: "finish_compaction p answer estimate ab1 measured' newId text ab2 flushed' t' u' v w h2 = (Inr r, h3)"
  shows "\<exists>pre post m. surface_nodes (host_log h2) = pre @ cr_seqs r @ post \<and>
    surface_nodes (host_log h3) = pre @ [cr_summary_seq r + 1] @ post \<and> paired (host_log h3) (surface_nodes (host_log h3)) \<and>
    open_calls (host_log h3) (surface_nodes (host_log h3)) = open_calls (host_log h2) (surface_nodes (host_log h2)) \<and>
    open_calls (host_log h2) (cr_seqs r) = 0 \<and> um_source m = compactCheckpointSource i (cp_command opts) \<and>
    project_nodes (host_log h3) (surface_nodes (host_log h3)) =
      project_nodes (host_log h2) pre @ [MUser m] @ project_nodes (host_log h2) post"
proof -
  have h: "host_ok h" using host_run_ok [OF host_start [OF assms(1)], of ks] assms(2) by simp
  note so = start_ok [OF h s]
  then have h1: "host_ok h1" and i: "pr_id p = i" by simp_all
  have h2: "host_ok h2" using host_run_ok [OF h1, of ks'] run by simp
  from finish_Inr [OF f] obtain a h4 h5 q z where st: "assertStable measured' p h2 = (Inr (), h4)"
    and c: "commitCompactionBody p a (checkpoint_message newId p (sa_blocks a)) t' u' h4 = (Inr q, h5)"
    and z: "host_append (CompactionEnd (pr_id p) (cp_command (pr_options p)) (pr_owner p) None) no_intent v h5 = (Inr z, h3)" and r: "r = result_of p q z"
    by metis
  have h4: "host_ok h4" "host_log h4 = host_log h2" using stable_ok [OF h2 st] by simp_all
  from stable_span [OF h run m s m' st] obtain cur where "span_ok (host_log h4) cur" "sl_start cur = sl_start (pr_selection p)"
    "sl_end cur = sl_end (pr_selection p)" "sl_seqs cur = sl_seqs (pr_selection p)" using h4(2) by auto
  note replaced = commit_replaces [OF h4(1) this c z, unfolded h4(2)]
  have r': "cr_seqs r = sl_seqs (pr_selection p)" "cr_summary_seq r = q" using r by (simp_all add: result_of_def)
  have "um_source (checkpoint_message newId p (sa_blocks a)) = compactCheckpointSource i (cp_command opts)"
    using so by (simp add: checkpoint_message_def)
  with replaced show ?thesis unfolding r' by blast
qed

section \<open>Committing\<close>

lemma commit_accepted:
  assumes h: "host_ok h" and span: "span_ok (host_log h) cur" "sl_start cur = sl_start (pr_selection p)"
      "sl_end cur = sl_end (pr_selection p)" "sl_seqs cur = sl_seqs (pr_selection p)"
    and q0: "pr_start_seq p \<notin> set (surface_nodes (host_log h))" "0 \<le> pr_start_seq p" "pr_start_seq p < int (length (host_log h))"
    and perm: "permits (snd t)" "permits (snd u)" and safe: "safe_int (int (length (host_log h)) + 1)"
  shows "\<exists>q h'. commitCompactionBody p a m t u h = (Inr q, h')"
proof -
  let ?d = "CompactionSummary (pr_id p) (cp_command (pr_options p)) (sa_facts a) (price_of p)" and ?n = "int (length (host_log h))"
  have "event_type_of ?d \<in> set markers" by (simp add: markers_def event_type_of_def)
  from marker_accepted [OF h perm(1) this] obtain h1 where a1: "host_append ?d no_intent t h = (Inr ?n, h1)" ..
  from host_append_ok [OF h a1] obtain e1 where h1: "host_ok h1" "host_log h1 = host_log h @ [e1]" by auto
  have n1: "surface_nodes (host_log h1) = surface_nodes (host_log h)" by (rule host_append_quiet [OF h a1])
  let ?i = "\<lparr>si_op = Some (replace_op (sl_start (pr_selection p)) (sl_end (pr_selection p))),
      si_sources = Some (seqs_json (pr_start_seq p # ?n # sl_seqs (pr_selection p)))\<rparr>"
  let ?e = "new_event (fst h1) (fst u) (UserMessage m) ?i"
  obtain reps where f: "foldSurface (host_log h1) = Inr (surface_nodes (host_log h), reps)"
    using host_fold [OF h1(1)] n1 by auto
  obtain reps0 where f0: "foldSurface (host_log h) = Inr (surface_nodes (host_log h), reps0)" using host_fold [OF h] ..
  note bounds = foldSurface_bounds [OF f0]
  have seqs: "sl_seqs (pr_selection p) = slice (sl_start_idx cur) (sl_end_idx cur + 1) (surface_nodes (host_log h))"
    and idx: "index_of (sl_start (pr_selection p)) (surface_nodes (host_log h)) = Some (sl_start_idx cur)"
      "index_of (sl_end (pr_selection p)) (surface_nodes (host_log h)) = Some (sl_end_idx cur)" "sl_start_idx cur \<le> sl_end_idx cur"
    using span by (simp_all add: span_ok_def Let_def)
  have sub: "set (sl_seqs (pr_selection p)) \<subseteq> set (surface_nodes (host_log h))" unfolding seqs by (rule set_slice_subset)
  have "distinct (sl_seqs (pr_selection p))" unfolding seqs slice_def using distinct_nodes [OF h] by simp
  then have dist: "distinct (pr_start_seq p # ?n # sl_seqs (pr_selection p))" using sub q0 bounds by auto
  have b: "list_all (\<lambda>q. 0 \<le> q \<and> q < int (length (host_log h1))) (pr_start_seq p # ?n # sl_seqs (pr_selection p))"
    using sub bounds q0(2,3) h1(2) by (fastforce simp: list_all_iff)
  have "is_ok (foldSurface (host_log h1 @ [?e]))"
    by (rule replace_fold_ok [OF f _ _ _ _ idx _ dist b])
      (use seqs h1(2) safe in \<open>auto simp: new_event_def add.commute assertToolResultRewrite_def ev_type_def event_type_of_def
        isSurfaceEligibleType_def SURFACE_EVENT_TYPES_def\<close>)
  then have "\<exists>h2. host_append (UserMessage m) ?i u h1 = (Inr (int (length (host_log h1))), h2)"
    by (intro host_append_accepts [OF h1(1) perm(2)]) (simp_all add: assertSupportedRequestHeader_def event_type_of_def)
  then obtain h2 where "host_append (UserMessage m) ?i u h1 = (Inr (int (length (host_log h1))), h2)" ..
  with a1 show ?thesis by (simp add: commitCompactionBody_def Let_def price_of_def)
qed

lemma node_eligible:
  assumes f: "foldSurface evs = Inr (nodes, reps)" and q: "q \<in> set nodes" and e: "event_at evs q = Some e"
  shows "isSurfaceEligibleType (ev_type e)"
proof -
  obtain st where inv: "surface_inv (evs, st, reps)" and n: "nodes = ss_nodes st" using foldSurface_Inr [OF f] by blast
  then have "mset nodes + mset (shadowed_all reps) = mset (eligible_seqs evs)" by (simp add: surface_inv_def)
  from arg_cong [OF this, of set_mset] q have "q \<in> set (eligible_seqs evs)" by auto
  then obtain e' where e': "e' \<in> set evs" "isSurfaceEligibleType (ev_type e')" "ev_seq e' = q"
    by (auto simp: eligible_seqs_def)
  then obtain k where k: "k < length evs" "evs ! k = e'" by (auto simp: in_set_conv_nth)
  have "map ev_seq evs ! k = map int [0..<length evs] ! k" using inv by (simp add: surface_inv_def)
  then have "ev_seq (evs ! k) = int k" using k(1) by simp
  then have "e = e'" using e e'(3) k by (auto simp: event_at_def split: if_splits)
  with e'(2) show ?thesis by simp
qed

lemma start_marker_hidden:
  assumes h: "host_ok h" and l: "host_log h = evs @ e # es" and e: "ev_data e = CompactionStart i c w"
  shows "int (length evs) \<notin> set (surface_nodes (host_log h))"
proof
  obtain reps where f: "foldSurface (host_log h) = Inr (surface_nodes (host_log h), reps)" using host_fold [OF h] ..
  assume "int (length evs) \<in> set (surface_nodes (host_log h))"
  moreover have "event_at (host_log h) (int (length evs)) = Some e" by (simp add: l event_at_def)
  ultimately have "isSurfaceEligibleType (ev_type e)" using node_eligible [OF f] by blast
  with e show False by (simp add: ev_type_def event_type_of_def isSurfaceEligibleType_def SURFACE_EVENT_TYPES_def)
qed

lemma finish_uncancelled:
  assumes "finish_compaction p answer estimate aborted measured newId text aborted' flushed t u v w h = (Inr r, h')"
  shows "\<not> (cp_standalone (pr_options p) \<and> (aborted \<or> aborted')) \<and> (cp_flush (pr_options p) \<longrightarrow> flushed)"
proof -
  obtain out h3 where out: "tx_body p answer estimate aborted measured newId t u v h = (out, h3)" by (rule prod.exhaust)
  show ?thesis
  proof (cases out)
    case (Inl f)
    obtain x stage closing where "f = (x, stage, closing)" by (rule prod_cases3)
    with assms out Inl show ?thesis
      by (auto simp: finish_compaction_def tx_catch_def Let_def split: if_splits prod.splits option.splits)
  next
    case (Inr qz)
    then have "\<not> (cp_standalone (pr_options p) \<and> aborted)"
      using out by (auto simp: tx_body_def split: sum.splits if_splits)
    with assms out Inr show ?thesis
      by (cases qz) (auto simp: finish_compaction_def catch_done split: if_splits)
  qed
qed

text \<open>C9. Nothing but its own checks stands in the way of a compaction: with its appends admitted, on a log
  short of the largest safe integer, and with a meter that lists the surface when the whole surface
  is compared, it succeeds exactly when the summarizer answered, the framed summary is smaller than
  what it replaces, the surface passes the stability check, a standalone caller cancelled neither
  before nor after the commit, and a durability checkpoint, if there is one, succeeds.\<close>

theorem compaction_commits_iff:
  assumes "construct hd0 seed now = Inr s0" and "foldl pairing_do (s0, None) ks = h"
    and m: "cp_whole opts \<longrightarrow> map pn_seq measured = surface_nodes (host_log h)"
    and s: "start_compaction opts aborted start fin i measured text aborted' flushed t u h = (Inr p, h1)"
    and run: "foldl pairing_do h1 ks' = h2"
    and m': "cp_whole opts \<longrightarrow> map pn_seq measured' = surface_nodes (host_log h2)"
    and perm: "permits (snd t')" "permits (snd u')" "permits (snd v)" and safe: "safe_int (int (length (host_log h2)) + 1)"
  shows "is_ok (fst (finish_compaction p answer estimate ab1 measured' newId text ab2 flushed' t' u' v w h2)) \<longleftrightarrow>
    is_ok answer \<and> estimate < pr_tokens p \<and> is_ok (fst (assertStable measured' p h2)) \<and>
    \<not> (cp_standalone opts \<and> (ab1 \<or> ab2)) \<and> (cp_flush opts \<longrightarrow> flushed')" (is "?done \<longleftrightarrow> ?checks")
proof
  assume ?done
  then obtain r h3 where r: "finish_compaction p answer estimate ab1 measured' newId text ab2 flushed' t' u' v w h2 = (Inr r, h3)"
    by (metis is_ok_iff prod.collapse)
  have h: "host_ok h" using host_run_ok [OF host_start [OF assms(1)], of ks] assms(2) by simp
  have "pr_options p = opts" using start_ok [OF h s] by simp
  with finish_uncancelled [OF r] have "\<not> (cp_standalone opts \<and> (ab1 \<or> ab2)) \<and> (cp_flush opts \<longrightarrow> flushed')" by simp
  moreover from finish_Inr [OF r] have "is_ok answer \<and> estimate < pr_tokens p \<and> is_ok (fst (assertStable measured' p h2))"
    by (metis fst_conv is_ok_iff)
  ultimately show ?checks by blast
next
  assume *: ?checks
  then obtain a h3 where a: "answer = Inr a" and st: "assertStable measured' p h2 = (Inr (), h3)"
    by (metis (full_types) is_ok_iff old.unit.exhaust prod.collapse)
  have h: "host_ok h" using host_run_ok [OF host_start [OF assms(1)], of ks] assms(2) by simp
  note so = start_ok [OF h s]
  then have h1: "host_ok h1" and q: "pr_start_seq p = int (length (host_log h))" by simp_all
  obtain e where e: "host_log h1 = host_log h @ [e]" "ev_data e = CompactionStart i (cp_command opts) (pr_owner p)" using so by blast
  obtain es where h2: "host_ok h2" and es: "host_log h2 = host_log h @ e # es" using host_run_ok [OF h1, of ks'] run e(1) by auto
  have h3: "host_ok h3" "host_log h3 = host_log h2" using stable_ok [OF h2 st] by simp_all
  from stable_span [OF h run m s m' st] obtain cur where span: "span_ok (host_log h3) cur" "sl_start cur = sl_start (pr_selection p)"
    "sl_end cur = sl_end (pr_selection p)" "sl_seqs cur = sl_seqs (pr_selection p)" using h3(2) by auto
  have start: "pr_start_seq p \<notin> set (surface_nodes (host_log h3))" "0 \<le> pr_start_seq p" "pr_start_seq p < int (length (host_log h3))"
    using start_marker_hidden [OF h2 es e(2)] q h3(2) es by simp_all
  have "safe_int (int (length (host_log h3)) + 1)" using safe h3(2) by simp
  from commit_accepted [OF h3(1) span start perm(1,2) this, of a "checkpoint_message newId p (sa_blocks a)"]
  obtain c h4 where c: "commitCompactionBody p a (checkpoint_message newId p (sa_blocks a)) t' u' h3 = (Inr c, h4)" by blast
  then have h4: "host_ok h4" using commit_log [OF h3(1) c] by simp
  obtain h5 where "host_append (CompactionEnd (pr_id p) (cp_command (pr_options p)) (pr_owner p) None) no_intent v h4 = (Inr (int (length (host_log h4))), h5)"
    using marker_logged [OF h4 perm(3)] by metis
  moreover have "pr_options p = opts" using so by simp
  ultimately show ?done
    using * a st c by (auto simp: finish_compaction_def tx_body_def catch_done)
qed

section \<open>Samples\<close>

definition sample_text :: "compaction_error \<Rightarrow> string" where
  "sample_text x = ''failed''"

definition started_host :: "(compaction_error, prepared_compaction) result \<times> host" where
  "started_host = start_compaction manual_options False 0 2 ''k'' priced_sample sample_text False True (4, Detached) (5, Detached) idle_host"

definition sample_prepared :: prepared_compaction where
  "sample_prepared = (case fst started_host of Inr p \<Rightarrow> p)"

text \<open>While the summarizer works, another message arrives.\<close>

definition waited_host :: host where
  "waited_host = foldl pairing_do (snd started_host)
     [OtherCall (CallAppend 6 (UserMessage \<lparr>um_id = ''n'', um_source = SrcUser, um_content = []\<rparr>) plain_append Detached)]"

definition sample_answer :: "string + summary_answer" where
  "sample_answer = Inr \<lparr>sa_blocks = [TextBlock ''sum''], sa_facts = JNull\<rparr>"

definition finished_host :: "(compaction_error, compaction_result) result \<times> host" where
  "finished_host = finish_compaction sample_prepared sample_answer 7 False priced_sample ''z'' sample_text False True
     (7, Detached) (7, Detached) (8, Detached) (9, Detached) waited_host"

definition failed_host :: "(compaction_error, compaction_result) result \<times> host" where
  "failed_host = finish_compaction sample_prepared (Inl ''no model'') 7 False priced_sample ''z'' sample_text False True
     (7, Detached) (7, Detached) (8, Detached) (9, Detached) waited_host"

lemma sample_start: "is_ok (fst started_host)"
  by code_simp

lemma sample_started:
  "start_compaction manual_options False 0 2 ''k'' priced_sample sample_text False True (4, Detached) (5, Detached) idle_host
     = (Inr sample_prepared, snd started_host)"
proof -
  obtain p where "fst started_host = Inr p" using sample_start by (auto simp: is_ok_iff)
  then show ?thesis by (simp add: sample_prepared_def started_host_def prod_eq_iff)
qed

lemma sample_command: "cp_command manual_options = None"
  by (simp add: manual_options_def)

lemma sample_permits: "permits (snd (n :: int, Detached))"
  by (simp add: permits_def)

lemma sample_failed: "finish_compaction sample_prepared (Inl ''no model'') 7 False priced_sample ''z'' sample_text False True
    (7, Detached) (7, Detached) (8, Detached) (9, Detached) waited_host = (fst failed_host, snd failed_host)"
  by (simp add: failed_host_def)


lemma sample_finish: "is_ok (fst finished_host) \<and> surface_nodes (host_log (snd finished_host)) = [6, 4]"
  by code_simp

lemma compaction_replaces_span_witness:
  "\<exists>r pre post (m :: user_message). fst finished_host = Inr r \<and> surface_nodes (host_log waited_host) = pre @ cr_seqs r @ post \<and>
     surface_nodes (host_log (snd finished_host)) = pre @ [cr_summary_seq r + 1] @ post \<and>
     um_source m = compactCheckpointSource ''k'' None"
proof -
  have "\<not> cp_whole manual_options" by (simp add: manual_options_def)
  then have n: "cp_whole manual_options \<longrightarrow> map pn_seq priced_sample = surface_nodes (host_log h)" for h by simp
  obtain r where r: "fst finished_host = Inr r" using sample_finish by (auto simp: is_ok_iff)
  then have "finish_compaction sample_prepared sample_answer 7 False priced_sample ''z'' sample_text False True
    (7, Detached) (7, Detached) (8, Detached) (9, Detached) waited_host = (Inr r, snd finished_host)"
    by (simp add: finished_host_def prod_eq_iff)
  from compaction_replaces_span [OF sample_session idle_host_def [symmetric] n sample_started waited_host_def [symmetric] n this]
  show ?thesis using r unfolding sample_command by blast
qed

lemma compaction_commits_iff_witness:
  "is_ok (fst finished_host) \<longleftrightarrow>
     is_ok sample_answer \<and> 7 < pr_tokens sample_prepared \<and> is_ok (fst (assertStable priced_sample sample_prepared waited_host))"
proof -
  have "\<not> cp_whole manual_options" by (simp add: manual_options_def)
  then have n: "cp_whole manual_options \<longrightarrow> map pn_seq priced_sample = surface_nodes (host_log h)" for h by simp
  have "safe_int (int (length (host_log waited_host)) + 1)" by code_simp
  from compaction_commits_iff [OF sample_session idle_host_def [symmetric] n sample_started waited_host_def [symmetric] n
      sample_permits sample_permits sample_permits this]
  show ?thesis unfolding finished_host_def by simp
qed

end
