(* ===== verification/Compaction_Trace.thy ===== *)
theory Compaction_Trace
  imports Compaction_Commit
begin

text \<open>
  The trace invariants of compaction (\<open>src/packages/compaction/compaction/src/invariant.ts\<close>): the
  companion that follows the bracket of a compaction along a session's log and vetoes what does not
  fit it. The lemmas show that it agrees with the durable lock of \<open>Compaction_Region\<close> and admits
  every event a transaction appends.
\<close>

section \<open>The trace\<close>

record compaction_trace =
  ct_id :: string
  ct_command :: "string option"
  ct_start_seq :: int
  ct_turn :: "int option"
  ct_summarized :: bool

record bracket_trace =
  bt_turn :: "int option"
  bt_compaction :: "compaction_trace option"

datatype compaction_transition =
    TransStart string "string option" int "int option"
  | TransSummary string "string option" int "int option"
  | TransEnd
  | TransEndSeed

datatype bracket_error =
    BadId
  | BadCommand
  | CommandMismatch
  | NoOpenStart
  | IdMismatch
  | CrossesBracket "int option"
  | StandaloneInTurn int
  | OutsideTurn int
  | WrongTurn int int
  | StillCompacting "int option"
  | SummaryRepeated
  | NoShadowed
  | RangeMismatch
  | BadTokenCount
  | OwnerMismatch
  | EndWithoutSummary
  | NotStaged

definition validateId :: "string \<Rightarrow> bracket_error \<Rightarrow> (bracket_error, unit) result" where
  "validateId i x = (if i = [] then Inl x else Inr ())"

definition validateCommand :: "string option \<Rightarrow> (bracket_error, unit) result" where
  "validateCommand c = (case c of None \<Rightarrow> Inr () | Some s \<Rightarrow> validateId s BadCommand)"

definition validateSourceCommandId :: "string option \<Rightarrow> string option \<Rightarrow> (bracket_error, unit) result" where
  "validateSourceCommandId c expected =
     rbind (validateCommand c) (\<lambda>_. if c \<noteq> expected then Inl CommandMismatch else Inr ())"

text \<open>The identities a checkpoint's source carries: the payload is read from the log unchecked.\<close>

definition source_id :: "json option \<Rightarrow> bracket_error \<Rightarrow> (bracket_error, string) result" where
  "source_id v x = (case as_str v of None \<Rightarrow> Inl x | Some s \<Rightarrow> rbind (validateId s x) (\<lambda>_. Inr s))"

definition source_command :: "json option \<Rightarrow> (bracket_error, string option) result" where
  "source_command v = (case v of None \<Rightarrow> Inr None | Some j \<Rightarrow> rbind (source_id v BadCommand) (\<lambda>s. Inr (Some s)))"

definition source_fields :: "message_source \<Rightarrow> fields" where
  "source_fields s = (case s of SrcPlugin name (JObj f) \<Rightarrow> f | _ \<Rightarrow> [])"

definition validateCheckpoint :: "bracket_trace \<Rightarrow> user_message \<Rightarrow> (bracket_error, unit) result" where
  "validateCheckpoint tr m =
     (let f = source_fields (um_source m) in
      rbind (source_id (jget f ''compactionId'') BadId) (\<lambda>i.
      rbind (source_command (jget f ''sourceCommandId'')) (\<lambda>c.
        case bt_compaction tr of
          None \<Rightarrow> Inl NoOpenStart
        | Some ct \<Rightarrow> if i \<noteq> ct_id ct then Inl IdMismatch else validateSourceCommandId c (ct_command ct))))"

text \<open>The opening markers that a later seed boundary makes stale.\<close>

fun orphan_starts :: "session_event list \<Rightarrow> int option \<Rightarrow> int list" where
  "orphan_starts [] q = []"
| "orphan_starts (e # es) q =
     (case ev_data e of
        CompactionStart i c n \<Rightarrow> orphan_starts es (Some (ev_seq e))
      | CompactionEnd i c n x \<Rightarrow> orphan_starts es None
      | EndSeed \<Rightarrow> (case q of None \<Rightarrow> [] | Some s \<Rightarrow> [s]) @ orphan_starts es None
      | _ \<Rightarrow> orphan_starts es q)"

definition inheritedOrphanStartSeqs :: "session_event list \<Rightarrow> int list" where
  "inheritedOrphanStartSeqs evs = orphan_starts evs None"

definition validateTurnBoundary :: "bracket_trace \<Rightarrow> session_event \<Rightarrow> (bracket_error, unit) result" where
  "validateTurnBoundary tr e =
     (case bt_compaction tr of
        None \<Rightarrow> Inr ()
      | Some ct \<Rightarrow>
          (case ev_data e of
             TurnStart t \<Rightarrow> Inl (CrossesBracket (ct_turn ct))
           | TurnEnd t r \<Rightarrow> Inl (CrossesBracket (ct_turn ct))
           | _ \<Rightarrow> Inr ()))"

definition applyTurnBoundary :: "bracket_trace \<Rightarrow> session_event \<Rightarrow> bool \<times> bracket_trace" where
  "applyTurnBoundary tr e =
     (case ev_data e of
        TurnStart t \<Rightarrow> (True, tr\<lparr>bt_turn := Some t\<rparr>)
      | TurnEnd t r \<Rightarrow> (True, tr\<lparr>bt_turn := None\<rparr>)
      | _ \<Rightarrow> (False, tr))"

definition validateOwner :: "int option \<Rightarrow> int option \<Rightarrow> (bracket_error, unit) result" where
  "validateOwner owner turn =
     (case owner of
        None \<Rightarrow> (case turn of None \<Rightarrow> Inr () | Some t \<Rightarrow> Inl (StandaloneInTurn t))
      | Some w \<Rightarrow> (case turn of None \<Rightarrow> Inl (OutsideTurn w) | Some t \<Rightarrow> if w \<noteq> t then Inl (WrongTurn w t) else Inr ()))"

definition validateStart :: "bracket_trace \<Rightarrow> session_event \<Rightarrow> string \<Rightarrow> string option \<Rightarrow> int option \<Rightarrow>
    (bracket_error, compaction_transition) result" where
  "validateStart tr e i c n =
     rbind (validateId i BadId) (\<lambda>_. rbind (validateCommand c) (\<lambda>_.
       case bt_compaction tr of
         Some ct \<Rightarrow> Inl (StillCompacting (ct_turn ct))
       | None \<Rightarrow> rbind (validateOwner n (bt_turn tr)) (\<lambda>_. Inr (TransStart i c (ev_seq e) n))))"

definition validateSummary :: "bracket_trace \<Rightarrow> string \<Rightarrow> string option \<Rightarrow> shadow_price \<Rightarrow>
    (bracket_error, compaction_transition) result" where
  "validateSummary tr i c price =
     rbind (validateId i BadId) (\<lambda>_. rbind (validateCommand c) (\<lambda>_.
       case bt_compaction tr of
         None \<Rightarrow> Inl NoOpenStart
       | Some ct \<Rightarrow>
           if i \<noteq> ct_id ct then Inl IdMismatch
           else rbind (validateSourceCommandId c (ct_command ct)) (\<lambda>_.
                rbind (validateOwner (ct_turn ct) (bt_turn tr)) (\<lambda>_.
                  if ct_summarized ct then Inl SummaryRepeated
                  else if sp_seqs price = [] then Inl NoShadowed
                  else if hd (sp_seqs price) \<noteq> sp_start price \<or> last (sp_seqs price) \<noteq> sp_end price then Inl RangeMismatch
                  else if \<not> safe_int (sp_tokens price) \<or> sp_tokens price < 0 then Inl BadTokenCount
                  else Inr (TransSummary (ct_id ct) (ct_command ct) (ct_start_seq ct) (ct_turn ct))))))"

definition validateEnd :: "bracket_trace \<Rightarrow> string \<Rightarrow> string option \<Rightarrow> int option \<Rightarrow> string option \<Rightarrow>
    (bracket_error, compaction_transition) result" where
  "validateEnd tr i c n x =
     rbind (validateId i BadId) (\<lambda>_. rbind (validateCommand c) (\<lambda>_.
       case bt_compaction tr of
         None \<Rightarrow> Inl NoOpenStart
       | Some ct \<Rightarrow>
           if i \<noteq> ct_id ct then Inl IdMismatch
           else rbind (validateSourceCommandId c (ct_command ct)) (\<lambda>_.
                  if n \<noteq> ct_turn ct then Inl OwnerMismatch
                  else rbind (validateOwner (ct_turn ct) (bt_turn tr)) (\<lambda>_.
                    if x = None \<and> \<not> ct_summarized ct then Inl EndWithoutSummary else Inr TransEnd))))"

definition validateCompactionEvent :: "bracket_trace \<Rightarrow> session_event \<Rightarrow> (bracket_error, compaction_transition option) result" where
  "validateCompactionEvent tr e =
     (case ev_data e of
        EndSeed \<Rightarrow> Inr (Some TransEndSeed)
      | UserMessage m \<Rightarrow>
          if isReplacementSurfaceEvent e \<and> isCompactCheckpointSource (um_source m)
          then rbind (validateCheckpoint tr m) (\<lambda>_. Inr None) else Inr None
      | CompactionStart i c n \<Rightarrow> rbind (validateStart tr e i c n) (\<lambda>t. Inr (Some t))
      | CompactionSummary i c facts price \<Rightarrow> rbind (validateSummary tr i c price) (\<lambda>t. Inr (Some t))
      | CompactionEnd i c n x \<Rightarrow> rbind (validateEnd tr i c n x) (\<lambda>t. Inr (Some t))
      | _ \<Rightarrow> Inr None)"

definition applyCompactionTransition :: "compaction_transition \<Rightarrow> compaction_trace option" where
  "applyCompactionTransition t =
     (case t of
        TransStart i c q n \<Rightarrow> Some \<lparr>ct_id = i, ct_command = c, ct_start_seq = q, ct_turn = n, ct_summarized = False\<rparr>
      | TransSummary i c q n \<Rightarrow> Some \<lparr>ct_id = i, ct_command = c, ct_start_seq = q, ct_turn = n, ct_summarized = True\<rparr>
      | _ \<Rightarrow> None)"

section \<open>Seeding and following a session\<close>

definition seed_step :: "int list \<Rightarrow> bracket_trace \<Rightarrow> session_event \<Rightarrow> (bracket_error, bracket_trace) result" where
  "seed_step stale tr e =
     rbind (case bt_compaction tr of
              Some ct \<Rightarrow> if ct_start_seq ct \<in> set stale then Inr () else validateTurnBoundary tr e
            | None \<Rightarrow> validateTurnBoundary tr e) (\<lambda>_.
     rbind (validateCompactionEvent tr e) (\<lambda>t.
       Inr (snd (applyTurnBoundary
         (case t of None \<Rightarrow> tr | Some t' \<Rightarrow> tr\<lparr>bt_compaction := applyCompactionTransition t'\<rparr>) e))))"

definition fresh_bracket :: bracket_trace where
  "fresh_bracket = \<lparr>bt_turn = None, bt_compaction = None\<rparr>"

definition seedBrackets :: "session_event list \<Rightarrow> (bracket_error, bracket_trace) result" where
  "seedBrackets evs = replay (seed_step (inheritedOrphanStartSeqs evs)) fresh_bracket evs"

text \<open>The two listeners of the live session: the dispatch stages, the commit applies.\<close>

record bracket_companion =
  br_trace :: bracket_trace
  br_staged :: "(session_event, compaction_transition) js_map"

definition bracket_dispatch :: "bracket_companion \<Rightarrow> session_event \<Rightarrow> (bracket_error, bracket_companion) result" where
  "bracket_dispatch c e =
     rbind (validateTurnBoundary (br_trace c) e) (\<lambda>_.
     rbind (validateCompactionEvent (br_trace c) e) (\<lambda>t.
       Inr (case t of None \<Rightarrow> c | Some t' \<Rightarrow> c\<lparr>br_staged := map_set e t' (br_staged c)\<rparr>)))"

definition bracket_commit :: "bracket_companion \<Rightarrow> session_event \<Rightarrow> (bracket_error, bracket_companion) result" where
  "bracket_commit c e =
     rbind (validateTurnBoundary (br_trace c) e) (\<lambda>_.
       let (boundary, tr) = applyTurnBoundary (br_trace c) e in
       if boundary then Inr (c\<lparr>br_trace := tr\<rparr>)
       else if ev_type e \<notin> {''session/end-seed'', ''compaction/start'', ''compaction/summary'', ''compaction/end''} then Inr c
       else case map_get (br_staged c) e of
              None \<Rightarrow> Inl NotStaged
            | Some t \<Rightarrow> Inr (c\<lparr>br_staged := map_delete e (br_staged c),
                              br_trace := (br_trace c)\<lparr>bt_compaction := applyCompactionTransition t\<rparr>\<rparr>))"

section \<open>One event\<close>

text \<open>A dispatch and its commit are one step of the seeding without stale markers.\<close>

definition bracket_step :: "bracket_trace \<Rightarrow> session_event \<Rightarrow> (bracket_error, bracket_trace) result" where
  "bracket_step = seed_step []"

lemma bracket_step_eq: "bracket_step tr e =
    rbind (validateTurnBoundary tr e) (\<lambda>_. rbind (validateCompactionEvent tr e) (\<lambda>t.
      Inr (snd (applyTurnBoundary (case t of None \<Rightarrow> tr | Some t' \<Rightarrow> tr\<lparr>bt_compaction := applyCompactionTransition t'\<rparr>) e))))"
  by (cases "bt_compaction tr") (simp_all add: bracket_step_def seed_step_def)

lemma staged_types: "validateCompactionEvent tr e = Inr (Some t) \<Longrightarrow>
    ev_type e \<in> {''session/end-seed'', ''compaction/start'', ''compaction/summary'', ''compaction/end''} \<and>
    (\<forall>tr. applyTurnBoundary tr e = (False, tr))"
  by (cases "ev_data e") (auto simp: validateCompactionEvent_def ev_type_def event_type_of_def applyTurnBoundary_def rbind_Inr_iff
      split: if_splits)

lemma bracket_live:
  assumes "bracket_dispatch c e = Inr c'" and "bracket_commit c' e = Inr c''" and "proper_event e"
  shows "bracket_step (br_trace c) e = Inr (br_trace c'')"
proof -
  from assms(1) obtain t where t: "validateTurnBoundary (br_trace c) e = Inr ()" "validateCompactionEvent (br_trace c) e = Inr t"
    "c' = (case t of None \<Rightarrow> c | Some t' \<Rightarrow> c\<lparr>br_staged := map_set e t' (br_staged c)\<rparr>)"
    by (auto simp: bracket_dispatch_def rbind_Inr_iff)
  show ?thesis
  proof (cases t)
    case (Some t')
    with staged_types [of "br_trace c" e t'] t assms(2) show ?thesis
      by (auto simp: bracket_step_eq bracket_commit_def map_get_set rbind_Inr_iff)
  next
    case None
    have "fst (applyTurnBoundary (br_trace c) e) \<or>
        ev_type e \<notin> {''session/end-seed'', ''compaction/start'', ''compaction/summary'', ''compaction/end''}"
      using t(2) None assms(3)
      by (cases "ev_data e") (auto simp: validateCompactionEvent_def ev_type_def event_type_of_def proper_event_def
          known_types_def rbind_Inr_iff split: if_splits)
    moreover have "fst (applyTurnBoundary (br_trace c) e) \<or> snd (applyTurnBoundary (br_trace c) e) = br_trace c"
      by (cases "ev_data e") (simp_all add: applyTurnBoundary_def)
    ultimately show ?thesis using None t assms(2)
      by (auto simp: bracket_step_eq bracket_commit_def Let_def rbind_Inr_iff split: prod.splits if_splits)
  qed
qed

section \<open>The trace and the lock\<close>

lemma seed_step_state:
  assumes "seed_step stale tr e = Inr tr'"
  shows "(bt_compaction tr' \<noteq> None) = lock_step e (bt_compaction tr \<noteq> None) \<and> bt_turn tr' = turn_step e (bt_turn tr)"
  using assms
  by (cases "ev_data e")
    (auto simp: seed_step_def validateCompactionEvent_def rbind_Inr_iff validateStart_def validateSummary_def validateEnd_def
      applyTurnBoundary_def applyCompactionTransition_def lock_step_def turn_step_def split: if_splits option.splits)

lemma seed_replay_state:
  "replay (seed_step stale) tr es = Inr tr' \<Longrightarrow>
     (bt_compaction tr' \<noteq> None) = fold lock_step es (bt_compaction tr \<noteq> None) \<and> bt_turn tr' = fold turn_step es (bt_turn tr)"
proof (induction es arbitrary: tr)
  case Nil
  then show ?case by simp
next
  case (Cons e es)
  then obtain tr1 where "seed_step stale tr e = Inr tr1" "replay (seed_step stale) tr1 es = Inr tr'"
    by (auto split: sum.splits)
  with Cons.IH [of tr1] seed_step_state [of stale tr e tr1] show ?case by simp
qed

text \<open>A session's trace: seeded from what the log held, then followed live.\<close>

definition session_brackets :: "session_event list \<Rightarrow> session_event list \<Rightarrow> (bracket_error, bracket_trace) result" where
  "session_brackets seeded live = rbind (seedBrackets seeded) (\<lambda>tr. replay bracket_step tr live)"

lemma brackets_state:
  assumes "session_brackets seeded live = Inr tr"
  shows "(bt_compaction tr \<noteq> None) = lock_held (seeded @ live) \<and> bt_turn tr = open_turn (seeded @ live)"
proof -
  from assms obtain tr0 where t: "replay (seed_step (inheritedOrphanStartSeqs seeded)) fresh_bracket seeded = Inr tr0"
    "replay (seed_step []) tr0 live = Inr tr"
    by (auto simp: session_brackets_def seedBrackets_def bracket_step_def rbind_Inr_iff)
  show ?thesis using seed_replay_state [OF t(1)] seed_replay_state [OF t(2)]
    by (simp add: fresh_bracket_def lock_held_def open_turn_def)
qed

text \<open>C12. The durable lock and the invariant companion agree: the backward scan of the log finds a
  compaction in progress, and a turn open, exactly when the companion that followed the session does.\<close>

theorem lock_agrees_with_companion:
  assumes "foldSurface (seeded @ live) = Inr (nodes, reps)" and "session_brackets seeded live = Inr tr"
  shows "(assertNoActiveCompaction (seeded @ live) \<longleftrightarrow> bt_compaction tr = None) \<and>
    en_turn (inspectCompactionEntryState (seeded @ live)) = bt_turn tr"
  using scan_exact [of "seeded @ live"] brackets_state [OF assms(2)] assms(1)
  by (auto simp: is_ok_iff assertNoActiveCompaction_def)

section \<open>The events of a transaction\<close>

definition in_bracket :: "prepared_compaction \<Rightarrow> bool \<Rightarrow> bracket_trace \<Rightarrow> bool" where
  "in_bracket p d tr \<longleftrightarrow> (\<exists>ct. bt_compaction tr = Some ct \<and> ct_id ct = pr_id p \<and>
     ct_command ct = cp_command (pr_options p) \<and> ct_turn ct = pr_owner p \<and> ct_summarized ct = d) \<and>
     bt_turn tr = pr_owner p \<and> pr_id p \<noteq> [] \<and> cp_command (pr_options p) \<noteq> Some []"

lemma owner_ok [simp]: "validateOwner w w = Inr ()"
  by (simp add: validateOwner_def split: option.split)

lemma command_ok: "c \<noteq> Some [] \<Longrightarrow> validateCommand c = Inr () \<and> validateSourceCommandId c c = Inr ()"
  by (auto simp: validateCommand_def validateSourceCommandId_def validateId_def split: option.splits)

lemma start_admitted:
  assumes "bt_compaction tr = None" "bt_turn tr = pr_owner p" "pr_id p \<noteq> []" "cp_command (pr_options p) \<noteq> Some []"
    and "ev_data e = CompactionStart (pr_id p) (cp_command (pr_options p)) (pr_owner p)"
  shows "\<exists>tr'. bracket_step tr e = Inr tr' \<and> in_bracket p False tr'"
  using assms command_ok [OF assms(4)]
  by (simp add: bracket_step_eq validateTurnBoundary_def validateCompactionEvent_def validateStart_def validateId_def
      applyCompactionTransition_def applyTurnBoundary_def in_bracket_def)

lemma summary_admitted:
  assumes b: "in_bracket p False tr" and e: "summary_of p e" and s: "sl_seqs (pr_selection p) \<noteq> []"
    "hd (sl_seqs (pr_selection p)) = sl_start (pr_selection p)" "last (sl_seqs (pr_selection p)) = sl_end (pr_selection p)"
    and t: "safe_int (pr_tokens p)" "0 \<le> pr_tokens p"
  shows "\<exists>tr'. bracket_step tr e = Inr tr' \<and> in_bracket p True tr'"
  using assms command_ok [of "cp_command (pr_options p)"]
  by (auto simp: in_bracket_def summary_of_def bracket_step_eq validateTurnBoundary_def validateCompactionEvent_def validateSummary_def
      validateId_def price_of_def applyCompactionTransition_def applyTurnBoundary_def)

lemma checkpoint_admitted:
  assumes b: "in_bracket p d tr" and e: "checkpoint_of p m e"
    and m: "um_source m = compactCheckpointSource (pr_id p) (cp_command (pr_options p))"
  shows "bracket_step tr e = Inr tr"
proof -
  have "source_id (Some (JStr (pr_id p))) BadId = Inr (pr_id p)" "source_command (map_option JStr (cp_command (pr_options p))) = Inr (cp_command (pr_options p))"
    using b by (auto simp: in_bracket_def source_id_def source_command_def validateId_def split: option.splits)
  then have "validateCheckpoint tr m = Inr ()"
    using b command_ok [of "cp_command (pr_options p)"]
    by (auto simp: validateCheckpoint_def m source_fields_def compactCheckpointSource_def opt_field_def jget_def in_bracket_def
        split: option.splits)
  with b e show ?thesis
    by (auto simp: bracket_step_eq checkpoint_of_def validateTurnBoundary_def validateCompactionEvent_def applyTurnBoundary_def
        in_bracket_def)
qed

lemma end_admitted:
  assumes b: "in_bracket p d tr" and d: "x = None \<longrightarrow> d"
    and e: "ev_data e = CompactionEnd (pr_id p) (cp_command (pr_options p)) (pr_owner p) x"
  shows "bracket_step tr e = Inr (tr\<lparr>bt_compaction := None\<rparr>)"
  using assms command_ok [of "cp_command (pr_options p)"]
  by (auto simp: in_bracket_def bracket_step_eq validateTurnBoundary_def validateCompactionEvent_def validateEnd_def
      validateId_def applyCompactionTransition_def applyTurnBoundary_def)

text \<open>What others may append while a compaction waits.\<close>

definition bystander :: "session_event \<Rightarrow> bool" where
  "bystander e \<longleftrightarrow> (case ev_data e of
       TurnStart t \<Rightarrow> False | TurnEnd t r \<Rightarrow> False | EndSeed \<Rightarrow> False | CompactionStart i c n \<Rightarrow> False
     | CompactionSummary i c j sp \<Rightarrow> False | CompactionEnd i c n x \<Rightarrow> False
     | UserMessage m \<Rightarrow> \<not> (isReplacementSurfaceEvent e \<and> isCompactCheckpointSource (um_source m)) | _ \<Rightarrow> True)"

lemma bystander_step: "bystander e \<Longrightarrow> bracket_step tr e = Inr tr"
  by (cases "ev_data e") (auto simp: bystander_def bracket_step_eq validateTurnBoundary_def validateCompactionEvent_def
      applyTurnBoundary_def split: option.splits)

lemma bystanders_step: "list_all bystander es \<Longrightarrow> replay bracket_step tr es = Inr tr"
  by (induction es) (simp_all add: bystander_step)

lemma finish_admitted:
  assumes h: "host_ok h" and v: "permits (snd v)" and w: "permits (snd w)" and b: "in_bracket p False tr"
    and s: "sl_seqs (pr_selection p) \<noteq> []" "hd (sl_seqs (pr_selection p)) = sl_start (pr_selection p)"
      "last (sl_seqs (pr_selection p)) = sl_end (pr_selection p)"
    and t: "safe_int (pr_tokens p)" "0 \<le> pr_tokens p"
    and f: "finish_compaction p answer estimate ab1 measured newId text ab2 flushed t' u' v w h = (r, h')"
  shows "\<exists>es tr'. host_log h' = host_log h @ es \<and> replay bracket_step tr es = Inr tr' \<and> bt_compaction tr' = None"
proof -
  obtain out h4 where out: "tx_body p answer estimate ab1 measured newId t' u' v h = (out, h4)" by (rule prod.exhaust)
  note bk = body_ok [OF h v out]
  show ?thesis
  proof (cases out)
    case (Inl y)
    obtain x stage closing where y: "y = (x, stage, closing)" by (rule prod_cases3)
    from bk Inl y have b4: "host_ok h4" "\<not> closing"
      and l4: "host_log h4 = host_log h \<or> (\<exists>e1. host_log h4 = host_log h @ [e1] \<and> summary_of p e1)" by auto
    obtain es tr1 d where es: "host_log h4 = host_log h @ es" "replay bracket_step tr es = Inr tr1" "in_bracket p d tr1"
    proof (cases "host_log h4 = host_log h")
      case True
      with b that [of "[]" tr False] show ?thesis by simp
    next
      case False
      with l4 obtain e1 where e1: "host_log h4 = host_log h @ [e1]" "summary_of p e1" by blast
      with summary_admitted [OF b e1(2) s t] that [of "[e1]"] show ?thesis by auto
    qed
    have "tx_catch (pr_id p) (pr_owner p) (pr_options p) (Inl (x, stage, False)) text ab2 flushed w h4 = (r, h')"
      using f out Inl y b4(2) by (simp add: finish_compaction_def)
    from catch_ok [OF b4(1) w this] obtain e where e: "host_log h' = host_log h4 @ [e]"
      "ev_data e = CompactionEnd (pr_id p) (cp_command (pr_options p)) (pr_owner p) (Some (text x))" by blast
    have "bracket_step tr1 e = Inr (tr1\<lparr>bt_compaction := None\<rparr>)" by (rule end_admitted [OF es(3) _ e(2)]) simp
    with es e(1) show ?thesis
      by (intro exI [of _ "es @ [e]"] exI [of _ "tr1\<lparr>bt_compaction := None\<rparr>"]) (simp add: replay_append)
  next
    case (Inr qz)
    obtain q z where qz: "qz = (q, z)" by (rule prod.exhaust)
    from bk Inr qz obtain e1 e2 e m where e: "host_log h4 = host_log h @ [e1, e2, e]" "summary_of p e1" "checkpoint_of p m e2"
      "um_source m = compactCheckpointSource (pr_id p) (cp_command (pr_options p))"
      "ev_data e = CompactionEnd (pr_id p) (cp_command (pr_options p)) (pr_owner p) None" by auto
    obtain tr1 where t1: "bracket_step tr e1 = Inr tr1" "in_bracket p True tr1" using summary_admitted [OF b e(2) s t] by blast
    have t2: "bracket_step tr1 e2 = Inr tr1" by (rule checkpoint_admitted [OF t1(2) e(3,4)])
    have t3: "bracket_step tr1 e = Inr (tr1\<lparr>bt_compaction := None\<rparr>)" by (rule end_admitted [OF t1(2) _ e(5)]) simp
    have "h' = h4" using f out Inr qz by (auto simp: finish_compaction_def tx_catch_def Let_def split: if_splits)
    with e(1) t1(1) t2 t3 show ?thesis
      by (intro exI [of _ "[e1, e2, e]"] exI [of _ "tr1\<lparr>bt_compaction := None\<rparr>"]) simp
  qed
qed

lemma span_ends:
  assumes "span_ok evs sel"
  shows "sl_seqs sel \<noteq> [] \<and> hd (sl_seqs sel) = sl_start sel \<and> last (sl_seqs sel) = sl_end sel"
proof -
  let ?nodes = "surface_nodes evs" and ?i = "sl_start_idx sel" and ?j = "sl_end_idx sel"
  have i: "?i \<le> ?j" "?j < length ?nodes" "?nodes ! ?i = sl_start sel" "?nodes ! ?j = sl_end sel"
    and s: "sl_seqs sel = slice ?i (?j + 1) ?nodes"
    using assms index_of_Some [of "sl_start sel" ?nodes] index_of_Some [of "sl_end sel" ?nodes] by (auto simp: span_ok_def Let_def)
  have "length (sl_seqs sel) = ?j + 1 - ?i" using i s by (simp add: slice_def)
  moreover from this have "sl_seqs sel \<noteq> []" using i by (metis Suc_eq_plus1 Suc_diff_le length_0_conv nat.distinct(1))
  moreover have "sl_seqs sel ! k = ?nodes ! (?i + k)" if "k < ?j + 1 - ?i" for k using that i s by (simp add: slice_def)
  ultimately show ?thesis using i by (simp add: hd_conv_nth last_conv_nth)
qed

text \<open>C8. The companion vetoes nothing a compaction does: if it followed the session up to a transaction and
  nothing else that concerns turns or compactions is appended while the summarizer works, it admits
  every event the transaction appends, and has no compaction open afterwards. The identifiers of the
  transaction are not empty, the price of the span is a safe non-negative integer, and nothing else
  refuses the closing append: a marker that cannot be closed stays open, as the code documents.\<close>

theorem companion_admits_transaction:
  assumes "construct hd0 seed now = Inr s0" and "foldl pairing_do (s0, None) ks = h"
    and tr: "session_brackets seeded live = Inr tr" and l: "host_log h = seeded @ live"
    and s: "start_compaction opts aborted start fin i measured text aborted' flushed t u h = (Inr p, h1)"
    and ids: "i \<noteq> []" "cp_command opts \<noteq> Some []" and tok: "safe_int (pr_tokens p)" "0 \<le> pr_tokens p"
    and run: "foldl pairing_do h1 ks' = h2" and by': "list_all bystander (drop (length (host_log h1)) (host_log h2))"
    and v: "permits (snd v)" and w: "permits (snd w)"
    and f: "finish_compaction p answer estimate ab1 measured' newId text ab2 flushed' t' u' v w h2 = (r, h3)"
  shows "\<exists>es tr'. host_log h3 = seeded @ live @ es \<and> session_brackets seeded (live @ es) = Inr tr' \<and> bt_compaction tr' = None"
proof -
  have h: "host_ok h" using host_run_ok [OF host_start [OF assms(1)], of ks] assms(2) by simp
  note so = start_ok [OF h s]
  then have h1: "host_ok h1" by simp
  obtain e where e: "host_log h1 = host_log h @ [e]" "ev_data e = CompactionStart i (cp_command opts) (pr_owner p)" using so by blast
  obtain es where h2: "host_ok h2" and es: "host_log h2 = host_log h1 @ es" using host_run_ok [OF h1, of ks'] run by auto
  have "bt_compaction tr = None" "bt_turn tr = pr_owner p" using brackets_state [OF tr] so l by auto
  from start_admitted [OF this, of e] so ids e(2) obtain tr1 where t1: "bracket_step tr e = Inr tr1" "in_bracket p False tr1" by auto
  have t2: "replay bracket_step tr1 es = Inr tr1" using by' es by (intro bystanders_step) simp
  have "span_ok (host_log h) (pr_selection p)" using so by simp
  from span_ends [OF this] finish_admitted [OF h2 v w t1(2) _ _ _ tok f] obtain fs tr2 where
    fs: "host_log h3 = host_log h2 @ fs" "replay bracket_step tr1 fs = Inr tr2" "bt_compaction tr2 = None" by blast
  have "session_brackets seeded (live @ e # es @ fs) = Inr tr2"
    using tr t1(1) t2 fs(2) by (auto simp: session_brackets_def rbind_Inr_iff replay_append)
  with fs es e(1) l show ?thesis by (intro exI [of _ "e # es @ fs"] exI [of _ tr2]) simp
qed

lemma sample_brackets: "session_brackets [] (host_log idle_host) = Inr fresh_bracket"
  by code_simp

lemma lock_agrees_with_companion_witness: "assertNoActiveCompaction (host_log idle_host)"
proof -
  have "is_ok (foldSurface ([] @ host_log idle_host))" by code_simp
  then obtain nodes reps where "foldSurface ([] @ host_log idle_host) = Inr (nodes, reps)" by (auto simp: is_ok_iff)
  from lock_agrees_with_companion [OF this sample_brackets] show ?thesis by (simp add: fresh_bracket_def)
qed

lemma companion_admits_transaction_witness:
  "\<exists>es tr'. host_log (snd finished_host) = [] @ host_log idle_host @ es \<and>
     session_brackets [] (host_log idle_host @ es) = Inr tr' \<and> bt_compaction tr' = None"
proof -
  have ids: "''k'' \<noteq> []" "cp_command manual_options \<noteq> Some []" by (simp_all add: sample_command)
  have tok: "safe_int (pr_tokens sample_prepared)" "0 \<le> pr_tokens sample_prepared" by code_simp+
  have by': "list_all bystander (drop (length (host_log (snd started_host))) (host_log waited_host))" by code_simp
  have f: "finish_compaction sample_prepared sample_answer 7 False priced_sample ''z'' sample_text False True
    (7, Detached) (7, Detached) (8, Detached) (9, Detached) waited_host = (fst finished_host, snd finished_host)"
    by (simp add: finished_host_def)
  show ?thesis
    by (rule companion_admits_transaction [OF sample_session idle_host_def [symmetric] sample_brackets _ sample_started ids tok
        waited_host_def [symmetric] by' sample_permits sample_permits f]) simp
qed

end
