(* ===== verification/Result_Pruner.thy ===== *)
theory Result_Pruner
  imports Compaction_Region
begin

text \<open>
  The pruning of long tool results (\<open>src/packages/compaction/compaction-tool-result-pruner/src/index.ts\<close> and
  \<open>config.ts\<close>): the middle of an over-budget text gives way to a marker, and the pass over a session
  replaces each such result on the surface. A character of a text stands for one code point. The
  lemmas give the pruned content in closed form, and show that the pass keeps every position and
  call of the surface and leaves nothing more to prune.
\<close>

section \<open>Configuration\<close>

definition PRUNE_MARKER :: string where
  "PRUNE_MARKER = [CHR 0x0A, CHR 0x0A] @ ''[... tool result middle pruned ...]'' @ [CHR 0x0A, CHR 0x0A]"

record prune_config =
  pc_threshold :: int
  pc_head :: int
  pc_tail :: int

datatype prune_error =
    UnknownKey string
  | NotPositive string
  | NotNonNegative string
  | BudgetExceeded int
  | NoRemovedSpan
  | NotWithinBudget
  | PruneAppend compaction_error
  | PruneSurface session_error

definition DEFAULTS :: prune_config where
  "DEFAULTS = \<lparr>pc_threshold = 8192, pc_head = 4096, pc_tail = 1024\<rparr>"

definition CONFIG_KEYS :: "string list" where
  "CONFIG_KEYS = [''thresholdChars'', ''headChars'', ''tailChars'']"

text \<open>\<open>config.key ?? fallback\<close>.\<close>

definition or_default :: "json option \<Rightarrow> int \<Rightarrow> json" where
  "or_default v n = (case v of None \<Rightarrow> JInt n | Some JNull \<Rightarrow> JInt n | Some j \<Rightarrow> j)"

definition assertPositiveInteger :: "string \<Rightarrow> json \<Rightarrow> (prune_error, int) result" where
  "assertPositiveInteger name v = (case v of JInt n \<Rightarrow> if n \<le> 0 then Inl (NotPositive name) else Inr n | _ \<Rightarrow> Inl (NotPositive name))"

definition assertNonNegativeInteger :: "string \<Rightarrow> json \<Rightarrow> (prune_error, int) result" where
  "assertNonNegativeInteger name v = (case v of JInt n \<Rightarrow> if n < 0 then Inl (NotNonNegative name) else Inr n | _ \<Rightarrow> Inl (NotNonNegative name))"

definition resolveConfig :: "fields \<Rightarrow> (prune_error, prune_config) result" where
  "resolveConfig f =
     (case find (\<lambda>k. k \<notin> set CONFIG_KEYS) (map fst f) of
        Some k \<Rightarrow> Inl (UnknownKey k)
      | None \<Rightarrow>
          rbind (assertPositiveInteger ''thresholdChars'' (or_default (jget f ''thresholdChars'') (pc_threshold DEFAULTS))) (\<lambda>t.
          rbind (assertNonNegativeInteger ''headChars'' (or_default (jget f ''headChars'') (pc_head DEFAULTS))) (\<lambda>a.
          rbind (assertNonNegativeInteger ''tailChars'' (or_default (jget f ''tailChars'') (pc_tail DEFAULTS))) (\<lambda>z.
            let emitted = a + int (length PRUNE_MARKER) + z in
            if t < emitted then Inl (BudgetExceeded emitted)
            else Inr \<lparr>pc_threshold = t, pc_head = a, pc_tail = z\<rparr>))))"

section \<open>Content\<close>

fun measureContent :: "content_block list \<Rightarrow> int" where
  "measureContent [] = 0"
| "measureContent (b # bs) = (case b of TextBlock s \<Rightarrow> int (length s) | _ \<Rightarrow> 0) + measureContent bs"

text \<open>The loop over the blocks, from \<open>consumed\<close> characters on; \<open>marked\<close>: the marker is placed.\<close>

fun prune_blocks :: "int \<Rightarrow> int \<Rightarrow> content_block list \<Rightarrow> int \<Rightarrow> bool \<Rightarrow> content_block list \<times> bool" where
  "prune_blocks removedStart removedEnd [] consumed marked = ([], marked)"
| "prune_blocks removedStart removedEnd (b # bs) consumed marked =
     (case b of
        TextBlock s \<Rightarrow>
          (let blockEnd = consumed + int (length s);
               headEnd = min (int (length s)) (max 0 (removedStart - consumed));
               tailStart = min (int (length s)) (max 0 (removedEnd - consumed));
               here = (consumed < removedEnd \<and> removedStart < blockEnd \<and> \<not> marked);
               txt = take (nat headEnd) s @ (if here then PRUNE_MARKER else []) @ drop (nat tailStart) s;
               (rest, m) = prune_blocks removedStart removedEnd bs blockEnd (marked \<or> here)
           in (if txt = [] then rest else TextBlock txt # rest, m))
      | _ \<Rightarrow> (let (rest, m) = prune_blocks removedStart removedEnd bs consumed marked in (b # rest, m)))"

definition pruneContent :: "prune_config \<Rightarrow> content_block list \<Rightarrow> (prune_error, content_block list option) result" where
  "pruneContent c blocks =
     (let before = measureContent blocks in
      if before \<le> pc_threshold c then Inr None
      else case prune_blocks (pc_head c) (before - pc_tail c) blocks 0 False of
        (pruned, marked) \<Rightarrow>
          if \<not> marked then Inl NoRemovedSpan
          else if pc_threshold c < measureContent pruned \<or> before \<le> measureContent pruned then Inl NotWithinBudget
          else Inr (Some pruned))"

section \<open>The pass over a session\<close>

record pruned_entry =
  pe_original :: int
  pe_replacement :: int
  pe_call :: string
  pe_before :: int
  pe_after :: int

text \<open>The tool results of the surface as the pass begins.\<close>

fun prune_candidates :: "session_event list \<Rightarrow> int list \<Rightarrow> (int \<times> tool_result_data) list" where
  "prune_candidates evs [] = []"
| "prune_candidates evs (q # qs) =
     (case event_at evs q of
        Some e \<Rightarrow> (case ev_data e of ToolResult d \<Rightarrow> [(q, d)] | _ \<Rightarrow> [])
      | None \<Rightarrow> []) @ prune_candidates evs qs"

definition with_content :: "tool_result_data \<Rightarrow> content_block list \<Rightarrow> tool_result_data" where
  "with_content d bs = d\<lparr>tr_message := (tr_message d)\<lparr>tm_content := bs\<rparr>\<rparr>"

text \<open>
  The loop over the candidates. \<open>estimate\<close> is the token meter's price of a message, \<open>at'\<close> gives
  each append its time and attachment.
\<close>

fun prune_loop ::
    "prune_config \<Rightarrow> (tool_result_message \<Rightarrow> int) \<Rightarrow> (nat \<Rightarrow> clock) \<Rightarrow> nat \<Rightarrow> (int \<times> tool_result_data) list \<Rightarrow> host \<Rightarrow>
       (prune_error, pruned_entry list \<times> int) result \<times> host" where
  "prune_loop c estimate at' k [] h = (Inr ([], 0), h)"
| "prune_loop c estimate at' k ((q, d) # cs) h =
     (case pruneContent c (tm_content (tr_message d)) of
        Inl x \<Rightarrow> (Inl x, h)
      | Inr None \<Rightarrow> prune_loop c estimate at' k cs h
      | Inr (Some content) \<Rightarrow>
          let before = measureContent (tm_content (tr_message d)); after = measureContent content in
          (case host_append (CompactionPrune \<lparr>sp_start = q, sp_end = q, sp_seqs = [q], sp_tokens = estimate (tr_message d)\<rparr>)
                  no_intent (at' k) h of
             (Inl x, h1) \<Rightarrow> (Inl (PruneAppend x), h1)
           | (Inr p, h1) \<Rightarrow>
               (case host_append (ToolResult (with_content d content))
                       \<lparr>si_op = Some (replace_op q q), si_sources = Some (seqs_json [q])\<rparr> (at' (Suc k)) h1 of
                  (Inl x, h2) \<Rightarrow> (Inl (PruneAppend x), h2)
                | (Inr r, h2) \<Rightarrow>
                    (case prune_loop c estimate at' (Suc (Suc k)) cs h2 of
                       (Inl x, h3) \<Rightarrow> (Inl x, h3)
                     | (Inr (es, n), h3) \<Rightarrow>
                         (Inr (\<lparr>pe_original = q, pe_replacement = r, pe_call = tm_source_call (tr_message d),
                                pe_before = before, pe_after = after\<rparr> # es, (before - after) + n), h3)))))"

definition pruneSession ::
    "prune_config \<Rightarrow> (tool_result_message \<Rightarrow> int) \<Rightarrow> (nat \<Rightarrow> clock) \<Rightarrow> host \<Rightarrow>
       (prune_error, pruned_entry list \<times> int) result \<times> host" where
  "pruneSession c estimate at' h =
     (case host_surface h of
        (Inl x, h1) \<Rightarrow> (Inl (PruneSurface x), h1)
      | (Inr nodes, h1) \<Rightarrow> prune_loop c estimate at' 0 (prune_candidates (host_log h1) nodes) h1)"

section \<open>The pruned content\<close>

definition texts :: "content_block list \<Rightarrow> string" where
  "texts bs = concat (map (\<lambda>b. case b of TextBlock s \<Rightarrow> s | _ \<Rightarrow> []) bs)"

definition is_text :: "content_block \<Rightarrow> bool" where
  "is_text b = (case b of TextBlock s \<Rightarrow> True | _ \<Rightarrow> False)"

definition rich_blocks :: "content_block list \<Rightarrow> content_block list" where
  "rich_blocks bs = filter (\<lambda>b. \<not> is_text b) bs"

lemma measure_texts: "measureContent bs = int (length (texts bs))"
  by (induction bs) (auto simp: texts_def split: content_block.split)

lemma texts_simps [simp]:
  "texts [] = []" "texts (TextBlock s # bs) = s @ texts bs" "\<not> is_text b \<Longrightarrow> texts (b # bs) = texts bs"
  by (auto simp: texts_def is_text_def split: content_block.splits)

lemma rich_simps [simp]:
  "rich_blocks [] = []" "rich_blocks (TextBlock s # bs) = rich_blocks bs" "\<not> is_text b \<Longrightarrow> rich_blocks (b # bs) = b # rich_blocks bs"
  by (auto simp: rich_blocks_def is_text_def)

lemma prune_rich: "\<not> is_text b \<Longrightarrow> prune_blocks rs re (b # bs) n m =
    (b # fst (prune_blocks rs re bs n m), snd (prune_blocks rs re bs n m))"
  by (cases b) (simp_all add: is_text_def split: prod.split)

lemma prune_text: "prune_blocks rs re (TextBlock s # bs) n m =
    (let here = (n < re \<and> rs < n + int (length s) \<and> \<not> m);
         txt = take (nat (rs - n)) s @ (if here then PRUNE_MARKER else []) @ drop (nat (re - n)) s;
         r = prune_blocks rs re bs (n + int (length s)) (m \<or> here)
     in (if txt = [] then fst r else TextBlock txt # fst r, snd r))"
proof -
  have m: "nat (min (int (length s)) (max 0 x)) = min (length s) (nat x)" for x by linarith
  have t: "take (nat (min (int (length s)) (max 0 x))) s = take (nat x) s" for x
    unfolding m by (cases "nat x \<le> length s") simp_all
  have d: "drop (nat (min (int (length s)) (max 0 x))) s = drop (nat x) s" for x
    unfolding m by (cases "nat x \<le> length s") simp_all
  show ?thesis by (simp only: prune_blocks.simps content_block.case t d Let_def case_prod_beta)
qed

lemma texts_cons: "texts (if s = [] then bs else TextBlock s # bs) = s @ texts bs"
  by simp

lemma rich_cons: "rich_blocks (if s = [] then bs else TextBlock s # bs) = rich_blocks bs"
  by simp

declare prune_blocks.simps(2) [simp del]

lemma block_cases: obtains (plain) s where "b = TextBlock s" | (rich) "\<not> is_text b"
  by (cases b) (simp_all add: is_text_def)

lemma prune_rich_kept: "rich_blocks (fst (prune_blocks rs re bs n m)) = rich_blocks bs"
proof (induction bs arbitrary: n m)
  case (Cons b bs)
  then show ?case
    by (cases b rule: block_cases) (simp_all add: prune_text Let_def prune_rich)
qed simp

lemma nat_shift: "nat (x - (n + int k)) = nat (x - n) - k"
  by arith

text \<open>Once the marker is placed the rest of the texts loses what falls into the removed span.\<close>

lemma prune_marked:
  "rs \<le> re \<Longrightarrow> snd (prune_blocks rs re bs n True) \<and>
     texts (fst (prune_blocks rs re bs n True)) = take (nat (rs - n)) (texts bs) @ drop (nat (re - n)) (texts bs)"
proof (induction bs arbitrary: n)
  case Nil
  then show ?case by simp
next
  case (Cons b bs)
  show ?case
  proof (cases b rule: block_cases)
    case (plain s)
    have "take (nat (rs - n) - length s) (texts bs) = [] \<or> drop (nat (re - n)) s = []"
      using Cons.prems by auto
    with Cons.IH [OF Cons.prems, of "n + int (length s)"] plain show ?thesis
      by (auto simp: prune_text Let_def nat_shift)
  next
    case rich
    with Cons show ?thesis by (simp add: prune_rich)
  qed
qed

lemma prune_open:
  "n \<le> rs \<Longrightarrow> rs < re \<Longrightarrow> snd (prune_blocks rs re bs n False) = (rs < n + measureContent bs) \<and>
     texts (fst (prune_blocks rs re bs n False)) =
       take (nat (rs - n)) (texts bs) @ (if rs < n + measureContent bs then PRUNE_MARKER else []) @ drop (nat (re - n)) (texts bs)"
proof (induction bs arbitrary: n)
  case Nil
  then show ?case by simp
next
  case (Cons b bs)
  show ?case
  proof (cases b rule: block_cases)
    case rich
    then have "measureContent (b # bs) = measureContent bs" by (simp add: measure_texts)
    with rich Cons show ?thesis by (simp add: prune_rich)
  next
    case (plain s)
    have m: "measureContent (b # bs) = int (length s) + measureContent bs" "0 \<le> measureContent bs"
      using plain by (simp_all add: measure_texts)
    show ?thesis
    proof (cases "rs < n + int (length s)")
      case True
      then have "take (nat (rs - n) - length s) (texts bs) = []" by simp
      with True m plain Cons.prems prune_marked [of rs re bs "n + int (length s)"] show ?thesis
        by (auto simp: prune_text Let_def nat_shift)
    next
      case False
      then have "drop (nat (re - n)) s = []" using Cons.prems by simp
      with False m plain Cons.prems Cons.IH [of "n + int (length s)"] show ?thesis
        by (auto simp: prune_text Let_def nat_shift algebra_simps)
    qed
  qed
qed

text \<open>Budgets a resolved configuration guarantees.\<close>

definition budgets_ok :: "prune_config \<Rightarrow> bool" where
  "budgets_ok c \<longleftrightarrow> 0 \<le> pc_head c \<and> 0 \<le> pc_tail c \<and> pc_head c + int (length PRUNE_MARKER) + pc_tail c \<le> pc_threshold c"

lemma resolve_ok: "resolveConfig f = Inr c \<Longrightarrow> budgets_ok c"
  by (auto simp: resolveConfig_def rbind_Inr_iff Let_def budgets_ok_def assertPositiveInteger_def assertNonNegativeInteger_def
      split: option.splits if_splits json.splits)

lemma marker_length: "0 < length PRUNE_MARKER"
  by (simp add: PRUNE_MARKER_def)

lemma prune_content_ok:
  assumes c: "budgets_ok c" and over: "pc_threshold c < measureContent bs"
  shows "\<exists>out. pruneContent c bs = Inr (Some out) \<and> rich_blocks out = rich_blocks bs \<and>
    texts out = take (nat (pc_head c)) (texts bs) @ PRUNE_MARKER @ drop (length (texts bs) - nat (pc_tail c)) (texts bs) \<and>
    measureContent out = pc_head c + int (length PRUNE_MARKER) + pc_tail c"
proof -
  let ?n = "measureContent bs"
  have b: "0 \<le> pc_head c" "0 \<le> pc_tail c" "pc_head c + int (length PRUNE_MARKER) + pc_tail c \<le> pc_threshold c"
    using c by (simp_all add: budgets_ok_def)
  then have lt: "pc_head c < ?n - pc_tail c" "pc_head c < 0 + ?n" using over marker_length by linarith+
  obtain out m where o': "prune_blocks (pc_head c) (?n - pc_tail c) bs 0 False = (out, m)" by (rule prod.exhaust)
  have "nat (?n - pc_tail c) = length (texts bs) - nat (pc_tail c)" using b(2) by (simp add: measure_texts nat_diff_distrib')
  with prune_open [OF b(1) lt(1), of bs] lt(2) o' have m: m and
    t: "texts out = take (nat (pc_head c)) (texts bs) @ PRUNE_MARKER @ drop (length (texts bs) - nat (pc_tail c)) (texts bs)" by simp_all
  have "measureContent out = pc_head c + int (length PRUNE_MARKER) + pc_tail c"
    using t b over marker_length by (simp add: measure_texts)
  moreover have "rich_blocks out = rich_blocks bs" using prune_rich_kept [of "pc_head c" "?n - pc_tail c" bs 0 False] o' by simp
  ultimately show ?thesis using o' m t b over by (simp add: pruneContent_def Let_def)
qed

section \<open>One replacement\<close>

text \<open>The metadata of a result is a JSON object of the log, so its keys are distinct.\<close>

definition meta_wf :: "session_event \<Rightarrow> bool" where
  "meta_wf e \<longleftrightarrow> (case ev_data e of ToolResult d \<Rightarrow> (case tr_meta d of None \<Rightarrow> True | Some j \<Rightarrow> wf_json j) | _ \<Rightarrow> True)"

lemma rest_with_content: "tool_result_rest (with_content d bs) = tool_result_rest d"
  by (simp add: tool_result_rest_def with_content_def Let_def)

lemma rest_wf: "(case tr_meta d of None \<Rightarrow> True | Some j \<Rightarrow> wf_json j) \<Longrightarrow> wf_json (tool_result_rest d)"
  by (auto simp: tool_result_rest_def Let_def opt_field_def split: option.splits)

lemma list_all_at: "list_all P evs \<Longrightarrow> event_at evs q = Some e \<Longrightarrow> P e"
  by (auto simp: event_at_def list_all_length split: if_splits)

lemma rewrite_step:
  assumes h: "host_ok h" and perm: "permits (snd t)" "permits (snd u)" and safe: "safe_int (int (length (host_log h)) + 1)"
    and nodes: "surface_nodes (host_log h) = pre @ q # post" and e: "event_at (host_log h) q = Some e" "ev_data e = ToolResult d"
    and wf: "meta_wf e"
  obtains h1 h2 e1 e2 where
    "host_append (CompactionPrune price) no_intent t h = (Inr (int (length (host_log h))), h1)"
    "host_append (ToolResult (with_content d out)) \<lparr>si_op = Some (replace_op q q), si_sources = Some (seqs_json [q])\<rparr> u h1
       = (Inr (int (length (host_log h)) + 1), h2)"
    "host_ok h2" "host_log h2 = host_log h @ [e1, e2]" "ev_data e2 = ToolResult (with_content d out)"
    "surface_nodes (host_log h2) = pre @ (int (length (host_log h)) + 1) # post"
proof -
  let ?n = "int (length (host_log h))" and ?d = "ToolResult (with_content d out)"
  let ?i = "\<lparr>si_op = Some (replace_op q q), si_sources = Some (seqs_json [q])\<rparr>"
  have "event_type_of (CompactionPrune price) \<in> set markers" by (simp add: markers_def event_type_of_def)
  from marker_accepted [OF h perm(1) this] obtain h1 where a1: "host_append (CompactionPrune price) no_intent t h = (Inr ?n, h1)" ..
  from host_append_ok [OF h a1] obtain e1 where h1: "host_ok h1" "host_log h1 = host_log h @ [e1]" by auto
  have n1: "surface_nodes (host_log h1) = pre @ q # post" using host_append_quiet [OF h a1] nodes by simp
  obtain reps where f: "foldSurface (host_log h1) = Inr (pre @ q # post, reps)" using host_fold [OF h1(1)] n1 by auto
  have "distinct (pre @ q # post)" using distinct_nodes [OF h1(1)] n1 by simp
  then have idx: "index_of q (pre @ q # post) = Some (length pre)"
    using index_of_nth [of "pre @ q # post" "length pre"] by simp
  have sl: "slice (length pre) (length pre + 1) (pre @ q # post) = [q]" by (simp add: slice_def)
  have bound: "0 \<le> q" "q < ?n" using e(1) by (auto simp: event_at_def split: if_splits)
  let ?e = "new_event (fst h1) (fst u) ?d ?i"
  have at1: "event_at (host_log h1) q = Some e" using e(1) bound h1(2) event_at_append by simp
  have "wf_json (tool_result_rest d)" using wf e(2) by (intro rest_wf) (simp add: meta_wf_def)
  then have rewrite: "assertToolResultRewrite ?e (slice (length pre) (length pre + 1) (pre @ q # post)) (host_log h1) 0 = Inr ()"
    unfolding sl using at1 e(2) by (simp add: assertToolResultRewrite_def new_event_def rest_with_content deep_equal_refl)
  have "is_ok (foldSurface (host_log h1 @ [?e]))"
    by (rule replace_fold_ok [OF f _ _ _ _ idx idx _ _ _ _ _ rewrite, where qs = "[q]"])
      (use bound safe h1(2) sl in \<open>auto simp: new_event_def add.commute ev_type_def event_type_of_def isSurfaceEligibleType_def
         SURFACE_EVENT_TYPES_def\<close>)
  then have "\<exists>h2. host_append ?d ?i u h1 = (Inr (int (length (host_log h1))), h2)"
    by (intro host_append_accepts [OF h1(1) perm(2)]) (simp_all add: assertSupportedRequestHeader_def event_type_of_def)
  then obtain h2 where a2: "host_append ?d ?i u h1 = (Inr (?n + 1), h2)" using h1(2) by (auto simp: add.commute)
  from host_append_ok [OF h1(1) a2] have h2: "host_ok h2" "host_log h2 = host_log h1 @ [?e]" by simp_all
  have "is_ok (foldSurface (host_log h1 @ [?e]))" using h2 by (simp add: host_ok_def session_ok_def)
  from replace_nodes [OF this, of q q] n1 idx have "surface_nodes (host_log h2) = splice (length pre) 1 [?n + 1] (pre @ q # post)"
    using h2(2) h1(2) by (auto simp: new_event_def add.commute)
  then have "surface_nodes (host_log h2) = pre @ (?n + 1) # post" by (simp add: splice_def)
  with a1 a2 h2 h1(2) that show thesis by (simp add: new_event_def)
qed

section \<open>The pass\<close>

definition over_budget :: "prune_config \<Rightarrow> session_event list \<Rightarrow> int \<Rightarrow> bool" where
  "over_budget c evs q \<longleftrightarrow> (case event_at evs q of None \<Rightarrow> False
     | Some e \<Rightarrow> (case ev_data e of ToolResult d \<Rightarrow> pc_threshold c < measureContent (tm_content (tr_message d)) | _ \<Rightarrow> False))"

text \<open>A position of the surface before and after: untouched, or the same result with its content pruned.\<close>

definition pruned_as :: "prune_config \<Rightarrow> session_event list \<Rightarrow> session_event list \<Rightarrow> int \<Rightarrow> int \<Rightarrow> bool" where
  "pruned_as c evs evs' q r \<longleftrightarrow>
     (if over_budget c evs q
      then int (length evs) \<le> r \<and> (\<exists>e d out e'. event_at evs q = Some e \<and> ev_data e = ToolResult d \<and>
        pruneContent c (tm_content (tr_message d)) = Inr (Some out) \<and>
        event_at evs' r = Some e' \<and> ev_data e' = ToolResult (with_content d out))
      else r = q)"

lemma pruned_as_grow: "pruned_as c evs evs' q r \<Longrightarrow> pruned_as c evs (evs' @ fs) q r"
  unfolding pruned_as_def
  by (cases "over_budget c evs q") (auto simp: event_at_def nth_append split: if_splits)

lemma candidate_cases:
  obtains (other) "prune_candidates evs (q # qs) = prune_candidates evs qs" "\<not> over_budget c evs q"
  | (result) e d where "event_at evs q = Some e" "ev_data e = ToolResult d"
      "prune_candidates evs (q # qs) = (q, d) # prune_candidates evs qs"
      "over_budget c evs q \<longleftrightarrow> pc_threshold c < measureContent (tm_content (tr_message d))"
proof (cases "event_at evs q")
  case None
  then show thesis using other by (simp add: over_budget_def)
next
  case (Some e)
  then show thesis using other result by (cases "ev_data e") (simp_all add: over_budget_def)
qed

definition landed :: "pruned_entry list \<Rightarrow> (int \<times> int) list" where
  "landed es = map (\<lambda>e. (pe_original e, pe_replacement e)) es"

lemma prune_loop_ok:
  assumes c: "budgets_ok c" and perm: "\<forall>k. permits (snd (at' k))" and wf: "list_all meta_wf evs"
  shows "host_ok h \<Longrightarrow> host_log h = evs @ es \<Longrightarrow> surface_nodes (host_log h) = pre @ qs \<Longrightarrow>
      \<forall>q \<in> set qs. 0 \<le> q \<and> q < int (length evs) \<Longrightarrow> safe_int (int (length (host_log h)) + 2 * int (length qs)) \<Longrightarrow>
    \<exists>entries h' rs fs. prune_loop c estimate at' k (prune_candidates evs qs) h =
        (Inr (entries, sum_list (map (\<lambda>e. pe_before e - pe_after e) entries)), h') \<and>
      host_ok h' \<and> host_log h' = evs @ es @ fs \<and> surface_nodes (host_log h') = pre @ rs \<and>
      list_all2 (pruned_as c evs (host_log h')) qs rs \<and> landed entries = filter (\<lambda>(q, r). q \<noteq> r) (zip qs rs)"
proof (induction qs arbitrary: h es pre k)
  case Nil
  then show ?case by (simp add: landed_def)
next
  case (Cons q qs)
  have bq: "0 \<le> q" "q < int (length evs)" and bqs: "\<forall>q \<in> set qs. 0 \<le> q \<and> q < int (length evs)" using Cons.prems(4) by simp_all
  have skip: ?case if "prune_loop c estimate at' k (prune_candidates evs (q # qs)) h = prune_loop c estimate at' k (prune_candidates evs qs) h"
    "\<not> over_budget c evs q"
  proof -
    have "safe_int (int (length (host_log h)) + 2 * int (length qs))"
      using Cons.prems(5) by (rule safe_int_mono) simp_all
    with Cons.IH [of h es "pre @ [q]" k] Cons.prems bqs obtain entries h' rs fs where
      ih: "prune_loop c estimate at' k (prune_candidates evs qs) h = (Inr (entries, sum_list (map (\<lambda>e. pe_before e - pe_after e) entries)), h')"
      "host_ok h'" "host_log h' = evs @ es @ fs" "surface_nodes (host_log h') = pre @ q # rs"
      "list_all2 (pruned_as c evs (host_log h')) qs rs" "landed entries = filter (\<lambda>(q, r). q \<noteq> r) (zip qs rs)" by auto
    have "pruned_as c evs (host_log h') q q" using that(2) by (simp add: pruned_as_def)
    with ih that(1) show ?thesis
      by (intro exI [of _ entries] exI [of _ h'] exI [of _ "q # rs"] exI [of _ fs]) simp
  qed
  show ?case
  proof (cases rule: candidate_cases [of evs q qs c])
    case other
    then show ?thesis by (intro skip) simp_all
  next
    case (result e d)
    show ?thesis
    proof (cases "over_budget c evs q")
      case False
      with result have "pruneContent c (tm_content (tr_message d)) = Inr None" by (simp add: pruneContent_def)
      with result False show ?thesis by (intro skip) simp_all
    next
      case True
      with result prune_content_ok [OF c] obtain out where out: "pruneContent c (tm_content (tr_message d)) = Inr (Some out)" by blast
      have at_h: "event_at (host_log h) q = Some e" using result(1) Cons.prems(2) bq event_at_append by simp
      have "safe_int (int (length (host_log h)) + 1)" using Cons.prems(5) by (rule safe_int_mono) simp_all
      moreover have "permits (snd (at' k))" "permits (snd (at' (Suc k)))" using perm by simp_all
      ultimately obtain h1 h2 e1 e2 where step:
        "host_append (CompactionPrune \<lparr>sp_start = q, sp_end = q, sp_seqs = [q], sp_tokens = estimate (tr_message d)\<rparr>) no_intent (at' k) h
           = (Inr (int (length (host_log h))), h1)"
        "host_append (ToolResult (with_content d out)) \<lparr>si_op = Some (replace_op q q), si_sources = Some (seqs_json [q])\<rparr> (at' (Suc k)) h1
           = (Inr (int (length (host_log h)) + 1), h2)"
        "host_ok h2" "host_log h2 = host_log h @ [e1, e2]" "ev_data e2 = ToolResult (with_content d out)"
        "surface_nodes (host_log h2) = pre @ (int (length (host_log h)) + 1) # qs"
        using rewrite_step [OF Cons.prems(1) _ _ _ Cons.prems(3) at_h result(2) list_all_at [OF wf result(1)]] by metis
      let ?r = "int (length (host_log h)) + 1"
      have "safe_int (int (length (host_log h2)) + 2 * int (length qs))" using Cons.prems(5) step(4) by (simp add: algebra_simps)
      with Cons.IH [of h2 "es @ [e1, e2]" "pre @ [?r]" "Suc (Suc k)"] step(3,4,6) Cons.prems(2) bqs obtain entries h' rs fs where
        ih: "prune_loop c estimate at' (Suc (Suc k)) (prune_candidates evs qs) h2 = (Inr (entries, sum_list (map (\<lambda>e. pe_before e - pe_after e) entries)), h')"
        "host_ok h'" "host_log h' = host_log h2 @ fs" "surface_nodes (host_log h') = pre @ ?r # rs"
        "list_all2 (pruned_as c evs (host_log h')) qs rs" "landed entries = filter (\<lambda>(q, r). q \<noteq> r) (zip qs rs)" by auto
      let ?entry = "\<lparr>pe_original = q, pe_replacement = ?r, pe_call = tm_source_call (tr_message d),
         pe_before = measureContent (tm_content (tr_message d)), pe_after = measureContent out\<rparr>"
      have loop: "prune_loop c estimate at' k (prune_candidates evs (q # qs)) h =
          (Inr (?entry # entries, sum_list (map (\<lambda>e. pe_before e - pe_after e) (?entry # entries))), h')"
        using result(3) out step(1,2) ih(1) by (simp add: Let_def)
      have "event_at (host_log h') ?r = Some e2" using ih(3) step(4) by (simp add: event_at_def nth_append nat_add_distrib)
      then have "pruned_as c evs (host_log h') q ?r"
        using True result(1,2) out step(5) Cons.prems(2) by (auto simp: pruned_as_def)
      moreover have "q \<noteq> ?r" using bq Cons.prems(2) by simp
      moreover have "host_log h' = evs @ es @ (e1 # e2 # fs)" using ih(3) step(4) Cons.prems(2) by simp
      ultimately show ?thesis using loop ih
        by (intro exI [of _ "?entry # entries"] exI [of _ h'] exI [of _ "?r # rs"] exI [of _ "e1 # e2 # fs"]) (simp add: landed_def)
    qed
  qed
qed

lemma pruned_delta:
  assumes p: "pruned_as c evs evs' q r" and g: "evs' = evs @ fs" and q: "0 \<le> q" "q < int (length evs)"
  shows "node_delta evs' r = node_delta evs q"
proof (cases "over_budget c evs q")
  case True
  with p obtain e d out e' where "event_at evs q = Some e" "ev_data e = ToolResult d" "event_at evs' r = Some e'"
    "ev_data e' = ToolResult (with_content d out)" by (auto simp: pruned_as_def)
  then show ?thesis by (simp add: node_delta_def eventDelta_def)
next
  case False
  with p g q node_delta_append show ?thesis by (simp add: pruned_as_def)
qed

lemma pruned_climbs:
  "list_all2 (\<lambda>q r. node_delta evs' r = node_delta evs q) qs rs \<Longrightarrow> climbs evs' n rs = climbs evs n qs"
  by (induction qs rs arbitrary: n rule: list_all2_induct) simp_all

lemma pruned_within:
  assumes c: "budgets_ok c" and p: "pruned_as c evs evs' q r" and g: "evs' = evs @ fs" and q: "0 \<le> q" "q < int (length evs)"
  shows "\<not> over_budget c evs' r"
proof (cases "over_budget c evs q")
  case False
  with p g q show ?thesis by (auto simp: pruned_as_def over_budget_def event_at_append)
next
  case True
  with p obtain e d out e' where e: "event_at evs q = Some e" "ev_data e = ToolResult d"
    "pruneContent c (tm_content (tr_message d)) = Inr (Some out)" "event_at evs' r = Some e'"
    "ev_data e' = ToolResult (with_content d out)" by (auto simp: pruned_as_def)
  have "measureContent out \<le> pc_threshold c"
    using e(3) by (auto simp: pruneContent_def Let_def split: if_splits prod.splits)
  with e(4,5) show ?thesis by (simp add: over_budget_def with_content_def)
qed

lemma loop_idle:
  "\<forall>q \<in> set qs. \<not> over_budget c evs q \<Longrightarrow> prune_loop c estimate at' k (prune_candidates evs qs) h = (Inr ([], 0), h)"
proof (induction qs)
  case Nil
  then show ?case by simp
next
  case (Cons q qs)
  show ?case
  proof (cases rule: candidate_cases [of evs q qs c])
    case other
    with Cons show ?thesis by simp
  next
    case (result e d)
    with Cons have "pruneContent c (tm_content (tr_message d)) = Inr None" by (simp add: pruneContent_def)
    with result Cons show ?thesis by simp
  qed
qed

section \<open>Properties\<close>

text \<open>C15. Under any configuration that resolves, pruning never fails: content within the threshold is left, and of
  longer content exactly the configured head and tail of its whole text remain around one marker, the
  other blocks in their order, smaller than before and within the threshold, so that pruning again
  does nothing.\<close>

theorem prune_content_spec:
  assumes "resolveConfig f = Inr c"
  shows "(measureContent bs \<le> pc_threshold c \<and> pruneContent c bs = Inr None) \<or>
    (pc_threshold c < measureContent bs \<and> (\<exists>out. pruneContent c bs = Inr (Some out) \<and> rich_blocks out = rich_blocks bs \<and>
       texts out = take (nat (pc_head c)) (texts bs) @ PRUNE_MARKER @ drop (length (texts bs) - nat (pc_tail c)) (texts bs) \<and>
       measureContent out < measureContent bs \<and> pruneContent c out = Inr None))"
proof (cases "pc_threshold c < measureContent bs")
  case False
  then show ?thesis by (simp add: pruneContent_def)
next
  case True
  have c: "budgets_ok c" by (rule resolve_ok [OF assms])
  from prune_content_ok [OF c True] obtain out where out: "pruneContent c bs = Inr (Some out)" "rich_blocks out = rich_blocks bs"
    "texts out = take (nat (pc_head c)) (texts bs) @ PRUNE_MARKER @ drop (length (texts bs) - nat (pc_tail c)) (texts bs)"
    "measureContent out = pc_head c + int (length PRUNE_MARKER) + pc_tail c" by blast
  moreover have "measureContent out \<le> pc_threshold c" using out(4) c by (simp add: budgets_ok_def)
  ultimately show ?thesis using True by (auto simp: pruneContent_def)
qed

text \<open>C14. A pass over a session succeeds when its appends are admitted, the results of the log have
  well-formed metadata and the log is short of the largest safe integer: every position of the surface holds
  what it held or, for exactly the results over the threshold, the same result with pruned content; the
  report lists the replacements in surface order with the characters saved; no call loses its result;
  and a second pass finds nothing to do.\<close>

theorem prune_session_spec:
  assumes "construct hd0 seed now = Inr s0" and "foldl pairing_do (s0, None) ks = h" and cfg: "resolveConfig f = Inr c"
    and perm: "\<forall>k. permits (snd (at' k))" and wf: "list_all meta_wf (host_log h)"
    and safe: "safe_int (int (length (host_log h)) + 2 * int (length (surface_nodes (host_log h))))"
  shows "\<exists>entries h'. pruneSession c estimate at' h = (Inr (entries, sum_list (map (\<lambda>e. pe_before e - pe_after e) entries)), h') \<and>
    list_all2 (pruned_as c (host_log h) (host_log h')) (surface_nodes (host_log h)) (surface_nodes (host_log h')) \<and>
    landed entries = filter (\<lambda>(q, r). q \<noteq> r) (zip (surface_nodes (host_log h)) (surface_nodes (host_log h'))) \<and>
    paired (host_log h') (surface_nodes (host_log h')) = paired (host_log h) (surface_nodes (host_log h)) \<and>
    fst (pruneSession c estimate at' h') = Inr ([], 0)"
proof -
  have h: "host_ok h" using host_run_ok [OF host_start [OF assms(1)], of ks] assms(2) by simp
  have c: "budgets_ok c" by (rule resolve_ok [OF cfg])
  let ?evs = "host_log h" and ?nodes = "surface_nodes (host_log h)"
  obtain h1 where h1: "host_surface h = (Inr ?nodes, h1)" "host_ok h1" "host_log h1 = ?evs" using host_surface_ok [OF h] by blast
  obtain reps where f: "foldSurface ?evs = Inr (?nodes, reps)" using host_fold [OF h] ..
  note bounds = foldSurface_bounds [OF f]
  have "\<exists>entries h' rs fs. prune_loop c estimate at' 0 (prune_candidates ?evs ?nodes) h1 =
        (Inr (entries, sum_list (map (\<lambda>e. pe_before e - pe_after e) entries)), h') \<and>
      host_ok h' \<and> host_log h' = ?evs @ [] @ fs \<and> surface_nodes (host_log h') = [] @ rs \<and>
      list_all2 (pruned_as c ?evs (host_log h')) ?nodes rs \<and> landed entries = filter (\<lambda>(q, r). q \<noteq> r) (zip ?nodes rs)"
    by (rule prune_loop_ok [OF c perm wf h1(2)]) (use h1(3) bounds safe in simp_all)
  then obtain entries h2 rs fs where
    loop: "prune_loop c estimate at' 0 (prune_candidates ?evs ?nodes) h1 = (Inr (entries, sum_list (map (\<lambda>e. pe_before e - pe_after e) entries)), h2)"
    and h2: "host_ok h2" "host_log h2 = ?evs @ fs" "surface_nodes (host_log h2) = rs"
    and rel: "list_all2 (pruned_as c ?evs (host_log h2)) ?nodes rs" "landed entries = filter (\<lambda>(q, r). q \<noteq> r) (zip ?nodes rs)"
    unfolding append_Nil by blast
  have first: "pruneSession c estimate at' h = (Inr (entries, sum_list (map (\<lambda>e. pe_before e - pe_after e) entries)), h2)"
    using h1 loop by (simp add: pruneSession_def)
  have "list_all2 (\<lambda>q r. node_delta (host_log h2) r = node_delta ?evs q) ?nodes rs"
    by (rule list.rel_mono_strong [OF rel(1)]) (use pruned_delta [OF _ h2(2)] bounds in blast)
  from pruned_climbs [OF this] have pair: "paired (host_log h2) rs = paired ?evs ?nodes" by (simp add: paired_climbs)
  have "\<not> over_budget c (host_log h2) r" if "r \<in> set rs" for r
  proof -
    from that obtain k where k: "k < length rs" "rs ! k = r" by (auto simp: in_set_conv_nth)
    with rel(1) have "pruned_as c ?evs (host_log h2) (?nodes ! k) r" "?nodes ! k \<in> set ?nodes"
      by (auto simp: list_all2_conv_all_nth)
    with pruned_within [OF c _ h2(2)] bounds show ?thesis by blast
  qed
  then have idle: "prune_loop c estimate at' 0 (prune_candidates (host_log h2) rs) x = (Inr ([], 0), x)" for x
    by (intro loop_idle) blast
  obtain h3 where "host_surface h2 = (Inr rs, h3)" "host_log h3 = host_log h2" using host_surface_ok [OF h2(1)] h2(3) by auto
  with idle have "fst (pruneSession c estimate at' h2) = Inr ([], 0)" by (simp add: pruneSession_def)
  with first rel pair h2(3) show ?thesis by (intro exI [of _ entries] exI [of _ h2]) simp
qed

section \<open>Samples\<close>

definition tight_fields :: fields where
  "tight_fields = [(''thresholdChars'', JInt 45), (''headChars'', JInt 2), (''tailChars'', JInt 1)]"

definition tight_config :: prune_config where
  "tight_config = \<lparr>pc_threshold = 45, pc_head = 2, pc_tail = 1\<rparr>"

lemma tight_resolved: "resolveConfig tight_fields = Inr tight_config"
  by code_simp

lemma prune_content_spec_witness:
  "\<exists>out. pruneContent tight_config [TextBlock (replicate 30 CHR ''a''), ImageBlock JNull, TextBlock (replicate 20 CHR ''b'')] = Inr (Some out) \<and>
     rich_blocks out = [ImageBlock JNull] \<and> texts out = ''aa'' @ PRUNE_MARKER @ ''b''"
proof -
  let ?bs = "[TextBlock (replicate 30 CHR ''a''), ImageBlock JNull, TextBlock (replicate 20 CHR ''b'')]"
  have n: "measureContent ?bs = 50" "pc_threshold tight_config = 45" by (simp_all add: tight_config_def)
  have t: "take (nat (pc_head tight_config)) (texts ?bs) = ''aa''" "rich_blocks ?bs = [ImageBlock JNull]"
    "drop (length (texts ?bs) - nat (pc_tail tight_config)) (texts ?bs) = ''b''" by code_simp+
  have big: "\<not> (50 :: int) \<le> 45" by simp
  from prune_content_spec [OF tight_resolved, of ?bs] show ?thesis unfolding n t using big by blast
qed

definition long_result :: tool_result_data where
  "long_result = \<lparr>tr_turn = 1, tr_step = 1,
     tr_message = \<lparr>tm_id = ''t'', tm_source_call = ''c'', tm_call = ''c'', tm_is_error = None,
       tm_content = [TextBlock (replicate 50 CHR ''x'')]\<rparr>,
     tr_error = None, tr_meta = None\<rparr>"

definition long_host :: host where
  "long_host = foldl pairing_do (empty_session sample_header, None)
     [OtherCall (CallAppend 1 (AssistantMessage 1 1 call_message None) plain_append Detached),
      OtherCall (CallAppend 2 (ToolResult long_result) plain_append Detached)]"

lemma long_pruned: "surface_nodes (host_log (snd (pruneSession tight_config (\<lambda>m. 9) (\<lambda>k. (5, Detached)) long_host))) = [0, 3]"
  by code_simp

lemma prune_session_spec_witness:
  "\<exists>entries n. fst (pruneSession tight_config (\<lambda>m. 9) (\<lambda>k. (5, Detached)) long_host) = Inr (entries, n) \<and> landed entries = [(1, 3)]"
proof -
  have perm: "\<forall>k. permits (snd ((\<lambda>k :: nat. (5 :: int, Detached)) k))" by (simp add: permits_def)
  have nodes: "surface_nodes (host_log long_host) = [0, 1]" by code_simp
  have wf: "list_all meta_wf (host_log long_host)" by code_simp
  have safe: "safe_int (int (length (host_log long_host)) + 2 * int (length (surface_nodes (host_log long_host))))" by code_simp
  from prune_session_spec [OF sample_session long_host_def [symmetric] tight_resolved perm wf safe, of "\<lambda>m. 9"] long_pruned
  show ?thesis unfolding nodes by auto
qed

end
