(* ===== verification/Spec2Isabelle.thy ===== *)
theory Spec2Isabelle
  imports Session_Surface Session_Header Session_Trace Session_Repair Session_Log Chunk_Rows Goal_Domain Goal_Service
    Agent_Inbox Consumed_Work Session_Envelope Session_Store Output_Retention Scope_Layers Jobs_Registry Tool_Scheduler
    Block_Assembler Agent_Driver Driver_Trace Driver_Outcomes Tool_Pairing Compaction_Region Compaction_Commit
    Compaction_Trace Result_Pruner
begin

text \<open>
  A model of the event-sourced core of the agent harness. The unit of durable state is the
  session log, an append-only list of events; everything else the program shows of a session
  (its model-visible surface, its request header, its goal, the messages pending in its inbox,
  the account of the work it consumed) is a fold of that log, kept incrementally beside it. What
  the library proves is mostly that the incremental, cached or stored forms agree with the folds,
  that every writer leaves a log the strict folds accept, and that what the runtime keeps outside
  the log (live sessions, background jobs, scoped listeners, retained output) follows its own
  life cycle.

  Parts, in the order of import:
  \<^item> \<open>JS_Prelude\<close>: results that may be an error (\<open>Inl\<close>), safe integers, insertion-ordered maps,
    strings, JSON values, numbers a caller may pass.
  \<^item> \<open>Event_Replay\<close>: the interface of a log projection, a step that may reject and its fold, as
    the locales \<open>projection\<close> and \<open>monotone_projection\<close>. The surface, the trace, the goal and the inbox
    interpret them on their own steps.
  \<^item> \<open>Session_Types\<close> (\<open>packages/core/session/src/types.ts\<close>): messages, headers and events.
  \<^item> \<open>Session_Surface\<close> (\<open>core/session/src/surface.ts\<close>): the complete fold of the surface and the
    incremental manager. The log is partitioned into what is shown and what was shadowed; the
    manager gives the verdict of the fold; a rewrite of a tool result changes only its content.
  \<^item> \<open>Session_Header\<close> (\<open>core/session/src/request-header.ts\<close>): canonical headers and their equality.
  \<^item> \<open>Session_Trace\<close> (\<open>core/session/src/invariant.ts\<close>): turns, steps and calls of an accepted log.
  \<^item> \<open>Session_Repair\<close> (\<open>core/session/src/repair.ts\<close>): the closers of an interrupted log, accepted by
    both the trace and the surface.
  \<^item> \<open>Session_Log\<close> (\<open>core/session/src/index.ts\<close>, \<open>Session\<close>): construction, append and cached
    reads, which equal the folds after any calls.
  \<^item> \<open>Chunk_Rows\<close> (\<open>core/session/src/chunk-rows.ts\<close>): storage rows of delta runs, lossless.
  \<^item> \<open>Session_Envelope\<close> (\<open>core/session/src/types.ts\<close>, header and envelope checks): the
    headers the validator accepts and the shape of stored messages.
  \<^item> \<open>Session_Store\<close> (\<open>core/session/src/index.ts\<close>, \<open>SessionStore\<close>): the live sessions.
  \<^item> \<open>Goal_Domain\<close>, \<open>Goal_Service\<close> (\<open>packages/goal/goal/src\<close>): the strict codec and fold of goal
    changes, and the compare-and-set service that appends them.
  \<^item> \<open>Agent_Inbox\<close> (\<open>core/agent/src/inbox.ts\<close>): pending messages, replayed from the log.
  \<^item> \<open>Consumed_Work\<close> (\<open>core/agent/src/consumed-work.ts\<close>): the single pass against its specification.
  \<^item> \<open>Text_Codec\<close>, \<open>Output_Retention\<close> (\<open>packages/util/output-retention/src/index.ts\<close>): UTF-8 and
    the retainers of bounded output.
  \<^item> \<open>Scope_Layers\<close> (\<open>packages/core/scope/src\<close>): scope chains and the tables layered by them; the
    locale \<open>scope_layer\<close> is the contract between a layered registry and its layers.
  \<^item> \<open>Jobs_Registry\<close> (\<open>packages/jobs/jobs-local/src/index.ts\<close>): background jobs, which interpret that
    locale on their own layer.
  \<^item> \<open>Tool_Scheduler\<close> (\<open>packages/core/agent-loop/src/tool-calls.ts\<close>): the state machine whose places
    are the awaits of \<open>executeToolCalls\<close> and \<open>runGroup\<close>: calls are answered in the order of the model,
    at most the pool's size run at once, every run ends, and the trace accepts what it appends.
  \<^item> \<open>Block_Assembler\<close> (\<open>packages/llm/llm/src/assembler.ts\<close>): stream chunks into content blocks,
    against a reference that assembles each block from its own chunks alone.
  \<^item> \<open>Agent_Driver\<close> (\<open>packages/core/agent-loop/src/agent.ts\<close>, \<open>ReactLoopAgent\<close>): phases, public calls,
    the turn and step loop and the building of requests, as transitions between the awaits over the
    session, the inbox, the assembler and the scheduler of the theories above. \<open>Driver_Trace\<close>: the trace
    accepts the driver's log and stands where the driver does; a driver at rest is what a restart
    builds. \<open>Driver_Outcomes\<close>: requests derived from the log they were begun on, the endings of turns,
    and the wakes that open another turn.
  \<^item> \<open>Tool_Pairing\<close> (\<open>packages/compaction/compaction/src/tool-pairing.ts\<close>): the cuts of the surface that
    no unanswered call crosses, and the cache of them, exact after any calls.
  \<^item> \<open>Compaction_Region\<close> (\<open>packages/compaction/compaction-basic/src/region.ts\<close>): the selection of a range
    and the compaction transaction, in two parts around its wait for the summarizer
    (\<open>start_compaction\<close>, \<open>finish_compaction\<close>). The selection is the longest admissible head; the opening
    marker is a lock. \<open>Compaction_Commit\<close>: what a transaction does to the session, whether it
    succeeds or fails, and when it succeeds.
  \<^item> \<open>Compaction_Trace\<close> (\<open>packages/compaction/compaction/src/invariant.ts\<close>): the companion that vetoes
    events which do not fit the bracket of a compaction. It agrees with the lock and admits what a
    transaction appends.
  \<^item> \<open>Result_Pruner\<close> (\<open>packages/compaction/compaction-tool-result-pruner/src\<close>): long tool results cut to
    head and tail, and the pass over a session that replaces them.

  Conventions. A class or interface is a record, a union a datatype; a method is a function from
  the state to its result and the new state, with every throw a value. Strings are lists of
  characters, JSON objects lists of members in order. What the code asks of its surroundings (the
  clock, fresh identifiers, the verdict of a listener that may veto, the answer of a producer's
  hook, the scope chain of an owner) is an argument, and the theorems hold for every answer.
  Freezing, snapshotting and copying values are the identity, since values here do not change;
  where objects are shared and mutated (sessions and store entries, layers, job records) they
  live in a heap and are named by their address.

  Listeners. A session event is dispatched between the two halves of an append, an announcement
  between the two of its own: \<open>Session_Store\<close> keeps the halves as separate steps, so that any
  operations may run between them, as they do when a listener calls back; \<open>create\<close> takes its
  listeners as a function that may run such operations on the store. Waits and teardowns
  of \<open>Jobs_Registry\<close> are split at their awaits in the same way; its notifications are recorded
  with the listeners they reach, and a listener does not call the registry from inside one.

  Termination and bounds. Almost all functions are structural. Four loops are not: minting an
  identity ends because each failed attempt uses up one live session (\<open>Session_Store.mint_fresh\<close>
  bounds the attempts); the walks along scope parents are partial functions, which
  \<open>Scope_Layers.scope_walks_end\<close> shows to return on every relation a process can build; the
  scan of the surface manager follows its log; every step of the scheduler's own decreases a
  measure (\<open>Tool_Scheduler.scheduler_terminates\<close>). No fuel is used. Integers of the log are
  unbounded integers with the source's safe-integer checks written out; bytes are 8-bit words.

  Interleaving. The driver and the scheduler run from one await to the next; between any two of
  their steps the public calls, edits of the inbox and appends of other plugins may come
  (\<open>Agent_Driver.agent_step\<close>). Such an append may not forge the events of the loop or of the inbox, and
  writes the todo list and rewrites tool results only inside a turn; it may move the surface at any
  moment, also while a request is being built, whose messages are then those of the log it was
  begun on. The theorems about the trace of a driver suppose that the session refused no append of
  a closing event and that no message repeats a call id. A step of a public call that runs after
  listeners is a continuation, so that other calls may come first, as they do when a listener calls
  back. The theorem about wakes states what would disturb one (\<open>Driver_Outcomes.awaiting\<close>). Between the
  two parts of a compaction any calls on the session may come; the theorem about the companion
  excludes those that themselves open or close turns and compactions.

  Not modelled. The execution of one tool call (hooks, guards and the tool's body answer the
  scheduler from outside), prompt assembly and model access; when a compaction is due
  and how its summary is asked of a model (ratios in floating point, plugin events); schedules;
  files, databases, networks, processes, sandboxes and the browser client, which are
  input and output or presentation; the plugin framework, whose contribution to the modelled
  parts is that an effect's disposer runs at most once. The rows of \<open>Chunk_Rows\<close> and the checks of
  \<open>Session_Envelope\<close> are what a persistence provider applies to stored data, the write queues of
  the providers are not modelled.
\<close>

end
